(* ===== verification/Prelude.thy ===== *)
theory Prelude
  imports Main "HOL-Library.Word" "HOL-Library.Monad_Syntax"
begin

text \<open>Shared vocabulary of the development: the machine word types, byte-addressed physical memory with
little-endian loads and stores, page and slot arithmetic, the rounding helpers of
\<open>page_alloc.c\<close>, and the loop combinators (\<open>foreach\<close>, \<open>for_pages\<close>) that the component theories use for the
\<open>for\<close> loops of the C code, with early return as a value.\<close>

unbundle bit_operations_syntax

named_theorems bitwise

type_synonym u8 = "8 word"
type_synonym u16 = "16 word"
type_synonym u32 = "32 word"
type_synonym u64 = "64 word"
type_synonym pmem = "u64 \<Rightarrow> u8"

lemma unat_max_u64 [simp]: "unat (- 1 :: u64) = 2 ^ 64 - 1"
proof -
  have "(- 1 :: u64) = 18446744073709551615" by simp
  then show ?thesis by (simp only: unat_numeral) simp
qed

lemma unat_lt_u8: "unat (a :: u8) < 256"
  using unsigned_less [of a] by simp

lemma unat_lt_u64: "unat (a :: u64) < 2 ^ 64"
  using unsigned_less [of a] by simp

primrec load_bytes :: "nat \<Rightarrow> pmem \<Rightarrow> u64 \<Rightarrow> u64" where
  "load_bytes 0 m a = 0"
| "load_bytes (Suc n) m a = ucast (m a) OR push_bit 8 (load_bytes n m (a + 1))"

primrec store_bytes :: "nat \<Rightarrow> pmem \<Rightarrow> u64 \<Rightarrow> u64 \<Rightarrow> pmem" where
  "store_bytes 0 m a v = m"
| "store_bytes (Suc n) m a v = store_bytes n (m(a := ucast v)) (a + 1) (drop_bit 8 v)"

lemma unat_minus_Suc:
  fixes x a :: u64
  assumes "x \<noteq> a"
  shows "unat (x - a) = Suc (unat (x - (a + 1)))"
proof -
  have "x - a \<noteq> 0" using assms by simp
  moreover have "x - (a + 1) = (x - a) - 1" by simp
  ultimately show ?thesis
    by (metis Suc_pred' unat_gt_0 unat_minus_one)
qed

lemma store_bytes_apply:
  "n < 2 ^ 64 \<Longrightarrow> store_bytes n m a v x =
    (if unat (x - a) < n then ucast (drop_bit (8 * unat (x - a)) v) else m x)"
proof (induction n arbitrary: m a v)
  case 0
  then show ?case by simp
next
  case (Suc n)
  show ?case
  proof (cases "x = a")
    case True
    then show ?thesis
      using Suc by simp
  next
    case False
    then show ?thesis
      using Suc by (simp add: unat_minus_Suc [OF False] add.commute)
  qed
qed

lemma load_bytes_cong:
  "(\<And>i. i < n \<Longrightarrow> m (a + of_nat i) = m' (a + of_nat i)) \<Longrightarrow> load_bytes n m a = load_bytes n m' a"
proof (induction n arbitrary: a)
  case 0
  then show ?case by simp
next
  case (Suc n)
  have "m a = m' a" using Suc.prems [of 0] by simp
  moreover have "load_bytes n m (a + 1) = load_bytes n m' (a + 1)"
  proof (rule Suc.IH)
    fix i assume "i < n"
    then show "m (a + 1 + of_nat i) = m' (a + 1 + of_nat i)"
      using Suc.prems [of "Suc i"] by (simp add: algebra_simps)
  qed
  ultimately show ?case by simp
qed

lemma bit_load_bytes [bitwise]:
  "bit (load_bytes n m a) k \<longleftrightarrow> k < 64 \<and> k < 8 * n \<and> bit (m (a + of_nat (k div 8))) (k mod 8)"
proof (induction n arbitrary: a k)
  case 0
  then show ?case by simp
next
  case (Suc n)
  show ?case
  proof (cases "k < 8")
    case True
    then show ?thesis by (auto simp: bit_simps)
  next
    case False
    then have "m (a + 1 + of_nat ((k - 8) div 8)) = m (a + of_nat (k div 8))"
      by (simp add: le_div_geq add.assoc)
    moreover have "(k - 8) mod 8 = k mod 8" using False by (simp add: le_mod_geq)
    moreover have "\<not> bit (ucast (m a) :: u64) k" using False by (auto simp: bit_simps dest: bit_imp_le_length)
    ultimately show ?thesis using False Suc by (auto simp: bit_simps)
  qed
qed

lemma load_store_bytes:
  assumes "n \<le> 8"
  shows "load_bytes n (store_bytes n m a v) a = take_bit (8 * n) v"
proof (rule bit_word_eqI)
  fix k assume k: "k < LENGTH(64)"
  have "unat (of_nat (k div 8) :: u64) = k div 8"
    using k by (simp add: unat_of_nat)
  then show "bit (load_bytes n (store_bytes n m a v) a) k = bit (take_bit (8 * n) v) k"
    using k assms by (auto simp: bit_load_bytes store_bytes_apply bit_simps)
qed

lemma load_store_bytes_other:
  assumes "n < 2 ^ 64" and "\<And>i. i < k \<Longrightarrow> n \<le> unat (b + of_nat i - a)"
  shows "load_bytes k (store_bytes n m a v) b = load_bytes k m b"
proof (rule load_bytes_cong)
  fix i assume "i < k"
  then have "\<not> unat (b + of_nat i - a) < n" using assms(2) by (simp add: not_less)
  then show "store_bytes n m a v (b + of_nat i) = m (b + of_nat i)"
    using assms(1) by (simp only: store_bytes_apply if_False)
qed

abbreviation read64 :: "pmem \<Rightarrow> u64 \<Rightarrow> u64" where
  "read64 \<equiv> load_bytes 8"

abbreviation write64 :: "pmem \<Rightarrow> u64 \<Rightarrow> u64 \<Rightarrow> pmem" where
  "write64 \<equiv> store_bytes 8"

lemma read64_write64 [simp]: "read64 (write64 m a v) a = v"
  by (simp add: load_store_bytes take_bit_word_eq_self)

lemma read64_write64_other:
  fixes a b :: u64
  assumes "8 dvd unat a" "8 dvd unat b" "a \<noteq> b"
  shows "read64 (write64 m a v) b = read64 m b"
proof (rule load_store_bytes_other)
  fix i :: nat assume i: "i < 8"
  obtain x y where x: "unat a = 8 * x" and y: "unat b = 8 * y"
    using assms by (auto elim!: dvdE)
  have ne: "x \<noteq> y" using assms(3) x y by (metis word_unat_eq_iff)
  have la: "unat a < 2 ^ 64" and lb: "unat b < 2 ^ 64"
    using unsigned_less [of a] unsigned_less [of b] by simp_all
  have "unat (b + of_nat i) = unat b + i"
    using i lb y by (subst unat_add_lem [THEN iffD1]) (auto simp: unat_of_nat)
  then show "8 \<le> unat (b + of_nat i - a)"
    using ne x y i la lb by (auto simp: unat_sub_if_size word_size)
qed simp

section \<open>Pages and slots\<close>

definition page_aligned :: "u64 \<Rightarrow> bool" where
  "page_aligned a \<longleftrightarrow> 4096 dvd unat a"

lemma page_alignedE:
  assumes "page_aligned a"
  obtains k where "unat a = 4096 * k"
  using assms unfolding page_aligned_def by (auto elim: dvdE)

lemma page_aligned_bound:
  assumes "page_aligned a"
  shows "unat a \<le> 2 ^ 64 - 4096"
proof -
  obtain k where "unat a = 4096 * k"
    using assms by (rule page_alignedE)
  moreover have "unat a < 2 ^ 64" using unsigned_less [of a] by simp
  ultimately show ?thesis by simp
qed

lemma unat_page_offset:
  assumes "page_aligned a" and "n < 4096"
  shows "unat (a + of_nat n) = unat a + n"
  using page_aligned_bound [OF assms(1)] assms(2)
  by (subst unat_add_lem [THEN iffD1]) (auto simp: unat_of_nat)

definition slot :: "u64 \<Rightarrow> nat \<Rightarrow> u64" where
  "slot t j = t + of_nat (8 * j)"

lemma unat_slot: "page_aligned t \<Longrightarrow> j < 512 \<Longrightarrow> unat (slot t j) = unat t + 8 * j"
  unfolding slot_def by (rule unat_page_offset) auto

lemma slot_dvd: "page_aligned t \<Longrightarrow> j < 512 \<Longrightarrow> 8 dvd unat (slot t j)"
  by (auto simp: unat_slot elim!: page_alignedE)

lemma page_aligned_eqI:
  assumes "page_aligned t" "page_aligned t'" "unat t + i = unat t' + i'" "i < 4096" "i' < 4096"
  shows "t = t' \<and> i = i'"
proof -
  obtain k k' where "unat t = 4096 * k" "unat t' = 4096 * k'"
    using assms(1,2) by (auto elim!: page_alignedE)
  then have "(4096 * k + i) mod 4096 = (4096 * k' + i') mod 4096"
    using assms(3) by simp
  then have "i = i'" using assms(4,5) by simp
  with assms(3) show ?thesis by (simp add: word_unat_eq_iff)
qed

lemma slot_inj:
  assumes "page_aligned t" "page_aligned t'" "j < 512" "j' < 512" "slot t j = slot t' j'"
  shows "t = t' \<and> j = j'"
  using page_aligned_eqI [of t t' "8 * j" "8 * j'"] assms unat_slot [of t j] unat_slot [of t' j']
  by simp

lemma read64_slot_other:
  assumes "page_aligned t" "page_aligned t'" "j < 512" "j' < 512" "t \<noteq> t' \<or> j \<noteq> j'"
  shows "read64 (write64 m (slot t j) v) (slot t' j') = read64 m (slot t' j')"
  using assms slot_inj by (intro read64_write64_other slot_dvd) blast+

definition in_page :: "u64 \<Rightarrow> u64 \<Rightarrow> bool" where
  "in_page t x \<longleftrightarrow> unat (x - t) < 4096"

lemma in_page_disjoint:
  assumes "page_aligned t" "page_aligned t'" "t \<noteq> t'" "in_page t x"
  shows "\<not> in_page t' x"
proof
  assume "in_page t' x"
  then have "unat (t' + of_nat (unat (x - t'))) = unat t' + unat (x - t')"
    "unat (t + of_nat (unat (x - t))) = unat t + unat (x - t)"
    using assms unfolding in_page_def by (simp_all only: unat_page_offset)
  then have "unat t + unat (x - t) = unat t' + unat (x - t')" by simp
  then show False
    using page_aligned_eqI [OF assms(1,2)] assms(3,4) \<open>in_page t' x\<close> unfolding in_page_def by blast
qed

definition zero_page :: "u64 \<Rightarrow> pmem \<Rightarrow> pmem" where
  "zero_page t m = (\<lambda>x. if in_page t x then 0 else m x)"

section \<open>Alignment\<close>

definition rounddown :: "u64 \<Rightarrow> u64 \<Rightarrow> u64" where
  "rounddown addr align = addr AND NOT (align - 1)"

definition roundup :: "u64 \<Rightarrow> u64 \<Rightarrow> u64" where
  "roundup addr align = (addr + align - 1) AND NOT (align - 1)"

lemma and_not_mask_shift:
  fixes a :: u64
  shows "a AND NOT (mask n) = push_bit n (drop_bit n a)"
  by (rule bit_word_eqI) (auto simp: bit_simps)

lemma unat_and_not_mask:
  fixes a :: u64
  shows "unat (a AND NOT (mask n)) = unat a div 2 ^ n * 2 ^ n"
proof -
  have "unat a div 2 ^ n * 2 ^ n \<le> unat a" by simp
  also have "unat a < 2 ^ 64" using unsigned_less [of a] by simp
  finally have "take_bit 64 (push_bit n (drop_bit n (unat a))) = unat a div 2 ^ n * 2 ^ n"
    by (simp add: take_bit_eq_mod push_bit_eq_mult drop_bit_eq_div)
  moreover have "unat (push_bit n (drop_bit n a)) = take_bit 64 (push_bit n (drop_bit n (unat a)))"
    by (simp add: unsigned_push_bit_eq unsigned_drop_bit_eq take_bit_nat_eq_self [OF unat_lt_u64])
  ultimately show ?thesis
    by (simp add: and_not_mask_shift)
qed

lemma mask_4095: "(4095 :: u64) = mask 12" and mask_15: "(15 :: u64) = mask 4"
  by (simp_all add: mask_eq_exp_minus_1)

lemma unat_rounddown_page: "unat (rounddown a 4096) = unat a div 4096 * 4096"
  using unat_and_not_mask [of a 12] by (simp add: rounddown_def mask_4095)

lemma unat_roundup_page:
  assumes "unat a + 4095 < 2 ^ 64"
  shows "unat (roundup a 4096) = (unat a + 4095) div 4096 * 4096"
proof -
  have "a + 4096 - 1 = a + 4095" by simp
  moreover have "unat (a + 4095) = unat a + 4095"
    using assms by (subst unat_add_lem [THEN iffD1]) auto
  ultimately show ?thesis
    using unat_and_not_mask [of "a + 4095" 12] by (simp add: roundup_def mask_4095 add.commute)
qed

lemma page_aligned_rounddown [simp]: "page_aligned (rounddown a 4096)"
  by (simp add: page_aligned_def unat_rounddown_page)

lemma page_aligned_roundup [simp]: "page_aligned (roundup a 4096)"
  using page_aligned_rounddown [of "a + 4096 - 1"] by (simp add: roundup_def rounddown_def)

lemma unat_roundup_16:
  assumes "unat a + 15 < 2 ^ 64"
  shows "unat (roundup a 16) = (unat a + 15) div 16 * 16"
proof -
  have "a + 16 - 1 = a + 15" by simp
  moreover have "unat (a + 15) = unat a + 15"
    using assms by (subst unat_add_lem [THEN iffD1]) auto
  ultimately show ?thesis
    using unat_and_not_mask [of "a + 15" 4] by (simp add: roundup_def mask_15 add.commute)
qed

section \<open>Loops\<close>

datatype ('s, 'r) flow = Next 's | Ret 'r

fun foreach :: "('a \<Rightarrow> 's \<Rightarrow> ('s, 'r) flow option) \<Rightarrow> 'a list \<Rightarrow> 's \<Rightarrow> ('s, 'r) flow option" where
  "foreach f [] s = Some (Next s)"
| "foreach f (x # xs) s =
     (case f x s of
        None \<Rightarrow> None
      | Some (Ret r) \<Rightarrow> Some (Ret r)
      | Some (Next s') \<Rightarrow> foreach f xs s')"

partial_function (option) for_pages ::
  "(u64 \<Rightarrow> 's \<Rightarrow> ('s, 'r) flow option) \<Rightarrow> u64 \<Rightarrow> u64 \<Rightarrow> 's \<Rightarrow> ('s, 'r) flow option" where
  "for_pages f va vend s =
     (if va < vend then
        (case f va s of
           None \<Rightarrow> None
         | Some (Ret r) \<Rightarrow> Some (Ret r)
         | Some (Next s') \<Rightarrow> for_pages f (va + 4096) vend s')
      else Some (Next s))"

declare for_pages.simps [code]

definition page_range :: "u64 \<Rightarrow> u64 \<Rightarrow> u64 list" where
  "page_range va vend = map (\<lambda>i. va + 4096 * of_nat i) [0..<(unat vend - unat va) div 4096]"

lemma page_range_done: "\<not> va < vend \<Longrightarrow> page_range va vend = []"
  by (simp add: page_range_def word_less_nat_alt)

lemma page_range_step:
  assumes "page_aligned va" "page_aligned vend" "va < vend"
  shows "page_range va vend = va # page_range (va + 4096) vend"
    and "page_aligned (va + 4096)"
    and "unat vend - unat (va + 4096) < unat vend - unat va"
proof -
  obtain x y where xy: "unat va = 4096 * x" "unat vend = 4096 * y" "x < y"
    using assms by (auto simp: word_less_nat_alt elim!: page_alignedE)
  have lim: "unat vend < 2 ^ 64" using unsigned_less [of vend] by simp
  have u: "unat (va + 4096) = 4096 * (x + 1)"
    using xy lim by (subst unat_add_lem [THEN iffD1]) auto
  then show "page_aligned (va + 4096)" by (simp add: page_aligned_def)
  show "unat vend - unat (va + 4096) < unat vend - unat va" using u xy by simp
  have "[0..<y - x] = 0 # map Suc [0..<y - (x + 1)]"
    using xy(3) by (metis Suc_diff_Suc Suc_eq_plus1 map_Suc_upt upt_conv_Cons zero_less_Suc)
  moreover have "(unat vend - unat va) div 4096 = y - x"
    using xy by (simp flip: diff_mult_distrib2)
  moreover have "(unat vend - unat (va + 4096)) div 4096 = y - (x + 1)"
    using xy u by (simp flip: diff_mult_distrib2)
  ultimately show "page_range va vend = va # page_range (va + 4096) vend"
    by (simp add: page_range_def comp_def algebra_simps)
qed

lemma for_pages_foreach:
  assumes "page_aligned va" "page_aligned vend"
  shows "for_pages f va vend s = foreach f (page_range va vend) s"
  using assms(1)
proof (induction "unat vend - unat va" arbitrary: va s rule: less_induct)
  case less
  show ?case
  proof (cases "va < vend")
    case True
    note step = page_range_step [OF less.prems assms(2) True]
    show ?thesis
      using True step less.hyps [OF step(3) step(2)]
      by (subst for_pages.simps) (simp split: option.split flow.split)
  next
    case False
    then show ?thesis by (subst for_pages.simps) (simp add: page_range_done)
  qed
qed

end
