(* ===== verification/Machine.thy ===== *)
theory Machine
  imports Prelude
begin

text \<open>The state every component shares: physical memory, the direct-map offset of \<open>hhdm.c\<close>, CR3, the flags
register, the log of TLB operations, the spin-lock words, and the I/O ports. Ports are a log of writes
and an oracle of reads. Kernel accesses to physical memory go through the higher-half direct map
(\<open>hread64\<close>, \<open>hwrite64\<close>, \<open>hwrite8\<close>). Each component theory extends the record \<open>machine\<close> by its own
variables, and its operations are defined on every extension of its record, so that one state flows
through all of them. An operation that may spin, halt or access memory out of range has an option type,
with \<open>None\<close> for a call that does not return.\<close>

section \<open>The machine\<close>

datatype lock_id = kprintf_lock | page_alloc_lock | kheap_lock | task_table_lock

datatype tlb_event = Invlpg u64 | Cr3_load u64

record machine =
  mem :: pmem
  g_hhdm_offset :: u64
  cr3 :: u64
  rflags :: u64
  tlb_log :: "tlb_event list"
  locks :: "lock_id \<Rightarrow> u32"
  kprintf_lock_ready :: bool
  io_out :: "(u16 \<times> u8) list"
  io_in :: "nat \<Rightarrow> u16 \<Rightarrow> u8"
  io_reads :: nat

subsection \<open>The higher-half direct map (hhdm.c, hhdm.h)\<close>

definition hhdm_init :: "u64 \<Rightarrow> 'a machine_scheme \<Rightarrow> 'a machine_scheme" where
  "hhdm_init offset s = s\<lparr>g_hhdm_offset := offset\<rparr>"

definition phys_to_virt :: "'a machine_scheme \<Rightarrow> u64 \<Rightarrow> u64" where
  "phys_to_virt s phys = phys + g_hhdm_offset s"

definition virt_to_phys :: "'a machine_scheme \<Rightarrow> u64 \<Rightarrow> u64" where
  "virt_to_phys s virt = virt - g_hhdm_offset s"

lemma virt_to_phys_inverse [simp]: "virt_to_phys s (phys_to_virt s p) = p"
  by (simp add: virt_to_phys_def phys_to_virt_def)

lemma phys_to_virt_inverse [simp]: "phys_to_virt s (virt_to_phys s v) = v"
  by (simp add: virt_to_phys_def phys_to_virt_def)

definition hread64 :: "'a machine_scheme \<Rightarrow> u64 \<Rightarrow> u64" where
  "hread64 s va = read64 (mem s) (virt_to_phys s va)"

definition hwrite64 :: "u64 \<Rightarrow> u64 \<Rightarrow> 'a machine_scheme \<Rightarrow> 'a machine_scheme" where
  "hwrite64 va v s = s\<lparr>mem := write64 (mem s) (virt_to_phys s va) v\<rparr>"

definition hwrite8 :: "u64 \<Rightarrow> u8 \<Rightarrow> 'a machine_scheme \<Rightarrow> 'a machine_scheme" where
  "hwrite8 va v s = s\<lparr>mem := (mem s)(virt_to_phys s va := v)\<rparr>"

subsection \<open>Port I/O (io.h)\<close>

definition outb :: "u16 \<Rightarrow> u8 \<Rightarrow> 'a machine_scheme \<Rightarrow> 'a machine_scheme" where
  "outb port v s = s\<lparr>io_out := io_out s @ [(port, v)]\<rparr>"

definition inb :: "u16 \<Rightarrow> 'a machine_scheme \<Rightarrow> u8 \<times> 'a machine_scheme" where
  "inb port s = (io_in s (io_reads s) port, s\<lparr>io_reads := Suc (io_reads s)\<rparr>)"

definition io_wait :: "'a machine_scheme \<Rightarrow> 'a machine_scheme" where
  "io_wait s = outb 0x80 0 s"

text \<open>A concrete machine for examples: zeroed memory, interrupts enabled, every lock free and a
  UART whose line status always reads \<open>0x20\<close> (transmitter empty).\<close>

definition demo_machine :: machine where
  "demo_machine = \<lparr>mem = (\<lambda>_. 0), g_hhdm_offset = 0xFFFF800000000000, cr3 = 0, rflags = 0x202,
     tlb_log = [], locks = (\<lambda>_. 0), kprintf_lock_ready = True, io_out = [], io_in = (\<lambda>_ _. 0x20),
     io_reads = 0\<rparr>"

end
