(* ===== verification/Spinlock.thy ===== *)
theory Spinlock
  imports Machine
begin

text \<open>\<open>spinlock.c\<close>: the test-and-set lock with interrupts disabled while it is held. The kernel runs on one
processor and the holder runs with interrupts off, so nobody else can release a held lock: the loop on
a held lock is a \<open>partial_function\<close> whose value is \<open>None\<close>.\<close>

section \<open>Spin locks (spinlock.c)\<close>

definition IF_FLAG :: u64 where "IF_FLAG = 0x200"

definition spinlock_init :: "lock_id \<Rightarrow> 'a machine_scheme \<Rightarrow> 'a machine_scheme" where
  "spinlock_init l s = s\<lparr>locks := (locks s)(l := 0)\<rparr>"

definition save_and_disable_interrupts :: "'a machine_scheme \<Rightarrow> u64 \<times> 'a machine_scheme" where
  "save_and_disable_interrupts s = (rflags s, s\<lparr>rflags := rflags s AND NOT IF_FLAG\<rparr>)"

definition restore_interrupts :: "u64 \<Rightarrow> 'a machine_scheme \<Rightarrow> 'a machine_scheme" where
  "restore_interrupts flags s = s\<lparr>rflags := flags\<rparr>"

definition sync_lock_test_and_set :: "lock_id \<Rightarrow> u32 \<Rightarrow> 'a machine_scheme \<Rightarrow> u32 \<times> 'a machine_scheme" where
  "sync_lock_test_and_set l v s = (locks s l, s\<lparr>locks := (locks s)(l := v)\<rparr>)"

partial_function (option) spin :: "lock_id \<Rightarrow> 'a machine_scheme \<Rightarrow> 'a machine_scheme option" where
  "spin l s =
     (case sync_lock_test_and_set l 1 s of
        (old, s') \<Rightarrow> if old \<noteq> 0 then spin l s' else Some s')"

definition spinlock_acquire :: "lock_id \<Rightarrow> 'a machine_scheme \<Rightarrow> (u64 \<times> 'a machine_scheme) option" where
  "spinlock_acquire l s =
     (case save_and_disable_interrupts s of
        (flags, s1) \<Rightarrow> do { s2 \<leftarrow> spin l s1; Some (flags, s2) })"

definition spinlock_release :: "lock_id \<Rightarrow> u64 \<Rightarrow> 'a machine_scheme \<Rightarrow> 'a machine_scheme" where
  "spinlock_release l flags s = restore_interrupts flags (s\<lparr>locks := (locks s)(l := 0)\<rparr>)"

declare spin.simps [code]

lemma spin_free: "locks s l = 0 \<Longrightarrow> spin l s = Some (s\<lparr>locks := (locks s)(l := 1)\<rparr>)"
  by (subst spin.simps) (simp add: sync_lock_test_and_set_def)

lemma spin_held_aux:
  assumes "spin l s = Some s'"
  shows "locks s l = 0"
proof (rule spin.raw_induct [where P = "\<lambda>l s s'. locks s l = 0", OF _ assms])
  fix f :: "lock_id \<Rightarrow> 'a machine_scheme \<Rightarrow> 'a machine_scheme option" and l s s'
  assume IH: "\<And>l s s'. f l s = Some s' \<Longrightarrow> locks s l = 0"
    and "(case sync_lock_test_and_set l 1 s of (old, s1) \<Rightarrow> if old \<noteq> 0 then f l s1 else Some s1) = Some s'"
  then have "locks s l \<noteq> 0 \<Longrightarrow> f l (s\<lparr>locks := (locks s)(l := 1)\<rparr>) = Some s'"
    by (simp add: sync_lock_test_and_set_def)
  then show "locks s l = 0" using IH by fastforce
qed

text \<open>A lock that is held is never acquired on this one processor: the loop does not end.\<close>

lemma spin_held: "locks s l \<noteq> 0 \<Longrightarrow> spin l s = None"
  using spin_held_aux by (cases "spin l s") auto

lemma spinlock_acquire_free [simp]:
  "locks s l = 0 \<Longrightarrow> spinlock_acquire l s =
     Some (rflags s, s\<lparr>rflags := rflags s AND NOT IF_FLAG, locks := (locks s)(l := 1)\<rparr>)"
  by (simp add: spinlock_acquire_def save_and_disable_interrupts_def spin_free)

lemma spinlock_acquire_held [simp]: "locks s l \<noteq> 0 \<Longrightarrow> spinlock_acquire l s = None"
  by (simp add: spinlock_acquire_def save_and_disable_interrupts_def spin_held)

lemma spinlock_release_simp [simp]:
  "spinlock_release l flags s = s\<lparr>rflags := flags, locks := (locks s)(l := 0)\<rparr>"
  by (simp add: spinlock_release_def restore_interrupts_def)

lemma lock_toggle [simp]: "locks s l = 0 \<Longrightarrow> (locks s)(l := 0) = locks s"
  by (simp add: fun_upd_idem)

lemma rflags_cleared: "(r AND NOT IF_FLAG) AND IF_FLAG = 0"
  by (rule bit_word_eqI) (auto simp: bit_simps)

text \<open>Claim C30. A successful \<open>spinlock_acquire\<close> found the lock free, holds it with
  interrupts off, keeps every later acquirer spinning for ever (the lock word is set and nobody else
  runs), and the matching \<open>spinlock_release\<close> restores the machine exactly, interrupt flag included.\<close>

theorem spinlock_critical_section:
  assumes "spinlock_acquire l s = Some (f, s1)"
  shows "locks s l = 0 \<and> locks s1 l = 1 \<and> rflags s1 AND IF_FLAG = 0 \<and>
    spinlock_acquire l s1 = None \<and> spinlock_release l f s1 = s"
proof -
  have free: "locks s l = 0" using assms by (cases "locks s l = 0") auto
  then have "f = rflags s" "s1 = s\<lparr>rflags := rflags s AND NOT IF_FLAG, locks := (locks s)(l := 1)\<rparr>"
    using assms by auto
  then show ?thesis using free by (simp add: rflags_cleared)
qed

theorem spinlock_critical_section_witness:
  "spinlock_acquire kheap_lock
     (demo_machine\<lparr>rflags := rflags demo_machine AND NOT IF_FLAG,
                   locks := (locks demo_machine)(kheap_lock := 1)\<rparr>) = None"
  using spinlock_critical_section [of kheap_lock demo_machine "rflags demo_machine"
      "demo_machine\<lparr>rflags := rflags demo_machine AND NOT IF_FLAG,
         locks := (locks demo_machine)(kheap_lock := 1)\<rparr>"]
  by (simp add: demo_machine_def)

end
