(* ===== verification/Serial.thy ===== *)
theory Serial
  imports Spinlock
begin

text \<open>\<open>serial.c\<close>: the polled UART. The wait loop ends when the line status port reads transmitter-empty;
\<open>uart_live\<close> states that this happens again and again, and under it every write terminates with the
expected bytes (\<open>say\<close>).\<close>

definition UART_DATA :: u16 where "UART_DATA = 0x3F8"
definition UART_INT_ENABLE :: u16 where "UART_INT_ENABLE = 0x3F9"
definition UART_FIFO_CTRL :: u16 where "UART_FIFO_CTRL = 0x3FA"
definition UART_LINE_CTRL :: u16 where "UART_LINE_CTRL = 0x3FB"
definition UART_MODEM_CTRL :: u16 where "UART_MODEM_CTRL = 0x3FC"
definition UART_LINE_STATUS :: u16 where "UART_LINE_STATUS = 0x3FD"
definition LSR_TX_EMPTY :: u8 where "LSR_TX_EMPTY = 0x20"

definition serial_init :: "'a machine_scheme \<Rightarrow> 'a machine_scheme option" where
  "serial_init s =
     (let s = outb UART_INT_ENABLE 0x00 s;
          s = outb UART_LINE_CTRL 0x80 s;
          s = outb UART_DATA 0x01 s;
          s = outb UART_INT_ENABLE 0x00 s;
          s = outb UART_LINE_CTRL 0x03 s;
          s = outb UART_FIFO_CTRL 0xC7 s;
          s = outb UART_MODEM_CTRL 0x0B s;
          s = outb UART_MODEM_CTRL 0x1E s;
          s = outb UART_DATA 0xAE s;
          (v, s) = inb UART_DATA s
      in if v \<noteq> 0xAE then None else Some (outb UART_MODEM_CTRL 0x0F s))"

definition serial_tx_empty :: "'a machine_scheme \<Rightarrow> bool \<times> 'a machine_scheme" where
  "serial_tx_empty s = (case inb UART_LINE_STATUS s of (v, s) \<Rightarrow> (v AND LSR_TX_EMPTY \<noteq> 0, s))"

partial_function (option) serial_wait :: "'a machine_scheme \<Rightarrow> 'a machine_scheme option" where
  "serial_wait s = (case serial_tx_empty s of (e, s) \<Rightarrow> if e then Some s else serial_wait s)"

declare serial_wait.simps [code]

definition serial_write_char :: "char \<Rightarrow> 'a machine_scheme \<Rightarrow> 'a machine_scheme option" where
  "serial_write_char c s = do { s \<leftarrow> serial_wait s; Some (outb UART_DATA (of_char c) s) }"

fun serial_write_string :: "string \<Rightarrow> 'a machine_scheme \<Rightarrow> 'a machine_scheme option" where
  "serial_write_string [] s = Some s"
| "serial_write_string (c # str) s =
     do { s \<leftarrow> (if c = CHR 0x0A then serial_write_char (CHR 0x0D) s else Some s);
          s \<leftarrow> serial_write_char c s;
          serial_write_string str s }"

subsection \<open>A live transmitter\<close>

definition uart_live :: "'a machine_scheme \<Rightarrow> bool" where
  "uart_live s \<longleftrightarrow> (\<forall>n. \<exists>m \<ge> n. io_in s m UART_LINE_STATUS AND LSR_TX_EMPTY \<noteq> 0)"

definition ready_at :: "(nat \<Rightarrow> u16 \<Rightarrow> u8) \<Rightarrow> nat \<Rightarrow> nat" where
  "ready_at f n = (LEAST m. n \<le> m \<and> f m UART_LINE_STATUS AND LSR_TX_EMPTY \<noteq> 0)"

primrec reads_after :: "(nat \<Rightarrow> u16 \<Rightarrow> u8) \<Rightarrow> nat \<Rightarrow> nat \<Rightarrow> nat" where
  "reads_after f n 0 = n"
| "reads_after f n (Suc k) = reads_after f (Suc (ready_at f n)) k"

definition say :: "u8 list \<Rightarrow> 'a machine_scheme \<Rightarrow> 'a machine_scheme" where
  "say cs s = s\<lparr>io_out := io_out s @ map (Pair UART_DATA) cs,
                io_reads := reads_after (io_in s) (io_reads s) (length cs)\<rparr>"

lemma uart_live_reads [simp]:
  "uart_live (s\<lparr>io_reads := n\<rparr>) = uart_live s" "uart_live (s\<lparr>io_out := xs\<rparr>) = uart_live s"
  "uart_live (s\<lparr>rflags := r\<rparr>) = uart_live s" "uart_live (s\<lparr>locks := l\<rparr>) = uart_live s"
  by (simp_all add: uart_live_def)

lemma uart_liveI: "(\<And>n. io_in s n UART_LINE_STATUS AND LSR_TX_EMPTY \<noteq> 0) \<Longrightarrow> uart_live s"
  unfolding uart_live_def by (meson order_refl)

lemma ready_at_props:
  assumes "uart_live s"
  shows "n \<le> ready_at (io_in s) n" "io_in s (ready_at (io_in s) n) UART_LINE_STATUS AND LSR_TX_EMPTY \<noteq> 0"
    "\<And>m. n \<le> m \<Longrightarrow> io_in s m UART_LINE_STATUS AND LSR_TX_EMPTY \<noteq> 0 \<Longrightarrow> ready_at (io_in s) n \<le> m"
  using LeastI_ex [of "\<lambda>m. n \<le> m \<and> io_in s m UART_LINE_STATUS AND LSR_TX_EMPTY \<noteq> 0"] assms
  unfolding uart_live_def ready_at_def by (auto intro: Least_le)

lemma serial_wait_ready:
  assumes "uart_live s"
  shows "serial_wait s = Some (s\<lparr>io_reads := Suc (ready_at (io_in s) (io_reads s))\<rparr>)"
  using assms
proof (induction "ready_at (io_in s) (io_reads s) - io_reads s" arbitrary: s rule: less_induct)
  case less
  note r = ready_at_props [OF less.prems, of "io_reads s"]
  show ?case
  proof (cases "io_in s (io_reads s) UART_LINE_STATUS AND LSR_TX_EMPTY \<noteq> 0")
    case True
    then have "ready_at (io_in s) (io_reads s) = io_reads s"
      using r(1) r(3) [of "io_reads s"] by simp
    then show ?thesis
      using True by (subst serial_wait.simps) (simp add: serial_tx_empty_def inb_def)
  next
    case False
    let ?s = "s\<lparr>io_reads := Suc (io_reads s)\<rparr>"
    have ne: "io_reads s < ready_at (io_in s) (io_reads s)"
      using r(1,2) False by (metis le_neq_implies_less)
    have "ready_at (io_in s) (Suc (io_reads s)) = ready_at (io_in s) (io_reads s)"
      using ready_at_props [OF less.prems, of "Suc (io_reads s)"] r ne
      by (meson Suc_leD Suc_leI order_antisym)
    then have "serial_wait ?s = Some (s\<lparr>io_reads := Suc (ready_at (io_in s) (io_reads s))\<rparr>)"
      using less.hyps [of ?s] less.prems ne by simp
    then show ?thesis
      using False by (subst serial_wait.simps) (simp add: serial_tx_empty_def inb_def)
  qed
qed

lemma serial_write_char_live [simp]:
  "uart_live s \<Longrightarrow> serial_write_char c s = Some (say [of_char c] s)"
  by (simp add: serial_write_char_def serial_wait_ready outb_def say_def)

lemma say_Nil [simp]: "say [] s = s"
  by (simp add: say_def)

lemma reads_after_add: "reads_after f n (i + j) = reads_after f (reads_after f n i) j"
  by (induction i arbitrary: n) auto

lemma say_append [simp]: "say ys (say xs s) = say (xs @ ys) s"
  by (simp add: say_def reads_after_add)

lemma say_fields [simp]:
  "rflags (say t s) = rflags s" "locks (say t s) = locks s" "mem (say t s) = mem s" "cr3 (say t s) = cr3 s"
  "g_hhdm_offset (say t s) = g_hhdm_offset s" "kprintf_lock_ready (say t s) = kprintf_lock_ready s"
  "tlb_log (say t s) = tlb_log s" "machine.more (say t s) = machine.more s"
  by (simp_all add: say_def)

lemma say_live [simp]: "uart_live (say cs s) = uart_live s"
  by (simp add: say_def)

fun crlf :: "string \<Rightarrow> u8 list" where
  "crlf [] = []"
| "crlf (c # cs) = (if c = CHR 0x0A then [0x0D, 0x0A] else [of_char c]) @ crlf cs"

lemma serial_write_string_live [simp]:
  "uart_live s \<Longrightarrow> serial_write_string str s = Some (say (crlf str) s)"
  by (induction str arbitrary: s) auto

end
