(* ===== verification/Kprintf.thy ===== *)
theory Kprintf
  imports Serial
begin

text \<open>\<open>kprintf.c\<close>: number conversion, the format interpreter and the console lock, with a reference formatter
\<open>kformat\<close> that the interpreter refines. A variadic argument is a word or a string; a conversion that
finds an argument of the wrong sort is undefined behaviour in C and \<open>None\<close> here.\<close>

datatype karg = W u64 | S string

definition kprintf_lock_init :: "'a machine_scheme \<Rightarrow> 'a machine_scheme" where
  "kprintf_lock_init s = (spinlock_init kprintf_lock s)\<lparr>kprintf_lock_ready := True\<rparr>"

definition digits :: string where
  "digits = ''0123456789abcdef''"

primrec uint_to_str_loop :: "u64 \<Rightarrow> u64 \<Rightarrow> string \<Rightarrow> nat \<Rightarrow> string \<times> nat" where
  "uint_to_str_loop base value buf 0 = (buf, 0)"
| "uint_to_str_loop base value buf (Suc pos) =
     (if value \<noteq> 0
      then uint_to_str_loop base (value div base) (buf[pos := digits ! unat (value mod base)]) pos
      else (buf, Suc pos))"

definition uint_to_str :: "u64 \<Rightarrow> u64 \<Rightarrow> string \<Rightarrow> nat \<Rightarrow> string \<times> nat" where
  "uint_to_str value base buf buf_size =
     (let pos = buf_size - 1; buf = buf[pos := CHR 0x00]
      in if value = 0 then (buf[pos - 1 := CHR ''0''], pos - 1)
         else uint_to_str_loop base value buf pos)"

definition cstring_at :: "string \<times> nat \<Rightarrow> string" where
  "cstring_at bp = takeWhile (\<lambda>c. c \<noteq> CHR 0x00) (drop (snd bp) (fst bp))"

text \<open>The most negative value is its own negation here, as two's complement gives it; the C code negates a signed integer
  there, which the standard leaves undefined.\<close>

definition kprintf_putint :: "u64 \<Rightarrow> 'a machine_scheme \<Rightarrow> 'a machine_scheme option" where
  "kprintf_putint value s =
     do { (uval, s) \<leftarrow>
            (if sint value < 0
             then do { s \<leftarrow> serial_write_char CHR ''-'' s; Some (- value, s) }
             else Some (value, s));
          serial_write_string (cstring_at (uint_to_str uval 10 (replicate 21 CHR 0x00) 21)) s }"

definition kprintf_puthex :: "u64 \<Rightarrow> 'a machine_scheme \<Rightarrow> 'a machine_scheme option" where
  "kprintf_puthex value s =
     serial_write_string (cstring_at (uint_to_str value 16 (replicate 17 CHR 0x00) 17)) s"

definition kprintf_conv :: "bool \<Rightarrow> char \<Rightarrow> karg list \<Rightarrow> 'a machine_scheme
    \<Rightarrow> (karg list \<times> 'a machine_scheme) option" where
  "kprintf_conv is_long c args s =
     (if c = CHR ''s'' then
        (case args of S str # args \<Rightarrow> do { s \<leftarrow> serial_write_string str s; Some (args, s) }
         | _ \<Rightarrow> None)
      else if c = CHR ''c'' then
        (case args of W w # args \<Rightarrow> do { s \<leftarrow> serial_write_char (char_of (unat (ucast w :: u8))) s; Some (args, s) }
         | _ \<Rightarrow> None)
      else if c = CHR ''d'' then
        (case args of W w # args \<Rightarrow>
            do { s \<leftarrow> kprintf_putint (if is_long then w else scast (ucast w :: u32)) s; Some (args, s) }
         | _ \<Rightarrow> None)
      else if c = CHR ''x'' then
        (case args of W w # args \<Rightarrow>
            do { s \<leftarrow> kprintf_puthex (if is_long then w else ucast (ucast w :: u32)) s; Some (args, s) }
         | _ \<Rightarrow> None)
      else if c = CHR ''%'' then do { s \<leftarrow> serial_write_char CHR ''%'' s; Some (args, s) }
      else do { s \<leftarrow> serial_write_char CHR ''%'' s; s \<leftarrow> serial_write_char c s; Some (args, s) })"

fun skip_l :: "string \<Rightarrow> bool \<times> string" where
  "skip_l (c # p) = (if c = CHR ''l'' then (True, p) else (False, c # p))"
| "skip_l [] = (False, [])"

lemma skip_l_shorter: "skip_l p = (l, d # q) \<Longrightarrow> length q < length p"
  by (cases p rule: skip_l.cases) (auto split: if_splits)

function kprintf_loop :: "string \<Rightarrow> karg list \<Rightarrow> 'a machine_scheme \<Rightarrow> 'a machine_scheme option" where
  "kprintf_loop [] args s = Some s"
| "kprintf_loop (c # p) args s =
     (if c \<noteq> CHR ''%'' then do { s \<leftarrow> serial_write_char c s; kprintf_loop p args s }
      else (case skip_l p of
              (is_long, []) \<Rightarrow> serial_write_char CHR ''%'' s
            | (is_long, d # q) \<Rightarrow> do { (args, s) \<leftarrow> kprintf_conv is_long d args s; kprintf_loop q args s }))"
  by pat_completeness auto
termination
  by (relation "measure (\<lambda>(p, _, _). length p)") (auto dest!: sym [THEN skip_l_shorter])

definition kprintf :: "string \<Rightarrow> karg list \<Rightarrow> 'a machine_scheme \<Rightarrow> 'a machine_scheme option" where
  "kprintf fmt args s =
     do { (f, s) \<leftarrow> (if kprintf_lock_ready s then spinlock_acquire kprintf_lock s else Some (0, s));
          s \<leftarrow> kprintf_loop fmt args s;
          Some (if kprintf_lock_ready s then spinlock_release kprintf_lock f s else s) }"

section \<open>Numbers\<close>

text \<open>The reference: a digit is computed from its value, with no table.\<close>

definition digit_char :: "nat \<Rightarrow> char" where
  "digit_char i = char_of (if i < 10 then 48 + i else 87 + i)"

fun num_chars :: "nat \<Rightarrow> nat \<Rightarrow> string" where
  "num_chars b n = (if n = 0 \<or> b < 2 then [] else num_chars b (n div b) @ [digit_char (n mod b)])"

declare num_chars.simps [simp del]

lemma length_digits [simp]: "length digits = 16"
  by (simp add: digits_def)

lemma digits_nth: "i < 16 \<Longrightarrow> digits ! i = digit_char i"
proof -
  have "map digit_char [0..<16] = digits" by code_simp
  then show "i < 16 \<Longrightarrow> digits ! i = digit_char i" by (metis add_0 diff_zero length_upt nth_map nth_upt)
qed

lemma of_digit_char: "i < 16 \<Longrightarrow> of_char (digit_char i) = (if i < 10 then 48 + i else 87 + i)"
  by (simp add: digit_char_def)

lemma digit_char_nonnull: "i < 16 \<Longrightarrow> digit_char i \<noteq> CHR 0x00"
  using of_digit_char [of i] by (auto split: if_splits)

lemma num_chars_0 [simp]: "num_chars b 0 = []"
  by (simp add: num_chars.simps)

lemma num_chars_nonnull: "b \<le> 16 \<Longrightarrow> c \<in> set (num_chars b n) \<Longrightarrow> c \<noteq> CHR 0x00"
proof (induction b n rule: num_chars.induct)
  case (1 b n)
  show ?case
  proof (cases "n = 0 \<or> b < 2")
    case True
    with 1 show ?thesis by (simp add: num_chars.simps)
  next
    case False
    then have lt: "n mod b < 16" using mod_less_divisor [of b n] "1.prems"(1) by linarith
    have "num_chars b n = num_chars b (n div b) @ [digit_char (n mod b)]"
      using False num_chars.simps [of b n] by simp
    then consider "c \<in> set (num_chars b (n div b))" | "c = digit_char (n mod b)"
      using "1.prems"(2) by auto
    then show ?thesis
    proof cases
      case 1
      then show ?thesis using "1.IH" [OF False "1.prems"(1)] by simp
    next
      case 2
      then show ?thesis using digit_char_nonnull [OF lt] by simp
    qed
  qed
qed

lemma uint_to_str_loop_spec:
  assumes b: "2 \<le> unat b" "unat b \<le> 16" and "unat v < unat b ^ pos" "pos < length buf"
    "uint_to_str_loop b v buf pos = (buf', p')"
  shows "drop p' buf' = num_chars (unat b) (unat v) @ drop pos buf"
  using assms(3-)
proof (induction pos arbitrary: v buf)
  case 0
  then show ?case by (simp add: unat_eq_0)
next
  case (Suc pos)
  show ?case
  proof (cases "v = 0")
    case True
    with Suc.prems show ?thesis by simp
  next
    case False
    let ?c = "digits ! unat (v mod b)"
    have "unat v mod unat b < 16" using mod_less_divisor [of "unat b" "unat v"] b by linarith
    then have c: "?c = digit_char (unat v mod unat b)" by (simp add: unat_mod digits_nth)
    have lt: "unat (v div b) < unat b ^ pos"
      using Suc.prems(1) by (simp add: unat_div less_mult_imp_div_less mult.commute)
    have "drop p' buf' = num_chars (unat b) (unat (v div b)) @ drop pos (buf[pos := ?c])"
      using Suc.IH [OF lt, of "buf[pos := ?c]"] Suc.prems False by simp
    also have "drop pos (buf[pos := ?c]) = ?c # drop (Suc pos) buf"
      using Suc.prems(2) by (simp add: Cons_nth_drop_Suc [symmetric])
    finally show ?thesis
      using False b(1) unfolding c
      by (subst num_chars.simps) (simp add: unat_eq_0 unat_div)
  qed
qed

definition num_text :: "nat \<Rightarrow> nat \<Rightarrow> string" where
  "num_text b n = (if n = 0 then ''0'' else num_chars b n)"

lemma takeWhile_stop: "(\<And>x. x \<in> set xs \<Longrightarrow> P x) \<Longrightarrow> \<not> P y \<Longrightarrow> takeWhile P (xs @ y # ys) = xs"
  by (induction xs) auto

lemma uint_to_str_spec:
  assumes "2 \<le> unat b" "unat b \<le> 16" "unat v < unat b ^ (n - 1)" "2 \<le> n" "length buf = n"
  shows "cstring_at (uint_to_str v b buf n) = num_text (unat b) (unat v)"
proof (cases "v = 0")
  case True
  obtain k where k: "n = Suc (Suc k)" using assms(4) by (metis add_2_eq_Suc le_Suc_ex)
  have "drop k (buf[Suc k := CHR 0x00, k := CHR ''0'']) = [CHR ''0'', CHR 0x00]"
    using assms(5) k by (simp add: Cons_nth_drop_Suc [symmetric])
  then show ?thesis
    using True k by (simp add: uint_to_str_def cstring_at_def num_text_def)
next
  case False
  obtain buf' p' where r: "uint_to_str_loop b v (buf[n - 1 := CHR 0x00]) (n - 1) = (buf', p')"
    by fastforce
  have "drop p' buf' = num_chars (unat b) (unat v) @ drop (n - 1) (buf[n - 1 := CHR 0x00])"
    by (rule uint_to_str_loop_spec [OF assms(1-3) _ r]) (use assms in simp)
  also have "drop (n - 1) (buf[n - 1 := CHR 0x00]) = [CHR 0x00]"
    using assms(4,5) by (simp add: Cons_nth_drop_Suc [symmetric])
  finally show ?thesis
    using False r takeWhile_stop [of "num_chars (unat b) (unat v)" "\<lambda>c. c \<noteq> CHR 0x00" "CHR 0x00" "[]"]
      num_chars_nonnull [OF assms(2)]
    by (simp add: uint_to_str_def cstring_at_def num_text_def unat_eq_0)
qed

definition digit_val :: "char \<Rightarrow> nat" where
  "digit_val c = (if of_char c < (58 :: nat) then of_char c - 48 else of_char c - 87)"

definition parse_num :: "nat \<Rightarrow> string \<Rightarrow> nat" where
  "parse_num b cs = foldl (\<lambda>a c. a * b + digit_val c) 0 cs"

lemma digit_val_char: "i < 16 \<Longrightarrow> digit_val (digit_char i) = i"
  by (simp add: digit_val_def of_digit_char)

lemma parse_num_chars:
  assumes "2 \<le> b" "b \<le> 16"
  shows "parse_num b (num_chars b n) = n"
proof (induction n rule: less_induct)
  case (less n)
  show ?case
  proof (cases "n = 0")
    case True
    then show ?thesis by (simp add: parse_num_def)
  next
    case False
    have "n div b < n" using False assms(1) by simp
    then have "parse_num b (num_chars b (n div b)) = n div b" by (rule less.IH)
    moreover have "n mod b < 16"
      using mod_less_divisor [of b n] assms by linarith
    moreover have "num_chars b n = num_chars b (n div b) @ [digit_char (n mod b)]"
      using False assms(1) num_chars.simps [of b n] by simp
    ultimately show ?thesis
      by (simp add: parse_num_def digit_val_char)
  qed
qed

lemma parse_num_text: "2 \<le> b \<Longrightarrow> b \<le> 16 \<Longrightarrow> parse_num b (num_text b n) = n"
  by (simp add: num_text_def parse_num_chars) (simp add: parse_num_def digit_val_def)

section \<open>What a call prints\<close>

definition int_text :: "u64 \<Rightarrow> string" where
  "int_text w = (if sint w < 0 then CHR ''-'' # num_text 10 (unat (- w)) else num_text 10 (unat w))"

definition hex_text :: "u64 \<Rightarrow> string" where
  "hex_text w = num_text 16 (unat w)"

lemma dec_fits: "cstring_at (uint_to_str v 10 (replicate 21 CHR 0x00) 21) = num_text 10 (unat v)"
proof -
  have "unat v < unat (10 :: u64) ^ (21 - 1)"
    using unat_lt_u64 [of v] by simp
  then show ?thesis
    using uint_to_str_spec [of 10 v 21 "replicate 21 CHR 0x00"] by simp
qed

lemma hex_fits: "cstring_at (uint_to_str v 16 (replicate 17 CHR 0x00) 17) = num_text 16 (unat v)"
proof -
  have "unat v < unat (16 :: u64) ^ (17 - 1)"
    using unat_lt_u64 [of v] by simp
  then show ?thesis
    using uint_to_str_spec [of 16 v 17 "replicate 17 CHR 0x00"] by simp
qed

definition conv_text :: "bool \<Rightarrow> char \<Rightarrow> karg list \<Rightarrow> (karg list \<times> u8 list) option" where
  "conv_text is_long c args =
     (if c = CHR ''s'' then (case args of S str # args \<Rightarrow> Some (args, crlf str) | _ \<Rightarrow> None)
      else if c = CHR ''c'' then (case args of W w # args \<Rightarrow> Some (args, [ucast w]) | _ \<Rightarrow> None)
      else if c = CHR ''d'' then
        (case args of W w # args \<Rightarrow>
            Some (args, crlf (int_text (if is_long then w else scast (ucast w :: u32)))) | _ \<Rightarrow> None)
      else if c = CHR ''x'' then
        (case args of W w # args \<Rightarrow>
            Some (args, crlf (hex_text (if is_long then w else ucast (ucast w :: u32)))) | _ \<Rightarrow> None)
      else if c = CHR ''%'' then Some (args, [of_char CHR ''%''])
      else Some (args, [of_char CHR ''%'', of_char c]))"

function kformat :: "string \<Rightarrow> karg list \<Rightarrow> u8 list option" where
  "kformat [] args = Some []"
| "kformat (c # p) args =
     (if c \<noteq> CHR ''%'' then map_option ((#) (of_char c)) (kformat p args)
      else (case p of
              [] \<Rightarrow> Some [of_char CHR ''%'']
            | d # q \<Rightarrow>
                if d \<noteq> CHR ''l'' then do { (args, t) \<leftarrow> conv_text False d args; map_option ((@) t) (kformat q args) }
                else (case q of
                        [] \<Rightarrow> Some [of_char CHR ''%'']
                      | d # q \<Rightarrow> do { (args, t) \<leftarrow> conv_text True d args; map_option ((@) t) (kformat q args) })))"
  by pat_completeness auto
termination
  by (relation "measure (\<lambda>(p, _). length p)") auto

lemma kformat_percent:
  "kformat (CHR ''%'' # p) args = (case skip_l p of
     (l, []) \<Rightarrow> Some [of_char CHR ''%'']
   | (l, d # q) \<Rightarrow> do { (args, t) \<leftarrow> conv_text l d args; map_option ((@) t) (kformat q args) })"
  by (cases p rule: skip_l.cases) (auto split: list.split)

lemma kprintf_putint_live:
  "uart_live s \<Longrightarrow> kprintf_putint w s = Some (say (crlf (int_text w)) s)"
  by (simp add: kprintf_putint_def dec_fits int_text_def)

lemma kprintf_puthex_live:
  "uart_live s \<Longrightarrow> kprintf_puthex w s = Some (say (crlf (hex_text w)) s)"
  by (simp add: kprintf_puthex_def hex_fits hex_text_def)

lemma of_char_u8: "(of_char (char_of (unat (w :: u8))) :: u8) = w"
proof -
  have "(of_char (char_of (unat w)) :: u8) = of_nat (of_char (char_of (unat w)))"
    by (simp only: of_nat_of_char)
  also have "of_char (char_of (unat w)) = unat w"
    by (simp add: unat_lt_u8)
  finally show ?thesis by simp
qed

lemma kprintf_conv_live:
  "uart_live s \<Longrightarrow> kprintf_conv l c args s = map_option (\<lambda>(args, t). (args, say t s)) (conv_text l c args)"
  by (auto simp: kprintf_conv_def conv_text_def kprintf_putint_live kprintf_puthex_live of_char_u8
      split: list.split karg.split)

lemma kprintf_loop_live:
  "uart_live s \<Longrightarrow> kprintf_loop fmt args s = map_option (\<lambda>t. say t s) (kformat fmt args)"
proof (induction fmt args s rule: kprintf_loop.induct)
  case (1 args s)
  then show ?case by simp
next
  case (2 c p args s)
  show ?case
  proof (cases "c = CHR ''%''")
    case False
    then show ?thesis
      using 2 by (simp add: option.map_comp comp_def)
  next
    case True
    obtain l q where lq: "skip_l p = (l, q)" by fastforce
    show ?thesis
    proof (cases q)
      case Nil
      then show ?thesis using True lq "2.prems" by (simp add: kformat_percent del: kformat.simps)
    next
      case (Cons d r)
      then show ?thesis
        using True lq "2.prems" "2.IH"(2) [of l q]
        by (auto simp: kformat_percent kprintf_conv_live option.map_comp comp_def split: bind_splits option.splits simp del: kformat.simps)
    qed
  qed
qed

definition console_ok :: "'a machine_scheme \<Rightarrow> bool" where
  "console_ok s \<longleftrightarrow> uart_live s \<and> (kprintf_lock_ready s \<longrightarrow> locks s kprintf_lock = 0)"

definition kmsg :: "string \<Rightarrow> karg list \<Rightarrow> u8 list" where
  "kmsg fmt args = the (kformat fmt args)"

lemma kprintf_console:
  assumes "console_ok s"
  shows "kprintf fmt args s = map_option (\<lambda>t. say t s) (kformat fmt args)"
proof (cases "kprintf_lock_ready s")
  case True
  with assms have l: "locks s kprintf_lock = 0" and u: "uart_live s" by (auto simp: console_ok_def)
  then show ?thesis
    using True by (cases "kformat fmt args") (auto simp: kprintf_def kprintf_loop_live say_def)
next
  case False
  with assms show ?thesis
    by (cases "kformat fmt args") (auto simp: kprintf_def console_ok_def kprintf_loop_live say_def)
qed

subsection \<open>Calls whose arguments fit the format\<close>

fun is_word :: "karg \<Rightarrow> bool" where
  "is_word (W w) = True"
| "is_word (S s) = False"

function fmt_ok :: "string \<Rightarrow> bool list \<Rightarrow> bool" where
  "fmt_ok [] ks = True"
| "fmt_ok (c # p) ks =
     (if c \<noteq> CHR ''%'' then fmt_ok p ks
      else (case skip_l p of
              (l, []) \<Rightarrow> True
            | (l, d # q) \<Rightarrow>
                if d = CHR ''s'' then ks \<noteq> [] \<and> \<not> hd ks \<and> fmt_ok q (tl ks)
                else if d = CHR ''c'' \<or> d = CHR ''d'' \<or> d = CHR ''x'' then ks \<noteq> [] \<and> hd ks \<and> fmt_ok q (tl ks)
                else fmt_ok q ks))"
  by pat_completeness auto
termination
  by (relation "measure (\<lambda>(p, _). length p)") (auto dest!: sym [THEN skip_l_shorter])

lemma fmt_ok_kformat: "fmt_ok fmt (map is_word args) \<Longrightarrow> kformat fmt args \<noteq> None"
proof (induction fmt arbitrary: args rule: length_induct)
  case (1 fmt)
  show ?case
  proof (cases "fmt = [] \<or> hd fmt \<noteq> CHR ''%''")
    case True
    then show ?thesis using 1 by (cases fmt) auto
  next
    case False
    then obtain p where p: "fmt = CHR ''%'' # p" by (cases fmt) auto
    obtain l q where lq: "skip_l p = (l, q)" by fastforce
    show ?thesis
    proof (cases q)
      case Nil
      then show ?thesis using p lq by (simp add: kformat_percent del: kformat.simps)
    next
      case (Cons d r)
      have IH: "fmt_ok r (map is_word args') \<Longrightarrow> kformat r args' \<noteq> None" for args'
        using "1.IH" p skip_l_shorter [OF lq [unfolded Cons]] by simp
      show ?thesis
        using p lq Cons "1.prems" IH
        by (cases args; cases "hd args") (auto simp: kformat_percent conv_text_def split: if_splits simp del: kformat.simps)
    qed
  qed
qed

lemma kprintf_ok:
  assumes "console_ok s" "fmt_ok fmt (map is_word args)"
  shows "kprintf fmt args s = Some (say (kmsg fmt args) s)"
  using kprintf_console [OF assms(1), of fmt args] fmt_ok_kformat [OF assms(2)]
  by (auto simp: kmsg_def)

lemma console_ok_say [simp]: "console_ok (say t s) = console_ok s"
  by (simp add: console_ok_def say_def)

lemma console_ok_demo [simp]: "console_ok demo_machine"
  by (simp add: console_ok_def uart_liveI demo_machine_def LSR_TX_EMPTY_def)

text \<open>Claim C31. When the transmitter becomes ready again and again and the console lock
  is free, \<open>kprintf\<close> terminates, releases the lock, leaves everything but the serial port as it was,
  and the bytes it sends are those of the reference formatter \<open>kformat\<close> on the same format and
  arguments.\<close>

theorem kprintf_refines_kformat:
  assumes "console_ok s" "kformat fmt args = Some t"
  shows "kprintf fmt args s = Some (say t s)"
  using kprintf_console [OF assms(1), of fmt args] assms(2) by simp

lemma demo_kformat: "kformat ''n=%d'' [W 7] = Some [0x6E, 0x3D, 0x37]"
proof -
  have "digit_char 7 = CHR ''7''" using digits_nth [of 7] by (simp add: digits_def)
  then show ?thesis by (simp add: conv_text_def int_text_def num_text_def num_chars.simps)
qed

theorem kprintf_refines_kformat_witness:
  "kprintf ''n=%d'' [W 7] demo_machine = Some (say [0x6E, 0x3D, 0x37] demo_machine)"
  using kprintf_refines_kformat [OF console_ok_demo demo_kformat] .

text \<open>The digits \<open>uint_to_str\<close> leaves in the buffers of \<open>kprintf_putint\<close> (21 bytes,
  base 10) and \<open>kprintf_puthex\<close> (17 bytes, base 16) read back as the number, whatever the buffer held:
  no 64-bit value is truncated.\<close>

theorem uint_to_str_roundtrip:
  assumes "length buf10 = 21" "length buf16 = 17"
  shows "parse_num 10 (cstring_at (uint_to_str v 10 buf10 21)) = unat v \<and>
    parse_num 16 (cstring_at (uint_to_str v 16 buf16 17)) = unat v"
proof -
  have "unat v < 10 ^ (21 - 1)" "unat v < 16 ^ (17 - 1)"
    using unat_lt_u64 [of v] by simp_all
  then show ?thesis
    using uint_to_str_spec [of 10 v 21 buf10] uint_to_str_spec [of 16 v 17 buf16] assms
    by (simp_all add: parse_num_text)
qed

theorem uint_to_str_roundtrip_witness:
  "parse_num 10 (cstring_at (uint_to_str 18446744073709551615 10 (replicate 21 CHR ''x'') 21))
     = 18446744073709551615"
  using uint_to_str_roundtrip [of "replicate 21 CHR ''x''" "replicate 17 CHR ''x''" "18446744073709551615"]
  by simp

end
