(* ===== verification/Gdt.thy ===== *)
theory Gdt
  imports Kprintf
begin

text \<open>\<open>gdt.c\<close> and \<open>gdt.h\<close>: segment descriptors, the TSS and its descriptor, loading and dumping.\<close>

record gdtr_t =
  gdtr_limit :: u16
  gdtr_base :: u64

record gdt_entry =
  limit_low :: u16
  base_low :: u16
  base_mid :: u8
  access :: u8
  granularity :: u8
  base_high :: u8

record tss_t =
  tss_reserved0 :: u32
  rsp0 :: u64
  rsp1 :: u64
  rsp2 :: u64
  tss_reserved1 :: u64
  ist1 :: u64
  ist2 :: u64
  ist3 :: u64
  ist4 :: u64
  ist5 :: u64
  ist6 :: u64
  ist7 :: u64
  tss_reserved2 :: u64
  tss_reserved3 :: u16
  iopb_offset :: u16

definition SIZEOF_TSS :: nat where "SIZEOF_TSS = 104"
definition GDT_ENTRIES :: nat where "GDT_ENTRIES = 7"
definition GDT_TSS_SEL :: u16 where "GDT_TSS_SEL = 0x28"

record gdt_state = machine +
  gdt :: "gdt_entry list"
  gdtr :: gdtr_t
  kernel_tss :: tss_t
  loaded_gdtr :: gdtr_t
  seg_cs :: u16
  seg_data :: u16
  task_reg :: u16
  gdt_addr :: u64
  kernel_tss_addr :: u64
  rsp0_stack_addr :: u64

definition gdt_set_entry :: "nat \<Rightarrow> u32 \<Rightarrow> u32 \<Rightarrow> u8 \<Rightarrow> u8 \<Rightarrow> 'a gdt_state_scheme \<Rightarrow> 'a gdt_state_scheme" where
  "gdt_set_entry i base limit acc gran_hi s =
     s\<lparr>gdt := (gdt s)[i :=
        \<lparr>limit_low = ucast (limit AND 0xFFFF),
         base_low = ucast (base AND 0xFFFF),
         base_mid = ucast (drop_bit 16 base AND 0xFF),
         access = acc,
         granularity = (gran_hi AND 0xF0) OR ucast (drop_bit 16 limit AND 0x0F),
         base_high = ucast (drop_bit 24 base AND 0xFF)\<rparr>]\<rparr>"

text \<open>The 16-byte descriptor overlays two 8-byte entries: the words \<open>base_upper\<close> and
  \<open>reserved\<close> are the bytes of entry \<open>i + 1\<close>.\<close>

definition tss_set_entry :: "nat \<Rightarrow> u64 \<Rightarrow> u32 \<Rightarrow> 'a gdt_state_scheme \<Rightarrow> 'a gdt_state_scheme" where
  "tss_set_entry i base limit s =
     (let base_upper = (ucast (drop_bit 32 base AND 0xFFFFFFFF) :: u32) in
      s\<lparr>gdt := (gdt s)[i :=
        \<lparr>limit_low = ucast (limit AND 0xFFFF),
         base_low = ucast (base AND 0xFFFF),
         base_mid = ucast (drop_bit 16 base AND 0xFF),
         access = 0x89,
         granularity = ucast (drop_bit 16 limit AND 0x0F),
         base_high = ucast (drop_bit 24 base AND 0xFF)\<rparr>,
        i + 1 :=
        \<lparr>limit_low = ucast base_upper,
         base_low = ucast (drop_bit 16 base_upper),
         base_mid = 0, access = 0, granularity = 0, base_high = 0\<rparr>]\<rparr>)"

definition gdt_reload_segments :: "'a gdt_state_scheme \<Rightarrow> 'a gdt_state_scheme" where
  "gdt_reload_segments s = s\<lparr>seg_data := 0x10, seg_cs := 0x08\<rparr>"

definition gdt_init :: "'a gdt_state_scheme \<Rightarrow> 'a gdt_state_scheme option" where
  "gdt_init s =
     (let s = gdt_set_entry 0 0 0       0x00 0x00 s;
          s = gdt_set_entry 1 0 0xFFFFF 0x9A 0xA0 s;
          s = gdt_set_entry 2 0 0xFFFFF 0x92 0xC0 s;
          s = gdt_set_entry 3 0 0xFFFFF 0xF2 0xC0 s;
          s = gdt_set_entry 4 0 0xFFFFF 0xFA 0xA0 s;
          s = s\<lparr>kernel_tss := (kernel_tss s)\<lparr>rsp0 := rsp0_stack_addr s + 16384,
                                               iopb_offset := of_nat SIZEOF_TSS\<rparr>\<rparr>;
          s = tss_set_entry 5 (kernel_tss_addr s) (of_nat (SIZEOF_TSS - 1)) s;
          s = s\<lparr>gdtr := \<lparr>gdtr_limit = of_nat (8 * GDT_ENTRIES - 1), gdtr_base = gdt_addr s\<rparr>\<rparr>;
          s = s\<lparr>loaded_gdtr := gdtr s\<rparr>;
          s = gdt_reload_segments s;
          s = s\<lparr>task_reg := GDT_TSS_SEL\<rparr>
      in kprintf (''gdt_init: loaded custom GDT, TSS rsp0=%lx'' @ [CHR 0x0A]) [W (rsp0 (kernel_tss s))] s)"

definition tss_set_rsp0 :: "u64 \<Rightarrow> 'a gdt_state_scheme \<Rightarrow> 'a gdt_state_scheme" where
  "tss_set_rsp0 v s = s\<lparr>kernel_tss := (kernel_tss s)\<lparr>rsp0 := v\<rparr>\<rparr>"

definition gdt_entry_base :: "gdt_entry \<Rightarrow> u32" where
  "gdt_entry_base e = ucast (base_low e) OR push_bit 16 (ucast (base_mid e)) OR push_bit 24 (ucast (base_high e))"

definition gdt_entry_limit :: "gdt_entry \<Rightarrow> u32" where
  "gdt_entry_limit e = ucast (limit_low e) OR push_bit 16 (ucast (granularity e AND 0x0F))"

definition gdt_entry_print :: "u32 \<Rightarrow> gdt_entry \<Rightarrow> 'a machine_scheme \<Rightarrow> 'a machine_scheme option" where
  "gdt_entry_print index e s =
     (let base = gdt_entry_base e;
          limit = gdt_entry_limit e;
          flags = (ucast (drop_bit 4 (granularity e) AND 0xF) :: u32)
      in kprintf (''[%d] sel=0x%x base=0x%x limit=0x%x access=0x%x flags=0x%x'' @ [CHR 0x0A])
           [W (ucast index), W (ucast (index * 8)), W (ucast base), W (ucast limit),
            W (ucast (access e)), W (ucast flags)] s)"

primrec gdt_dump_loop :: "gdt_entry list \<Rightarrow> u32 \<Rightarrow> 'a machine_scheme \<Rightarrow> 'a machine_scheme option" where
  "gdt_dump_loop [] i s = Some s"
| "gdt_dump_loop (e # es) i s = do { s \<leftarrow> gdt_entry_print i e s; gdt_dump_loop es (i + 1) s }"

text \<open>The dump reads through the loaded GDTR; the model covers the kernel's own table, at
  \<open>gdt_addr\<close>, and not a table of the boot loader (\<open>None\<close>).\<close>

definition gdt_dump :: "'a gdt_state_scheme \<Rightarrow> 'a gdt_state_scheme option" where
  "gdt_dump s =
     (let r = loaded_gdtr s;
          num_entries = (unat (gdtr_limit r) + 1) div 8
      in do { s \<leftarrow> kprintf (''GDT base=0x%x limit=%d entries=%d'' @ [CHR 0x0A])
                    [W (gdtr_base r), W (ucast (gdtr_limit r)), W (of_nat num_entries)] s;
              if gdtr_base r = gdt_addr s \<and> num_entries \<le> length (gdt s)
              then gdt_dump_loop (take num_entries (gdt s)) 0 s else None })"

lemma mask_numerals [bitwise]:
  "(0xFFFF :: 'a :: len word) = mask 16" "(0xFF :: 'a :: len word) = mask 8"
  "(0x0F :: 'a :: len word) = mask 4" "(0xFFFFF :: 'a :: len word) = mask 20"
  "(0xFFFFFFFF :: 'a :: len word) = mask 32"
  by (simp_all add: mask_eq_exp_minus_1)

lemma gdt_entry_base_set:
  assumes "i < length (gdt s)"
  shows "gdt_entry_base (gdt (gdt_set_entry i base limit acc gran s) ! i) = base"
proof (rule bit_word_eqI)
  fix n assume n: "n < LENGTH(32)"
  consider "n < 16" | "16 \<le> n" "n < 24" | "24 \<le> n" by linarith
  then show "bit (gdt_entry_base (gdt (gdt_set_entry i base limit acc gran s) ! i)) n = bit base n"
    using assms n
    by cases (auto simp: gdt_entry_base_def gdt_set_entry_def bit_simps mask_numerals)
qed

lemma gdt_entry_limit_set:
  assumes "i < length (gdt s)"
  shows "gdt_entry_limit (gdt (gdt_set_entry i base limit acc gran s) ! i) = limit AND 0xFFFFF"
proof (rule bit_word_eqI)
  fix n assume n: "n < LENGTH(32)"
  have hi: "\<not> bit (0xF0 :: u8) k" if "k < 4" for k
    using that by (auto simp: less_Suc_eq numeral_eq_Suc)
  consider "n < 16" | "16 \<le> n" "n < 20" | "20 \<le> n" by linarith
  then show "bit (gdt_entry_limit (gdt (gdt_set_entry i base limit acc gran s) ! i)) n
      = bit (limit AND 0xFFFFF) n"
    using assms n hi [of "n - 16"]
    by cases (auto simp: gdt_entry_limit_def gdt_set_entry_def bit_simps mask_numerals)
qed

definition descriptor_dpl :: "gdt_entry \<Rightarrow> nat" where
  "descriptor_dpl e = unat (drop_bit 5 (access e) AND 3)"

definition tss_descriptor_base :: "gdt_entry \<Rightarrow> gdt_entry \<Rightarrow> u64" where
  "tss_descriptor_base lo hi =
     ucast (gdt_entry_base lo) OR push_bit 32 (ucast (limit_low hi)) OR push_bit 48 (ucast (base_low hi))"

lemma gdt_entry_base_bits:
  "bit (gdt_entry_base e) n \<longleftrightarrow> n < 32 \<and>
     (if n < 16 then bit (base_low e) n else if n < 24 then bit (base_mid e) (n - 16) else bit (base_high e) (n - 24))"
  by (auto simp: gdt_entry_base_def bit_simps dest: bit_imp_le_length)

lemma tss_descriptor_base_set:
  assumes "i + 1 < length (gdt s)"
  shows "tss_descriptor_base (gdt (tss_set_entry i base limit s) ! i) (gdt (tss_set_entry i base limit s) ! (i + 1)) = base"
proof (rule bit_word_eqI)
  fix n assume n: "n < LENGTH(64)"
  consider "n < 16" | "16 \<le> n" "n < 24" | "24 \<le> n" "n < 32" | "32 \<le> n" "n < 48" | "48 \<le> n" by linarith
  then show "bit (tss_descriptor_base (gdt (tss_set_entry i base limit s) ! i)
      (gdt (tss_set_entry i base limit s) ! (i + 1))) n = bit base n"
    using assms n
    by cases (auto simp: tss_descriptor_base_def gdt_entry_base_bits tss_set_entry_def Let_def bit_simps
        mask_numerals dest: bit_imp_le_length)
qed

text \<open>What \<open>gdt_entry_base\<close> and \<open>gdt_entry_limit\<close> read from a descriptor is what
  \<open>gdt_set_entry\<close> encoded: the whole 32-bit base and the low 20 bits of the limit; the other
  descriptors are left alone.\<close>

theorem gdt_entry_roundtrip:
  assumes "i < length (gdt s)"
  shows "gdt_entry_base (gdt (gdt_set_entry i base limit acc gran s) ! i) = base \<and>
    gdt_entry_limit (gdt (gdt_set_entry i base limit acc gran s) ! i) = limit AND 0xFFFFF \<and>
    (\<forall>j. j \<noteq> i \<longrightarrow> gdt (gdt_set_entry i base limit acc gran s) ! j = gdt s ! j)"
  using gdt_entry_base_set [OF assms] gdt_entry_limit_set [OF assms]
  by (simp add: gdt_set_entry_def)

definition null_descriptor :: gdt_entry where
  "null_descriptor = \<lparr>limit_low = 0, base_low = 0, base_mid = 0, access = 0, granularity = 0, base_high = 0\<rparr>"

definition demo_gdt :: gdt_state where
  "demo_gdt = machine.extend demo_machine
     \<lparr>gdt = replicate 7 null_descriptor, gdtr = \<lparr>gdtr_limit = 0, gdtr_base = 0\<rparr>,
      kernel_tss = \<lparr>tss_reserved0 = 0, rsp0 = 0, rsp1 = 0, rsp2 = 0, tss_reserved1 = 0, ist1 = 0, ist2 = 0,
        ist3 = 0, ist4 = 0, ist5 = 0, ist6 = 0, ist7 = 0, tss_reserved2 = 0, tss_reserved3 = 0, iopb_offset = 0\<rparr>,
      loaded_gdtr = \<lparr>gdtr_limit = 0, gdtr_base = 0\<rparr>, seg_cs = 0x28, seg_data = 0x30, task_reg = 0,
      gdt_addr = 0xFFFFFFFF80010000, kernel_tss_addr = 0xFFFFFFFF80020000,
      rsp0_stack_addr = 0xFFFFFFFF80030000\<rparr>"

theorem gdt_entry_roundtrip_witness:
  "gdt_entry_limit (gdt (gdt_set_entry 4 0xDEADBEEF 0xABCDEF 0xFA 0xA0 demo_gdt) ! 4) = 0xBCDEF"
  using gdt_entry_roundtrip [of 4 demo_gdt "0xDEADBEEF" "0xABCDEF" "0xFA" "0xA0"]
  by (simp add: demo_gdt_def machine.defs demo_machine_def)

text \<open>\<open>gdt_init\<close> loads a table whose user code and data descriptors (entries 4 and 3,
  selectors \<open>0x23\<close> and \<open>0x1B\<close>) have privilege level 3 and whose kernel descriptors have level 0,
  the TSS descriptor points at \<open>kernel_tss\<close> with its full 64-bit address, the task register selects it
  and the ring-0 stack pointer is the top of \<open>rsp0_stack\<close>.\<close>

theorem gdt_init_descriptors:
  assumes "console_ok s" "length (gdt s) = GDT_ENTRIES"
  shows "\<exists>s'. gdt_init s = Some s' \<and>
    map descriptor_dpl (take 5 (gdt s')) = [0, 0, 0, 3, 3] \<and>
    tss_descriptor_base (gdt s' ! 5) (gdt s' ! 6) = kernel_tss_addr s \<and>
    loaded_gdtr s' = \<lparr>gdtr_limit = 55, gdtr_base = gdt_addr s\<rparr> \<and> task_reg s' = GDT_TSS_SEL \<and>
    seg_cs s' = 0x08 \<and> rsp0 (kernel_tss s') = rsp0_stack_addr s + 16384"
proof -
  obtain a b c d e f g where g: "gdt s = [a, b, c, d, e, f, g]"
    using assms(2) by (auto simp: GDT_ENTRIES_def length_Suc_conv numeral_eq_Suc)
  define t0 where "t0 = gdt_set_entry 4 0 0xFFFFF 0xFA 0xA0 (gdt_set_entry 3 0 0xFFFFF 0xF2 0xC0
    (gdt_set_entry 2 0 0xFFFFF 0x92 0xC0 (gdt_set_entry 1 0 0xFFFFF 0x9A 0xA0 (gdt_set_entry 0 0 0 0x00 0x00 s))))"
  define t1 where "t1 = t0\<lparr>kernel_tss := (kernel_tss s)\<lparr>rsp0 := rsp0_stack_addr s + 16384, iopb_offset := 104\<rparr>\<rparr>"
  define t where "t = tss_set_entry 5 (kernel_tss_addr s) 103 t1"
  have "5 + 1 < length (gdt t1)" by (simp add: t0_def t1_def gdt_set_entry_def g)
  then have tss: "tss_descriptor_base (gdt t ! 5) (gdt t ! 6) = kernel_tss_addr s"
    using tss_descriptor_base_set [of 5 t1 "kernel_tss_addr s" 103] by (simp add: t_def)
  have dpl: "map descriptor_dpl (take 5 (gdt t)) = [0, 0, 0, 3, 3]"
    by (simp add: t_def t1_def t0_def g gdt_set_entry_def tss_set_entry_def descriptor_dpl_def Let_def)
  define u where "u = t\<lparr>gdtr := \<lparr>gdtr_limit = 55, gdtr_base = gdt_addr s\<rparr>, loaded_gdtr := \<lparr>gdtr_limit = 55, gdtr_base = gdt_addr s\<rparr>,
    seg_data := 0x10, seg_cs := 0x08, task_reg := GDT_TSS_SEL\<rparr>"
  have "gdt_init s = kprintf (''gdt_init: loaded custom GDT, TSS rsp0=%lx'' @ [CHR 0x0A]) [W (rsp0_stack_addr s + 16384)] u"
    by (simp add: gdt_init_def Let_def u_def t_def t1_def t0_def gdt_set_entry_def tss_set_entry_def gdt_reload_segments_def
        SIZEOF_TSS_def GDT_ENTRIES_def)
  moreover have "console_ok u"
    using assms(1) by (simp add: console_ok_def uart_live_def u_def t_def t1_def t0_def gdt_set_entry_def tss_set_entry_def Let_def)
  ultimately have "gdt_init s = Some (say (kmsg (''gdt_init: loaded custom GDT, TSS rsp0=%lx'' @ [CHR 0x0A])
      [W (rsp0_stack_addr s + 16384)]) u)"
    by (simp add: kprintf_ok)
  then show ?thesis
    using tss dpl by (simp add: say_def u_def t_def t1_def tss_set_entry_def Let_def)
qed

lemma demo_gdt_fields: "io_in demo_gdt = (\<lambda>_ _. 0x20)" "locks demo_gdt = (\<lambda>_. 0)"
  "gdt demo_gdt = replicate 7 null_descriptor"
  by (simp_all add: demo_gdt_def machine.defs demo_machine_def)

lemma demo_gdt_ok: "console_ok demo_gdt" "length (gdt demo_gdt) = GDT_ENTRIES"
  using uart_liveI [of demo_gdt]
  by (simp_all add: console_ok_def demo_gdt_fields LSR_TX_EMPTY_def GDT_ENTRIES_def)

theorem gdt_init_descriptors_witness:
  "\<exists>s'. gdt_init demo_gdt = Some s' \<and> map descriptor_dpl (take 5 (gdt s')) = [0, 0, 0, 3, 3]"
  using gdt_init_descriptors [OF demo_gdt_ok] by (elim exE conjE, intro exI conjI)

end
