(* ===== verification/Idt.thy ===== *)
theory Idt
  imports Gdt
begin

text \<open>\<open>idt.c\<close> and \<open>idt.h\<close>: interrupt gates, the exception handlers and the dumps. The addresses of the
handlers are parameters of \<open>idt_init\<close>.\<close>

record idt_entry =
  offset_low :: u16
  selector :: u16
  ist :: u8
  type_attr :: u8
  offset_mid :: u16
  offset_high :: u32
  idt_reserved :: u32

record idt_state = gdt_state +
  idt :: "idt_entry list"
  idtr :: gdtr_t
  loaded_idtr :: gdtr_t
  idt_addr :: u64

definition IDT_INTERRUPT_GATE :: u8 where "IDT_INTERRUPT_GATE = 0x8E"
definition IDT_INTERRUPT_GATE_USER :: u8 where "IDT_INTERRUPT_GATE_USER = 0xEE"
definition SYSCALL_VECTOR :: u8 where "SYSCALL_VECTOR = 0x80"
definition PIC_IRQ0_VECTOR :: u8 where "PIC_IRQ0_VECTOR = 0x20"

definition idt_set_gate :: "u8 \<Rightarrow> u64 \<Rightarrow> u16 \<Rightarrow> u8 \<Rightarrow> 'a idt_state_scheme \<Rightarrow> 'a idt_state_scheme" where
  "idt_set_gate vector handler sel attr s =
     s\<lparr>idt := (idt s)[unat vector :=
        \<lparr>offset_low = ucast (handler AND 0xFFFF),
         selector = sel,
         ist = 0,
         type_attr = attr,
         offset_mid = ucast (drop_bit 16 handler AND 0xFFFF),
         offset_high = ucast (drop_bit 32 handler AND 0xFFFFFFFF),
         idt_reserved = 0\<rparr>]\<rparr>"

definition idt_entry_offset :: "idt_entry \<Rightarrow> u64" where
  "idt_entry_offset e = ucast (offset_low e) OR push_bit 16 (ucast (offset_mid e)) OR push_bit 32 (ucast (offset_high e))"

primrec idt_set_isrs :: "nat \<Rightarrow> (nat \<Rightarrow> u64) \<Rightarrow> u16 \<Rightarrow> 'a idt_state_scheme \<Rightarrow> 'a idt_state_scheme" where
  "idt_set_isrs 0 isr cs s = s"
| "idt_set_isrs (Suc n) isr cs s = idt_set_gate (of_nat n) (isr n) cs IDT_INTERRUPT_GATE (idt_set_isrs n isr cs s)"

definition get_cs :: "'a gdt_state_scheme \<Rightarrow> u16" where
  "get_cs s = seg_cs s"

definition idt_init :: "(nat \<Rightarrow> u64) \<Rightarrow> u64 \<Rightarrow> u64 \<Rightarrow> 'a idt_state_scheme \<Rightarrow> 'a idt_state_scheme" where
  "idt_init isr syscall_entry_asm timer_isr s =
     (let KERNEL_CS = get_cs s;
          s = idt_set_isrs 32 isr KERNEL_CS s;
          s = idt_set_gate SYSCALL_VECTOR syscall_entry_asm KERNEL_CS IDT_INTERRUPT_GATE_USER s;
          s = idt_set_gate PIC_IRQ0_VECTOR timer_isr KERNEL_CS IDT_INTERRUPT_GATE s;
          s = s\<lparr>idtr := \<lparr>gdtr_limit = of_nat (16 * 256 - 1), gdtr_base = idt_addr s\<rparr>\<rparr>
      in s\<lparr>loaded_idtr := idtr s\<rparr>)"

section \<open>Faults\<close>

record interrupt_frame =
  if_ip :: u64
  if_cs :: u64
  if_flags :: u64
  if_sp :: u64
  if_ss :: u64

definition exception_names :: "string list" where
  "exception_names =
    [''Divide Error'', ''Debug'', ''NMI'', ''Breakpoint'',
     ''Overflow'', ''BOUND Range Exceeded'', ''Invalid Opcode'', ''Device Not Available'',
     ''Double Fault'', ''Coprocessor Segment Overrun'', ''Invalid TSS'', ''Segment Not Present'',
     ''Stack-Segment Fault'', ''General Protection Fault'', ''Page Fault'', ''Reserved'',
     ''x87 FPU Error'', ''Alignment Check'', ''Machine Check'', ''SIMD FP Exception'',
     ''Virtualization Exception'', ''Control Protection Exception'', ''Reserved'', ''Reserved'',
     ''Reserved'', ''Reserved'', ''Reserved'', ''Reserved'',
     ''Hypervisor Injection'', ''VMM Communication'', ''Security Exception'', ''Reserved'']"

definition exception_name :: "u8 \<Rightarrow> string option" where
  "exception_name vector =
     (if unat vector < length exception_names then Some (exception_names ! unat vector) else None)"

definition fault_report :: "u8 \<Rightarrow> u64 \<Rightarrow> interrupt_frame \<Rightarrow> 'a machine_scheme \<Rightarrow> 'a machine_scheme option" where
  "fault_report vector error_code frame s =
     do { name \<leftarrow> exception_name vector;
          if if_cs frame AND 3 = 3 then
             do { s \<leftarrow> kprintf ([CHR 0x0A] @ ''--- USER PROCESS FAULT: %s (vector %d) ---'' @ [CHR 0x0A])
                     [S name, W (ucast vector)] s;
                  s \<leftarrow> kprintf (''error_code=0x%lx'' @ [CHR 0x0A]) [W error_code] s;
                  s \<leftarrow> kprintf (''rip=0x%lx cs=0x%lx rflags=0x%lx'' @ [CHR 0x0A])
                     [W (if_ip frame), W (if_cs frame), W (if_flags frame)] s;
                  s \<leftarrow> kprintf (''rsp=0x%lx ss=0x%lx'' @ [CHR 0x0A]) [W (if_sp frame), W (if_ss frame)] s;
                  kprintf (''Process terminated (this is expected containment, not a kernel bug).'' @ [CHR 0x0A]) [] s }
           else
             do { s \<leftarrow> kprintf ([CHR 0x0A] @ ''--- KERNEL EXCEPTION %d: %s ---'' @ [CHR 0x0A])
                     [W (ucast vector), S name] s;
                  s \<leftarrow> kprintf (''error_code=0x%lx'' @ [CHR 0x0A]) [W error_code] s;
                  s \<leftarrow> kprintf (''rip=0x%lx cs=0x%lx rflags=0x%lx'' @ [CHR 0x0A])
                     [W (if_ip frame), W (if_cs frame), W (if_flags frame)] s;
                  s \<leftarrow> kprintf (''rsp=0x%lx ss=0x%lx'' @ [CHR 0x0A]) [W (if_sp frame), W (if_ss frame)] s;
                  kprintf (''System halted.'' @ [CHR 0x0A]) [] s } }"

text \<open>\<open>hlt\<close> waits for an interrupt: with the interrupt flag clear none is taken, so it does not return. The loop around it is
  a partial function.\<close>

definition cli :: "'a machine_scheme \<Rightarrow> 'a machine_scheme" where
  "cli s = s\<lparr>rflags := rflags s AND NOT IF_FLAG\<rparr>"

definition hlt :: "'a machine_scheme \<Rightarrow> 'a machine_scheme option" where
  "hlt s = (if rflags s AND IF_FLAG = 0 then None else Some s)"

partial_function (option) halt_loop :: "'a machine_scheme \<Rightarrow> 'a machine_scheme option" where
  "halt_loop s = do { s \<leftarrow> hlt (cli s); halt_loop s }"

definition fault_handler :: "u8 \<Rightarrow> u64 \<Rightarrow> interrupt_frame \<Rightarrow> 'a machine_scheme \<Rightarrow> 'a machine_scheme option" where
  "fault_handler vector error_code frame s = do { s \<leftarrow> fault_report vector error_code frame s; halt_loop s }"

definition isr_has_error_code :: "u8 \<Rightarrow> bool" where
  "isr_has_error_code n \<longleftrightarrow> n \<in> {8, 10, 11, 12, 13, 14, 17, 21, 29, 30}"

definition isr :: "u8 \<Rightarrow> u64 \<Rightarrow> interrupt_frame \<Rightarrow> 'a machine_scheme \<Rightarrow> 'a machine_scheme option" where
  "isr n error_code frame s = fault_handler n (if isr_has_error_code n then error_code else 0) frame s"

definition idt_entry_print :: "u32 \<Rightarrow> idt_entry \<Rightarrow> 'a machine_scheme \<Rightarrow> 'a machine_scheme option" where
  "idt_entry_print index e s =
     (let offset = idt_entry_offset e;
          present = drop_bit 7 (type_attr e) AND 0x1;
          dpl = drop_bit 5 (type_attr e) AND 0x3;
          gate = type_attr e AND 0xF
      in kprintf (''[%d] offset=0x%lx sel=0x%x ist=%d present=%d dpl=%d gate=0x%x'' @ [CHR 0x0A])
           [W (ucast index), W offset, W (ucast (selector e)), W (ucast (ist e)), W (ucast present),
            W (ucast dpl), W (ucast gate)] s)"

primrec idt_dump_loop :: "nat list \<Rightarrow> 'a idt_state_scheme \<Rightarrow> 'a idt_state_scheme option" where
  "idt_dump_loop [] s = Some s"
| "idt_dump_loop (i # is) s =
     do { s \<leftarrow> idt_entry_print (of_nat i) (idt s ! i) s; idt_dump_loop is s }"

definition idt_dump :: "'a idt_state_scheme \<Rightarrow> 'a idt_state_scheme option" where
  "idt_dump s =
     do { s \<leftarrow> kprintf (''IDT base=0x%lx limit=%d entries=%d'' @ [CHR 0x0A])
             [W (gdtr_base (idtr s)), W (ucast (gdtr_limit (idtr s))), W 256] s;
          s \<leftarrow> idt_dump_loop [0..<32] s;
          s \<leftarrow> idt_entry_print 0x80 (idt s ! 0x80) s;
          idt_entry_print (ucast PIC_IRQ0_VECTOR) (idt s ! unat PIC_IRQ0_VECTOR) s }"

section \<open>Gates\<close>

lemma idt_entry_offset_set:
  assumes "unat v < length (idt s)"
  shows "idt_entry_offset (idt (idt_set_gate v h sel attr s) ! unat v) = h"
proof (rule bit_word_eqI)
  fix n assume n: "n < LENGTH(64)"
  consider "n < 16" | "16 \<le> n" "n < 32" | "32 \<le> n" by linarith
  then show "bit (idt_entry_offset (idt (idt_set_gate v h sel attr s) ! unat v)) n = bit h n"
    using assms n
    by cases (auto simp: idt_entry_offset_def idt_set_gate_def bit_simps mask_numerals)
qed

lemma idt_set_gate_other:
  "j \<noteq> unat v \<Longrightarrow> idt (idt_set_gate v h sel attr s) ! j = idt s ! j"
  by (simp add: idt_set_gate_def)

lemma length_idt_set_gate [simp]: "length (idt (idt_set_gate v h sel attr s)) = length (idt s)"
  by (simp add: idt_set_gate_def)

lemma gate_attr_set:
  "unat v < length (idt s) \<Longrightarrow> type_attr (idt (idt_set_gate v h sel attr s) ! unat v) = attr"
  "unat v < length (idt s) \<Longrightarrow> selector (idt (idt_set_gate v h sel attr s) ! unat v) = sel"
  by (simp_all add: idt_set_gate_def)

definition gate_is :: "idt_entry \<Rightarrow> u64 \<Rightarrow> u16 \<Rightarrow> u8 \<Rightarrow> bool" where
  "gate_is e h sel attr \<longleftrightarrow> idt_entry_offset e = h \<and> selector e = sel \<and> type_attr e = attr"

lemma idt_set_gate_is:
  "unat v < length (idt s) \<Longrightarrow> gate_is (idt (idt_set_gate v h sel attr s) ! unat v) h sel attr"
  by (simp add: gate_is_def idt_entry_offset_set gate_attr_set)

lemma length_idt_set_isrs [simp]: "length (idt (idt_set_isrs n isrs cs s)) = length (idt s)"
  by (induction n) simp_all

lemma idt_set_isrs_is:
  assumes "n \<le> 256" "length (idt s) = 256" "v < n"
  shows "gate_is (idt (idt_set_isrs n isrs cs s) ! v) (isrs v) cs IDT_INTERRUPT_GATE"
  using assms(1,3)
proof (induction n)
  case 0
  then show ?case by simp
next
  case (Suc n)
  have u: "unat (of_nat n :: u8) = n" using Suc.prems by (simp add: unat_of_nat)
  show ?case
  proof (cases "v = n")
    case True
    then show ?thesis
      using idt_set_gate_is [of "of_nat n" "idt_set_isrs n isrs cs s"] u Suc.prems assms(2) by simp
  next
    case False
    then show ?thesis
      using Suc idt_set_gate_other [of v "of_nat n" "isrs n" cs IDT_INTERRUPT_GATE "idt_set_isrs n isrs cs s"] u
      by simp
  qed
qed

lemma unat_vectors: "unat SYSCALL_VECTOR = 128" "unat PIC_IRQ0_VECTOR = 32"
  by (simp_all add: SYSCALL_VECTOR_def PIC_IRQ0_VECTOR_def)

text \<open>Claim C32. After \<open>idt_init\<close> every exception vector below 32 has an interrupt gate to its own
  handler, the system call vector \<open>0x80\<close> is the only one of the installed gates that ring 3 may raise
  (type \<open>0xEE\<close>, DPL 3), the timer vector goes to \<open>timer_isr\<close>, all in the current code segment; the
  stored offset decodes to the 64-bit handler address.\<close>

theorem idt_init_gates:
  assumes "length (idt s) = 256"
  shows "(\<forall>v < 32. gate_is (idt (idt_init isrs sys tim s) ! v) (isrs v) (seg_cs s) IDT_INTERRUPT_GATE) \<and>
    gate_is (idt (idt_init isrs sys tim s) ! 128) sys (seg_cs s) IDT_INTERRUPT_GATE_USER \<and>
    gate_is (idt (idt_init isrs sys tim s) ! 32) tim (seg_cs s) IDT_INTERRUPT_GATE \<and>
    loaded_idtr (idt_init isrs sys tim s) = \<lparr>gdtr_limit = 4095, gdtr_base = idt_addr s\<rparr>"
proof -
  let ?s1 = "idt_set_isrs 32 isrs (seg_cs s) s"
  let ?s2 = "idt_set_gate SYSCALL_VECTOR sys (seg_cs s) IDT_INTERRUPT_GATE_USER ?s1"
  let ?s3 = "idt_set_gate PIC_IRQ0_VECTOR tim (seg_cs s) IDT_INTERRUPT_GATE ?s2"
  have addr: "idt_addr (idt_set_isrs n isrs cs s) = idt_addr s" for n cs
    by (induction n) (simp_all add: idt_set_gate_def)
  have init: "idt (idt_init isrs sys tim s) = idt ?s3"
    "loaded_idtr (idt_init isrs sys tim s) = \<lparr>gdtr_limit = 4095, gdtr_base = idt_addr s\<rparr>"
    by (simp_all add: idt_init_def get_cs_def Let_def idt_set_gate_def addr del: idt_set_isrs.simps)
  have "gate_is (idt ?s3 ! v) (isrs v) (seg_cs s) IDT_INTERRUPT_GATE" if "v < 32" for v
    using idt_set_isrs_is [of 32 s v isrs "seg_cs s"] assms that
    by (simp add: idt_set_gate_other unat_vectors del: idt_set_isrs.simps)
  moreover have "gate_is (idt ?s3 ! 128) sys (seg_cs s) IDT_INTERRUPT_GATE_USER"
    using idt_set_gate_is [of SYSCALL_VECTOR ?s1] assms
    by (simp add: idt_set_gate_other unat_vectors del: idt_set_isrs.simps)
  moreover have "gate_is (idt ?s3 ! 32) tim (seg_cs s) IDT_INTERRUPT_GATE"
    using idt_set_gate_is [of PIC_IRQ0_VECTOR ?s2] assms by (simp add: unat_vectors del: idt_set_isrs.simps)
  ultimately show ?thesis by (simp add: init)
qed

definition demo_idt :: idt_state where
  "demo_idt = gdt_state.extend demo_gdt
     \<lparr>idt = replicate 256 \<lparr>offset_low = 0, selector = 0, ist = 0, type_attr = 0, offset_mid = 0,
        offset_high = 0, idt_reserved = 0\<rparr>,
      idtr = \<lparr>gdtr_limit = 0, gdtr_base = 0\<rparr>, loaded_idtr = \<lparr>gdtr_limit = 0, gdtr_base = 0\<rparr>,
      idt_addr = 0xFFFFFFFF80040000\<rparr>"

lemma demo_idt_length: "length (idt demo_idt) = 256"
  by (simp only: demo_idt_def gdt_state.defs idt_state.simps length_replicate)

theorem idt_init_gates_witness:
  "gate_is (idt (idt_init (\<lambda>n. 0xFFFFFFFF80000000 + 16 * of_nat n) 0xFFFFFFFF80001000 0xFFFFFFFF80002000
     demo_idt) ! 128) 0xFFFFFFFF80001000 (seg_cs demo_idt) IDT_INTERRUPT_GATE_USER"
  using idt_init_gates [OF demo_idt_length] by blast

lemma halt_loop_stuck: "halt_loop s = None"
  by (subst halt_loop.simps) (simp add: hlt_def cli_def rflags_cleared)

definition fault_text :: "string \<Rightarrow> u8 \<Rightarrow> u64 \<Rightarrow> interrupt_frame \<Rightarrow> u8 list" where
  "fault_text name v err frame =
     (if if_cs frame AND 3 = 3
      then kmsg ([CHR 0x0A] @ ''--- USER PROCESS FAULT: %s (vector %d) ---'' @ [CHR 0x0A]) [S name, W (ucast v)]
      else kmsg ([CHR 0x0A] @ ''--- KERNEL EXCEPTION %d: %s ---'' @ [CHR 0x0A]) [W (ucast v), S name]) @
     kmsg (''error_code=0x%lx'' @ [CHR 0x0A]) [W err] @
     kmsg (''rip=0x%lx cs=0x%lx rflags=0x%lx'' @ [CHR 0x0A]) [W (if_ip frame), W (if_cs frame), W (if_flags frame)] @
     kmsg (''rsp=0x%lx ss=0x%lx'' @ [CHR 0x0A]) [W (if_sp frame), W (if_ss frame)] @
     (if if_cs frame AND 3 = 3 then kmsg (''Process terminated (this is expected containment, not a kernel bug).'' @ [CHR 0x0A]) []
      else kmsg (''System halted.'' @ [CHR 0x0A]) [])"

text \<open>An exception of a vector below 32 is reported on the console, and then the processor stops for good with
  interrupts disabled. That holds for a fault of a user process too, although the message says that the process was
  terminated: no other task runs again.\<close>

theorem fault_handler_halts:
  assumes "console_ok s" "unat v < 32"
  shows "\<exists>name. exception_name v = Some name \<and> fault_report v err frame s = Some (say (fault_text name v err frame) s) \<and>
    isr v err frame s = None"
proof -
  obtain name where "exception_name v = Some name"
    using assms(2) by (simp add: exception_name_def exception_names_def)
  then show ?thesis
    using assms(1) by (simp add: isr_def fault_handler_def halt_loop_stuck fault_report_def fault_text_def kprintf_ok)
qed

theorem fault_handler_halts_witness:
  "isr 14 4 \<lparr>if_ip = 0x400000, if_cs = 0x23, if_flags = 0x202, if_sp = 0x7FF000, if_ss = 0x1B\<rparr> demo_machine = None"
  using fault_handler_halts [OF console_ok_demo, of 14 4 "\<lparr>if_ip = 0x400000, if_cs = 0x23, if_flags = 0x202, if_sp = 0x7FF000, if_ss = 0x1B\<rparr>"]
  by auto

end
