(* ===== verification/Pmm.thy ===== *)
theory Pmm
  imports Idt
begin

text \<open>\<open>physical_page_management.c\<close>: the boot-time bump allocator over the boot loader's memory map.\<close>

record memmap_entry =
  me_base :: u64
  me_length :: u64
  me_type :: u64

definition LIMINE_MEMMAP_USABLE :: u64 where "LIMINE_MEMMAP_USABLE = 0"

record pmm_state = idt_state +
  memmap :: "memmap_entry list"
  current_region :: nat
  next_free :: u64

definition memmap_type_str :: "u64 \<Rightarrow> string" where
  "memmap_type_str type =
     (if type = 0 then ''USABLE''
      else if type = 1 then ''RESERVED''
      else if type = 2 then ''ACPI_RECLAIMABLE''
      else if type = 3 then ''ACPI_NVS''
      else if type = 4 then ''BAD_MEMORY''
      else if type = 5 then ''BOOTLOADER_RECLAIMABLE''
      else if type = 6 then ''KERNEL_AND_MODULES''
      else if type = 7 then ''FRAMEBUFFER''
      else if type = 8 then ''EFI_RECLAIMABLE''
      else ''UNKNOWN'')"

definition region_is_usable :: "memmap_entry \<Rightarrow> bool" where
  "region_is_usable e \<longleftrightarrow> me_type e = LIMINE_MEMMAP_USABLE"

function find_next_usable_region :: "memmap_entry list \<Rightarrow> nat \<Rightarrow> nat" where
  "find_next_usable_region m i =
     (if i < length m then
        if region_is_usable (m ! i) then i else find_next_usable_region m (i + 1)
      else length m)"
  by pat_completeness auto
termination
  by (relation "measure (\<lambda>(m, i). length m - i)") auto

declare find_next_usable_region.simps [simp del]

definition pmm_init :: "memmap_entry list \<Rightarrow> 'a pmm_state_scheme \<Rightarrow> 'a pmm_state_scheme option" where
  "pmm_init m s =
     (let s = s\<lparr>memmap := m, next_free := 0\<rparr>;
          first_usable_index = find_next_usable_region (memmap s) 0
      in if first_usable_index = length (memmap s)
         then do { s \<leftarrow> kprintf (''pmm_init: no usable memory found!'' @ [CHR 0x0A]) [] s;
                   Some (s\<lparr>current_region := length (memmap s)\<rparr>) }
         else let s = s\<lparr>current_region := first_usable_index\<rparr>
              in Some (s\<lparr>next_free := me_base (memmap s ! current_region s)\<rparr>))"

lemma find_next_usable_region_ge:
  "find_next_usable_region m i = length m \<or> i \<le> find_next_usable_region m i"
  by (induction m i rule: find_next_usable_region.induct)
     (subst (1 2) find_next_usable_region.simps, auto)

lemma find_next_usable_region_le: "find_next_usable_region m i \<le> length m"
  by (induction m i rule: find_next_usable_region.induct)
     (subst find_next_usable_region.simps, auto)

lemma find_next_usable_region_usable:
  "find_next_usable_region m i < length m \<Longrightarrow> region_is_usable (m ! find_next_usable_region m i)"
  by (induction m i rule: find_next_usable_region.induct)
     (subst (asm) (2) find_next_usable_region.simps, subst find_next_usable_region.simps, auto split: if_splits)

function boot_alloc :: "u64 \<Rightarrow> 'a pmm_state_scheme \<Rightarrow> u64 \<times> 'a pmm_state_scheme" where
  "boot_alloc n s =
     (if current_region s < length (memmap s) then
        let entry = memmap s ! current_region s;
            region_end = me_base entry + me_length entry
        in if next_free s + n \<le> region_end then
             (let addr = next_free s in (addr, s\<lparr>next_free := next_free s + n\<rparr>))
           else
             let s1 = s\<lparr>current_region := find_next_usable_region (memmap s) (current_region s + 1)\<rparr>;
                 s2 = (if current_region s1 < length (memmap s1)
                       then s1\<lparr>next_free := me_base (memmap s1 ! current_region s1)\<rparr> else s1)
             in boot_alloc n s2
      else (0, s))"
  by pat_completeness auto
termination
proof (relation "measure (\<lambda>(n, s). length (memmap s) - current_region s)", goal_cases)
  case (2 n s entry region_end s1 s2)
  have "current_region s < current_region s1"
    using 2 find_next_usable_region_ge [of "memmap s" "current_region s + 1"] by auto
  then show ?case using 2 by auto
qed simp

declare boot_alloc.simps [simp del]

primrec pmm_dump_loop :: "nat list \<Rightarrow> 'a pmm_state_scheme \<Rightarrow> 'a pmm_state_scheme option" where
  "pmm_dump_loop [] s = Some s"
| "pmm_dump_loop (i # is) s =
     (let entry = memmap s ! i in
      do { s \<leftarrow> kprintf (''region=%ld base=%lx length=%lx type=%d type=%s'' @ [CHR 0x0A])
              [W (of_nat i), W (me_base entry), W (me_length entry), W (me_type entry),
               S (memmap_type_str (me_type entry))] s;
           pmm_dump_loop is s })"

definition pmm_dump :: "'a pmm_state_scheme \<Rightarrow> 'a pmm_state_scheme option" where
  "pmm_dump s =
     do { s \<leftarrow> kprintf (''PMM memmap entries=%ld'' @ [CHR 0x0A]) [W (of_nat (length (memmap s)))] s;
          pmm_dump_loop [0..<length (memmap s)] s }"

definition pmm_boot_alloc_region :: "'a pmm_state_scheme \<Rightarrow> nat" where
  "pmm_boot_alloc_region s = current_region s"

definition pmm_boot_alloc_next_free :: "'a pmm_state_scheme \<Rightarrow> u64" where
  "pmm_boot_alloc_next_free s = next_free s"

section \<open>The frontier\<close>

definition region_end :: "memmap_entry \<Rightarrow> nat" where
  "region_end e = unat (me_base e) + unat (me_length e)"

definition memmap_ok :: "memmap_entry list \<Rightarrow> bool" where
  "memmap_ok m \<longleftrightarrow> (\<forall>e \<in> set m. region_is_usable e \<longrightarrow> region_end e < 2 ^ 64)"

definition pmm_inv :: "'a pmm_state_scheme \<Rightarrow> bool" where
  "pmm_inv s \<longleftrightarrow> memmap_ok (memmap s) \<and> current_region s \<le> length (memmap s) \<and>
     (current_region s < length (memmap s) \<longrightarrow>
        (let e = memmap s ! current_region s
         in region_is_usable e \<and> me_base e \<le> next_free s \<and> unat (next_free s) \<le> region_end e))"

definition boot_request_ok :: "memmap_entry list \<Rightarrow> u64 \<Rightarrow> bool" where
  "boot_request_ok m n \<longleftrightarrow> (\<forall>e \<in> set m. region_is_usable e \<longrightarrow> region_end e + unat n < 2 ^ 64)"

lemma unat_region_end:
  "region_end e < 2 ^ 64 \<Longrightarrow> unat (me_base e + me_length e) = region_end e"
  unfolding region_end_def by (subst unat_add_lem [THEN iffD1]) auto

definition boot_alloc_post :: "u64 \<Rightarrow> 'a pmm_state_scheme \<Rightarrow> u64 \<Rightarrow> 'a pmm_state_scheme \<Rightarrow> bool" where
  "boot_alloc_post n s a s' \<longleftrightarrow>
     s' = s\<lparr>current_region := current_region s', next_free := next_free s'\<rparr> \<and>
     pmm_inv s' \<and>
     (if current_region s' < length (memmap s)
      then (let e = memmap s ! current_region s'
            in me_base e \<le> a \<and> unat a + unat n = unat (next_free s') \<and> unat (next_free s') \<le> region_end e \<and>
               (current_region s' = current_region s \<and> a = next_free s \<or>
                current_region s < current_region s' \<and> a = me_base e))
      else a = 0)"

lemma boot_alloc_correct:
  assumes "pmm_inv s" "boot_request_ok (memmap s) n" "boot_alloc n s = (a, s')"
  shows "boot_alloc_post n s a s'"
  using assms
proof (induction n s rule: boot_alloc.induct)
  case (1 n s)
  show ?case
  proof (cases "current_region s < length (memmap s)")
    case False
    then show ?thesis
      using "1.prems" by (subst (asm) boot_alloc.simps) (auto simp: boot_alloc_post_def pmm_inv_def)
  next
    case True
    define e where "e = memmap s ! current_region s"
    have e: "region_is_usable e" "me_base e \<le> next_free s" "unat (next_free s) \<le> region_end e"
      "e \<in> set (memmap s)"
      using "1.prems"(1) True by (auto simp: pmm_inv_def e_def Let_def)
    have lim: "region_end e < 2 ^ 64" "region_end e + unat n < 2 ^ 64"
      using "1.prems"(1,2) e by (auto simp: pmm_inv_def memmap_ok_def boot_request_ok_def)
    have sum: "unat (next_free s + n) = unat (next_free s) + unat n"
      using lim e(3) by (subst unat_add_lem [THEN iffD1]) auto
    show ?thesis
    proof (cases "next_free s + n \<le> me_base e + me_length e")
      case fits: True
      then have le: "unat (next_free s) + unat n \<le> region_end e"
        using sum unat_region_end [OF lim(1)] by (simp add: word_le_nat_alt)
      have "a = next_free s" "s' = s\<lparr>next_free := next_free s + n\<rparr>"
        using "1.prems"(3) True fits by (subst (asm) boot_alloc.simps, simp add: e_def Let_def)+
      then show ?thesis
        using "1.prems"(1) True e le sum
        by (auto simp: boot_alloc_post_def pmm_inv_def Let_def e_def word_le_nat_alt)
    next
      case False
      define r where "r = find_next_usable_region (memmap s) (current_region s + 1)"
      define s2 where "s2 = (if r < length (memmap s)
        then s\<lparr>current_region := r, next_free := me_base (memmap s ! r)\<rparr> else s\<lparr>current_region := r\<rparr>)"
      have r: "current_region s < r" "r \<le> length (memmap s)"
        using find_next_usable_region_ge [of "memmap s" "current_region s + 1"] True
          find_next_usable_region_le [of "memmap s" "current_region s + 1"] by (auto simp: r_def)
      have "boot_alloc n s2 = (a, s')"
        using "1.prems"(3) True False
        by (subst (asm) boot_alloc.simps) (simp add: e_def Let_def r_def s2_def split: if_splits)
      moreover have "pmm_inv s2"
        using "1.prems"(1) r find_next_usable_region_usable [of "memmap s" "current_region s + 1", folded r_def]
        by (auto simp: pmm_inv_def s2_def Let_def region_end_def)
      moreover have "boot_request_ok (memmap s2) n" "memmap s2 = memmap s"
        using "1.prems"(2) by (auto simp: s2_def)
      ultimately have post: "boot_alloc_post n s2 a s'"
        using "1.IH" [OF True e_def refl _ refl refl] False
        by (simp add: s2_def r_def e_def split: if_splits)
      have "current_region s' = r \<and> a = me_base (memmap s ! r) \<or> r < current_region s'"
        if "current_region s' < length (memmap s)"
        using post that r by (auto simp: boot_alloc_post_def s2_def Let_def split: if_splits)
      then show ?thesis
        using post r unfolding boot_alloc_post_def s2_def
        by (auto simp: Let_def split: if_splits)
    qed
  qed
qed

definition demo_pmm :: pmm_state where
  "demo_pmm = idt_state.extend demo_idt
     \<lparr>memmap = [\<lparr>me_base = 0, me_length = 0x1000, me_type = 1\<rparr>,
                \<lparr>me_base = 0x100000, me_length = 0x8000, me_type = 0\<rparr>,
                \<lparr>me_base = 0x200000, me_length = 0x4000, me_type = 0\<rparr>],
      current_region = 1, next_free = 0x100800\<rparr>"

lemma demo_pmm_fields:
  "memmap demo_pmm = [\<lparr>me_base = 0, me_length = 0x1000, me_type = 1\<rparr>,
     \<lparr>me_base = 0x100000, me_length = 0x8000, me_type = 0\<rparr>,
     \<lparr>me_base = 0x200000, me_length = 0x4000, me_type = 0\<rparr>]"
  "current_region demo_pmm = 1" "next_free demo_pmm = 0x100800"
  by (simp_all only: demo_pmm_def idt_state.defs pmm_state.simps)

lemma demo_pmm_inv: "pmm_inv demo_pmm"
  by (simp add: pmm_inv_def demo_pmm_fields memmap_ok_def region_end_def region_is_usable_def
      LIMINE_MEMMAP_USABLE_def)

text \<open>The bound check of \<open>boot_alloc\<close> adds the request to the frontier in 64 bits. While a region is current,
  every request so large that this sum wraps around is granted at the frontier, although its bytes lie in no region, and the
  frontier moves backwards: later requests are given memory that was already handed out.\<close>

theorem boot_alloc_wraps:
  assumes "pmm_inv s" "current_region s < length (memmap s)" "2 ^ 64 \<le> unat (next_free s) + unat n"
  shows "boot_alloc n s = (next_free s, s\<lparr>next_free := next_free s + n\<rparr>) \<and> next_free s + n < next_free s \<and>
    region_end (memmap s ! current_region s) < unat (next_free s) + unat n"
proof -
  let ?e = "memmap s ! current_region s"
  have e: "unat (next_free s) \<le> region_end ?e" "region_end ?e < 2 ^ 64"
    using assms(1,2) by (auto simp: pmm_inv_def Let_def memmap_ok_def)
  then have r: "unat (me_base ?e + me_length ?e) = region_end ?e" by (simp add: region_end_def unat_word_ariths)
  have "unat (next_free s + n) = unat (next_free s) + unat n - 2 ^ 64"
    using assms(3) unat_lt_u64 [of "next_free s"] unat_lt_u64 [of n] by (simp add: unat_word_ariths mod_if)
  then have less: "unat (next_free s + n) < unat (next_free s)" using unat_lt_u64 [of n] assms(3) by linarith
  then have "next_free s + n \<le> me_base ?e + me_length ?e" using e r by (simp add: word_le_nat_alt)
  then have "boot_alloc n s = (next_free s, s\<lparr>next_free := next_free s + n\<rparr>)"
    using assms(2) by (subst boot_alloc.simps) (simp add: Let_def)
  then show ?thesis using less e assms(3) by (simp add: word_less_nat_alt)
qed

theorem boot_alloc_wraps_witness:
  "boot_alloc 0xFFFFFFFFFFFFF700 demo_pmm = (0x100800, demo_pmm\<lparr>next_free := 0xFFF00\<rparr>)"
  using boot_alloc_wraps [OF demo_pmm_inv, of "0xFFFFFFFFFFFFF700"] by (simp add: demo_pmm_fields)

end
