(* ===== verification/PageAlloc.thy ===== *)
theory PageAlloc
  imports Pmm
begin

text \<open>\<open>page_alloc.c\<close>: the frame allocator. The array \<open>pages[]\<close> is a list of \<open>PageInfo\<close> records and a pointer into
it an index; the free list is the chain of \<open>pp_link\<close> fields. The invariant \<open>frames_inv\<close> says that the chain
ends and that allocated frames carry no link. The locale \<open>frame_allocator\<close> is the contract clients rely on.\<close>

record PageInfo =
  pp_link :: "nat option"
  pp_ref :: u16

record frame_state = pmm_state +
  pages :: "PageInfo list"
  pages_ptr :: u64
  npages :: nat
  page_free_list :: "nat option"

definition PGSIZE :: u64 where "PGSIZE = 4096"

definition SIZEOF_PAGEINFO :: u64 where "SIZEOF_PAGEINFO = 16"

definition page2pa :: "nat \<Rightarrow> u64" where
  "page2pa pp = of_nat pp * PGSIZE"

definition pa2page :: "u64 \<Rightarrow> nat" where
  "pa2page pa = unat (pa div PGSIZE)"

primrec max_usable_addr :: "memmap_entry list \<Rightarrow> u64 \<Rightarrow> u64" where
  "max_usable_addr [] max_addr = max_addr"
| "max_usable_addr (e # es) max_addr =
     max_usable_addr es
       (if me_type e = LIMINE_MEMMAP_USABLE then
          (let end = me_base e + me_length e in if end > max_addr then end else max_addr)
        else max_addr)"

definition push_frame :: "u64 \<Rightarrow> 'a frame_state_scheme \<Rightarrow> ('a frame_state_scheme, unit) flow option" where
  "push_frame addr s =
     (let idx = unat (addr div PGSIZE) in
      if idx \<ge> npages s then Some (Next s)
      else Some (Next (s\<lparr>pages := (pages s)[idx := (pages s ! idx)\<lparr>pp_link := page_free_list s\<rparr>],
                         page_free_list := Some idx\<rparr>)))"

definition free_region :: "memmap_entry list \<Rightarrow> nat \<Rightarrow> u64 \<Rightarrow> nat \<Rightarrow> 'a frame_state_scheme \<Rightarrow> ('a frame_state_scheme, unit) flow option" where
  "free_region m consumed_region consumed_frontier i s =
     (let entry = m ! i in
      if me_type entry \<noteq> LIMINE_MEMMAP_USABLE then Some (Next s)
      else
        let start = roundup (me_base entry) PGSIZE;
            end = rounddown (me_base entry + me_length entry) PGSIZE
        in if i < consumed_region then Some (Next s)
           else
             let start = (if i = consumed_region \<and> start < consumed_frontier
                          then roundup consumed_frontier PGSIZE else start)
             in for_pages push_frame start end s)"

partial_function (option) count_links :: "PageInfo list \<Rightarrow> nat option \<Rightarrow> nat \<Rightarrow> nat option" where
  "count_links ps p count =
     (case p of None \<Rightarrow> Some count
      | Some i \<Rightarrow> if i < length ps then count_links ps (pp_link (ps ! i)) (count + 1) else None)"

declare count_links.simps [code]

definition frame_alloc_init :: "memmap_entry list \<Rightarrow> 'a frame_state_scheme \<Rightarrow> 'a frame_state_scheme option" where
  "frame_alloc_init m s =
     (let max_addr = max_usable_addr m 0;
          s = s\<lparr>npages := unat (max_addr div PGSIZE)\<rparr>;
          (pages_phys, s) = boot_alloc (of_nat (npages s) * SIZEOF_PAGEINFO) s
      in if pages_phys = 0 \<and> npages s \<noteq> 0
         then kprintf (''frame_alloc_init: boot_alloc failed for pages[]'' @ [CHR 0x0A]) [] s
         else
           let s = s\<lparr>pages_ptr := phys_to_virt s pages_phys,
                      pages := replicate (npages s) \<lparr>pp_link = None, pp_ref = 0\<rparr>,
                      page_free_list := None\<rparr>;
               consumed_region = pmm_boot_alloc_region s;
               consumed_frontier = pmm_boot_alloc_next_free s
           in do { r \<leftarrow> foreach (free_region m consumed_region consumed_frontier) [0..<length m] s;
                   case r of
                     Ret _ \<Rightarrow> None
                   | Next s \<Rightarrow>
                       do { free_count \<leftarrow> count_links (pages s) (page_free_list s) 0;
                            kprintf (''frame_alloc_init: npages=%ld free=%ld'' @ [CHR 0x0A])
                              [W (of_nat (npages s)), W (of_nat free_count)] s } })"

definition ALLOC_ZERO :: u32 where "ALLOC_ZERO = 1"

primrec zero_bytes :: "nat \<Rightarrow> u64 \<Rightarrow> 'a machine_scheme \<Rightarrow> 'a machine_scheme" where
  "zero_bytes 0 va s = s"
| "zero_bytes (Suc n) va s = zero_bytes n (va + 1) (hwrite8 va 0 s)"

definition page_alloc :: "u32 \<Rightarrow> 'a frame_state_scheme \<Rightarrow> (nat option \<times> 'a frame_state_scheme) option" where
  "page_alloc flags s =
     do { (f, s) \<leftarrow> spinlock_acquire page_alloc_lock s;
          (case page_free_list s of
             None \<Rightarrow> Some (None, spinlock_release page_alloc_lock f s)
           | Some pp \<Rightarrow>
               if pp < length (pages s) then
                 let s = s\<lparr>page_free_list := pp_link (pages s ! pp)\<rparr>;
                     s = s\<lparr>pages := (pages s)[pp := (pages s ! pp)\<lparr>pp_link := None\<rparr>]\<rparr>;
                     s = spinlock_release page_alloc_lock f s;
                     s = (if flags AND ALLOC_ZERO \<noteq> 0
                          then zero_bytes 4096 (phys_to_virt s (page2pa pp)) s else s)
                 in Some (Some pp, s)
               else None) }"

definition page_free :: "nat \<Rightarrow> 'a frame_state_scheme \<Rightarrow> 'a frame_state_scheme option" where
  "page_free pp s =
     do { (f, s) \<leftarrow> spinlock_acquire page_alloc_lock s;
          if pp < length (pages s) then
            if pp_ref (pages s ! pp) \<noteq> 0 \<or> pp_link (pages s ! pp) \<noteq> None
            then (let s = spinlock_release page_alloc_lock f s
                  in kprintf (''page_free: bad free ref=%d'' @ [CHR 0x0A]) [W (ucast (pp_ref (pages s ! pp)))] s)
            else
              let s = s\<lparr>pages := (pages s)[pp := (pages s ! pp)\<lparr>pp_link := page_free_list s\<rparr>]\<rparr>;
                  s = s\<lparr>page_free_list := Some pp\<rparr>
              in Some (spinlock_release page_alloc_lock f s)
          else None }"

definition count_free :: "'a frame_state_scheme \<Rightarrow> (nat \<times> 'a frame_state_scheme) option" where
  "count_free s =
     do { (f, s) \<leftarrow> spinlock_acquire page_alloc_lock s;
          count \<leftarrow> count_links (pages s) (page_free_list s) 0;
          Some (count, spinlock_release page_alloc_lock f s) }"

section \<open>The free list\<close>

primrec flist :: "PageInfo list \<Rightarrow> nat option \<Rightarrow> nat list \<Rightarrow> bool" where
  "flist ps h [] \<longleftrightarrow> h = None"
| "flist ps h (x # xs) \<longleftrightarrow> h = Some x \<and> x < length ps \<and> flist ps (pp_link (ps ! x)) xs"

lemma flist_None [simp]: "flist ps None xs \<longleftrightarrow> xs = []"
  by (cases xs) auto

lemma flist_unique: "flist ps h xs \<Longrightarrow> flist ps h ys \<Longrightarrow> xs = ys"
proof (induction xs arbitrary: h ys)
  case Nil
  then show ?case by simp
next
  case (Cons x xs)
  then show ?case by (cases ys) auto
qed

lemma flist_update [simp]: "x \<notin> set xs \<Longrightarrow> flist (ps[x := p]) h xs \<longleftrightarrow> flist ps h xs"
  by (induction xs arbitrary: h) auto

lemma flist_append: "flist ps h (xs @ ys) \<Longrightarrow> \<exists>h'. flist ps h' ys"
  by (induction xs arbitrary: h) auto

lemma flist_distinct: "flist ps h xs \<Longrightarrow> distinct xs"
proof (induction xs arbitrary: h)
  case Nil
  then show ?case by simp
next
  case (Cons x xs)
  have "x \<notin> set xs"
  proof
    assume "x \<in> set xs"
    then obtain as bs where "xs = as @ x # bs" by (meson split_list)
    moreover have "flist ps (pp_link (ps ! x)) xs" using Cons.prems by simp
    ultimately have "flist ps (pp_link (ps ! x)) bs" "length bs < length xs"
      using flist_append [of ps "pp_link (ps ! x)" as "x # bs"] by auto
    then show False using flist_unique Cons.prems by fastforce
  qed
  then show ?case using Cons by auto
qed

lemma count_links_flist: "flist ps h xs \<Longrightarrow> count_links ps h n = Some (n + length xs)"
proof (induction xs arbitrary: h n)
  case Nil
  then show ?case by (subst count_links.simps) simp
next
  case (Cons x xs)
  then show ?case by (subst count_links.simps) simp
qed

definition free_frames :: "'a frame_state_scheme \<Rightarrow> nat set" where
  "free_frames s = {x. \<exists>xs. flist (pages s) (page_free_list s) xs \<and> x \<in> set xs}"

lemma free_frames_flist: "flist (pages s) (page_free_list s) xs \<Longrightarrow> free_frames s = set xs"
  unfolding free_frames_def using flist_unique by blast

definition frames_inv :: "'a frame_state_scheme \<Rightarrow> bool" where
  "frames_inv s \<longleftrightarrow> locks s page_alloc_lock = 0 \<and> length (pages s) \<le> 2 ^ 40 \<and>
     (\<exists>xs. flist (pages s) (page_free_list s) xs) \<and>
     (\<forall>i < length (pages s). i \<notin> free_frames s \<longrightarrow> pp_link (pages s ! i) = None)"

lemma frames_invE:
  assumes "frames_inv s"
  obtains xs where "flist (pages s) (page_free_list s) xs" "distinct xs" "free_frames s = set xs"
  using assms flist_distinct free_frames_flist unfolding frames_inv_def by blast

lemma zero_bytes_mem:
  "n < 2 ^ 64 \<Longrightarrow> zero_bytes n va s =
     s\<lparr>mem := (\<lambda>x. if unat (x - virt_to_phys s va) < n then 0 else mem s x)\<rparr>"
proof (induction n arbitrary: va s)
  case 0
  then show ?case by simp
next
  case (Suc n)
  let ?p = "virt_to_phys s va"
  have p: "virt_to_phys (hwrite8 va 0 s) (va + 1) = ?p + 1"
    by (simp add: virt_to_phys_def hwrite8_def)
  have eq: "(if unat (x - (?p + 1)) < n then 0 else ((mem s)(?p := 0)) x) =
      (if unat (x - ?p) < Suc n then 0 else mem s x)" for x
    by (cases "x = ?p") (simp_all add: unat_minus_Suc)
  have "zero_bytes (Suc n) va s =
      (hwrite8 va 0 s)\<lparr>mem := (\<lambda>x. if unat (x - (?p + 1)) < n then 0 else ((mem s)(?p := 0)) x)\<rparr>"
    using Suc p by (simp add: hwrite8_def cong: if_cong)
  then show ?case by (simp only: eq) (simp add: hwrite8_def)
qed

lemma zero_bytes_page:
  "zero_bytes 4096 (phys_to_virt s t) s = s\<lparr>mem := zero_page t (mem s)\<rparr>"
  by (simp add: zero_bytes_mem zero_page_def in_page_def)

definition alloc_post :: "u32 \<Rightarrow> 'a frame_state_scheme \<Rightarrow> nat \<Rightarrow> 'a frame_state_scheme \<Rightarrow> bool" where
  "alloc_post flags s pp s' \<longleftrightarrow>
     pp \<in> free_frames s \<and> free_frames s' = free_frames s - {pp} \<and> frames_inv s' \<and>
     s' = s\<lparr>mem := mem s', pages := pages s', page_free_list := page_free_list s'\<rparr> \<and>
     map pp_ref (pages s') = map pp_ref (pages s) \<and>
     mem s' = (if flags AND ALLOC_ZERO \<noteq> 0 then zero_page (page2pa pp) (mem s) else mem s)"

lemma map_pp_ref_update: "map pp_ref (ps[i := (ps ! i)\<lparr>pp_link := x\<rparr>]) = map pp_ref ps"
proof (cases "i < length ps")
  case True
  then show ?thesis by (simp add: map_update list_update_same_conv)
qed (simp add: list_update_beyond)

lemma free_frames_bound: "x \<in> free_frames s \<Longrightarrow> x < length (pages s)"
proof -
  have "flist ps h xs \<Longrightarrow> x \<in> set xs \<Longrightarrow> x < length ps" for ps :: "PageInfo list" and h xs
    by (induction xs arbitrary: h) auto
  then show "x \<in> free_frames s \<Longrightarrow> x < length (pages s)"
    by (auto simp: free_frames_def)
qed

lemma free_frames_empty: "frames_inv s \<Longrightarrow> page_free_list s = None \<longleftrightarrow> free_frames s = {}"
  by (elim frames_invE) (auto split: list.splits elim: list.exhaust)

lemma page_alloc_empty:
  assumes "frames_inv s" "free_frames s = {}"
  shows "page_alloc flags s = Some (None, s)"
  using assms free_frames_empty [OF assms(1)]
  by (simp add: page_alloc_def frames_inv_def)

lemma page_alloc_pop:
  assumes "frames_inv s" "free_frames s \<noteq> {}"
  obtains pp s' where "page_alloc flags s = Some (Some pp, s')" "alloc_post flags s pp s'"
proof -
  obtain xs where xs: "flist (pages s) (page_free_list s) xs" "distinct xs" "free_frames s = set xs"
    using assms(1) by (rule frames_invE)
  then obtain pp ys where ys: "xs = pp # ys"
    using assms(2) by (cases xs) auto
  let ?ps = "(pages s)[pp := (pages s ! pp)\<lparr>pp_link := None\<rparr>]"
  let ?m = "if flags AND ALLOC_ZERO \<noteq> 0 then zero_page (page2pa pp) (mem s) else mem s"
  define s' where "s' = s\<lparr>mem := ?m, pages := ?ps, page_free_list := pp_link (pages s ! pp)\<rparr>"
  have head: "page_free_list s = Some pp" "pp < length (pages s)" "pp \<notin> set ys"
    "flist (pages s) (pp_link (pages s ! pp)) ys"
    using xs ys by auto
  have lock: "locks s page_alloc_lock = 0" using assms(1) by (simp add: frames_inv_def)
  have run: "page_alloc flags s = Some (Some pp, s')"
    using head lock by (simp add: page_alloc_def s'_def zero_bytes_page Let_def)
  have fl: "flist (pages s') (page_free_list s') ys"
    using head by (simp add: s'_def)
  have ff: "free_frames s' = set ys" using free_frames_flist [OF fl] .
  have "frames_inv s'"
    using assms(1) fl ff xs(3) ys head(2)
    by (auto simp: frames_inv_def s'_def nth_list_update)
  then have "alloc_post flags s pp s'"
    using ff xs ys head by (auto simp: alloc_post_def s'_def map_pp_ref_update)
  with run that show thesis by blast
qed

lemma page_free_push:
  assumes "frames_inv s" "pp < length (pages s)" "pp \<notin> free_frames s" "pp_ref (pages s ! pp) = 0"
  obtains s' where "page_free pp s = Some s'" "frames_inv s'"
    "free_frames s' = insert pp (free_frames s)"
    "s' = s\<lparr>pages := pages s', page_free_list := Some pp\<rparr>" "map pp_ref (pages s') = map pp_ref (pages s)"
proof -
  obtain xs where xs: "flist (pages s) (page_free_list s) xs" "distinct xs" "free_frames s = set xs"
    using assms(1) by (rule frames_invE)
  define s' where "s' = s\<lparr>pages := (pages s)[pp := (pages s ! pp)\<lparr>pp_link := page_free_list s\<rparr>],
    page_free_list := Some pp\<rparr>"
  have inv: "locks s page_alloc_lock = 0" "pp_link (pages s ! pp) = None"
    using assms by (auto simp: frames_inv_def)
  have run: "page_free pp s = Some s'"
    using inv assms by (simp add: page_free_def s'_def Let_def)
  have fl: "flist (pages s') (page_free_list s') (pp # xs)"
    using xs assms by (simp add: s'_def)
  have ff: "free_frames s' = insert pp (free_frames s)"
    using free_frames_flist [OF fl] xs(3) by simp
  have "\<exists>ys. flist (pages s') (page_free_list s') ys" using fl by blast
  then have "frames_inv s'"
    using assms(1,2) ff by (simp add: frames_inv_def s'_def nth_list_update)
  with run ff show thesis by (intro that [of s']) (simp_all add: s'_def map_pp_ref_update)
qed

lemma page_free_refused:
  assumes "frames_inv s" "console_ok s" "pp < length (pages s)"
    "pp_ref (pages s ! pp) \<noteq> 0 \<or> pp_link (pages s ! pp) \<noteq> None"
  shows "page_free pp s =
    Some (say (kmsg (''page_free: bad free ref=%d'' @ [CHR 0x0A]) [W (ucast (pp_ref (pages s ! pp)))]) s)"
  using assms by (simp add: page_free_def frames_inv_def Let_def kprintf_ok)

lemma count_free_card:
  assumes "frames_inv s"
  shows "count_free s = Some (card (free_frames s), s)"
proof -
  obtain xs where xs: "flist (pages s) (page_free_list s) xs" "distinct xs" "free_frames s = set xs"
    using assms by (rule frames_invE)
  moreover have "locks s page_alloc_lock = 0" using assms by (simp add: frames_inv_def)
  ultimately show ?thesis
    by (simp add: count_free_def count_links_flist distinct_card)
qed

lemma frames_other_fields [simp]:
  "free_frames (s\<lparr>mem := m\<rparr>) = free_frames s" "frames_inv (s\<lparr>mem := m\<rparr>) = frames_inv s"
  "free_frames (s\<lparr>cr3 := c\<rparr>) = free_frames s" "frames_inv (s\<lparr>cr3 := c\<rparr>) = frames_inv s"
  "free_frames (s\<lparr>tlb_log := l\<rparr>) = free_frames s" "frames_inv (s\<lparr>tlb_log := l\<rparr>) = frames_inv s"
  "free_frames (say t s) = free_frames s" "frames_inv (say t s) = frames_inv s"
  by (simp_all add: free_frames_def frames_inv_def say_def)

lemma say_frame_fields [simp]:
  "pages (say t s) = pages s" "page_free_list (say t s) = page_free_list s" "npages (say t s) = npages s"
  by (simp_all add: say_def)

section \<open>Page frame addresses\<close>

lemma unat_page2pa: "pp < 2 ^ 40 \<Longrightarrow> unat (page2pa pp) = 4096 * pp"
  by (simp add: page2pa_def PGSIZE_def unat_word_ariths unat_of_nat)

lemma page_aligned_page2pa: "pp < 2 ^ 40 \<Longrightarrow> page_aligned (page2pa pp)"
  by (simp add: page_aligned_def unat_page2pa)

lemma pa2page_page2pa: "pp < 2 ^ 40 \<Longrightarrow> pa2page (page2pa pp) = pp"
  by (simp add: pa2page_def PGSIZE_def unat_div unat_page2pa)

lemma page2pa_inj: "p < 2 ^ 40 \<Longrightarrow> q < 2 ^ 40 \<Longrightarrow> page2pa p = page2pa q \<Longrightarrow> p = q"
  by (metis pa2page_page2pa)

section \<open>The allocator interface\<close>

primrec alloc_n :: "('s \<Rightarrow> (nat option \<times> 's) option) \<Rightarrow> nat \<Rightarrow> 's \<Rightarrow> (nat list \<times> 's) option" where
  "alloc_n alloc 0 s = Some ([], s)"
| "alloc_n alloc (Suc n) s =
     (case alloc s of
        Some (Some p, s) \<Rightarrow> do { (ps, s) \<leftarrow> alloc_n alloc n s; Some (p # ps, s) }
      | _ \<Rightarrow> None)"

primrec free_all :: "(nat \<Rightarrow> 's \<Rightarrow> 's option) \<Rightarrow> nat list \<Rightarrow> 's \<Rightarrow> 's option" where
  "free_all free [] s = Some s"
| "free_all free (p # ps) s = do { s \<leftarrow> free p s; free_all free ps s }"

locale frame_allocator =
  fixes alloc :: "u32 \<Rightarrow> 's \<Rightarrow> (nat option \<times> 's) option"
    and free :: "nat \<Rightarrow> 's \<Rightarrow> 's option"
    and invar :: "'s \<Rightarrow> bool"
    and avail :: "'s \<Rightarrow> nat set"
    and releasable :: "nat \<Rightarrow> 's \<Rightarrow> bool"
  assumes avail_finite: "invar s \<Longrightarrow> finite (avail s)"
    and alloc_fail: "invar s \<Longrightarrow> avail s = {} \<Longrightarrow> alloc f s = Some (None, s)"
    and alloc_ok: "invar s \<Longrightarrow> avail s \<noteq> {} \<Longrightarrow>
      \<exists>p s'. alloc f s = Some (Some p, s') \<and> p \<in> avail s \<and> avail s' = avail s - {p} \<and> invar s' \<and>
        (\<forall>q. releasable q s' \<longleftrightarrow> releasable q s)"
    and free_ok: "invar s \<Longrightarrow> releasable p s \<Longrightarrow> p \<notin> avail s \<Longrightarrow>
      \<exists>s'. free p s = Some s' \<and> avail s' = insert p (avail s) \<and> invar s' \<and>
        (\<forall>q. releasable q s' \<longleftrightarrow> releasable q s)"
begin

lemma alloc_n_ok:
  assumes "invar s" "n \<le> card (avail s)"
  shows "\<exists>ps s'. alloc_n (alloc f) n s = Some (ps, s') \<and> length ps = n \<and> distinct ps \<and>
    set ps \<subseteq> avail s \<and> avail s' = avail s - set ps \<and> invar s' \<and>
    (\<forall>q. releasable q s' \<longleftrightarrow> releasable q s)"
  using assms
proof (induction n arbitrary: s)
  case 0
  then show ?case by simp
next
  case (Suc n)
  then have "avail s \<noteq> {}" by auto
  then obtain p s1 where s1: "alloc f s = Some (Some p, s1)" "p \<in> avail s" "avail s1 = avail s - {p}"
    "invar s1" "\<forall>q. releasable q s1 \<longleftrightarrow> releasable q s"
    using alloc_ok [OF Suc.prems(1)] by blast
  have "n \<le> card (avail s1)"
    using Suc.prems s1 avail_finite by (simp add: card_Diff_singleton)
  then obtain ps s2 where "alloc_n (alloc f) n s1 = Some (ps, s2)" "length ps = n" "distinct ps"
    "set ps \<subseteq> avail s1" "avail s2 = avail s1 - set ps" "invar s2"
    "\<forall>q. releasable q s2 \<longleftrightarrow> releasable q s1"
    using Suc.IH [OF s1(4)] by blast
  then show ?case using s1 by (intro exI [of _ "p # ps"] exI [of _ s2]) auto
qed

lemma alloc_n_exhausted:
  assumes "invar s" "card (avail s) < n"
  shows "alloc_n (alloc f) n s = None"
  using assms
proof (induction n arbitrary: s)
  case 0
  then show ?case by simp
next
  case (Suc n)
  show ?case
  proof (cases "avail s = {}")
    case True
    then show ?thesis using alloc_fail [OF Suc.prems(1)] by simp
  next
    case False
    then obtain p s1 where s1: "alloc f s = Some (Some p, s1)" "p \<in> avail s" "avail s1 = avail s - {p}"
      "invar s1"
      using alloc_ok [OF Suc.prems(1)] by blast
    have "card (avail s1) < n"
      using Suc.prems s1 avail_finite False card_gt_0_iff [of "avail s"] by (simp add: card_Diff_singleton)
    then show ?thesis using Suc.IH [OF s1(4)] s1(1) by simp
  qed
qed

lemma free_all_ok:
  assumes "invar s" "distinct ps" "\<forall>p \<in> set ps. releasable p s \<and> p \<notin> avail s"
  shows "\<exists>s'. free_all free ps s = Some s' \<and> avail s' = avail s \<union> set ps \<and> invar s'"
  using assms
proof (induction ps arbitrary: s)
  case Nil
  then show ?case by simp
next
  case (Cons p ps)
  then obtain s1 where s1: "free p s = Some s1" "avail s1 = insert p (avail s)" "invar s1"
    "\<forall>q. releasable q s1 \<longleftrightarrow> releasable q s"
    using free_ok [of s p] by auto
  then obtain s2 where "free_all free ps s1 = Some s2" "avail s2 = avail s1 \<union> set ps" "invar s2"
    using Cons.IH [of s1] Cons.prems by auto
  then show ?case using s1 by auto
qed

lemma alloc_free_roundtrip:
  assumes "invar s" "n \<le> card (avail s)" "\<forall>p \<in> avail s. releasable p s"
  shows "\<exists>ps s1 s2. alloc_n (alloc f) n s = Some (ps, s1) \<and> free_all free ps s1 = Some s2 \<and>
    avail s2 = avail s \<and> invar s2"
proof -
  obtain ps s1 where s1: "alloc_n (alloc f) n s = Some (ps, s1)" "distinct ps" "set ps \<subseteq> avail s"
    "avail s1 = avail s - set ps" "invar s1" "\<forall>q. releasable q s1 \<longleftrightarrow> releasable q s"
    using alloc_n_ok [OF assms(1,2)] by blast
  then obtain s2 where "free_all free ps s1 = Some s2" "avail s2 = avail s1 \<union> set ps" "invar s2"
    using free_all_ok [of s1 ps] assms(3) by blast
  then show ?thesis using s1 by auto
qed

end

definition releasable :: "nat \<Rightarrow> 'a frame_state_scheme \<Rightarrow> bool" where
  "releasable pp s \<longleftrightarrow> pp < length (pages s) \<and> pp_ref (pages s ! pp) = 0"

lemma releasable_cong:
  assumes "map pp_ref (pages s') = map pp_ref (pages s)"
  shows "releasable q s' = releasable q s"
proof -
  have "length (pages s') = length (pages s)" using assms map_eq_imp_length_eq by blast
  then show ?thesis using assms unfolding releasable_def by (metis nth_map)
qed

interpretation fa: frame_allocator page_alloc page_free frames_inv free_frames releasable
proof unfold_locales
  fix s :: "'a frame_state_scheme" and f :: u32
  assume inv: "frames_inv s"
  show "finite (free_frames s)"
    using inv by (elim frames_invE) simp
  show "page_alloc f s = Some (None, s)" if "free_frames s = {}"
    using inv that by (rule page_alloc_empty)
  show "\<exists>p s'. page_alloc f s = Some (Some p, s') \<and> p \<in> free_frames s \<and>
      free_frames s' = free_frames s - {p} \<and> frames_inv s' \<and> (\<forall>q. releasable q s' = releasable q s)"
    if "free_frames s \<noteq> {}"
    using page_alloc_pop [OF inv that, of f] by (metis alloc_post_def releasable_cong)
  show "\<exists>s'. page_free p s = Some s' \<and> free_frames s' = insert p (free_frames s) \<and> frames_inv s' \<and>
      (\<forall>q. releasable q s' = releasable q s)"
    if "releasable p s" "p \<notin> free_frames s" for p
    using page_free_push [OF inv _ that(2)] that(1) releasable_cong unfolding releasable_def [of p s]
    by metis
qed

section \<open>Properties\<close>

definition demo_frames :: frame_state where
  "demo_frames = pmm_state.extend demo_pmm
     \<lparr>pages = [\<lparr>pp_link = None, pp_ref = 0\<rparr>, \<lparr>pp_link = Some 2, pp_ref = 0\<rparr>, \<lparr>pp_link = Some 3, pp_ref = 0\<rparr>,
        \<lparr>pp_link = Some 4, pp_ref = 0\<rparr>, \<lparr>pp_link = Some 5, pp_ref = 0\<rparr>, \<lparr>pp_link = None, pp_ref = 0\<rparr>,
        \<lparr>pp_link = None, pp_ref = 1\<rparr>],
      pages_ptr = 0xFFFF800000100800, npages = 7, page_free_list = Some 1\<rparr>"

lemma demo_frames_fields:
  "pages demo_frames = [\<lparr>pp_link = None, pp_ref = 0\<rparr>, \<lparr>pp_link = Some 2, pp_ref = 0\<rparr>,
     \<lparr>pp_link = Some 3, pp_ref = 0\<rparr>, \<lparr>pp_link = Some 4, pp_ref = 0\<rparr>, \<lparr>pp_link = Some 5, pp_ref = 0\<rparr>,
     \<lparr>pp_link = None, pp_ref = 0\<rparr>, \<lparr>pp_link = None, pp_ref = 1\<rparr>]"
  "page_free_list demo_frames = Some 1" "npages demo_frames = 7"
  "locks demo_frames = (\<lambda>_. 0)" "io_in demo_frames = (\<lambda>_ _. 0x20)" "mem demo_frames = (\<lambda>_. 0)"
  "cr3 demo_frames = 0" "g_hhdm_offset demo_frames = 0xFFFF800000000000"
  "memmap demo_frames = memmap demo_pmm"
  by (simp_all add: demo_frames_def demo_pmm_def demo_idt_def demo_gdt_def demo_machine_def
      pmm_state.defs idt_state.defs gdt_state.defs machine.defs)

lemma demo_frames_console: "console_ok demo_frames"
  using uart_liveI [of demo_frames] by (simp add: console_ok_def demo_frames_fields LSR_TX_EMPTY_def)

lemma demo_flist: "flist (pages demo_frames) (page_free_list demo_frames) [1, 2, 3, 4, 5]"
  by (simp add: demo_frames_fields)

lemma demo_free_frames: "free_frames demo_frames = {1, 2, 3, 4, 5}"
  using free_frames_flist [OF demo_flist] by simp

lemma demo_frames_inv: "frames_inv demo_frames"
proof -
  have six: "i = 0 \<or> i = 6" if "i < 7" "i \<notin> {1, 2, 3, 4, 5}" for i :: nat using that by auto
  have "pp_link (pages demo_frames ! i) = None" if "i < 7" "i \<notin> {1, 2, 3, 4, 5}" for i
    using six [OF that] by (auto simp: demo_frames_fields)
  moreover have "length (pages demo_frames) = 7" "locks demo_frames page_alloc_lock = 0"
    by (simp_all add: demo_frames_fields)
  moreover have "\<exists>xs. flist (pages demo_frames) (page_free_list demo_frames) xs" using demo_flist by blast
  ultimately show ?thesis unfolding frames_inv_def demo_free_frames by simp
qed

text \<open>Claim C22. On a well-formed allocator \<open>page_alloc\<close> always returns. Without free frames it
  returns \<open>NULL\<close> and changes nothing; otherwise it takes one frame off the free set, keeps the
  invariant, releases its lock with the interrupt flag restored, and the only memory it writes is the
  frame itself, zeroed when \<open>ALLOC_ZERO\<close> is asked for.\<close>

theorem page_alloc_correct:
  assumes "frames_inv s"
  shows "\<exists>r s'. page_alloc flags s = Some (r, s') \<and>
    (case r of None \<Rightarrow> free_frames s = {} \<and> s' = s | Some pp \<Rightarrow> alloc_post flags s pp s')"
proof (cases "free_frames s = {}")
  case True
  then show ?thesis using page_alloc_empty [OF assms] by auto
next
  case False
  then obtain pp s' where "page_alloc flags s = Some (Some pp, s')" "alloc_post flags s pp s'"
    using page_alloc_pop [OF assms] by blast
  then show ?thesis by (intro exI [of _ "Some pp"] exI [of _ s']) simp
qed

theorem page_alloc_correct_witness:
  "\<exists>r s'. page_alloc 1 demo_frames = Some (r, s') \<and>
    (case r of None \<Rightarrow> free_frames demo_frames = {} \<and> s' = demo_frames | Some pp \<Rightarrow> alloc_post 1 demo_frames pp s')"
  by (rule page_alloc_correct [OF demo_frames_inv])

text \<open>Claim C23. Freeing an allocated frame with no references puts it back in the free set, keeps the
  invariant and touches neither memory nor any reference count; a frame that still has references, or
  that is linked to a successor, is refused with a message and nothing changes.\<close>

theorem page_free_correct:
  assumes "frames_inv s" "console_ok s" "pp < length (pages s)"
  shows "\<exists>s'. page_free pp s = Some s' \<and> mem s' = mem s \<and> map pp_ref (pages s') = map pp_ref (pages s) \<and>
    (if pp_ref (pages s ! pp) \<noteq> 0 \<or> pp_link (pages s ! pp) \<noteq> None
     then pages s' = pages s \<and> page_free_list s' = page_free_list s \<and> frames_inv s'
     else pp \<notin> free_frames s \<longrightarrow> frames_inv s' \<and> free_frames s' = insert pp (free_frames s))"
proof (cases "pp_ref (pages s ! pp) \<noteq> 0 \<or> pp_link (pages s ! pp) \<noteq> None")
  case True
  then show ?thesis using page_free_refused [OF assms] assms(1) by simp
next
  case False
  show ?thesis
  proof (cases "pp \<in> free_frames s")
    case True
    have "locks s page_alloc_lock = 0" using assms(1) by (simp add: frames_inv_def)
    then show ?thesis using False True assms(3) by (simp add: page_free_def Let_def map_pp_ref_update)
  next
    case new: False
    obtain s' where s': "page_free pp s = Some s'" "frames_inv s'" "free_frames s' = insert pp (free_frames s)"
      "s' = s\<lparr>pages := pages s', page_free_list := Some pp\<rparr>" "map pp_ref (pages s') = map pp_ref (pages s)"
      using page_free_push [OF assms(1,3) new] False by blast
    have "mem s' = mem s" by (subst s'(4)) simp
    then show ?thesis using s' False by (intro exI [of _ s']) simp
  qed
qed

theorem page_free_correct_witness:
  "\<exists>s'. page_free 6 demo_frames = Some s' \<and> pages s' = pages demo_frames \<and> frames_inv s'"
  using page_free_correct [OF demo_frames_inv demo_frames_console, of 6]
  by (auto simp: demo_frames_fields)

text \<open>\<open>count_free\<close> terminates and returns the number of free frames, changing nothing.\<close>

theorem count_free_counts:
  assumes "frames_inv s"
  shows "count_free s = Some (card (free_frames s), s)"
  by (rule count_free_card [OF assms])

theorem count_free_counts_witness: "count_free demo_frames = Some (5, demo_frames)"
  using count_free_counts [OF demo_frames_inv] by (simp add: demo_free_frames)

text \<open>Claim C27. Any number of frames up to the free count can be allocated one after the other, all
  distinct, and freeing them again restores the free set.\<close>

theorem frames_roundtrip:
  fixes s :: "'a frame_state_scheme"
  assumes "frames_inv s" "n \<le> card (free_frames s)" "\<forall>p \<in> free_frames s. pp_ref (pages s ! p) = 0"
  shows "\<exists>ps s1 s2. alloc_n (page_alloc flags) n s = Some (ps, s1) \<and> free_all page_free ps s1 = Some s2 \<and>
    free_frames s2 = free_frames s \<and> frames_inv s2"
proof -
  have "\<forall>p \<in> free_frames s. releasable p s"
    using assms(3) free_frames_bound by (auto simp: releasable_def)
  then show ?thesis by (rule fa.alloc_free_roundtrip [OF assms(1,2)])
qed

theorem frames_roundtrip_witness:
  "\<exists>ps s1 s2. alloc_n (page_alloc 0) 3 demo_frames = Some (ps, s1) \<and> free_all page_free ps s1 = Some s2 \<and>
    free_frames s2 = {1, 2, 3, 4, 5} \<and> frames_inv s2"
  using frames_roundtrip [OF demo_frames_inv, of 3 0] by (simp add: demo_free_frames demo_frames_fields)

lemma count_links_ends:
  assumes "count_links ps h n = Some k"
  shows "\<exists>xs. flist ps h xs"
proof (rule count_links.raw_induct [where P = "\<lambda>ps h n k. \<exists>xs. flist ps h xs", OF _ assms])
  fix f :: "PageInfo list \<Rightarrow> nat option \<Rightarrow> nat \<Rightarrow> nat option" and ps h n k
  assume IH: "\<And>ps h n k. f ps h n = Some k \<Longrightarrow> \<exists>xs. flist ps h xs"
    and eq: "(case h of None \<Rightarrow> Some n
      | Some i \<Rightarrow> if i < length ps then f ps (pp_link (ps ! i)) (n + 1) else None) = Some k"
  show "\<exists>xs. flist ps h xs"
  proof (cases h)
    case None
    then show ?thesis by (intro exI [of _ "[]"]) simp
  next
    case (Some i)
    then have "i < length ps" "f ps (pp_link (ps ! i)) (n + 1) = Some k"
      using eq by (simp_all split: if_splits)
    then obtain xs where "flist ps (pp_link (ps ! i)) xs" using IH by blast
    then show ?thesis using Some \<open>i < length ps\<close> by (intro exI [of _ "i # xs"]) simp
  qed
qed

lemma flist_follow:
  assumes "flist ps h (ys @ [p])" "p \<notin> set ys" "flist (ps[p := q]) h zs"
  shows "\<exists>rest. zs = ys @ p # rest"
  using assms
proof (induction ys arbitrary: h zs)
  case Nil
  then show ?case by (cases zs) auto
next
  case (Cons y ys)
  then obtain zs' where "zs = y # zs'" by (cases zs) auto
  then show ?case using Cons by auto
qed

text \<open>Claim C28. The double-free check of \<open>page_free\<close> tests the link field, which is \<open>NULL\<close> for the last frame of
  the free list too. Freeing that frame again is accepted and closes the list into a cycle: the
  allocator invariant is lost and \<open>count_free\<close> never returns.\<close>

theorem double_free_of_last:
  assumes "frames_inv s" "pp \<in> free_frames s" "pp_link (pages s ! pp) = None" "pp_ref (pages s ! pp) = 0"
  shows "\<exists>s'. page_free pp s = Some s' \<and> \<not> frames_inv s' \<and> count_free s' = None"
proof -
  obtain xs where xs: "flist (pages s) (page_free_list s) xs" "distinct xs" "free_frames s = set xs"
    using assms(1) by (rule frames_invE)
  then obtain ys zs where split: "xs = ys @ pp # zs" using assms(2) by (metis split_list)
  have lt: "pp < length (pages s)" using assms(2) by (rule free_frames_bound)
  have "\<exists>h. flist (pages s) h (pp # zs)" using xs(1) flist_append unfolding split by blast
  then have "zs = []" using assms(3) by auto
  then have xs': "flist (pages s) (page_free_list s) (ys @ [pp])" "pp \<notin> set ys" using xs(1,2) split by auto
  have lock: "locks s page_alloc_lock = 0" using assms(1) by (simp add: frames_inv_def)
  define q where "q = (pages s ! pp)\<lparr>pp_link := page_free_list s\<rparr>"
  define s' where "s' = s\<lparr>pages := (pages s)[pp := q], page_free_list := Some pp\<rparr>"
  have run: "page_free pp s = Some s'"
    using lock lt assms(3,4) by (simp add: page_free_def Let_def s'_def q_def)
  have nolist: "\<not> flist ((pages s)[pp := q]) (Some pp) ws" for ws
  proof
    assume fl: "flist ((pages s)[pp := q]) (Some pp) ws"
    then obtain ws' where ws: "ws = pp # ws'" by (cases ws) auto
    then have "flist ((pages s)[pp := q]) (page_free_list s) ws'" using fl lt by (simp add: q_def)
    then obtain rest where "ws' = ys @ pp # rest" using flist_follow [OF xs'] by blast
    then show False using flist_distinct [OF fl] ws by simp
  qed
  have "count_links ((pages s)[pp := q]) (Some pp) 0 = None"
    using count_links_ends nolist by (cases "count_links ((pages s)[pp := q]) (Some pp) 0") blast+
  then have "count_free s' = None" using lock by (simp add: count_free_def s'_def)
  moreover have "\<not> frames_inv s'" using nolist by (simp add: frames_inv_def s'_def)
  ultimately show ?thesis using run by blast
qed

theorem double_free_of_last_witness:
  "\<exists>s'. page_free 5 demo_frames = Some s' \<and> \<not> frames_inv s' \<and> count_free s' = None"
  using double_free_of_last [OF demo_frames_inv, of 5] by (simp add: demo_free_frames demo_frames_fields)

end
