(* ===== verification/FrameInit.thy ===== *)
theory FrameInit
  imports PageAlloc
begin

text \<open>Correctness of \<open>frame_alloc_init\<close>: which frames the initial free list holds, for well-formed memory maps.\<close>

section \<open>Building the free list\<close>

definition memmap_wf :: "memmap_entry list \<Rightarrow> bool" where
  "memmap_wf m \<longleftrightarrow>
     (\<forall>e \<in> set m. region_is_usable e \<longrightarrow> region_end e \<le> 2 ^ 52) \<and>
     (\<forall>j < length m. \<forall>i < j. region_is_usable (m ! i) \<longrightarrow> region_is_usable (m ! j) \<longrightarrow>
        region_end (m ! i) \<le> unat (me_base (m ! j)))"

definition region_start :: "memmap_entry list \<Rightarrow> nat \<Rightarrow> nat \<Rightarrow> nat \<Rightarrow> nat" where
  "region_start m r f i = (if i = r then max (unat (me_base (m ! i))) f else unat (me_base (m ! i)))"

definition region_frames :: "memmap_entry list \<Rightarrow> nat \<Rightarrow> nat \<Rightarrow> nat \<Rightarrow> nat list" where
  "region_frames m r f i =
     (if region_is_usable (m ! i) \<and> r \<le> i
      then [(region_start m r f i + 4095) div 4096 ..< region_end (m ! i) div 4096] else [])"

definition usable_frames :: "memmap_entry list \<Rightarrow> nat \<Rightarrow> nat \<Rightarrow> nat set" where
  "usable_frames m r f =
     {k. \<exists>i < length m. region_is_usable (m ! i) \<and> r \<le> i \<and>
         region_start m r f i \<le> 4096 * k \<and> 4096 * k + 4096 \<le> region_end (m ! i)}"

definition fl_state :: "'a frame_state_scheme \<Rightarrow> nat list \<Rightarrow> bool" where
  "fl_state s xs \<longleftrightarrow> flist (pages s) (page_free_list s) xs \<and> length (pages s) = npages s \<and>
     (\<forall>i < length (pages s). i \<notin> set xs \<longrightarrow> pp_link (pages s ! i) = None)"

definition only_list_changed :: "'a frame_state_scheme \<Rightarrow> 'a frame_state_scheme \<Rightarrow> bool" where
  "only_list_changed s s' \<longleftrightarrow> (\<exists>ps h. s' = s\<lparr>pages := ps, page_free_list := h\<rparr>)"

lemma only_list_changed_refl [simp]: "only_list_changed s s"
  unfolding only_list_changed_def by (rule exI [of _ "pages s"], rule exI [of _ "page_free_list s"]) simp

lemma only_list_changed_trans:
  "only_list_changed s t \<Longrightarrow> only_list_changed t u \<Longrightarrow> only_list_changed s u"
  by (auto simp: only_list_changed_def) blast

lemma only_list_changed_npages: "only_list_changed s s' \<Longrightarrow> npages s' = npages s"
  by (auto simp: only_list_changed_def)

lemma push_frame_step:
  assumes "fl_state s xs" "idx = unat (addr div 4096)" "idx < npages s" "idx \<notin> set xs"
  shows "\<exists>s'. push_frame addr s = Some (Next s') \<and> fl_state s' (idx # xs) \<and> only_list_changed s s'"
proof -
  define s' where "s' = s\<lparr>pages := (pages s)[idx := (pages s ! idx)\<lparr>pp_link := page_free_list s\<rparr>],
    page_free_list := Some idx\<rparr>"
  have "push_frame addr s = Some (Next s')"
    using assms(2,3) by (simp add: push_frame_def PGSIZE_def s'_def Let_def)
  moreover have "fl_state s' (idx # xs)"
    using assms by (auto simp: fl_state_def s'_def nth_list_update)
  moreover have "only_list_changed s s'"
    by (auto simp: only_list_changed_def s'_def)
  ultimately show ?thesis by blast
qed

lemma push_frames:
  assumes "fl_state s xs" "distinct (map (\<lambda>a. unat (a div 4096)) as)"
    "\<And>a. a \<in> set as \<Longrightarrow> unat (a div 4096) < npages s \<and> unat (a div 4096) \<notin> set xs"
  shows "\<exists>s'. foreach push_frame as s = Some (Next s') \<and>
    fl_state s' (rev (map (\<lambda>a. unat (a div 4096)) as) @ xs) \<and> only_list_changed s s'"
  using assms
proof (induction as arbitrary: s xs)
  case Nil
  then show ?case by simp
next
  case (Cons a as)
  let ?idx = "\<lambda>a :: u64. unat (a div 4096)"
  have "?idx a < npages s" "?idx a \<notin> set xs" using Cons.prems(3) [of a] by simp_all
  then obtain s1 where s1: "push_frame a s = Some (Next s1)" "fl_state s1 (?idx a # xs)"
    "only_list_changed s s1"
    using push_frame_step [OF Cons.prems(1) refl] by blast
  have rest: "?idx b < npages s1 \<and> ?idx b \<notin> set (?idx a # xs)" if "b \<in> set as" for b
  proof -
    have "?idx b \<in> ?idx ` set as" using that by (rule imageI)
    moreover have "?idx a \<notin> ?idx ` set as" using Cons.prems(2) by simp
    ultimately have "?idx b \<noteq> ?idx a" by metis
    then show ?thesis
      using Cons.prems(3) [of b] that only_list_changed_npages [OF s1(3)] by simp
  qed
  have "distinct (map ?idx as)" using Cons.prems(2) by simp
  then obtain s2 where s2: "foreach push_frame as s1 = Some (Next s2)"
    "fl_state s2 (rev (map ?idx as) @ ?idx a # xs)" "only_list_changed s1 s2"
    using Cons.IH [OF s1(2)] rest by blast
  then show ?case
    using s1 only_list_changed_trans [OF s1(3) s2(3)] by simp
qed

lemma map_page_range:
  assumes "page_aligned a" "page_aligned b"
  shows "map (\<lambda>x. unat (x div 4096)) (page_range a b) = [unat a div 4096 ..< unat b div 4096]"
proof -
  obtain x y where xy: "unat a = 4096 * x" "unat b = 4096 * y"
    using assms by (auto elim!: page_alignedE)
  have "unat ((a + 4096 * of_nat i) div 4096) = x + i" if "i < y - x" for i
  proof -
    have "unat a + 4096 * i < 2 ^ 64" using that xy unat_lt_u64 [of b] by simp
    then have "unat (a + 4096 * of_nat i) = unat a + 4096 * i"
      by (simp add: unat_word_ariths unat_of_nat)
    then show ?thesis using xy by (simp add: unat_div)
  qed
  moreover have "(unat b - unat a) div 4096 = y - x"
    using xy by (simp flip: diff_mult_distrib2)
  ultimately show ?thesis
    using xy by (auto simp: page_range_def map_add_upt intro!: nth_equalityI)
qed

lemma foreach_append:
  "foreach f (xs @ ys) s =
     (case foreach f xs s of Some (Next s') \<Rightarrow> foreach f ys s' | r \<Rightarrow> r)"
  by (induction xs arbitrary: s) (auto split: option.split flow.split)

lemma roundup_max:
  assumes "(b + 4095) div 4096 * 4096 \<ge> f"
  shows "(max b f + 4095) div 4096 = (b + 4095) div (4096 :: nat)"
proof (cases "f \<le> b")
  case False
  then have "(b + 4095) div 4096 \<le> (f + 4095) div 4096" by (simp add: div_le_mono)
  moreover have "f + 4095 < ((b + 4095) div 4096 + 1) * 4096" using assms by simp
  then have "(f + 4095) div 4096 < (b + 4095) div 4096 + 1" by (rule less_mult_imp_div_less)
  ultimately show ?thesis using False by simp
qed simp

lemma free_region_step:
  assumes wf: "memmap_wf m" "i < length m"
    and f: "region_is_usable (m ! i) \<Longrightarrow> i = r \<Longrightarrow> unat f \<le> region_end (m ! i)"
    and fl: "fl_state s xs" "set (region_frames m r (unat f) i) \<inter> set xs = {}"
      "\<forall>k \<in> set (region_frames m r (unat f) i). k < npages s"
  shows "\<exists>s'. free_region m r f i s = Some (Next s') \<and>
    fl_state s' (rev (region_frames m r (unat f) i) @ xs) \<and> only_list_changed s s'"
proof (cases "region_is_usable (m ! i) \<and> r \<le> i")
  case False
  have "free_region m r f i s = Some (Next s)"
    using False by (auto simp: free_region_def region_is_usable_def Let_def)
  moreover have "region_frames m r (unat f) i = []" using False by (auto simp: region_frames_def)
  ultimately show ?thesis using fl(1) by simp
next
  case True
  define e where "e = m ! i"
  have e: "e \<in> set m" "region_is_usable e" using wf(2) True by (auto simp: e_def)
  then have lim: "region_end e \<le> 2 ^ 52" using wf(1) by (auto simp: memmap_wf_def)
  then have be: "unat (me_base e) + 4095 < 2 ^ 64" "unat (me_base e + me_length e) = region_end e"
    using unat_region_end [of e] by (auto simp: region_end_def)
  define a0 where "a0 = roundup (me_base e) 4096"
  define a where "a = (if i = r \<and> a0 < f then roundup f 4096 else a0)"
  define b where "b = rounddown (me_base e + me_length e) 4096"
  have a0: "unat a0 = (unat (me_base e) + 4095) div 4096 * 4096"
    unfolding a0_def using be(1) by (rule unat_roundup_page)
  have a: "unat a div 4096 = (region_start m r (unat f) i + 4095) div 4096"
  proof (cases "i = r \<and> a0 < f")
    case True
    then have "unat f \<le> 2 ^ 52" using f \<open>region_is_usable (m ! i) \<and> r \<le> i\<close> lim by (simp add: e_def)
    then have "unat (roundup f 4096) = (unat f + 4095) div 4096 * 4096"
      by (intro unat_roundup_page) simp
    moreover have "unat (me_base e) < unat f"
      using True a0 by (auto simp: word_less_nat_alt)
    ultimately show ?thesis using True by (simp add: a_def region_start_def e_def)
  next
    case False
    then have "a = a0" by (auto simp: a_def)
    moreover have "(region_start m r (unat f) i + 4095) div 4096 = (unat (me_base e) + 4095) div 4096"
    proof (cases "i = r")
      case True
      then have "unat f \<le> (unat (me_base e) + 4095) div 4096 * 4096"
        using False a0 by (simp add: word_less_nat_alt)
      then show ?thesis using roundup_max True by (simp add: region_start_def e_def)
    qed (simp add: region_start_def e_def)
    ultimately show ?thesis using a0 by simp
  qed
  have b: "unat b div 4096 = region_end e div 4096"
    unfolding b_def by (simp add: unat_rounddown_page be(2))
  have al: "page_aligned a" "page_aligned b" by (simp_all add: a_def a0_def b_def)
  have rf: "map (\<lambda>x. unat (x div 4096)) (page_range a b) = region_frames m r (unat f) i"
    using map_page_range [OF al] a b True by (simp add: region_frames_def e_def)
  have mem: "unat (x div 4096) \<in> set (region_frames m r (unat f) i)" if "x \<in> set (page_range a b)" for x
    unfolding rf [symmetric] using that by simp
  have "distinct (map (\<lambda>x. unat (x div 4096)) (page_range a b))"
    unfolding rf by (simp add: region_frames_def)
  moreover have "unat (x div 4096) < npages s \<and> unat (x div 4096) \<notin> set xs" if "x \<in> set (page_range a b)" for x
    using mem [OF that] fl(2,3) by blast
  ultimately obtain s' where "foreach push_frame (page_range a b) s = Some (Next s')"
    "fl_state s' (rev (region_frames m r (unat f) i) @ xs)" "only_list_changed s s'"
    using push_frames [OF fl(1), of "page_range a b"] unfolding rf by blast
  moreover have "free_region m r f i s = for_pages push_frame a b s"
    using True by (auto simp: free_region_def region_is_usable_def Let_def e_def [symmetric]
        a_def a0_def b_def PGSIZE_def)
  ultimately show ?thesis by (auto simp: for_pages_foreach [OF al])
qed

lemma region_frames_disjoint:
  assumes "memmap_wf m" "j < i" "i < length m"
  shows "set (region_frames m r f i) \<inter> set (region_frames m r f j) = {}"
proof -
  have "k' < k" if "k \<in> set (region_frames m r f i)" "k' \<in> set (region_frames m r f j)" for k k'
  proof -
    have "region_end (m ! j) \<le> unat (me_base (m ! i))"
      using assms that unfolding memmap_wf_def region_frames_def by (auto split: if_splits)
    also have "\<dots> \<le> region_start m r f i" by (simp add: region_start_def)
    finally have "region_end (m ! j) div 4096 \<le> (region_start m r f i + 4095) div 4096"
      by (intro div_le_mono) simp
    then show ?thesis using that by (auto simp: region_frames_def split: if_splits)
  qed
  then show ?thesis by fastforce
qed

definition frames_upto :: "memmap_entry list \<Rightarrow> nat \<Rightarrow> nat \<Rightarrow> nat \<Rightarrow> nat list" where
  "frames_upto m r f n = rev (concat (map (region_frames m r f) [0..<n]))"

lemma free_regions:
  assumes wf: "memmap_wf m" "n \<le> length m"
    and f: "r < length m \<Longrightarrow> unat f \<le> region_end (m ! r)"
    and fl: "fl_state s []"
      "\<forall>i < length m. \<forall>k \<in> set (region_frames m r (unat f) i). k < npages s"
  shows "\<exists>s'. foreach (free_region m r f) [0..<n] s = Some (Next s') \<and>
    fl_state s' (frames_upto m r (unat f) n) \<and> only_list_changed s s'"
  using wf(2)
proof (induction n)
  case 0
  then show ?case using fl(1) by (simp add: frames_upto_def)
next
  case (Suc n)
  then obtain s1 where s1: "foreach (free_region m r f) [0..<n] s = Some (Next s1)"
    "fl_state s1 (frames_upto m r (unat f) n)" "only_list_changed s s1"
    by auto
  have n: "n < length m" using Suc.prems by simp
  have "set (region_frames m r (unat f) n) \<inter> set (frames_upto m r (unat f) n) = {}"
    using region_frames_disjoint [OF wf(1) _ n] by (fastforce simp: frames_upto_def)
  moreover have "\<forall>k \<in> set (region_frames m r (unat f) n). k < npages s1"
    using fl(2) n only_list_changed_npages [OF s1(3)] by simp
  moreover have "unat f \<le> region_end (m ! n)" if "region_is_usable (m ! n)" "n = r"
    using f n that by simp
  ultimately obtain s2 where s2: "free_region m r f n s1 = Some (Next s2)"
    "fl_state s2 (rev (region_frames m r (unat f) n) @ frames_upto m r (unat f) n)" "only_list_changed s1 s2"
    using free_region_step [OF wf(1) n _ s1(2), of r f] by blast
  then show ?case
    using s1(1) only_list_changed_trans [OF s1(3) s2(3)]
    by (simp add: foreach_append frames_upto_def)
qed

lemma set_region_frames:
  "set (region_frames m r f i) = {k. region_is_usable (m ! i) \<and> r \<le> i \<and>
     region_start m r f i \<le> 4096 * k \<and> 4096 * k + 4096 \<le> region_end (m ! i)}"
proof -
  have "(a + 4095) div 4096 \<le> k \<longleftrightarrow> a \<le> 4096 * k" for a k :: nat
    using div_less_iff_less_mult [of 4096 "a + 4095" "Suc k"] by auto
  moreover have "k < b div 4096 \<longleftrightarrow> 4096 * k + 4096 \<le> b" for k b :: nat
    using less_eq_div_iff_mult_less_eq [of 4096 "Suc k" b] by auto
  ultimately show ?thesis by (auto simp: region_frames_def)
qed

lemma set_frames_upto: "set (frames_upto m r f (length m)) = usable_frames m r f"
  by (auto simp: frames_upto_def set_region_frames usable_frames_def)

lemma max_usable_addr_ge: "max_addr \<le> max_usable_addr m max_addr"
proof (induction m arbitrary: max_addr)
  case Nil
  then show ?case by simp
next
  case (Cons e es)
  then show ?case by (auto simp: Let_def) (meson order_trans less_imp_le)
qed

lemma max_usable_addr_region:
  "e \<in> set m \<Longrightarrow> region_is_usable e \<Longrightarrow> me_base e + me_length e \<le> max_usable_addr m a"
proof (induction m arbitrary: a)
  case Nil
  then show ?case by simp
next
  case (Cons d es)
  show ?case
  proof (cases "e = d")
    case True
    then have "me_base e + me_length e \<le> (if me_base d + me_length d > a then me_base d + me_length d else a)"
      by auto
    then show ?thesis
      using True Cons.prems(2) max_usable_addr_ge order_trans
      by (fastforce simp: region_is_usable_def Let_def)
  next
    case False
    then show ?thesis using Cons by simp
  qed
qed

lemma max_usable_addr_bound:
  "\<forall>e \<in> set m. region_is_usable e \<longrightarrow> me_base e + me_length e \<le> c \<Longrightarrow> a \<le> c \<Longrightarrow> max_usable_addr m a \<le> c"
  by (induction m arbitrary: a) (auto simp: region_is_usable_def Let_def)

lemma npages_bounds:
  assumes "memmap_wf m" "np = unat (max_usable_addr m 0 div PGSIZE)"
  shows "np \<le> 2 ^ 40" "\<And>i k. i < length m \<Longrightarrow> k \<in> set (region_frames m r f i) \<Longrightarrow> k < np"
proof -
  have lim: "unat (me_base e + me_length e) = region_end e" "region_end e \<le> 2 ^ 52"
    if "e \<in> set m" "region_is_usable e" for e
    using that assms(1) unat_region_end [of e] by (auto simp: memmap_wf_def)
  then have "max_usable_addr m 0 \<le> 2 ^ 52"
    by (intro max_usable_addr_bound) (auto simp: word_le_nat_alt)
  then show "np \<le> 2 ^ 40"
    using assms(2) div_le_mono [of "unat (max_usable_addr m 0)" "2 ^ 52" 4096]
    by (simp add: PGSIZE_def unat_div word_le_nat_alt)
  fix i k
  assume i: "i < length m" and k: "k \<in> set (region_frames m r f i)"
  then have "region_is_usable (m ! i)" "4096 * k + 4096 \<le> region_end (m ! i)"
    by (auto simp: set_region_frames)
  moreover have "region_end (m ! i) \<le> unat (max_usable_addr m 0)"
    using max_usable_addr_region [of "m ! i" m 0] lim(1) [of "m ! i"] i calculation(1)
    by (simp add: word_le_nat_alt)
  ultimately have "4096 * Suc k \<le> unat (max_usable_addr m 0)" by simp
  then have "Suc k \<le> unat (max_usable_addr m 0) div 4096"
    by (simp add: less_eq_div_iff_mult_less_eq mult.commute)
  then show "k < np" using assms(2) by (simp add: PGSIZE_def unat_div)
qed

lemma memmap_wf_ok: "memmap_wf m \<Longrightarrow> memmap_ok m"
  by (fastforce simp: memmap_wf_def memmap_ok_def)

lemma pages_request_ok:
  assumes "memmap_wf m" "np \<le> 2 ^ 40"
  shows "boot_request_ok m (of_nat np * SIZEOF_PAGEINFO)"
proof -
  have "unat (of_nat np * SIZEOF_PAGEINFO) = 16 * np"
    using assms(2) by (simp add: SIZEOF_PAGEINFO_def unat_word_ariths unat_of_nat)
  then show ?thesis using assms by (fastforce simp: boot_request_ok_def memmap_wf_def)
qed

lemma fl_state_frames_inv:
  assumes "fl_state s xs" "locks s page_alloc_lock = 0" "npages s \<le> 2 ^ 40"
  shows "frames_inv s" "free_frames s = set xs"
proof -
  show ff: "free_frames s = set xs"
    using assms(1) free_frames_flist unfolding fl_state_def by blast
  show "frames_inv s"
    using assms ff by (auto simp: frames_inv_def fl_state_def)
qed

lemma fl_state_say [simp]: "fl_state (say t s) xs = fl_state s xs"
  by (simp add: fl_state_def say_def)

lemma frame_alloc_init_correct:
  assumes wf: "memmap_wf (memmap s)" and inv: "pmm_inv s"
    and ok: "console_ok s" "locks s page_alloc_lock = 0"
    and np: "np = unat (max_usable_addr (memmap s) 0 div PGSIZE)"
    and ba: "boot_alloc (of_nat np * SIZEOF_PAGEINFO) (s\<lparr>npages := np\<rparr>) = (a, t)" "a \<noteq> 0 \<or> np = 0"
  shows "\<exists>s'. frame_alloc_init (memmap s) s = Some s' \<and> frames_inv s' \<and>
    length (pages s') = np \<and> pages_ptr s' = phys_to_virt s a \<and>
    free_frames s' = usable_frames (memmap s) (current_region s') (unat (next_free s')) \<and>
    current_region s' = current_region t \<and> next_free s' = next_free t"
proof -
  note npb = npages_bounds [OF wf np]
  have post: "boot_alloc_post (of_nat np * SIZEOF_PAGEINFO) (s\<lparr>npages := np\<rparr>) a t"
    using boot_alloc_correct [OF _ _ ba(1)] pages_request_ok [OF wf npb(1)] inv
    by (simp add: pmm_inv_def)
  then have t: "t = s\<lparr>npages := np, current_region := current_region t, next_free := next_free t\<rparr>"
    by (simp add: boot_alloc_post_def)
  have mt: "memmap t = memmap s" "npages t = np" "console_ok t" "locks t page_alloc_lock = 0"
    "g_hhdm_offset t = g_hhdm_offset s"
    using ok by (subst t, simp add: console_ok_def uart_live_def)+
  define t1 where "t1 = t\<lparr>pages_ptr := phys_to_virt t a,
    pages := replicate np \<lparr>pp_link = None, pp_ref = 0\<rparr>, page_free_list := None\<rparr>"
  have fl: "fl_state t1 []"
    using mt by (simp add: fl_state_def t1_def)
  have f: "unat (next_free t) \<le> region_end (memmap s ! current_region t)"
    if "current_region t < length (memmap s)"
    using post that by (simp add: boot_alloc_post_def Let_def)
  obtain s1 where s1: "foreach (free_region (memmap s) (current_region t) (next_free t)) [0..<length (memmap s)] t1
      = Some (Next s1)"
    "fl_state s1 (frames_upto (memmap s) (current_region t) (unat (next_free t)) (length (memmap s)))"
    "only_list_changed t1 s1"
    using free_regions [OF wf order_refl f fl] npb(2) mt by (auto simp: t1_def)
  have keep: "console_ok s1" "locks s1 page_alloc_lock = 0" "npages s1 = np"
    "current_region s1 = current_region t" "next_free s1 = next_free t" "pages_ptr s1 = phys_to_virt s a"
    using s1(3) mt by (auto simp: only_list_changed_def t1_def console_ok_def uart_live_def phys_to_virt_def)
  have fr: "current_region t1 = current_region t" "next_free t1 = next_free t" by (simp_all add: t1_def)
  have inv1: "frames_inv s1"
    "free_frames s1 = set (frames_upto (memmap s) (current_region t) (unat (next_free t)) (length (memmap s)))"
    using fl_state_frames_inv [OF s1(2) keep(2)] npb(1) keep(3) by simp_all
  define msg where "msg = kmsg (''frame_alloc_init: npages=%ld free=%ld'' @ [CHR 0x0A])
    [W (of_nat np), W (of_nat (length (frames_upto (memmap s) (current_region t) (unat (next_free t)) (length (memmap s)))))]"
  have cl: "count_links (pages s1) (page_free_list s1) 0 =
      Some (length (frames_upto (memmap s) (current_region t) (unat (next_free t)) (length (memmap s))))"
    using count_links_flist [of "pages s1" "page_free_list s1" _ 0] s1(2) by (simp add: fl_state_def)
  have "frame_alloc_init (memmap s) s = Some (say msg s1)"
    unfolding frame_alloc_init_def Let_def np [symmetric]
    using ba s1(1) cl keep fr
    by (auto simp: mt t1_def [symmetric] pmm_boot_alloc_region_def
        pmm_boot_alloc_next_free_def kprintf_ok msg_def)
  moreover have "length (pages s1) = np" using s1(2) keep(3) by (simp add: fl_state_def)
  ultimately show ?thesis
    using keep inv1 by (intro exI [of _ "say msg s1"] conjI) (simp_all add: set_frames_upto, simp_all add: say_def)
qed

lemma frontier_below_frames:
  assumes wf: "memmap_wf m" and r: "r < length m" "region_is_usable (m ! r)" "f \<le> region_end (m ! r)"
    and k: "k \<in> usable_frames m r f"
  shows "f \<le> 4096 * k"
proof -
  obtain i where i: "i < length m" "region_is_usable (m ! i)" "r \<le> i" "region_start m r f i \<le> 4096 * k"
    using k by (auto simp: usable_frames_def)
  show ?thesis
  proof (cases "i = r")
    case True
    then show ?thesis using i by (simp add: region_start_def)
  next
    case False
    then have "region_end (m ! r) \<le> unat (me_base (m ! i))"
      using wf i r by (simp add: memmap_wf_def)
    then show ?thesis using i False r(3) by (simp add: region_start_def)
  qed
qed

text \<open>Claim C24. On a well-formed memory map \<open>frame_alloc_init\<close> terminates and builds an allocator whose
  free frames are exactly the whole pages of usable regions beyond the boot allocator's frontier:
  every one is backed by usable memory, none overlaps the \<open>pages[]\<close> array or anything handed out by
  \<open>boot_alloc\<close> before.\<close>

theorem frame_alloc_init_safe:
  assumes wf: "memmap_wf (memmap s)" and inv: "pmm_inv s"
    and ok: "console_ok s" "locks s page_alloc_lock = 0"
    and np: "np = unat (max_usable_addr (memmap s) 0 div PGSIZE)"
    and ba: "boot_alloc (of_nat np * SIZEOF_PAGEINFO) (s\<lparr>npages := np\<rparr>) = (a, t)" "a \<noteq> 0"
  shows "\<exists>s'. frame_alloc_init (memmap s) s = Some s' \<and> frames_inv s' \<and> length (pages s') = np \<and>
    pages_ptr s' = phys_to_virt s a \<and>
    free_frames s' = usable_frames (memmap s) (current_region t) (unat (next_free t)) \<and>
    (\<forall>k \<in> free_frames s'. unat a + unat (of_nat np * SIZEOF_PAGEINFO) \<le> 4096 * k)"
proof -
  obtain s' where s': "frame_alloc_init (memmap s) s = Some s'" "frames_inv s'" "length (pages s') = np"
    "pages_ptr s' = phys_to_virt s a"
    "free_frames s' = usable_frames (memmap s) (current_region s') (unat (next_free s'))"
    "current_region s' = current_region t" "next_free s' = next_free t"
    using frame_alloc_init_correct [OF wf inv ok np ba(1)] ba(2) by blast
  have "boot_request_ok (memmap (s\<lparr>npages := np\<rparr>)) (of_nat np * SIZEOF_PAGEINFO)"
    using pages_request_ok [OF wf npages_bounds(1) [OF wf np]] by simp
  moreover have "pmm_inv (s\<lparr>npages := np\<rparr>)" using inv by (simp add: pmm_inv_def)
  ultimately have post: "boot_alloc_post (of_nat np * SIZEOF_PAGEINFO) (s\<lparr>npages := np\<rparr>) a t"
    using boot_alloc_correct ba(1) by blast
  obtain r1 f1 where "t = s\<lparr>npages := np, current_region := r1, next_free := f1\<rparr>"
    using post unfolding boot_alloc_post_def by blast
  then have mm: "memmap t = memmap s" by simp
  have reg: "current_region t < length (memmap s)"
    using post ba(2) by (auto simp: boot_alloc_post_def split: if_splits)
  have fr: "unat a + unat (of_nat np * SIZEOF_PAGEINFO) = unat (next_free t)"
    "unat (next_free t) \<le> region_end (memmap s ! current_region t)"
    using post reg by (auto simp: boot_alloc_post_def Let_def)
  have us: "region_is_usable (memmap s ! current_region t)"
    using post reg mm by (auto simp: boot_alloc_post_def pmm_inv_def Let_def)
  have "\<forall>k \<in> free_frames s'. unat a + unat (of_nat np * SIZEOF_PAGEINFO) \<le> 4096 * k"
    using frontier_below_frames [OF wf reg us fr(2)] fr(1) s'(5-7) by auto
  then show ?thesis using s' by (intro exI [of _ s']) simp
qed

text \<open>Claim C29. Two successive successful boot allocations, with requests that do not overflow, lie in usable
  regions and the second starts beyond the end of the first.\<close>

theorem boot_allocs_disjoint:
  assumes "memmap_wf (memmap s)" "pmm_inv s" "boot_request_ok (memmap s) n" "boot_request_ok (memmap s) k"
    "boot_alloc n s = (a, s1)" "boot_alloc k s1 = (b, s2)" "current_region s2 < length (memmap s)"
  shows "unat a + unat n \<le> unat b \<and> region_is_usable (memmap s ! current_region s2) \<and>
    me_base (memmap s ! current_region s2) \<le> b \<and> unat b + unat k \<le> region_end (memmap s ! current_region s2)"
proof -
  have p1: "boot_alloc_post n s a s1" using boot_alloc_correct assms by blast
  obtain r1 f1 where s1: "s1 = s\<lparr>current_region := r1, next_free := f1\<rparr>" using p1 unfolding boot_alloc_post_def by blast
  have inv1: "pmm_inv s1" using p1 by (simp add: boot_alloc_post_def)
  have p2: "boot_alloc_post k s1 b s2"
    using boot_alloc_correct [OF inv1 _ assms(6)] assms(4) by (simp add: s1)
  have mm: "memmap s2 = memmap s"
  proof -
    obtain r2 f2 where "s2 = s1\<lparr>current_region := r2, next_free := f2\<rparr>" using p2 unfolding boot_alloc_post_def by blast
    then show ?thesis by (simp add: s1)
  qed
  let ?e = "memmap s ! current_region s2"
  have us: "region_is_usable ?e"
    using p2 assms(7) mm by (auto simp: boot_alloc_post_def pmm_inv_def Let_def)
  have e2: "me_base ?e \<le> b" "unat b + unat k \<le> region_end ?e"
    "current_region s2 = r1 \<and> b = f1 \<or> r1 < current_region s2 \<and> b = me_base ?e"
    using p2 assms(7) by (auto simp: boot_alloc_post_def s1 Let_def)
  have r1: "r1 < length (memmap s)" using e2(3) assms(7) by auto
  then have e1: "unat a + unat n = unat f1" "unat f1 \<le> region_end (memmap s ! r1)" "region_is_usable (memmap s ! r1)"
    using p1 inv1 by (auto simp: boot_alloc_post_def pmm_inv_def s1 Let_def)
  have "unat f1 \<le> unat b"
    using e2(3)
  proof (elim disjE conjE)
    assume "r1 < current_region s2" "b = me_base ?e"
    moreover from this have "region_end (memmap s ! r1) \<le> unat (me_base ?e)"
      using assms(1,7) us e1(3) by (simp add: memmap_wf_def)
    ultimately show ?thesis using e1(2) by simp
  qed simp
  then show ?thesis using e1(1) e2 us by simp
qed

lemma demo_wf: "memmap_wf (memmap demo_frames)"
proof -
  have "region_end (memmap demo_pmm ! i) \<le> unat (me_base (memmap demo_pmm ! j))" if "i < j" "j < 3" for i j
  proof -
    have "i = 0 \<and> j = 1 \<or> i = 0 \<and> j = 2 \<or> i = 1 \<and> j = 2" using that by auto
    then show ?thesis by (auto simp: demo_pmm_fields region_end_def)
  qed
  then show ?thesis
    unfolding demo_frames_fields memmap_wf_def by (auto simp: demo_pmm_fields region_end_def)
qed

lemma demo_frames_pmm: "current_region demo_frames = 1" "next_free demo_frames = 0x100800"
  by (simp_all add: demo_frames_def demo_pmm_def pmm_state.defs idt_state.defs)

lemma demo_frames_pmm_inv: "pmm_inv demo_frames"
  using demo_pmm_inv by (simp add: pmm_inv_def demo_frames_fields demo_frames_pmm demo_pmm_fields)

lemma demo_next_region: "find_next_usable_region (memmap demo_pmm) 2 = 2"
  by (subst find_next_usable_region.simps)
     (simp add: demo_pmm_fields region_is_usable_def LIMINE_MEMMAP_USABLE_def)

lemma demo_boot_alloc:
  "boot_alloc 0x6000 demo_frames = (0x100800, demo_frames\<lparr>next_free := 0x106800\<rparr>)"
  "boot_alloc 0x3000 (demo_frames\<lparr>next_free := 0x106800\<rparr>) =
     (0x200000, demo_frames\<lparr>current_region := 2, next_free := 0x203000\<rparr>)"
proof -
  have m: "memmap demo_pmm ! 1 = \<lparr>me_base = 0x100000, me_length = 0x8000, me_type = 0\<rparr>"
    "memmap demo_pmm ! 2 = \<lparr>me_base = 0x200000, me_length = 0x4000, me_type = 0\<rparr>" "length (memmap demo_pmm) = 3"
    by (simp_all add: demo_pmm_fields)
  show "boot_alloc 0x6000 demo_frames = (0x100800, demo_frames\<lparr>next_free := 0x106800\<rparr>)"
    by (subst boot_alloc.simps) (simp add: demo_frames_fields demo_frames_pmm m [simplified] Let_def)
  have nx: "find_next_usable_region (memmap demo_pmm) (Suc (Suc 0)) = 2"
    using demo_next_region by (simp add: numeral_2_eq_2)
  have two: "boot_alloc 0x3000 (demo_frames\<lparr>current_region := 2, next_free := 0x200000\<rparr>) =
     (0x200000, demo_frames\<lparr>current_region := 2, next_free := 0x203000\<rparr>)"
    by (subst boot_alloc.simps) (simp add: demo_frames_fields demo_frames_pmm m [simplified] Let_def)
  show "boot_alloc 0x3000 (demo_frames\<lparr>next_free := 0x106800\<rparr>) =
     (0x200000, demo_frames\<lparr>current_region := 2, next_free := 0x203000\<rparr>)"
    using two nx
    by (subst boot_alloc.simps) (simp add: demo_frames_fields demo_frames_pmm m [simplified] Let_def)
qed

lemma demo_request_ok: "unat n < 2 ^ 60 \<Longrightarrow> boot_request_ok (memmap demo_frames) n"
  by (simp add: boot_request_ok_def demo_frames_fields demo_pmm_fields region_end_def)

theorem boot_allocs_disjoint_witness:
  "unat (0x100800 :: u64) + unat (0x6000 :: u64) \<le> unat (0x200000 :: u64) \<and>
   region_is_usable (memmap demo_frames ! 2)"
  using boot_allocs_disjoint [OF demo_wf demo_frames_pmm_inv demo_request_ok demo_request_ok demo_boot_alloc]
  by (simp add: demo_frames_fields demo_pmm_fields)

lemma demo_max_usable: "max_usable_addr (memmap demo_frames) 0 = 0x204000"
  by (simp add: demo_frames_fields demo_pmm_fields LIMINE_MEMMAP_USABLE_def Let_def)

lemma demo_pages_alloc:
  "boot_alloc (of_nat 516 * SIZEOF_PAGEINFO) (demo_frames\<lparr>npages := 516\<rparr>) =
     (0x100800, demo_frames\<lparr>npages := 516, next_free := 0x102840\<rparr>)"
proof -
  have m: "memmap demo_pmm ! Suc 0 = \<lparr>me_base = 0x100000, me_length = 0x8000, me_type = 0\<rparr>"
    "length (memmap demo_pmm) = 3"
    by (simp_all add: demo_pmm_fields)
  show ?thesis
    by (subst boot_alloc.simps) (simp add: demo_frames_fields demo_frames_pmm m SIZEOF_PAGEINFO_def Let_def)
qed

theorem frame_alloc_init_safe_witness:
  "\<exists>s'. frame_alloc_init (memmap demo_frames) demo_frames = Some s' \<and> frames_inv s' \<and> length (pages s') = 516 \<and>
    (\<forall>k \<in> free_frames s'. 0x102840 \<le> 4096 * k)"
proof -
  have "516 = unat (max_usable_addr (memmap demo_frames) 0 div PGSIZE)"
    by (simp add: demo_max_usable PGSIZE_def)
  from frame_alloc_init_safe [OF demo_wf demo_frames_pmm_inv demo_frames_console _ this demo_pages_alloc]
  obtain s' where "frame_alloc_init (memmap demo_frames) demo_frames = Some s'" "frames_inv s'"
    "length (pages s') = 516"
    "\<forall>k \<in> free_frames s'. unat (0x100800 :: u64) + unat (of_nat 516 * SIZEOF_PAGEINFO) \<le> 4096 * k"
    by (auto simp: demo_frames_fields)
  then show ?thesis by (intro exI [of _ s']) (simp add: SIZEOF_PAGEINFO_def)
qed

end
