(* ===== verification/Pte.thy ===== *)
theory Pte
  imports Prelude
begin

text \<open>The page table entry and address arithmetic of \<open>paging.c\<close>: the bit-by-bit loops and the closed forms they
compute.\<close>

type_synonym page_table_entry = u64

definition present :: "page_table_entry \<Rightarrow> bool" where
  "present pte \<longleftrightarrow> pte AND 1 \<noteq> 0"

definition writable :: "page_table_entry \<Rightarrow> bool" where
  "writable pte \<longleftrightarrow> (let pos = 1 :: u64 in push_bit 1 pos AND pte \<noteq> 0)"

definition user_accessible :: "page_table_entry \<Rightarrow> bool" where
  "user_accessible pte \<longleftrightarrow> (let pos = 1 :: u64 in push_bit 2 pos AND pte \<noteq> 0)"

definition accessed :: "page_table_entry \<Rightarrow> bool" where
  "accessed pte \<longleftrightarrow> (let pos = 1 :: u64 in push_bit 5 pos AND pte \<noteq> 0)"

definition dirty :: "page_table_entry \<Rightarrow> bool" where
  "dirty pte \<longleftrightarrow> (let pos = 1 :: u64 in push_bit 6 pos AND pte \<noteq> 0)"

definition no_execute :: "page_table_entry \<Rightarrow> bool" where
  "no_execute pte \<longleftrightarrow> (let pos = 1 :: u64 in push_bit 63 pos AND pte \<noteq> 0)"

definition pte_get_addr :: "page_table_entry \<Rightarrow> u64" where
  "pte_get_addr pte =
     fold (\<lambda>pos addr. if push_bit pos 1 AND pte \<noteq> 0 then addr OR push_bit pos 1 else addr) [12..<52] 0"

definition pte_make :: "u64 \<Rightarrow> u64 \<Rightarrow> page_table_entry" where
  "pte_make phys_addr flags =
     fold (\<lambda>pos entry. if push_bit pos 1 AND phys_addr \<noteq> 0 then entry OR push_bit pos 1 else entry)
       [12..<52] flags"

definition is_canonical :: "u64 \<Rightarrow> bool" where
  "is_canonical vaddr =
     (let first_bit = (if vaddr AND push_bit 47 1 \<noteq> 0 then 1 else 0 :: u64)
      in list_all (\<lambda>pos. (if vaddr AND push_bit pos 1 \<noteq> 0 then 1 else 0) = first_bit) [47..<64])"

definition index_step :: "u64 \<Rightarrow> nat \<Rightarrow> u16 \<Rightarrow> u16" where
  "index_step vaddr pos index =
     (let index = push_bit 1 index in if push_bit pos 1 AND vaddr \<noteq> 0 then index OR 1 else index)"

definition pml4_index :: "u64 \<Rightarrow> u16" where
  "pml4_index vaddr = fold (index_step vaddr) (rev [39..<48]) 0"

definition pdpt_index :: "u64 \<Rightarrow> u16" where
  "pdpt_index vaddr = fold (index_step vaddr) (rev [30..<39]) 0"

definition pd_index :: "u64 \<Rightarrow> u16" where
  "pd_index vaddr = fold (index_step vaddr) (rev [21..<30]) 0"

definition pt_index :: "u64 \<Rightarrow> u16" where
  "pt_index vaddr = fold (index_step vaddr) (rev [12..<21]) 0"

section \<open>What the loops compute\<close>

lemma test_bit_and: "(push_bit n 1 AND w \<noteq> (0 :: u64)) \<longleftrightarrow> bit w n"
  by (subst and.commute) (simp only: bit_iff_and_push_bit_not_eq_0)

lemma test_bit_and': "(w AND push_bit n 1 \<noteq> (0 :: u64)) \<longleftrightarrow> bit w n"
  by (simp only: bit_iff_and_push_bit_not_eq_0)

lemma bit_push_bit_one: "bit (push_bit p 1 :: u64) n \<longleftrightarrow> n = p \<and> n < 64"
  by (auto simp: bit_simps)

lemma collect_bits:
  "bit (fold (\<lambda>pos acc. if push_bit pos 1 AND w \<noteq> 0 then acc OR push_bit pos 1 else acc) ns acc) n
     \<longleftrightarrow> bit (acc :: u64) n \<or> n \<in> set ns \<and> bit (w :: u64) n"
proof (induction ns arbitrary: acc)
  case Nil
  then show ?case by simp
next
  case (Cons p ns)
  have "bit (if bit w p then acc OR push_bit p 1 else acc) n \<longleftrightarrow> bit acc n \<or> n = p \<and> bit w n"
    by (auto simp: bit_or_iff bit_push_bit_one simp del: push_bit_of_1 dest: bit_imp_le_length)
  then show ?case
    unfolding fold_simps(2) Cons.IH
    unfolding test_bit_and by auto
qed

lemma bit_pte_get_addr [bitwise]: "bit (pte_get_addr pte) n \<longleftrightarrow> 12 \<le> n \<and> n < 52 \<and> bit pte n"
  unfolding pte_get_addr_def collect_bits set_upt atLeastLessThan_iff by auto

lemma bit_pte_make [bitwise]: "bit (pte_make pa fl) n \<longleftrightarrow> bit fl n \<or> 12 \<le> n \<and> n < 52 \<and> bit pa n"
  unfolding pte_make_def collect_bits set_upt atLeastLessThan_iff by auto

lemma flag_bits [bitwise]:
  "present pte \<longleftrightarrow> bit pte 0" "writable pte \<longleftrightarrow> bit pte 1" "user_accessible pte \<longleftrightarrow> bit pte 2"
  "accessed pte \<longleftrightarrow> bit pte 5" "dirty pte \<longleftrightarrow> bit pte 6" "no_execute pte \<longleftrightarrow> bit pte 63"
  using test_bit_and' [of pte 0]
  unfolding present_def writable_def user_accessible_def accessed_def dirty_def no_execute_def
    Let_def test_bit_and by simp_all

lemma bit_index_step:
  "bit (index_step va p acc) j \<longleftrightarrow> j < 16 \<and> (if j = 0 then bit va p else bit acc (j - 1))"
proof -
  have "bit (push_bit 1 acc) j \<longleftrightarrow> 1 \<le> j \<and> j < 16 \<and> bit acc (j - 1)"
    unfolding bit_push_bit_iff by (simp add: possible_bit_word)
  then show ?thesis
    unfolding index_step_def Let_def test_bit_and
    by (cases "bit va p") (auto simp only: bit_or_iff bit_1_iff if_True if_False split: if_splits)
qed

lemma bit_fold_index_step:
  "k \<le> 16 \<Longrightarrow> bit (fold (index_step va) (rev [lo..<lo + k]) acc) n \<longleftrightarrow>
     n < 16 \<and> (if n < k then bit va (lo + n) else bit acc (n - k))"
proof (induction k arbitrary: acc n)
  case 0
  then show ?case by (auto dest: bit_imp_le_length)
next
  case (Suc k)
  then show ?case
    by (auto simp: less_Suc_eq bit_index_step)
qed

lemma bit_index [bitwise]:
  "bit (pml4_index va) n \<longleftrightarrow> n < 9 \<and> bit va (39 + n)"
  "bit (pdpt_index va) n \<longleftrightarrow> n < 9 \<and> bit va (30 + n)"
  "bit (pd_index va) n \<longleftrightarrow> n < 9 \<and> bit va (21 + n)"
  "bit (pt_index va) n \<longleftrightarrow> n < 9 \<and> bit va (12 + n)"
  unfolding pml4_index_def pdpt_index_def pd_index_def pt_index_def
  using bit_fold_index_step [of 9 va 39 0 n] bit_fold_index_step [of 9 va 30 0 n]
    bit_fold_index_step [of 9 va 21 0 n] bit_fold_index_step [of 9 va 12 0 n]
  by auto

lemma index_shift:
  "pml4_index va = ucast (take_bit 9 (drop_bit 39 va))"
  "pdpt_index va = ucast (take_bit 9 (drop_bit 30 va))"
  "pd_index va = ucast (take_bit 9 (drop_bit 21 va))"
  "pt_index va = ucast (take_bit 9 (drop_bit 12 va))"
  by (rule bit_word_eqI; auto simp: bit_index bit_simps)+

lemma unat_index:
  "unat (pml4_index va) = unat va div 2 ^ 39 mod 512"
  "unat (pdpt_index va) = unat va div 2 ^ 30 mod 512"
  "unat (pd_index va) = unat va div 2 ^ 21 mod 512"
  "unat (pt_index va) = unat va div 2 ^ 12 mod 512"
  unfolding index_shift
  by (simp_all add: unsigned_ucast_eq take_bit_eq_mod drop_bit_eq_div unat_div unat_mod)

lemma unat_index_bound [simp]:
  "unat (pml4_index va) < 512" "unat (pdpt_index va) < 512"
  "unat (pd_index va) < 512" "unat (pt_index va) < 512"
  by (simp_all add: unat_index)

lemma pte_get_addr_mask: "pte_get_addr pte = pte AND 0x000FFFFFFFFFF000"
proof (rule bit_word_eqI)
  fix n assume "n < LENGTH(64)"
  have num: "(0x000FFFFFFFFFF000 :: u64) = push_bit 12 (mask 40)"
    by (simp add: mask_eq_exp_minus_1 push_bit_eq_mult)
  show "bit (pte_get_addr pte) n = bit (pte AND 0x000FFFFFFFFFF000) n"
    unfolding num bit_pte_get_addr bit_and_iff bit_push_bit_iff bit_mask_iff
    by (auto simp: possible_bit_word)
qed

lemma pte_get_addr_make:
  assumes "fl AND 0x000FFFFFFFFFF000 = 0"
  shows "pte_get_addr (pte_make pa fl) = pa AND 0x000FFFFFFFFFF000"
proof -
  have "pte_get_addr fl = 0" using assms by (simp only: pte_get_addr_mask)
  then have "\<not> (12 \<le> n \<and> n < 52 \<and> bit fl n)" for n
    using bit_pte_get_addr [of fl n] by simp
  then have "pte_get_addr (pte_make pa fl) = pte_get_addr pa"
    by (intro bit_word_eqI) (auto simp: bit_pte_get_addr bit_pte_make)
  then show ?thesis by (simp only: pte_get_addr_mask)
qed

lemma page_aligned_pte_get_addr [simp]: "page_aligned (pte_get_addr pte)"
proof -
  have "rounddown (pte_get_addr pte) 4096 = pte_get_addr pte"
    by (rule bit_word_eqI) (auto simp: rounddown_def mask_4095 bit_pte_get_addr bit_simps)
  then show ?thesis using page_aligned_rounddown [of "pte_get_addr pte"] by simp
qed

lemma pte_get_addr_frame:
  assumes "page_aligned pa" "unat pa < 2 ^ 52"
  shows "pte_get_addr pa = pa"
proof (rule bit_word_eqI)
  fix n assume n: "n < LENGTH(64)"
  have "unat (pa AND NOT (mask 12)) = unat pa"
    using assms(1) by (simp add: unat_and_not_mask page_aligned_def)
  then have lo: "pa AND NOT (mask 12) = pa" by (simp add: word_unat_eq_iff)
  have "unat (take_bit 52 pa) = unat pa"
    using assms(2) by (simp add: unsigned_take_bit_eq take_bit_nat_eq_self)
  then have hi: "take_bit 52 pa = pa" by (simp add: word_unat_eq_iff)
  have "bit pa n \<Longrightarrow> 12 \<le> n"
    using n by (subst (asm) lo [symmetric]) (auto simp: bit_simps)
  moreover have "bit pa n \<Longrightarrow> n < 52"
    by (subst (asm) hi [symmetric]) (auto simp: bit_simps)
  ultimately show "bit (pte_get_addr pa) n = bit pa n" by (auto simp: bit_pte_get_addr)
qed

lemma is_canonical_bits: "is_canonical va \<longleftrightarrow> (\<forall>n. 47 \<le> n \<and> n < 64 \<longrightarrow> bit va n = bit va 47)"
  unfolding is_canonical_def Let_def test_bit_and' list_all_iff set_upt by auto

lemma bit_u64_unat: "bit (w :: u64) n \<longleftrightarrow> odd (unat w div 2 ^ n)"
proof -
  have "bit (unat w) n \<longleftrightarrow> bit w n" by (simp add: bit_unsigned_iff)
  then show ?thesis by (simp add: bit_iff_odd [of "unat w"])
qed

lemma index_bit_47:
  assumes "unat (pml4_index va) < 256"
  shows "\<not> bit va 47"
proof -
  have "\<not> bit (pml4_index va) 8"
  proof
    assume "bit (pml4_index va) 8"
    then have "bit (unat (pml4_index va)) 8" by (simp add: bit_unsigned_iff)
    moreover have "unat (pml4_index va) div 2 ^ 8 = 0" using assms by simp
    ultimately show False unfolding bit_iff_odd by simp
  qed
  then show ?thesis by (simp add: bit_index)
qed

lemma canonical_low:
  assumes "is_canonical va" "unat (pml4_index va) < 256"
  shows "unat va < 2 ^ 47"
proof -
  note z = index_bit_47 [OF assms(2)]
  have high: "\<not> bit va n" if "47 \<le> n" "n < 64" for n
    using z assms(1) that unfolding is_canonical_bits by blast
  have "take_bit 47 va = va"
  proof (rule bit_word_eqI)
    fix n assume "n < LENGTH(64)"
    then have "n < 64" by simp
    then show "bit (take_bit 47 va) n = bit va n"
      unfolding bit_take_bit_iff using high [of n] by linarith
  qed
  moreover have "unat (take_bit 47 va) = take_bit 47 (unat va)" by (rule unsigned_take_bit_eq)
  ultimately have "unat va = take_bit 47 (unat va)" by (simp only:)
  then show ?thesis using take_bit_nat_less_exp [of 47 "unat va"] by (simp only:)
qed

lemma low_canonical:
  assumes "unat va < 2 ^ 47"
  shows "is_canonical va"
proof -
  have "\<not> bit va n" if "47 \<le> n" for n
  proof -
    have "(2 :: nat) ^ 47 \<le> 2 ^ n" using that by (rule power_increasing) simp
    then have "unat va div 2 ^ n = 0" using assms by (simp only: div_eq_0_iff) linarith
    then show ?thesis using bit_u64_unat [of va n] by simp
  qed
  then show ?thesis unfolding is_canonical_bits by blast
qed

section \<open>Properties\<close>

lemma bit_index_word:
  "bit (push_bit 39 (ucast (pml4_index va)) :: u64) n \<longleftrightarrow> 39 \<le> n \<and> n < 48 \<and> bit va n"
  "bit (push_bit 30 (ucast (pdpt_index va)) :: u64) n \<longleftrightarrow> 30 \<le> n \<and> n < 39 \<and> bit va n"
  "bit (push_bit 21 (ucast (pd_index va)) :: u64) n \<longleftrightarrow> 21 \<le> n \<and> n < 30 \<and> bit va n"
  "bit (push_bit 12 (ucast (pt_index va)) :: u64) n \<longleftrightarrow> 12 \<le> n \<and> n < 21 \<and> bit va n"
  unfolding bit_push_bit_iff bit_unsigned_iff bit_index possible_bit_word
  by (auto simp: less_diff_conv2 dest: bit_imp_le_length)

lemma vaddr_parts:
  "take_bit 48 va = push_bit 39 (ucast (pml4_index va)) OR push_bit 30 (ucast (pdpt_index va)) OR
     push_bit 21 (ucast (pd_index va)) OR push_bit 12 (ucast (pt_index va)) OR take_bit 12 (va :: u64)"
proof (rule bit_word_eqI, unfold bit_or_iff bit_take_bit_iff bit_index_word)
  fix n
  show "(n < 48 \<and> bit va n) = (39 \<le> n \<and> n < 48 \<and> bit va n \<or> 30 \<le> n \<and> n < 39 \<and> bit va n \<or>
      21 \<le> n \<and> n < 30 \<and> bit va n \<or> 12 \<le> n \<and> n < 21 \<and> bit va n \<or> n < 12 \<and> bit va n)"
  proof (cases "bit va n")
    case True
    then show ?thesis by simp linarith
  qed simp
qed

lemma is_canonical_sign_extended: "is_canonical va \<longleftrightarrow> va = signed_take_bit 47 va"
proof
  assume can: "is_canonical va"
  show "va = signed_take_bit 47 va"
  proof (rule bit_word_eqI)
    fix n assume "n < LENGTH(64)"
    then have n: "n < 64" by simp
    have "bit (signed_take_bit 47 va) n \<longleftrightarrow> bit va (min 47 n)"
      using n by (simp only: bit_signed_take_bit_iff possible_bit_word) simp
    also have "\<dots> \<longleftrightarrow> bit va n"
    proof (cases "47 \<le> n")
      case True
      then have "bit va n = bit va 47" using can n unfolding is_canonical_bits by blast
      then show ?thesis using True by (simp only: min.absorb1)
    next
      case False
      then show ?thesis by (simp only: min.absorb2 nat_le_linear linorder_not_le less_imp_le)
    qed
    finally show "bit va n = bit (signed_take_bit 47 va) n" by blast
  qed
next
  assume eq: "va = signed_take_bit 47 va"
  have "bit va n = bit va 47" if n: "47 \<le> n" "n < 64" for n
  proof -
    have "bit va n = bit (signed_take_bit 47 va) n" using eq by (rule arg_cong)
    also have "\<dots> = bit va 47"
      using n unfolding bit_signed_take_bit_iff possible_bit_word by (simp only: min.absorb1) simp
    finally show ?thesis .
  qed
  then show "is_canonical va" unfolding is_canonical_bits by blast
qed

text \<open>The four bit-by-bit index loops compute the index fields of the hardware format: together
  with the page offset they reassemble the low 48 bits of the address, each is below 512, and
  \<open>is_canonical\<close> accepts exactly the addresses that are the sign extension of their low 48 bits.\<close>

theorem vaddr_decomposition:
  "take_bit 48 va = push_bit 39 (ucast (pml4_index va)) OR push_bit 30 (ucast (pdpt_index va)) OR
     push_bit 21 (ucast (pd_index va)) OR push_bit 12 (ucast (pt_index va)) OR take_bit 12 va \<and>
   unat (pml4_index va) < 512 \<and> unat (pdpt_index va) < 512 \<and> unat (pd_index va) < 512 \<and> unat (pt_index va) < 512 \<and>
   (is_canonical va \<longleftrightarrow> va = signed_take_bit 47 va)"
  using vaddr_parts [of va] is_canonical_sign_extended [of va] unat_index_bound [of va] by blast

text \<open>The loops of \<open>pte_get_addr\<close> and \<open>pte_make\<close> are the usual mask operations, and a page table
  entry decodes to what it was made of: the frame address and the flag bits, provided the flags do not
  reach into the address field.\<close>

theorem pte_codec:
  assumes "fl AND 0x000FFFFFFFFFF000 = 0"
  shows "pte_get_addr (pte_make pa fl) = pa AND 0x000FFFFFFFFFF000 \<and>
    pte_make pa fl = fl OR (pa AND 0x000FFFFFFFFFF000) \<and>
    (present (pte_make pa fl) \<longleftrightarrow> bit fl 0) \<and> (writable (pte_make pa fl) \<longleftrightarrow> bit fl 1) \<and>
    (user_accessible (pte_make pa fl) \<longleftrightarrow> bit fl 2) \<and> (no_execute (pte_make pa fl) \<longleftrightarrow> bit fl 63)"
proof -
  have "pte_make pa fl = fl OR pte_get_addr pa"
    by (rule bit_word_eqI) (auto simp: bit_pte_make bit_pte_get_addr bit_or_iff)
  then have "pte_make pa fl = fl OR (pa AND 0x000FFFFFFFFFF000)" by (simp only: pte_get_addr_mask)
  moreover have "present (pte_make pa fl) \<longleftrightarrow> bit fl 0" "writable (pte_make pa fl) \<longleftrightarrow> bit fl 1"
    "user_accessible (pte_make pa fl) \<longleftrightarrow> bit fl 2" "no_execute (pte_make pa fl) \<longleftrightarrow> bit fl 63"
    by (simp_all add: flag_bits bit_pte_make)
  ultimately show ?thesis using pte_get_addr_make [OF assms] by blast
qed

theorem pte_codec_witness: "pte_get_addr (pte_make 0x12345678 7) = 0x12345678 AND 0x000FFFFFFFFFF000"
proof -
  have "7 AND (0x000FFFFFFFFFF000 :: u64) = 0" by simp
  from pte_codec [OF this] show ?thesis by blast
qed

end
