(* ===== verification/Mmu.thy ===== *)
theory Mmu
  imports Machine Pte
begin

text \<open>The processor's side of paging: four-level translation over physical memory (\<open>mmu_access\<close>, 4 KiB pages),
the tree of tables below a root (\<open>tbl\<close>, \<open>tree_ok\<close>) and the two memory updates that page-table code makes, linking
a fresh table and writing a leaf entry.\<close>

section \<open>Four-level translation\<close>

definition ent :: "pmem \<Rightarrow> u64 \<Rightarrow> nat \<Rightarrow> u64" where
  "ent m t j = read64 m (slot t j)"

fun tbl :: "pmem \<Rightarrow> u64 \<Rightarrow> nat list \<Rightarrow> u64 option" where
  "tbl m t [] = Some t"
| "tbl m t (j # js) = (if present (ent m t j) then tbl m (pte_get_addr (ent m t j)) js else None)"

definition dir_path :: "u64 \<Rightarrow> nat list" where
  "dir_path va = [unat (pml4_index va), unat (pdpt_index va), unat (pd_index va)]"

definition leaf_index :: "u64 \<Rightarrow> nat" where
  "leaf_index va = unat (pt_index va)"

definition pte_at :: "pmem \<Rightarrow> u64 \<Rightarrow> nat list \<Rightarrow> nat \<Rightarrow> u64" where
  "pte_at m root p k = (case tbl m root p of None \<Rightarrow> 0 | Some t \<Rightarrow> ent m t k)"

definition pte_of :: "pmem \<Rightarrow> u64 \<Rightarrow> u64 \<Rightarrow> u64" where
  "pte_of m root va = pte_at m root (dir_path va) (leaf_index va)"

definition vpn :: "u64 \<Rightarrow> u64" where
  "vpn va = take_bit 36 (drop_bit 12 va)"

text \<open>An entry grants an access when it is present, and carries the user bit for a ring-3 access
  and the write bit for a store.\<close>

definition grants :: "bool \<Rightarrow> bool \<Rightarrow> u64 \<Rightarrow> bool" where
  "grants user write e \<longleftrightarrow> present e \<and> (user \<longrightarrow> user_accessible e) \<and> (write \<longrightarrow> writable e)"

definition dir_grants :: "bool \<Rightarrow> bool \<Rightarrow> u64 \<Rightarrow> bool" where
  "dir_grants user write e \<longleftrightarrow> grants user write e \<and> \<not> bit e 7"

fun mmu_dirs :: "bool \<Rightarrow> bool \<Rightarrow> pmem \<Rightarrow> u64 \<Rightarrow> nat list \<Rightarrow> u64 option" where
  "mmu_dirs user write m t [] = Some t"
| "mmu_dirs user write m t (j # js) =
     (if dir_grants user write (ent m t j)
      then mmu_dirs user write m (pte_get_addr (ent m t j)) js else None)"

definition mmu_access :: "bool \<Rightarrow> bool \<Rightarrow> pmem \<Rightarrow> u64 \<Rightarrow> u64 \<Rightarrow> u64 option" where
  "mmu_access user write m root va =
     (if is_canonical va then
        case mmu_dirs user write m root (dir_path va) of
          None \<Rightarrow> None
        | Some t \<Rightarrow>
            (let e = ent m t (leaf_index va) in
             if grants user write e then Some (pte_get_addr e + take_bit 12 va) else None)
      else None)"

section \<open>The tree of tables\<close>

definition path_ok :: "nat set \<Rightarrow> nat list \<Rightarrow> bool" where
  "path_ok I p \<longleftrightarrow> length p \<le> 3 \<and> (\<forall>j \<in> set p. j < 512) \<and> (p \<noteq> [] \<longrightarrow> hd p \<in> I)"

definition dir_ok :: "u64 \<Rightarrow> bool" where
  "dir_ok e \<longleftrightarrow> present e \<and> writable e \<and> user_accessible e \<and> \<not> bit e 7"

definition tables :: "nat set \<Rightarrow> pmem \<Rightarrow> u64 \<Rightarrow> u64 set" where
  "tables I m root = {t. \<exists>p. path_ok I p \<and> tbl m root p = Some t}"

definition tree_ok :: "nat set \<Rightarrow> pmem \<Rightarrow> u64 \<Rightarrow> bool" where
  "tree_ok I m root \<longleftrightarrow> page_aligned root \<and>
     (\<forall>p q t. path_ok I p \<longrightarrow> path_ok I q \<longrightarrow> tbl m root p = Some t \<longrightarrow> tbl m root q = Some t \<longrightarrow> p = q) \<and>
     (\<forall>p j t. path_ok I (p @ [j]) \<longrightarrow> tbl m root p = Some t \<longrightarrow> present (ent m t j) \<longrightarrow> dir_ok (ent m t j))"

lemma tbl_append: "tbl m t (p @ q) = (case tbl m t p of None \<Rightarrow> None | Some t' \<Rightarrow> tbl m t' q)"
  by (induction p arbitrary: t) auto

lemma tbl_snoc:
  "tbl m t (p @ [j]) = (case tbl m t p of None \<Rightarrow> None
     | Some t' \<Rightarrow> if present (ent m t' j) then Some (pte_get_addr (ent m t' j)) else None)"
  by (simp add: tbl_append split: option.split)

lemma tbl_aligned: "tbl m t p = Some t' \<Longrightarrow> page_aligned t \<Longrightarrow> page_aligned t'"
  by (induction p arbitrary: t) (auto split: if_splits)

lemma path_ok_Nil [simp]: "path_ok I []"
  by (simp add: path_ok_def)

lemma path_ok_butlast: "path_ok I (p @ [j]) \<Longrightarrow> path_ok I p \<and> length p \<le> 2 \<and> j < 512"
  by (cases p) (auto simp: path_ok_def)

lemma tree_okD:
  assumes "tree_ok I m root"
  shows "page_aligned root"
    "\<And>p q t. path_ok I p \<Longrightarrow> path_ok I q \<Longrightarrow> tbl m root p = Some t \<Longrightarrow> tbl m root q = Some t \<Longrightarrow> p = q"
    "\<And>p j t. path_ok I (p @ [j]) \<Longrightarrow> tbl m root p = Some t \<Longrightarrow> present (ent m t j) \<Longrightarrow> dir_ok (ent m t j)"
    "\<And>p t. tbl m root p = Some t \<Longrightarrow> page_aligned t"
  using assms tbl_aligned unfolding tree_ok_def by blast+

lemma ent_write64:
  assumes "page_aligned t" "page_aligned t'" "j < 512" "j' < 512"
  shows "ent (write64 m (slot t j) v) t' j' = (if t = t' \<and> j = j' then v else ent m t' j')"
  using assms read64_slot_other [OF assms] by (auto simp: ent_def)

lemma slot_in_page:
  assumes "page_aligned t" "j < 512" "i < 8"
  shows "in_page t (slot t j + of_nat i)"
proof -
  have eq: "slot t j + of_nat i - t = of_nat (8 * j + i)" by (simp add: slot_def)
  have "8 * j + i < 4096" using assms by simp
  then show ?thesis unfolding in_page_def eq by (simp only: unat_of_nat) simp
qed

lemma ent_cong:
  assumes "page_aligned t" "j < 512" "\<And>x. in_page t x \<Longrightarrow> m' x = m x"
  shows "ent m' t j = ent m t j"
  unfolding ent_def by (rule load_bytes_cong) (simp add: assms slot_in_page)

lemma write64_other:
  assumes "page_aligned t" "j < 512" "\<not> in_page t x"
  shows "write64 m (slot t j) v x = m x"
proof -
  have "\<not> unat (x - slot t j) < 8"
  proof
    assume "unat (x - slot t j) < 8"
    then have "in_page t (slot t j + of_nat (unat (x - slot t j)))" using slot_in_page assms by blast
    then show False using assms(3) by simp
  qed
  then show ?thesis by (simp add: store_bytes_apply)
qed

lemma ent_zero_page [simp]: "page_aligned t \<Longrightarrow> j < 512 \<Longrightarrow> ent (zero_page t m) t j = 0"
proof -
  assume a: "page_aligned t" "j < 512"
  have "load_bytes n (\<lambda>_. 0) a = 0" for n a by (induction n arbitrary: a) auto
  moreover have "ent (zero_page t m) t j = read64 (\<lambda>_. 0) (slot t j)"
    unfolding ent_def by (rule load_bytes_cong) (simp add: zero_page_def a slot_in_page)
  ultimately show ?thesis by simp
qed

lemma ent_zero_page_other:
  "page_aligned f \<Longrightarrow> page_aligned t \<Longrightarrow> t \<noteq> f \<Longrightarrow> j < 512 \<Longrightarrow> ent (zero_page f m) t j = ent m t j"
  by (rule ent_cong) (use in_page_disjoint in \<open>auto simp: zero_page_def\<close>)

lemma not_present_0 [simp]: "\<not> present 0"
  by (simp add: present_def)

section \<open>Linking a fresh table\<close>

definition link_table :: "pmem \<Rightarrow> u64 \<Rightarrow> nat \<Rightarrow> u64 \<Rightarrow> u64 \<Rightarrow> pmem" where
  "link_table m t j f e = write64 (zero_page f m) (slot t j) e"

definition fresh_link :: "nat set \<Rightarrow> pmem \<Rightarrow> u64 \<Rightarrow> nat list \<Rightarrow> u64 \<Rightarrow> nat \<Rightarrow> u64 \<Rightarrow> u64 \<Rightarrow> bool" where
  "fresh_link I m root p t j f e \<longleftrightarrow>
     tree_ok I m root \<and> path_ok I (p @ [j]) \<and> tbl m root p = Some t \<and> \<not> present (ent m t j) \<and>
     page_aligned f \<and> f \<notin> tables I m root \<and> dir_ok e \<and> pte_get_addr e = f"

lemma fresh_linkD:
  assumes "fresh_link I m root p t j f e"
  shows "tree_ok I m root" "path_ok I (p @ [j])" "tbl m root p = Some t" "\<not> present (ent m t j)"
    "page_aligned f" "f \<notin> tables I m root" "dir_ok e" "pte_get_addr e = f"
    "path_ok I p" "j < 512" "length p \<le> 2" "page_aligned t" "t \<noteq> f"
proof -
  show tree: "tree_ok I m root" and path: "path_ok I (p @ [j])" "tbl m root p = Some t"
    and "\<not> present (ent m t j)" "page_aligned f" and f: "f \<notin> tables I m root"
    and "dir_ok e" "pte_get_addr e = f"
    using assms by (simp_all add: fresh_link_def)
  show p: "path_ok I p" "j < 512" "length p \<le> 2" using path_ok_butlast [OF path(1)] by auto
  show "page_aligned t" "t \<noteq> f"
    using tree_okD(4) [OF tree] path p f by (auto simp: tables_def)
qed

lemma ent_linked:
  assumes "fresh_link I m root p t j f e" "page_aligned t'" "k < 512"
  shows "ent (link_table m t j f e) t' k =
    (if t' = f then 0 else if t' = t \<and> k = j then e else ent m t' k)"
  using assms(2,3) fresh_linkD(5,10,12,13) [OF assms(1)]
  by (auto simp: link_table_def ent_write64 ent_zero_page_other)

lemma tbl_linked:
  assumes L: "fresh_link I m root p t j f e"
  shows "path_ok I q \<Longrightarrow> tbl (link_table m t j f e) root q = (if q = p @ [j] then Some f else tbl m root q)"
proof (induction q rule: rev_induct)
  case Nil
  then show ?case by simp
next
  case (snoc k q)
  note D = fresh_linkD [OF L] and q = path_ok_butlast [OF snoc.prems]
  then have IH: "tbl (link_table m t j f e) root q = (if q = p @ [j] then Some f else tbl m root q)"
    using snoc.IH by blast
  show ?case
  proof (cases "q = p @ [j]")
    case True
    have "tbl m root q = None" using True D(3,4) by (simp add: tbl_snoc)
    then have "tbl m root (q @ [k]) = None" by (simp add: tbl_snoc)
    moreover have "tbl (link_table m t j f e) root (q @ [k]) = None"
      using IH True q ent_linked [OF L D(5), of k] by (simp only: tbl_snoc) simp
    ultimately show ?thesis using True by simp
  next
    case False
    show ?thesis
    proof (cases "tbl m root q")
      case None
      then show ?thesis using IH False D(3) by (auto simp: tbl_snoc)
    next
      case (Some t')
      have t': "page_aligned t'" "t' \<noteq> f"
        using Some q tree_okD(4) [OF D(1)] D(6) by (auto simp: tables_def)
      have "t' = t \<longleftrightarrow> q = p"
        using tree_okD(2) [OF D(1), of q p] Some D(3,9) q by auto
      then show ?thesis
        using IH False Some t' ent_linked [OF L t'(1), of k] q D(7,8)
        by (auto simp: tbl_snoc dir_ok_def)
    qed
  qed
qed

lemma ent_linked_other:
  assumes L: "fresh_link I m root p t j f e"
    and "path_ok I q" "tbl m root q = Some t'" "k < 512" "q \<noteq> p \<or> k \<noteq> j"
  shows "ent (link_table m t j f e) t' k = ent m t' k"
proof -
  note D = fresh_linkD [OF L]
  have "page_aligned t'" "t' \<noteq> f" "t' = t \<Longrightarrow> q = p"
    using assms tree_okD(2,4) [OF D(1)] D(3,6,9) by (auto simp: tables_def)
  then show ?thesis using ent_linked [OF L] assms(4,5) by auto
qed

lemma pte_at_linked:
  assumes L: "fresh_link I m root p t j f e" and q: "path_ok I q" "length q = 3" "k < 512"
  shows "pte_at (link_table m t j f e) root q k = pte_at m root q k"
proof (cases "q = p @ [j]")
  case True
  have "tbl m root q = None" using True fresh_linkD(3,4) [OF L] by (simp add: tbl_snoc)
  moreover have "tbl (link_table m t j f e) root q = Some f" using True tbl_linked [OF L q(1)] by simp
  ultimately show ?thesis
    using ent_linked [OF L fresh_linkD(5) [OF L] q(3)] by (simp add: pte_at_def)
next
  case False
  have "q \<noteq> p" using q(2) fresh_linkD(11) [OF L] by auto
  then have "\<And>t'. tbl m root q = Some t' \<Longrightarrow> ent (link_table m t j f e) t' k = ent m t' k"
    using ent_linked_other [OF L q(1)] q(3) by blast
  then show ?thesis
    using False tbl_linked [OF L q(1)] by (simp add: pte_at_def split: option.split)
qed

lemma tree_linked:
  assumes L: "fresh_link I m root p t j f e"
  shows "tree_ok I (link_table m t j f e) root"
  unfolding tree_ok_def
proof (intro conjI allI impI)
  note D = fresh_linkD [OF L]
  show "page_aligned root" using tree_okD(1) [OF D(1)] .
  fix q r t'
  assume "path_ok I q" "path_ok I r" "tbl (link_table m t j f e) root q = Some t'"
    "tbl (link_table m t j f e) root r = Some t'"
  then show "q = r"
    using tree_okD(2) [OF D(1)] D(6) by (auto simp: tbl_linked [OF L] tables_def split: if_splits)
next
  note D = fresh_linkD [OF L]
  fix q k t'
  assume a: "path_ok I (q @ [k])" "tbl (link_table m t j f e) root q = Some t'"
    "present (ent (link_table m t j f e) t' k)"
  note q = path_ok_butlast [OF a(1)]
  have "t' \<noteq> f" using a(3) ent_linked [OF L D(5), of k] q by auto
  then have t': "tbl m root q = Some t'" using a q by (simp add: tbl_linked [OF L] split: if_splits)
  then show "dir_ok (ent (link_table m t j f e) t' k)"
    using a q ent_linked [OF L tree_okD(4) [OF D(1) t'], of k] tree_okD(3) [OF D(1) a(1) t'] D(7)
    by (auto split: if_splits)
qed

lemma tables_linked:
  assumes L: "fresh_link I m root p t j f e"
  shows "tables I (link_table m t j f e) root = insert f (tables I m root)"
proof -
  note D = fresh_linkD [OF L]
  have none: "tbl m root (p @ [j]) = None" using D(3,4) by (simp add: tbl_snoc)
  have "t' \<in> tables I (link_table m t j f e) root" if "path_ok I q" "tbl m root q = Some t'" for q t'
  proof -
    have "q \<noteq> p @ [j]" using that none by auto
    then show ?thesis using that tbl_linked [OF L that(1)] unfolding tables_def by auto
  qed
  moreover have "f \<in> tables I (link_table m t j f e) root"
    using D(2) tbl_linked [OF L D(2)] unfolding tables_def by auto
  ultimately show ?thesis
    by (auto simp: tables_def tbl_linked [OF L] split: if_splits)
qed

lemma linked_frame:
  "fresh_link I m root p t j f e \<Longrightarrow> \<not> in_page f x \<Longrightarrow> \<not> in_page t x \<Longrightarrow> link_table m t j f e x = m x"
  using fresh_linkD(10,12) by (simp add: link_table_def write64_other zero_page_def)

section \<open>Writing a leaf entry\<close>

definition leaf_slot :: "nat set \<Rightarrow> pmem \<Rightarrow> u64 \<Rightarrow> nat list \<Rightarrow> u64 \<Rightarrow> nat \<Rightarrow> bool" where
  "leaf_slot I m root p t k \<longleftrightarrow>
     tree_ok I m root \<and> path_ok I p \<and> length p = 3 \<and> tbl m root p = Some t \<and> k < 512"

lemma leaf_slotD:
  assumes "leaf_slot I m root p t k"
  shows "tree_ok I m root" "path_ok I p" "length p = 3" "tbl m root p = Some t" "k < 512" "page_aligned t"
  using assms tree_okD(4) by (auto simp: leaf_slot_def)

lemma ent_written:
  assumes L: "leaf_slot I m root p t k"
    and "path_ok I q" "tbl m root q = Some t'" "i < 512"
  shows "ent (write64 m (slot t k) e) t' i = (if q = p \<and> i = k then e else ent m t' i)"
proof -
  note D = leaf_slotD [OF L]
  have "page_aligned t'" "t' = t \<longleftrightarrow> q = p"
    using assms tree_okD(2,4) [OF D(1)] D by auto
  then show ?thesis using assms(4) D(5,6) by (auto simp: ent_write64)
qed

lemma tbl_written:
  assumes L: "leaf_slot I m root p t k"
  shows "path_ok I q \<Longrightarrow> tbl (write64 m (slot t k) e) root q = tbl m root q"
proof (induction q rule: rev_induct)
  case Nil
  then show ?case by simp
next
  case (snoc i q)
  note q = path_ok_butlast [OF snoc.prems]
  then have "q \<noteq> p" using leaf_slotD(3) [OF L] by auto
  then show ?case
    using snoc.IH q ent_written [OF L] by (auto simp: tbl_snoc split: option.split)
qed

lemma pte_at_written:
  assumes L: "leaf_slot I m root p t k" and "path_ok I q" "length q = 3" "i < 512"
  shows "pte_at (write64 m (slot t k) e) root q i = (if q = p \<and> i = k then e else pte_at m root q i)"
  using assms(2-) ent_written [OF L assms(2)] leaf_slotD(4) [OF L]
  by (auto simp: pte_at_def tbl_written [OF L] split: option.split)

lemma tree_written:
  assumes L: "leaf_slot I m root p t k"
  shows "tree_ok I (write64 m (slot t k) e) root"
  unfolding tree_ok_def
proof (intro conjI allI impI)
  note D = leaf_slotD [OF L]
  show "page_aligned root" using tree_okD(1) [OF D(1)] .
  fix q r t'
  assume "path_ok I q" "path_ok I r" "tbl (write64 m (slot t k) e) root q = Some t'"
    "tbl (write64 m (slot t k) e) root r = Some t'"
  then show "q = r" using tree_okD(2) [OF D(1)] by (simp add: tbl_written [OF L])
next
  note D = leaf_slotD [OF L]
  fix q i t'
  assume a: "path_ok I (q @ [i])" "tbl (write64 m (slot t k) e) root q = Some t'"
    "present (ent (write64 m (slot t k) e) t' i)"
  have q: "path_ok I q" "i < 512" "q \<noteq> p" using path_ok_butlast [OF a(1)] D(3) by auto
  have t': "tbl m root q = Some t'" using a(2) q(1) by (simp add: tbl_written [OF L])
  have "ent (write64 m (slot t k) e) t' i = ent m t' i"
    using ent_written [OF L q(1) t' q(2)] q(3) by simp
  then show "dir_ok (ent (write64 m (slot t k) e) t' i)"
    using a(3) tree_okD(3) [OF D(1) a(1) t'] by simp
qed

lemma tables_written:
  "leaf_slot I m root p t k \<Longrightarrow> tables I (write64 m (slot t k) e) root = tables I m root"
  by (auto simp: tables_def tbl_written)

lemma written_frame:
  "leaf_slot I m root p t k \<Longrightarrow> \<not> in_page t x \<Longrightarrow> write64 m (slot t k) e x = m x"
  using leaf_slotD(5,6) by (simp add: write64_other)

section \<open>Indices and page numbers\<close>

lemma dir_path_length [simp]: "length (dir_path va) = 3"
  by (simp add: dir_path_def)

lemma leaf_index_bound [simp]: "leaf_index va < 512"
  by (simp add: leaf_index_def)

lemma dir_path_ok: "unat (pml4_index va) \<in> I \<Longrightarrow> path_ok I (dir_path va)"
  by (simp add: path_ok_def dir_path_def)

lemma bit_vpn [bitwise]: "bit (vpn va) n \<longleftrightarrow> n < 36 \<and> bit va (12 + n)"
  by (auto simp: vpn_def bit_simps add.commute dest: bit_imp_le_length)

lemma same_page_iff:
  "dir_path va = dir_path va' \<and> leaf_index va = leaf_index va' \<longleftrightarrow> vpn va = vpn va'"
proof
  assume "vpn va = vpn va'"
  then have "bit va (12 + n) = bit va' (12 + n)" if "n < 36" for n
    using that bit_vpn [of va n] bit_vpn [of va' n] by simp
  from this [of "27 + n" for n] this [of "18 + n" for n] this [of "9 + n" for n] this [of n for n]
  have "pml4_index va = pml4_index va'" "pdpt_index va = pdpt_index va'"
    "pd_index va = pd_index va'" "pt_index va = pt_index va'"
    by (auto intro!: bit_word_eqI simp: bit_index add.assoc)
  then show "dir_path va = dir_path va' \<and> leaf_index va = leaf_index va'"
    by (simp add: dir_path_def leaf_index_def)
next
  assume "dir_path va = dir_path va' \<and> leaf_index va = leaf_index va'"
  then have eq: "pml4_index va = pml4_index va'" "pdpt_index va = pdpt_index va'"
    "pd_index va = pd_index va'" "pt_index va = pt_index va'"
    by (simp_all add: dir_path_def leaf_index_def word_unat_eq_iff)
  show "vpn va = vpn va'"
  proof (rule bit_word_eqI)
    fix n assume "n < LENGTH(64)"
    consider "36 \<le> n" | "27 \<le> n" "n < 36" | "18 \<le> n" "n < 27" | "9 \<le> n" "n < 18" | "n < 9"
      by linarith
    then show "bit (vpn va) n = bit (vpn va') n"
      using bit_index(1) [of va "n - 27"] bit_index(2) [of va "n - 18"] bit_index(3) [of va "n - 9"]
        bit_index(4) [of va n] bit_index(1) [of va' "n - 27"] bit_index(2) [of va' "n - 18"]
        bit_index(3) [of va' "n - 9"] bit_index(4) [of va' n] eq
      by cases (simp_all add: bit_vpn less_diff_conv2)
  qed
qed

end
