(* ===== verification/Paging.thy ===== *)
theory Paging
  imports PageAlloc Mmu
begin

text \<open>The operations of \<open>paging.c\<close>: walk, map, unmap, new address space and CR3 switch, on tables in physical
memory. \<open>space_ok I root\<close> is the invariant of the part of an address space under the top-level indices
\<open>I\<close>; \<open>pte_of\<close> is its abstract content, a map from virtual pages to entries. The locale \<open>address_space\<close> is the
interface of that map.\<close>

definition entry_ptr :: "u64 \<Rightarrow> u16 \<Rightarrow> u64" where
  "entry_ptr t i = t + 8 * ucast i"

definition get_current_pml4 :: "'a machine_scheme \<Rightarrow> u64" where
  "get_current_pml4 s = (let phys = cr3 s AND 0x000FFFFFFFFFF000 in phys_to_virt s phys)"

definition walk_level :: "u64 \<Rightarrow> u16 \<Rightarrow> bool \<Rightarrow> 'a frame_state_scheme \<Rightarrow> (u64 option \<times> 'a frame_state_scheme) option" where
  "walk_level table idx create s =
     (if \<not> present (hread64 s (entry_ptr table idx)) then
        if \<not> create then Some (None, s)
        else do {
          (pp, s) \<leftarrow> page_alloc 1 s;
          case pp of
            None \<Rightarrow> Some (None, s)
          | Some pp \<Rightarrow>
              let new_phys = page2pa pp;
                  flags = 0;
                  flags = flags OR push_bit 0 1;
                  flags = flags OR push_bit 1 1;
                  flags = flags OR push_bit 2 1;
                  s = hwrite64 (entry_ptr table idx) (pte_make new_phys flags) s
              in Some (Some (phys_to_virt s (pte_get_addr (hread64 s (entry_ptr table idx)))), s) }
      else Some (Some (phys_to_virt s (pte_get_addr (hread64 s (entry_ptr table idx)))), s))"

definition vmm_walk :: "u64 \<Rightarrow> u64 \<Rightarrow> bool \<Rightarrow> 'a frame_state_scheme \<Rightarrow> (u64 option \<times> 'a frame_state_scheme) option" where
  "vmm_walk pml4 vaddr create s =
     do { (pdpt, s) \<leftarrow> walk_level pml4 (pml4_index vaddr) create s;
          case pdpt of None \<Rightarrow> Some (None, s) | Some pdpt \<Rightarrow>
     do { (pd, s) \<leftarrow> walk_level pdpt (pdpt_index vaddr) create s;
          case pd of None \<Rightarrow> Some (None, s) | Some pd \<Rightarrow>
     do { (pt, s) \<leftarrow> walk_level pd (pd_index vaddr) create s;
          case pt of None \<Rightarrow> Some (None, s) | Some pt \<Rightarrow>
            Some (Some (entry_ptr pt (pt_index vaddr)), s) } } }"

definition vmm_map :: "u64 \<Rightarrow> u64 \<Rightarrow> u64 \<Rightarrow> u64 \<Rightarrow> 'a frame_state_scheme \<Rightarrow> 'a frame_state_scheme option" where
  "vmm_map pml4 vaddr phys_addr flags s =
     do { (pte, s) \<leftarrow> vmm_walk pml4 vaddr True s;
          case pte of None \<Rightarrow> Some s | Some pte \<Rightarrow> Some (hwrite64 pte (pte_make phys_addr flags) s) }"

definition invlpg :: "u64 \<Rightarrow> 'a machine_scheme \<Rightarrow> 'a machine_scheme" where
  "invlpg vaddr s = s\<lparr>tlb_log := tlb_log s @ [Invlpg vaddr]\<rparr>"

definition vmm_unmap :: "u64 \<Rightarrow> u64 \<Rightarrow> 'a frame_state_scheme \<Rightarrow> 'a frame_state_scheme option" where
  "vmm_unmap pml4 vaddr s =
     do { (pte, s) \<leftarrow> vmm_walk pml4 vaddr False s;
          case pte of None \<Rightarrow> Some s
          | Some pte \<Rightarrow> if \<not> present (hread64 s pte) then Some s
                        else Some (invlpg vaddr (hwrite64 pte 0 s)) }"

primrec copy_entries :: "u64 \<Rightarrow> u64 \<Rightarrow> nat list \<Rightarrow> 'a machine_scheme \<Rightarrow> 'a machine_scheme" where
  "copy_entries dst src [] s = s"
| "copy_entries dst src (i # is) s =
     copy_entries dst src is (hwrite64 (entry_ptr dst (of_nat i)) (hread64 s (entry_ptr src (of_nat i))) s)"

definition KERNEL_PML4_START :: nat where "KERNEL_PML4_START = 256"

definition vmm_new_address_space :: "'a frame_state_scheme \<Rightarrow> (u64 option \<times> 'a frame_state_scheme) option" where
  "vmm_new_address_space s =
     do { (pp, s) \<leftarrow> page_alloc 1 s;
          case pp of None \<Rightarrow> Some (None, s)
          | Some pp \<Rightarrow>
              let new_pml4 = phys_to_virt s (page2pa pp);
                  kernel_pml4 = get_current_pml4 s
              in Some (Some new_pml4, copy_entries new_pml4 kernel_pml4 [KERNEL_PML4_START..<512] s) }"

definition vmm_switch_address_space :: "u64 \<Rightarrow> 'a machine_scheme \<Rightarrow> 'a machine_scheme" where
  "vmm_switch_address_space pml4 s =
     (let phys = virt_to_phys s pml4 in s\<lparr>cr3 := phys, tlb_log := tlb_log s @ [Cr3_load phys]\<rparr>)"

section \<open>One level\<close>

lemma entry_ptr_slot: "virt_to_phys s (entry_ptr (phys_to_virt s t) idx) = slot t (unat idx)"
  by (simp add: entry_ptr_def virt_to_phys_def phys_to_virt_def slot_def)

lemma hread64_entry [simp]: "hread64 s (entry_ptr (phys_to_virt s t) idx) = ent (mem s) t (unat idx)"
  by (simp only: hread64_def entry_ptr_slot ent_def)

lemma hwrite64_entry [simp]:
  "hwrite64 (entry_ptr (phys_to_virt s t) idx) v s = s\<lparr>mem := write64 (mem s) (slot t (unat idx)) v\<rparr>"
  by (simp only: hwrite64_def entry_ptr_slot)

lemma phys_to_virt_update [simp]:
  "phys_to_virt (s\<lparr>mem := m\<rparr>) t = phys_to_virt s t"
  "phys_to_virt (s\<lparr>tlb_log := l\<rparr>) t = phys_to_virt s t" "phys_to_virt (s\<lparr>cr3 := c\<rparr>) t = phys_to_virt s t"
  by (simp_all add: phys_to_virt_def)

definition space_ok :: "nat set \<Rightarrow> u64 \<Rightarrow> 'a frame_state_scheme \<Rightarrow> bool" where
  "space_ok I root s \<longleftrightarrow> frames_inv s \<and> tree_ok I (mem s) root \<and>
     (\<forall>f \<in> free_frames s. page2pa f \<notin> tables I (mem s) root)"

definition mem_frame :: "u64 set \<Rightarrow> 'a frame_state_scheme \<Rightarrow> 'a frame_state_scheme \<Rightarrow> bool" where
  "mem_frame T s s' \<longleftrightarrow>
     (\<exists>m ps h. s' = s\<lparr>mem := m, pages := ps, page_free_list := h\<rparr>) \<and>
     map pp_ref (pages s') = map pp_ref (pages s) \<and> free_frames s' \<subseteq> free_frames s \<and>
     (\<forall>x. mem s' x \<noteq> mem s x \<longrightarrow>
        (\<exists>f \<in> free_frames s - free_frames s'. in_page (page2pa f) x) \<or> (\<exists>t \<in> T. in_page t x))"

definition same_ptes :: "nat set \<Rightarrow> u64 \<Rightarrow> pmem \<Rightarrow> pmem \<Rightarrow> bool" where
  "same_ptes I root m m' \<longleftrightarrow>
     (\<forall>p k. path_ok I p \<longrightarrow> length p = 3 \<longrightarrow> k < 512 \<longrightarrow> pte_at m' root p k = pte_at m root p k)"

definition same_root :: "nat set \<Rightarrow> u64 \<Rightarrow> pmem \<Rightarrow> pmem \<Rightarrow> bool" where
  "same_root I root m m' \<longleftrightarrow> (\<forall>j < 512. j \<notin> I \<longrightarrow> ent m' root j = ent m root j)"

definition dir_flags :: u64 where "dir_flags = 0 OR push_bit 0 1 OR push_bit 1 1 OR push_bit 2 1"

lemma dir_flags_eq: "dir_flags = 7"
  by (simp add: dir_flags_def)

lemma dir_entry:
  assumes "pp < 2 ^ 40"
  shows "dir_ok (pte_make (page2pa pp) dir_flags)" "pte_get_addr (pte_make (page2pa pp) dir_flags) = page2pa pp"
proof -
  have b: "bit dir_flags 0" "bit dir_flags 1" "bit dir_flags 2" "\<not> bit dir_flags 7"
    unfolding dir_flags_eq by (simp_all add: bit_iff_odd)
  then show "dir_ok (pte_make (page2pa pp) dir_flags)"
    by (simp add: dir_ok_def flag_bits bit_pte_make)
  have "unat (page2pa pp) < 2 ^ 52" using assms by (simp add: unat_page2pa)
  then have "pte_get_addr (page2pa pp) = page2pa pp"
    using pte_get_addr_frame page_aligned_page2pa [OF assms] by blast
  moreover have "pte_get_addr (pte_make (page2pa pp) dir_flags) = pte_get_addr (page2pa pp)"
    unfolding pte_get_addr_mask [of "page2pa pp"] by (rule pte_get_addr_make) (simp add: dir_flags_eq)
  ultimately show "pte_get_addr (pte_make (page2pa pp) dir_flags) = page2pa pp" by simp
qed

text \<open>What a walk may do to the memory: allocate frames for missing tables.\<close>

definition grows :: "nat set \<Rightarrow> u64 \<Rightarrow> 'a frame_state_scheme \<Rightarrow> 'a frame_state_scheme \<Rightarrow> bool" where
  "grows I root s s' \<longleftrightarrow>
     space_ok I root s' \<and> mem_frame (tables I (mem s) root) s s' \<and> same_ptes I root (mem s) (mem s') \<and>
     same_root I root (mem s) (mem s') \<and> tables I (mem s) root \<subseteq> tables I (mem s') root \<and>
     tables I (mem s') root \<subseteq> tables I (mem s) root \<union> page2pa ` (free_frames s - free_frames s')"

lemma mem_frame_refl [simp]: "mem_frame T s s"
  unfolding mem_frame_def
  by (intro conjI exI [of _ "mem s"] exI [of _ "pages s"] exI [of _ "page_free_list s"]) simp_all

lemma mem_frame_same [simp]:
  assumes "mem_frame T s s'"
  shows "phys_to_virt s' = phys_to_virt s" "virt_to_phys s' = virt_to_phys s" "cr3 s' = cr3 s"
    "locks s' = locks s" "g_hhdm_offset s' = g_hhdm_offset s" "length (pages s') = length (pages s)"
  using assms map_eq_imp_length_eq [of pp_ref "pages s'" pp_ref "pages s"]
  by (auto simp: mem_frame_def phys_to_virt_def virt_to_phys_def fun_eq_iff)

lemma mem_frame_trans:
  assumes "mem_frame T s s1" "mem_frame T' s1 s2" "T' \<subseteq> T \<union> page2pa ` (free_frames s - free_frames s1)"
  shows "mem_frame T s s2"
proof -
  have "\<exists>m ps h. s2 = s\<lparr>mem := m, pages := ps, page_free_list := h\<rparr>"
    using assms(1,2) by (auto simp: mem_frame_def) blast
  moreover have "(\<exists>f \<in> free_frames s - free_frames s2. in_page (page2pa f) x) \<or> (\<exists>t \<in> T. in_page t x)"
    if "mem s2 x \<noteq> mem s x" for x
  proof (cases "mem s1 x = mem s x")
    case True
    then have "(\<exists>f \<in> free_frames s1 - free_frames s2. in_page (page2pa f) x) \<or> (\<exists>t \<in> T'. in_page t x)"
      using assms(2) that by (auto simp: mem_frame_def)
    then show ?thesis using assms by (fastforce simp: mem_frame_def)
  next
    case False
    then show ?thesis using assms(1,2) by (fastforce simp: mem_frame_def)
  qed
  ultimately show ?thesis using assms(1,2) by (auto simp: mem_frame_def)
qed

lemma grows_refl: "space_ok I root s \<Longrightarrow> grows I root s s"
  by (simp add: grows_def same_ptes_def same_root_def)

lemma grows_trans:
  assumes g: "grows I root s s1" "grows I root s1 s2"
  shows "grows I root s s2"
  unfolding grows_def
proof (intro conjI)
  let ?T = "\<lambda>s. tables I (mem s) root"
  have ff: "free_frames s2 \<subseteq> free_frames s1" "free_frames s1 \<subseteq> free_frames s"
    using g by (simp_all add: grows_def mem_frame_def)
  have T: "?T s \<subseteq> ?T s1" "?T s1 \<subseteq> ?T s2" "?T s1 \<subseteq> ?T s \<union> page2pa ` (free_frames s - free_frames s1)"
    "?T s2 \<subseteq> ?T s1 \<union> page2pa ` (free_frames s1 - free_frames s2)"
    using g by (simp_all add: grows_def)
  show "space_ok I root s2" using g(2) by (simp add: grows_def)
  show "mem_frame (?T s) s s2"
    by (rule mem_frame_trans [OF _ _ T(3)]) (use g in \<open>simp_all add: grows_def\<close>)
  show "same_ptes I root (mem s) (mem s2)" using g by (simp add: grows_def same_ptes_def)
  show "same_root I root (mem s) (mem s2)" using g by (simp add: grows_def same_root_def)
  show "?T s \<subseteq> ?T s2" using T by blast
  show "?T s2 \<subseteq> ?T s \<union> page2pa ` (free_frames s - free_frames s2)" using T(3,4) ff by blast
qed

lemma space_okD:
  assumes "space_ok I root s"
  shows "frames_inv s" "tree_ok I (mem s) root" "\<And>f. f \<in> free_frames s \<Longrightarrow> page2pa f \<notin> tables I (mem s) root"
    "\<And>f. f \<in> free_frames s \<Longrightarrow> f < 2 ^ 40"
  using assms free_frames_bound [of _ s] by (auto simp: space_ok_def frames_inv_def dest!: less_le_trans)

lemma root_linked:
  assumes "fresh_link I m root p t j f e"
  shows "same_root I root m (link_table m t j f e)"
  unfolding same_root_def
proof (intro allI impI)
  fix k assume k: "k < 512" "k \<notin> I"
  note L = fresh_linkD [OF assms]
  have root: "root \<in> tables I m root" unfolding tables_def using path_ok_Nil tbl.simps(1) by blast
  have "\<not> (root = t \<and> k = j)"
  proof
    assume *: "root = t \<and> k = j"
    then have "tbl m root [] = Some t" by simp
    then have "p = []" using tree_okD(2) [OF L(1) L(9) path_ok_Nil L(3)] by blast
    then show False using L(2) k(2) * by (simp add: path_ok_def)
  qed
  then show "ent (link_table m t j f e) root k = ent m root k"
    using ent_linked [OF assms tree_okD(1) [OF L(1)] k(1)] root L(6) by auto
qed

lemma walk_level_alloc:
  assumes ok: "space_ok I root s" and path: "path_ok I (p @ [unat idx])" "tbl (mem s) root p = Some t"
    and absent: "\<not> present (ent (mem s) t (unat idx))" and free: "free_frames s \<noteq> {}"
  obtains t' s' where "walk_level (phys_to_virt s t) idx True s = Some (Some (phys_to_virt s' t'), s')"
    "grows I root s s'" "tbl (mem s') root (p @ [unat idx]) = Some t'"
    "card (free_frames s) = Suc (card (free_frames s'))"
proof -
  note D = space_okD [OF ok]
  obtain pp s1 where al: "page_alloc 1 s = Some (Some pp, s1)" "alloc_post 1 s pp s1"
    using page_alloc_pop [OF D(1) free] by blast
  define e f where "e = pte_make (page2pa pp) dir_flags" and "f = page2pa pp"
  have A: "pp \<in> free_frames s" "free_frames s1 = free_frames s - {pp}" "frames_inv s1"
    "map pp_ref (pages s1) = map pp_ref (pages s)" "mem s1 = zero_page f (mem s)"
    using al(2) by (simp_all add: alloc_post_def f_def ALLOC_ZERO_def)
  obtain m1 ps h where s1: "s1 = s\<lparr>mem := m1, pages := ps, page_free_list := h\<rparr>"
    using al(2) unfolding alloc_post_def by blast
  have pp: "pp < 2 ^ 40" using D(4) A(1) .
  have L: "fresh_link I (mem s) root p t (unat idx) f e"
    using D path absent A(1) page_aligned_page2pa [OF pp] dir_entry [OF pp]
    by (simp add: fresh_link_def e_def f_def)
  define s' where "s' = s1\<lparr>mem := link_table (mem s) t (unat idx) f e\<rparr>"
  have mem': "mem s' = link_table (mem s) t (unat idx) f e" by (simp add: s'_def)
  have free': "free_frames s' = free_frames s - {pp}" and inv': "frames_inv s'"
    using A by (simp_all add: s'_def)
  have v: "phys_to_virt s' = phys_to_virt s" "phys_to_virt s1 = phys_to_virt s"
    by (simp_all add: s'_def s1 phys_to_virt_def fun_eq_iff)
  have w: "hwrite64 (entry_ptr (phys_to_virt s t) idx) e s1 = s'"
    using hwrite64_entry [of s1 t idx e] v A(5) by (simp add: s'_def link_table_def)
  have t': "tbl (mem s') root (p @ [unat idx]) = Some f"
    unfolding mem' using tbl_linked [OF L path(1)] by simp
  have rd: "hread64 s' (entry_ptr (phys_to_virt s t) idx) = e"
    using hread64_entry [of s' t idx] v ent_linked [OF L, of t "unat idx"] fresh_linkD(10,12,13) [OF L]
    by (simp add: mem')
  have "pte_get_addr e = f" using fresh_linkD(8) [OF L] .
  then have run: "walk_level (phys_to_virt s t) idx True s = Some (Some (phys_to_virt s' f), s')"
    using al(1) absent w rd
    by (simp add: walk_level_def Let_def dir_flags_eq e_def)
  have frame: "mem_frame (tables I (mem s) root) s s'"
    unfolding mem_frame_def
  proof (intro conjI allI impI)
    show "\<exists>m ps h. s' = s\<lparr>mem := m, pages := ps, page_free_list := h\<rparr>"
      unfolding s'_def s1
      by (intro exI [of _ "link_table (mem s) t (unat idx) f e"] exI [of _ ps] exI [of _ h]) simp
    fix x assume "mem s' x \<noteq> mem s x"
    then have "in_page f x \<or> in_page t x" using linked_frame [OF L] mem' by metis
    moreover have "t \<in> tables I (mem s) root"
      using path(2) fresh_linkD(9) [OF L] by (auto simp: tables_def)
    ultimately show "(\<exists>f \<in> free_frames s - free_frames s'. in_page (page2pa f) x) \<or>
        (\<exists>t \<in> tables I (mem s) root. in_page t x)"
      using A(1) free' by (auto simp: f_def)
  qed (use A free' in \<open>auto simp: s'_def\<close>)
  have tabs: "tables I (mem s') root = insert f (tables I (mem s) root)"
    using tables_linked [OF L] mem' by simp
  have "page2pa g \<noteq> f" if "g \<in> free_frames s'" for g
    using that free' page2pa_inj [of g pp] pp D(4) [of g] by (auto simp: f_def)
  then have "space_ok I root s'"
    using inv' tree_linked [OF L] mem' free' D(3) tabs by (auto simp: space_ok_def)
  then have "grows I root s s'"
    using frame tabs A(1) free' pte_at_linked [OF L] mem' root_linked [OF L] by (auto simp: grows_def same_ptes_def f_def)
  moreover have "card (free_frames s) = Suc (card (free_frames s'))"
    using free' A(1) fa.avail_finite [OF D(1)] card_Suc_Diff1 by metis
  ultimately show thesis using run t' that by blast
qed

lemma walk_level_step:
  assumes ok: "space_ok I root s" and path: "path_ok I (p @ [unat idx])" "tbl (mem s) root p = Some t"
  obtains (table) t' s' where
      "walk_level (phys_to_virt s t) idx create s = Some (Some (phys_to_virt s' t'), s')"
      "grows I root s s'" "tbl (mem s') root (p @ [unat idx]) = Some t'" "create \<or> s' = s"
      "card (free_frames s) \<le> Suc (card (free_frames s'))"
  | (missing) "walk_level (phys_to_virt s t) idx create s = Some (None, s)"
      "tbl (mem s) root (p @ [unat idx]) = None" "create \<Longrightarrow> free_frames s = {}"
proof (cases "present (ent (mem s) t (unat idx))")
  case True
  then show thesis
    using path(2) grows_refl [OF ok]
    by (intro table [of s "pte_get_addr (ent (mem s) t (unat idx))"]) (simp_all add: walk_level_def tbl_snoc)
next
  case False
  then have none: "tbl (mem s) root (p @ [unat idx]) = None" using path(2) by (simp add: tbl_snoc)
  show thesis
  proof (cases "create \<and> free_frames s \<noteq> {}")
    case True
    then show thesis
      using walk_level_alloc [OF ok path False] table by (metis order_refl)
  next
    case stop: False
    then have "walk_level (phys_to_virt s t) idx create s = Some (None, s)"
      using False page_alloc_empty [OF space_okD(1) [OF ok], of 1] by (auto simp: walk_level_def)
    then show thesis using missing none stop by blast
  qed
qed

section \<open>The walk\<close>

lemma dir_path_split:
  "dir_path va = [] @ [unat (pml4_index va), unat (pdpt_index va), unat (pd_index va)]"
  "dir_path va = [unat (pml4_index va)] @ [unat (pdpt_index va), unat (pd_index va)]"
  "dir_path va = [unat (pml4_index va), unat (pdpt_index va)] @ [unat (pd_index va)]"
  by (simp_all add: dir_path_def)

lemma tbl_prefix_None: "tbl m root p = None \<Longrightarrow> tbl m root (p @ q) = None"
  by (simp add: tbl_append)

lemma grows_tbl:
  assumes "grows I root s s'" "path_ok I p" "length p = 3" "tbl (mem s') root p = None"
  shows "\<And>k. k < 512 \<Longrightarrow> pte_at (mem s) root p k = 0"
  using assms by (auto simp: grows_def same_ptes_def pte_at_def)

lemma vmm_walk_step:
  assumes ok: "space_ok I root s" and va: "unat (pml4_index va) \<in> I"
  obtains (slot) t s' where
      "vmm_walk (phys_to_virt s root) va create s =
         Some (Some (entry_ptr (phys_to_virt s' t) (pt_index va)), s')"
      "grows I root s s'" "tbl (mem s') root (dir_path va) = Some t" "create \<or> s' = s"
      "card (free_frames s) \<le> card (free_frames s') + 3"
  | (missing) s' where "vmm_walk (phys_to_virt s root) va create s = Some (None, s')"
      "grows I root s s'" "tbl (mem s') root (dir_path va) = None" "create \<or> s' = s"
      "create \<Longrightarrow> free_frames s' = {} \<and> card (free_frames s) < 3"
proof -
  let ?i4 = "unat (pml4_index va)" and ?i3 = "unat (pdpt_index va)" and ?i2 = "unat (pd_index va)"
  have paths: "path_ok I ([] @ [?i4])" "path_ok I ([?i4] @ [?i3])" "path_ok I ([?i4, ?i3] @ [?i2])"
    using va by (simp_all add: path_ok_def)
  show thesis
  proof (rule walk_level_step [OF ok paths(1), of root create])
    show "tbl (mem s) root [] = Some root" by simp
  next
    assume m: "walk_level (phys_to_virt s root) (pml4_index va) create s = Some (None, s)"
      "tbl (mem s) root ([] @ [?i4]) = None" "create \<Longrightarrow> free_frames s = {}"
    then show thesis
      using missing [of s] grows_refl [OF ok] tbl_prefix_None [OF m(2), of "[?i3, ?i2]"]
      by (simp add: vmm_walk_def dir_path_def)
  next
    fix t1 s1
    assume l1: "walk_level (phys_to_virt s root) (pml4_index va) create s = Some (Some (phys_to_virt s1 t1), s1)"
      "grows I root s s1" "tbl (mem s1) root ([] @ [?i4]) = Some t1" "create \<or> s1 = s"
      "card (free_frames s) \<le> Suc (card (free_frames s1))"
    have ok1: "space_ok I root s1" using l1(2) by (simp add: grows_def)
    show thesis
    proof (rule walk_level_step [OF ok1 paths(2), of t1 create])
      show "tbl (mem s1) root [?i4] = Some t1" using l1(3) by simp
    next
      assume m: "walk_level (phys_to_virt s1 t1) (pdpt_index va) create s1 = Some (None, s1)"
        "tbl (mem s1) root ([?i4] @ [?i3]) = None" "create \<Longrightarrow> free_frames s1 = {}"
      have "create \<Longrightarrow> card (free_frames s) < 3" using m(3) l1(5) by auto
      with m show thesis
        using missing [of s1] l1 tbl_prefix_None [OF m(2), of "[?i2]"]
        by (simp add: vmm_walk_def dir_path_def)
    next
      fix t2 s2
      assume l2: "walk_level (phys_to_virt s1 t1) (pdpt_index va) create s1 = Some (Some (phys_to_virt s2 t2), s2)"
        "grows I root s1 s2" "tbl (mem s2) root ([?i4] @ [?i3]) = Some t2" "create \<or> s2 = s1"
        "card (free_frames s1) \<le> Suc (card (free_frames s2))"
      have ok2: "space_ok I root s2" using l2(2) by (simp add: grows_def)
      have g2: "grows I root s s2" using grows_trans [OF l1(2) l2(2)] .
      have c2: "create \<or> s2 = s" using l1(4) l2(4) by blast
      show thesis
      proof (rule walk_level_step [OF ok2 paths(3), of t2 create])
        show "tbl (mem s2) root [?i4, ?i3] = Some t2" using l2(3) by simp
      next
        assume m: "walk_level (phys_to_virt s2 t2) (pd_index va) create s2 = Some (None, s2)"
          "tbl (mem s2) root ([?i4, ?i3] @ [?i2]) = None" "create \<Longrightarrow> free_frames s2 = {}"
        have "create \<Longrightarrow> card (free_frames s) < 3" using m(3) l1(5) l2(5) by auto
        with m show thesis
          using missing [of s2] l1(1) l2(1) g2 c2 by (simp add: vmm_walk_def dir_path_def)
      next
        fix t3 s3
        assume l3: "walk_level (phys_to_virt s2 t2) (pd_index va) create s2 = Some (Some (phys_to_virt s3 t3), s3)"
          "grows I root s2 s3" "tbl (mem s3) root ([?i4, ?i3] @ [?i2]) = Some t3" "create \<or> s3 = s2"
          "card (free_frames s2) \<le> Suc (card (free_frames s3))"
        have "create \<or> s3 = s" using c2 l3(4) by blast
        moreover have "card (free_frames s) \<le> card (free_frames s3) + 3" using l1(5) l2(5) l3(5) by simp
        ultimately show thesis
          using slot [of s3 t3] l1(1) l2(1) l3 grows_trans [OF g2 l3(2)] by (simp add: vmm_walk_def dir_path_def)
      qed
    qed
  qed
qed

section \<open>Mapping and unmapping\<close>

definition owned :: "nat set \<Rightarrow> u64 \<Rightarrow> bool" where
  "owned I va \<longleftrightarrow> unat (pml4_index va) \<in> I"

lemma grows_pte_of:
  "grows I root s s' \<Longrightarrow> owned I va \<Longrightarrow> pte_of (mem s') root va = pte_of (mem s) root va"
  by (simp add: grows_def same_ptes_def pte_of_def owned_def dir_path_ok)

lemma leaf_slot_va:
  assumes "space_ok I root s" "owned I va" "tbl (mem s) root (dir_path va) = Some t"
  shows "leaf_slot I (mem s) root (dir_path va) t (leaf_index va)"
  using assms space_okD(2) [OF assms(1)] by (simp add: leaf_slot_def dir_path_ok owned_def)

lemma pte_of_written:
  assumes "leaf_slot I m root (dir_path va) t (leaf_index va)" "owned I va'"
  shows "pte_of (write64 m (slot t (leaf_index va)) e) root va' = (if vpn va' = vpn va then e else pte_of m root va')"
  using pte_at_written [OF assms(1), of "dir_path va'" "leaf_index va'" e] assms(2) same_page_iff [of va' va]
  by (simp add: pte_of_def owned_def dir_path_ok)

lemma leaf_write:
  fixes s :: "'a frame_state_scheme" and e :: u64
  assumes "space_ok I root s" "owned I va" "tbl (mem s) root (dir_path va) = Some t"
  defines "s' \<equiv> s\<lparr>mem := write64 (mem s) (slot t (leaf_index va)) e\<rparr>"
  shows "space_ok I root s'" "mem_frame (tables I (mem s) root) s s'"
    "\<And>va'. owned I va' \<Longrightarrow> pte_of (mem s') root va' = (if vpn va' = vpn va then e else pte_of (mem s) root va')"
    "tables I (mem s') root = tables I (mem s) root" "same_root I root (mem s) (mem s')"
proof -
  note L = leaf_slot_va [OF assms(1-3)]
  note D = space_okD [OF assms(1)]
  show T: "tables I (mem s') root = tables I (mem s) root"
    using tables_written [OF L] by (simp add: s'_def)
  have "root \<noteq> t"
    using tree_okD(2) [OF D(2) leaf_slotD(2) [OF L] path_ok_Nil assms(3)] by (auto simp: dir_path_def)
  then show "same_root I root (mem s) (mem s')"
    using tree_okD(1,4) [OF D(2)] assms(3) by (simp add: same_root_def s'_def ent_write64)
  show "space_ok I root s'"
    using D T tree_written [OF L] by (simp add: space_ok_def s'_def)
  have "t \<in> tables I (mem s) root"
    using leaf_slotD(2,4) [OF L] by (auto simp: tables_def)
  moreover have "mem s' x = mem s x" if "\<not> in_page t x" for x
    using written_frame [OF L that] by (simp add: s'_def)
  moreover have "\<exists>m ps h. s' = s\<lparr>mem := m, pages := ps, page_free_list := h\<rparr>"
    unfolding s'_def
    by (intro exI [of _ "write64 (mem s) (slot t (leaf_index va)) e"] exI [of _ "pages s"]
        exI [of _ "page_free_list s"]) simp
  moreover have "free_frames s' = free_frames s" "pages s' = pages s" by (simp_all add: s'_def)
  ultimately show "mem_frame (tables I (mem s) root) s s'"
    unfolding mem_frame_def by auto
  show "pte_of (mem s') root va' = (if vpn va' = vpn va then e else pte_of (mem s) root va')"
    if "owned I va'" for va'
    using pte_of_written [OF L that] by (simp add: s'_def)
qed

lemma vmm_map_cases:
  assumes ok: "space_ok I root s" and va: "owned I va"
  obtains (mapped) s' where "vmm_map (phys_to_virt s root) va pa fl s = Some s'" "space_ok I root s'"
      "mem_frame (tables I (mem s) root) s s'"
      "\<And>va'. owned I va' \<Longrightarrow>
         pte_of (mem s') root va' = (if vpn va' = vpn va then pte_make pa fl else pte_of (mem s) root va')"
      "tables I (mem s) root \<subseteq> tables I (mem s') root"
      "tables I (mem s') root \<subseteq> tables I (mem s) root \<union> page2pa ` (free_frames s - free_frames s')"
      "card (free_frames s) \<le> card (free_frames s') + 3" "same_root I root (mem s) (mem s')"
  | (no_memory) s' where "vmm_map (phys_to_virt s root) va pa fl s = Some s'" "grows I root s s'"
      "free_frames s' = {}" "card (free_frames s) < 3" "\<not> present (pte_of (mem s) root va)"
proof (rule vmm_walk_step [OF ok va [unfolded owned_def], of True])
  fix t s1
  assume w: "vmm_walk (phys_to_virt s root) va True s = Some (Some (entry_ptr (phys_to_virt s1 t) (pt_index va)), s1)"
    "grows I root s s1" "tbl (mem s1) root (dir_path va) = Some t"
    "card (free_frames s) \<le> card (free_frames s1) + 3"
  have ok1: "space_ok I root s1" using w(2) by (simp add: grows_def)
  let ?s' = "s1\<lparr>mem := write64 (mem s1) (slot t (leaf_index va)) (pte_make pa fl)\<rparr>"
  note L = leaf_write [OF ok1 va w(3), where e = "pte_make pa fl"]
  have run: "vmm_map (phys_to_virt s root) va pa fl s = Some ?s'"
    using w(1) by (simp add: vmm_map_def leaf_index_def)
  have T: "tables I (mem s1) root \<subseteq> tables I (mem s) root \<union> page2pa ` (free_frames s - free_frames s1)"
    "tables I (mem s) root \<subseteq> tables I (mem s1) root"
    using w(2) by (simp_all add: grows_def)
  have "mem_frame (tables I (mem s) root) s ?s'"
    using mem_frame_trans [OF _ L(2) T(1)] w(2) by (simp add: grows_def)
  then show thesis
    using mapped [OF run L(1)] L(3,4,5) T w(2,4) grows_pte_of [OF w(2)] by (simp add: grows_def same_root_def)
next
  fix s1
  assume w: "vmm_walk (phys_to_virt s root) va True s = Some (None, s1)" "grows I root s s1"
    "tbl (mem s1) root (dir_path va) = None" "True \<Longrightarrow> free_frames s1 = {} \<and> card (free_frames s) < 3"
  have "pte_of (mem s) root va = 0"
    using w(3) grows_pte_of [OF w(2) va] by (simp add: pte_of_def pte_at_def)
  then show thesis using no_memory [of s1] w by (simp add: vmm_map_def)
qed

lemma vmm_unmap_absent:
  assumes ok: "space_ok I root s" and va: "owned I va" and "\<not> present (pte_of (mem s) root va)"
  shows "vmm_unmap (phys_to_virt s root) va s = Some s"
  using assms(3)
  by (rule_tac vmm_walk_step [OF ok va [unfolded owned_def], of False])
     (auto simp: vmm_unmap_def pte_of_def pte_at_def leaf_index_def)

lemma vmm_unmap_present:
  assumes ok: "space_ok I root s" and va: "owned I va" and pr: "present (pte_of (mem s) root va)"
  obtains m where "vmm_unmap (phys_to_virt s root) va s =
      Some (s\<lparr>mem := m, tlb_log := tlb_log s @ [Invlpg va]\<rparr>)"
    "space_ok I root (s\<lparr>mem := m\<rparr>)" "tables I m root = tables I (mem s) root"
    "mem_frame (tables I (mem s) root) s (s\<lparr>mem := m\<rparr>)"
    "\<And>va'. owned I va' \<Longrightarrow> pte_of m root va' = (if vpn va' = vpn va then 0 else pte_of (mem s) root va')"
proof (rule vmm_walk_step [OF ok va [unfolded owned_def], of False])
  fix t s1
  assume w: "vmm_walk (phys_to_virt s root) va False s = Some (Some (entry_ptr (phys_to_virt s1 t) (pt_index va)), s1)"
    "tbl (mem s1) root (dir_path va) = Some t" "False \<or> s1 = s"
  note L = leaf_write [OF ok va, where t = t and e = 0]
  have pr': "present (ent (mem s) t (leaf_index va))"
    using pr w by (simp add: pte_of_def pte_at_def)
  show thesis
    using w L pr' by (intro that [of "write64 (mem s) (slot t (leaf_index va)) 0"])
      (simp_all add: vmm_unmap_def leaf_index_def [symmetric] invlpg_def)
qed (use pr in \<open>auto simp: pte_of_def pte_at_def\<close>)

section \<open>What the processor sees\<close>

lemma mmu_dirs_tbl:
  assumes "tree_ok I m root" "path_ok I (q @ r)" "tbl m root q = Some t"
  shows "mmu_dirs user write m t r = tbl m t r"
  using assms(2,3)
proof (induction r arbitrary: q t)
  case Nil
  then show ?case by simp
next
  case (Cons j r)
  have "path_ok I (q @ [j])" using Cons.prems(1) by (cases q) (auto simp: path_ok_def)
  then have d: "present (ent m t j) \<Longrightarrow> dir_ok (ent m t j)"
    using tree_okD(3) [OF assms(1) _ Cons.prems(2)] by blast
  show ?case
  proof (cases "present (ent m t j)")
    case True
    have "tbl m root (q @ [j]) = Some (pte_get_addr (ent m t j))"
      using Cons.prems(2) True by (simp add: tbl_snoc)
    then show ?thesis
      using Cons.IH [of "q @ [j]"] Cons.prems(1) True d by (auto simp: dir_grants_def grants_def dir_ok_def)
  qed (simp add: dir_grants_def grants_def)
qed

lemma mmu_access_pte_of:
  assumes "space_ok I root s" "owned I va" "is_canonical va"
  shows "mmu_access user write (mem s) root va =
    (let e = pte_of (mem s) root va
     in if grants user write e then Some (pte_get_addr e + take_bit 12 va) else None)"
  using mmu_dirs_tbl [OF space_okD(2) [OF assms(1)], of "[]" "dir_path va" root user "write"] assms(2,3)
  by (auto simp: mmu_access_def pte_of_def pte_at_def owned_def dir_path_ok Let_def grants_def
      split: option.split)

section \<open>Other address spaces\<close>

definition agree_on :: "u64 set \<Rightarrow> pmem \<Rightarrow> pmem \<Rightarrow> bool" where
  "agree_on T m m' \<longleftrightarrow> (\<forall>t \<in> T. \<forall>x. in_page t x \<longrightarrow> m' x = m x)"

lemma agree_ent: "agree_on T m m' \<Longrightarrow> t \<in> T \<Longrightarrow> page_aligned t \<Longrightarrow> j < 512 \<Longrightarrow> ent m' t j = ent m t j"
  by (rule ent_cong) (auto simp: agree_on_def)

lemma agree_tbl:
  assumes "agree_on (tables I m root) m m'" "page_aligned root"
  shows "path_ok I p \<Longrightarrow> tbl m' root p = tbl m root p"
proof (induction p rule: rev_induct)
  case Nil
  then show ?case by simp
next
  case (snoc j p)
  have p: "path_ok I p" "j < 512" using path_ok_butlast [OF snoc.prems] by auto
  have "ent m' t j = ent m t j" if t: "tbl m root p = Some t" for t
    using agree_ent [OF assms(1) _ tbl_aligned [OF t assms(2)] p(2)] t p(1) by (auto simp: tables_def)
  then show ?case using snoc.IH [OF p(1)] by (auto simp: tbl_snoc split: option.split)
qed

lemma agree_tables:
  "agree_on (tables I m root) m m' \<Longrightarrow> page_aligned root \<Longrightarrow> tables I m' root = tables I m root"
  by (auto simp: tables_def agree_tbl)

lemma agree_ent_tbl:
  assumes "agree_on (tables I m root) m m'" "page_aligned root" "path_ok I p" "tbl m root p = Some t" "k < 512"
  shows "ent m' t k = ent m t k"
  using assms agree_ent [OF assms(1) _ tbl_aligned [OF assms(4,2)] assms(5)] by (auto simp: tables_def)

lemma agree_pte_of:
  assumes "agree_on (tables I m root) m m'" "page_aligned root" "owned I va"
  shows "pte_of m' root va = pte_of m root va"
  using assms agree_ent_tbl [OF assms(1,2) dir_path_ok [OF assms(3) [unfolded owned_def]]]
  by (auto simp: pte_of_def pte_at_def agree_tbl dir_path_ok owned_def split: option.split)

lemma agree_tree_ok:
  assumes a: "agree_on (tables I m root) m m'" and tree: "tree_ok I m root"
  shows "tree_ok I m' root"
  unfolding tree_ok_def
proof (intro conjI allI impI)
  note al = tree_okD(1) [OF tree]
  show "page_aligned root" using al .
  fix p q t
  assume "path_ok I p" "path_ok I q" "tbl m' root p = Some t" "tbl m' root q = Some t"
  then show "p = q" using tree_okD(2) [OF tree] by (simp add: agree_tbl [OF a al])
next
  note al = tree_okD(1) [OF tree]
  fix p j t
  assume p: "path_ok I (p @ [j])" "tbl m' root p = Some t" "present (ent m' t j)"
  have t: "tbl m root p = Some t"
    using p(2) path_ok_butlast [OF p(1)] by (simp add: agree_tbl [OF a al])
  then have "ent m' t j = ent m t j"
    using agree_ent_tbl [OF a al _ t] path_ok_butlast [OF p(1)] by blast
  with t show "dir_ok (ent m' t j)" using p tree_okD(3) [OF tree] by simp
qed

lemma mem_frame_agree:
  assumes "mem_frame T s s'" "T \<inter> U = {}" "page2pa ` free_frames s \<inter> U = {}"
    "\<And>t. t \<in> T \<union> U \<union> page2pa ` free_frames s \<Longrightarrow> page_aligned t"
  shows "agree_on U (mem s) (mem s')"
  unfolding agree_on_def
proof (intro ballI allI impI)
  fix u x assume u: "u \<in> U" "in_page u x"
  have "\<not> in_page t x" if "t \<in> T \<union> page2pa ` free_frames s" for t
    using in_page_disjoint [of u t x] assms(2-4) u that by blast
  then show "mem s' x = mem s x" using assms(1) unfolding mem_frame_def by blast
qed

lemma tables_aligned: "page_aligned root \<Longrightarrow> t \<in> tables I m root \<Longrightarrow> page_aligned t"
  by (auto simp: tables_def dest: tbl_aligned)

lemma space_frame:
  assumes ok: "space_ok J root s" and frame: "mem_frame T s s'" and disj: "T \<inter> tables J (mem s) root = {}"
    and al: "\<And>t. t \<in> T \<Longrightarrow> page_aligned t" and inv: "frames_inv s'"
  shows "space_ok J root s'" "\<And>va. owned J va \<Longrightarrow> pte_of (mem s') root va = pte_of (mem s) root va"
    "tables J (mem s') root = tables J (mem s) root"
proof -
  note D = space_okD [OF ok]
  have root: "page_aligned root" using tree_okD(1) [OF D(2)] .
  have agree: "agree_on (tables J (mem s) root) (mem s) (mem s')"
    using D(3,4) page_aligned_page2pa tables_aligned [OF root] al
    by (intro mem_frame_agree [OF frame disj]) auto
  show T: "tables J (mem s') root = tables J (mem s) root" using agree_tables [OF agree root] .
  have "free_frames s' \<subseteq> free_frames s" using frame by (simp add: mem_frame_def)
  then show "space_ok J root s'"
    using agree_tree_ok [OF agree D(2)] inv D(3) T by (auto simp: space_ok_def)
  show "pte_of (mem s') root va = pte_of (mem s) root va" if "owned J va" for va
    using agree_pte_of [OF agree root that] .
qed

lemma other_space:
  assumes ok: "space_ok I root s" "space_ok J root' s" and frame: "mem_frame (tables I (mem s) root) s s'"
    and disj: "tables I (mem s) root \<inter> tables J (mem s) root' = {}" and inv: "frames_inv s'"
  shows "space_ok J root' s'" "\<And>va. owned J va \<Longrightarrow> pte_of (mem s') root' va = pte_of (mem s) root' va"
    "tables J (mem s') root' = tables J (mem s) root'"
proof -
  have al: "page_aligned t" if "t \<in> tables I (mem s) root" for t
    using tables_aligned [OF tree_okD(1) [OF space_okD(2) [OF ok(1)]] that] .
  note F = space_frame [OF ok(2) frame disj al inv]
  show "space_ok J root' s'" "tables J (mem s') root' = tables J (mem s) root'"
    "\<And>va. owned J va \<Longrightarrow> pte_of (mem s') root' va = pte_of (mem s) root' va"
    by (rule F; assumption)+
qed

lemma alloc_mem_frame:
  assumes "alloc_post flags s pp s'"
  shows "mem_frame {} s s'"
  unfolding mem_frame_def
proof (intro conjI allI impI)
  have A: "pp \<in> free_frames s" "free_frames s' = free_frames s - {pp}"
    "mem s' = (if flags AND ALLOC_ZERO \<noteq> 0 then zero_page (page2pa pp) (mem s) else mem s)"
    "map pp_ref (pages s') = map pp_ref (pages s)"
    using assms by (simp_all add: alloc_post_def)
  show "\<exists>m ps h. s' = s\<lparr>mem := m, pages := ps, page_free_list := h\<rparr>"
    using assms unfolding alloc_post_def by blast
  show "map pp_ref (pages s') = map pp_ref (pages s)" "free_frames s' \<subseteq> free_frames s" using A by auto
  fix x assume "mem s' x \<noteq> mem s x"
  then have "in_page (page2pa pp) x" using A(3) by (auto simp: zero_page_def split: if_splits)
  then show "(\<exists>f \<in> free_frames s - free_frames s'. in_page (page2pa f) x) \<or> (\<exists>t \<in> {}. in_page t x)"
    using A by auto
qed

lemma space_alloc:
  assumes "space_ok I root s" "alloc_post flags s pp s'"
  shows "space_ok I root s'" "\<And>va. owned I va \<Longrightarrow> pte_of (mem s') root va = pte_of (mem s) root va"
    "tables I (mem s') root = tables I (mem s) root"
  using space_frame [OF assms(1) alloc_mem_frame [OF assms(2)]] assms(2) by (simp_all add: alloc_post_def)

section \<open>A new address space\<close>

lemma copy_entries_mem:
  assumes "page_aligned dst" "page_aligned src" "dst \<noteq> src" "\<forall>i \<in> set is. i < 512"
  shows "\<exists>m. copy_entries (phys_to_virt s dst) (phys_to_virt s src) is s = s\<lparr>mem := m\<rparr> \<and>
    (\<forall>k < 512. ent m dst k = (if k \<in> set is then ent (mem s) src k else ent (mem s) dst k)) \<and>
    (\<forall>x. \<not> in_page dst x \<longrightarrow> m x = mem s x)"
  using assms(4)
proof (induction "is" arbitrary: s)
  case Nil
  show ?case by (rule exI [of _ "mem s"]) simp
next
  case (Cons i "is")
  have i: "i < 512" "unat (of_nat i :: u16) = i" using Cons.prems by (simp_all add: unat_of_nat)
  define m1 where "m1 = write64 (mem s) (slot dst i) (ent (mem s) src i)"
  let ?s1 = "s\<lparr>mem := m1\<rparr>"
  have step: "copy_entries (phys_to_virt s dst) (phys_to_virt s src) (i # is) s =
      copy_entries (phys_to_virt ?s1 dst) (phys_to_virt ?s1 src) is ?s1"
    using i by (simp add: m1_def)
  obtain m where m: "copy_entries (phys_to_virt ?s1 dst) (phys_to_virt ?s1 src) is ?s1 = ?s1\<lparr>mem := m\<rparr>"
    "\<forall>k < 512. ent m dst k = (if k \<in> set is then ent m1 src k else ent m1 dst k)"
    "\<forall>x. \<not> in_page dst x \<longrightarrow> m x = m1 x"
    using Cons.IH [of ?s1] Cons.prems by auto
  have e: "ent m1 src k = ent (mem s) src k" "ent m1 dst k = (if i = k then ent (mem s) src i else ent (mem s) dst k)"
    if "k < 512" for k
    using assms i that by (simp_all add: m1_def ent_write64)
  have w: "\<not> in_page dst x \<longrightarrow> m1 x = mem s x" for x
    using write64_other assms(1) i by (simp add: m1_def)
  show ?case
  proof (intro exI [of _ m] conjI allI impI)
    show "copy_entries (phys_to_virt s dst) (phys_to_virt s src) (i # is) s = s\<lparr>mem := m\<rparr>"
      unfolding step using m(1) by simp
    show "ent m dst k = (if k \<in> set (i # is) then ent (mem s) src k else ent (mem s) dst k)" if "k < 512" for k
      using m(2) e [OF that] that by auto
    show "m x = mem s x" if "\<not> in_page dst x" for x
      using m(3) w that by simp
  qed
qed

definition user_half :: "nat set" where "user_half = {..<256}"

definition kernel_half :: "nat set" where "kernel_half = {256..<512}"

lemma set_kernel_indices: "set [KERNEL_PML4_START..<512] = kernel_half"
  by (simp only: set_upt KERNEL_PML4_START_def kernel_half_def)

lemma empty_root:
  assumes "page_aligned root" "\<And>j. j \<in> I \<Longrightarrow> j < 512 \<Longrightarrow> \<not> present (ent m root j)"
  shows "path_ok I p \<Longrightarrow> p \<noteq> [] \<Longrightarrow> tbl m root p = None" "tables I m root = {root}" "tree_ok I m root"
    "owned I va \<Longrightarrow> pte_of m root va = 0"
proof -
  show N: "tbl m root p = None" if "path_ok I p" "p \<noteq> []" for p
    using that assms(2) [of "hd p"] by (cases p) (auto simp: path_ok_def)
  have K: "p = [] \<and> t = root" if "path_ok I p" "tbl m root p = Some t" for p t
    using that N [of p] by (cases "p = []") auto
  then show "tables I m root = {root}"
    unfolding tables_def by (auto intro: exI [of _ "[]"])
  show "tree_ok I m root"
    unfolding tree_ok_def
  proof (intro conjI allI impI)
    fix p j t
    assume a: "path_ok I (p @ [j])" "tbl m root p = Some t" "present (ent m t j)"
    have "p = []" "t = root" using K [of p t] a(2) path_ok_butlast [OF a(1)] by blast+
    then show "dir_ok (ent m t j)" using a assms(2) [of j] by (simp add: path_ok_def)
  next
    fix p q t
    assume "path_ok I p" "path_ok I q" "tbl m root p = Some t" "tbl m root q = Some t"
    then show "p = q" using K by metis
  qed (rule assms(1))
  show "pte_of m root va = 0" if "owned I va"
  proof -
    have "dir_path va \<noteq> []" by (simp add: dir_path_def)
    then show ?thesis
      using N [of "dir_path va"] that by (simp add: pte_of_def pte_at_def owned_def dir_path_ok)
  qed
qed

lemma fresh_root:
  assumes inv: "frames_inv s" and free: "free_frames s \<noteq> {}"
    and root: "page_aligned root" "\<And>f. f \<in> free_frames s \<Longrightarrow> page2pa f \<noteq> root"
  obtains pp s1 s' where
    "page_alloc 1 s = Some (Some pp, s1)" "phys_to_virt s1 = phys_to_virt s" "cr3 s1 = cr3 s"
    "copy_entries (phys_to_virt s (page2pa pp)) (phys_to_virt s root) [KERNEL_PML4_START..<512] s1 = s'"
    "pp \<in> free_frames s" "free_frames s' = free_frames s - {pp}"
    "space_ok user_half (page2pa pp) s'" "mem_frame {} s s'"
    "\<And>va. owned user_half va \<Longrightarrow> pte_of (mem s') (page2pa pp) va = 0"
    "tables user_half (mem s') (page2pa pp) = {page2pa pp}"
    "\<And>j. j \<in> kernel_half \<Longrightarrow> ent (mem s') (page2pa pp) j = ent (mem s) root j"
proof -
  obtain pp s1 where al: "page_alloc 1 s = Some (Some pp, s1)" "alloc_post 1 s pp s1"
    using page_alloc_pop [OF inv free] by blast
  define f where "f = page2pa pp"
  have A: "pp \<in> free_frames s" "free_frames s1 = free_frames s - {pp}" "frames_inv s1"
    "map pp_ref (pages s1) = map pp_ref (pages s)" "mem s1 = zero_page f (mem s)"
    using al(2) by (simp_all add: alloc_post_def f_def ALLOC_ZERO_def)
  obtain m1 ps h where s1: "s1 = s\<lparr>mem := m1, pages := ps, page_free_list := h\<rparr>"
    using al(2) unfolding alloc_post_def by blast
  have b40: "g < 2 ^ 40" if "g \<in> free_frames s" for g
    using free_frames_bound [OF that] inv by (simp add: frames_inv_def)
  have pp: "pp < 2 ^ 40" using b40 A(1) .
  have f: "page_aligned f" "page_aligned root" "f \<noteq> root"
    using page_aligned_page2pa [OF pp] root(1) root(2) [OF A(1)] by (simp_all add: f_def)
  have v: "phys_to_virt s1 = phys_to_virt s" "cr3 s1 = cr3 s"
    by (simp_all add: s1 phys_to_virt_def fun_eq_iff)
  obtain m where m: "copy_entries (phys_to_virt s1 f) (phys_to_virt s1 root) [KERNEL_PML4_START..<512] s1 = s1\<lparr>mem := m\<rparr>"
    "\<forall>k < 512. ent m f k = (if k \<in> kernel_half then ent (mem s1) root k else ent (mem s1) f k)"
    "\<forall>x. \<not> in_page f x \<longrightarrow> m x = mem s1 x"
    using copy_entries_mem [OF f, of "[KERNEL_PML4_START..<512]" s1]
    unfolding set_kernel_indices by (auto simp: kernel_half_def)
  define s' where "s' = s1\<lparr>mem := m\<rparr>"
  have run: "copy_entries (phys_to_virt s f) (phys_to_virt s root) [KERNEL_PML4_START..<512] s1 = s'"
    using m(1) v by (simp add: s'_def)
  have ents: "ent m f k = (if k \<in> kernel_half then ent (mem s) root k else 0)" if "k < 512" for k
    using m(2) that f ent_zero_page_other [OF f(1,2)] by (auto simp: A(5))
  have free': "free_frames s' = free_frames s - {pp}" using A(2) by (simp add: s'_def)
  have frame: "mem_frame {} s s'"
    unfolding mem_frame_def
  proof (intro conjI allI impI)
    show "\<exists>m ps h. s' = s\<lparr>mem := m, pages := ps, page_free_list := h\<rparr>"
      unfolding s'_def s1 by (intro exI [of _ m] exI [of _ ps] exI [of _ h]) simp
    fix x assume "mem s' x \<noteq> mem s x"
    then have "in_page f x" using m(3) A(5) by (auto simp: s'_def zero_page_def split: if_splits)
    then show "(\<exists>f \<in> free_frames s - free_frames s'. in_page (page2pa f) x) \<or> (\<exists>t \<in> {}. in_page t x)"
      using A(1) free' by (auto simp: f_def)
  qed (use A free' in \<open>auto simp: s'_def\<close>)
  have absent: "\<not> present (ent (mem s') f j)" if "j \<in> user_half" "j < 512" for j
    using ents [OF that(2)] that by (simp add: s'_def user_half_def kernel_half_def)
  note E = empty_root [OF f(1) absent]
  have "page2pa g \<noteq> f" if "g \<in> free_frames s'" for g
    using that free' page2pa_inj [of g pp] pp b40 [of g] by (auto simp: f_def)
  then have "space_ok user_half f s'"
    using E(2,3) A(3) by (simp add: space_ok_def s'_def)
  then show thesis
    using al(1) v run free' A(1) frame E ents unfolding f_def
    by (intro that [of pp s1 s']) (simp_all add: s'_def kernel_half_def)
qed

lemma vmm_new_address_space_ok:
  assumes cur: "space_ok kernel_half root s" "cr3 s AND 0x000FFFFFFFFFF000 = root" and free: "free_frames s \<noteq> {}"
  obtains pp s' where
    "vmm_new_address_space s = Some (Some (phys_to_virt s (page2pa pp)), s')"
    "pp \<in> free_frames s" "free_frames s' = free_frames s - {pp}"
    "space_ok user_half (page2pa pp) s'" "mem_frame {} s s'"
    "\<And>va. owned user_half va \<Longrightarrow> pte_of (mem s') (page2pa pp) va = 0"
    "tables user_half (mem s') (page2pa pp) = {page2pa pp}"
    "\<And>j. j \<in> kernel_half \<Longrightarrow> ent (mem s') (page2pa pp) j = ent (mem s) root j"
proof -
  note D = space_okD [OF cur(1)]
  have root: "page_aligned root" by (rule tree_okD(1) [OF D(2)])
  have "root \<in> tables kernel_half (mem s) root"
    unfolding tables_def using path_ok_Nil tbl.simps(1) by blast
  then have nf: "\<And>f. f \<in> free_frames s \<Longrightarrow> page2pa f \<noteq> root" using D(3) by blast
  show thesis
  proof (rule fresh_root [OF D(1) free root nf])
    fix pp s1 s'
    assume r: "page_alloc 1 s = Some (Some pp, s1)" "phys_to_virt s1 = phys_to_virt s" "cr3 s1 = cr3 s"
      "copy_entries (phys_to_virt s (page2pa pp)) (phys_to_virt s root) [KERNEL_PML4_START..<512] s1 = s'"
      and p: "pp \<in> free_frames s" "free_frames s' = free_frames s - {pp}" "space_ok user_half (page2pa pp) s'" "mem_frame {} s s'"
        "\<And>va. owned user_half va \<Longrightarrow> pte_of (mem s') (page2pa pp) va = 0"
        "tables user_half (mem s') (page2pa pp) = {page2pa pp}"
        "\<And>j. j \<in> kernel_half \<Longrightarrow> ent (mem s') (page2pa pp) j = ent (mem s) root j"
    have "get_current_pml4 s1 = phys_to_virt s root" using cur(2) r(2,3) by (simp add: get_current_pml4_def)
    then have "vmm_new_address_space s = Some (Some (phys_to_virt s (page2pa pp)), s')"
      using r by (simp add: vmm_new_address_space_def Let_def)
    then show thesis by (rule that) (use p in simp_all)
  qed
qed

section \<open>The interface of an address space\<close>

primrec put_all :: "('v \<Rightarrow> 'e \<Rightarrow> 's \<Rightarrow> 's option) \<Rightarrow> ('v \<times> 'e) list \<Rightarrow> 's \<Rightarrow> 's option" where
  "put_all put [] s = Some s"
| "put_all put (b # bs) s = do { s \<leftarrow> put (fst b) (snd b) s; put_all put bs s }"

locale address_space =
  fixes look :: "'s \<Rightarrow> 'v \<Rightarrow> 'p"
    and put :: "'v \<Rightarrow> 'e \<Rightarrow> 's \<Rightarrow> 's option"
    and del :: "'v \<Rightarrow> 's \<Rightarrow> 's option"
    and page :: "'v \<Rightarrow> 'k"
    and enc :: "'e \<Rightarrow> 'p"
    and valid :: "'p \<Rightarrow> bool"
    and none :: 'p
    and invar :: "'s \<Rightarrow> bool"
    and mine :: "'v \<Rightarrow> bool"
    and room :: "'s \<Rightarrow> nat"
  assumes none_invalid: "\<not> valid none"
    and put_ok: "invar s \<Longrightarrow> mine v \<Longrightarrow> 3 \<le> room s \<Longrightarrow>
      \<exists>s'. put v e s = Some s' \<and> invar s' \<and> room s \<le> room s' + 3 \<and>
        (\<forall>w. mine w \<longrightarrow> look s' w = (if page w = page v then enc e else look s w))"
    and del_ok: "invar s \<Longrightarrow> mine v \<Longrightarrow>
      \<exists>s'. del v s = Some s' \<and> invar s' \<and> room s' = room s \<and>
        (\<forall>w. mine w \<longrightarrow> look s' w = (if page w = page v \<and> valid (look s v) then none else look s w))"
begin

lemma put_all_ok:
  assumes "invar s" "\<forall>b \<in> set bs. mine (fst b)" "3 * length bs \<le> room s" "distinct (map (page \<circ> fst) bs)"
  shows "\<exists>s'. put_all put bs s = Some s' \<and> invar s' \<and> room s \<le> room s' + 3 * length bs \<and>
    (\<forall>b \<in> set bs. look s' (fst b) = enc (snd b)) \<and>
    (\<forall>w. mine w \<longrightarrow> page w \<notin> (page \<circ> fst) ` set bs \<longrightarrow> look s' w = look s w)"
  using assms
proof (induction bs arbitrary: s)
  case Nil
  then show ?case by simp
next
  case (Cons b bs)
  obtain s1 where s1: "put (fst b) (snd b) s = Some s1" "invar s1" "room s \<le> room s1 + 3"
    "\<forall>w. mine w \<longrightarrow> look s1 w = (if page w = page (fst b) then enc (snd b) else look s w)"
    using put_ok [OF Cons.prems(1), of "fst b" "snd b"] Cons.prems(2,3) by auto
  have "3 * length bs \<le> room s1" using Cons.prems(3) s1(3) by simp
  then obtain s2 where s2: "put_all put bs s1 = Some s2" "invar s2" "room s1 \<le> room s2 + 3 * length bs"
    "\<forall>c \<in> set bs. look s2 (fst c) = enc (snd c)"
    "\<forall>w. mine w \<longrightarrow> page w \<notin> (page \<circ> fst) ` set bs \<longrightarrow> look s2 w = look s1 w"
    using Cons.IH [OF s1(2)] Cons.prems(2,4) by auto
  have "page (fst b) \<notin> (page \<circ> fst) ` set bs" using Cons.prems(4) by simp
  then have "look s2 (fst b) = enc (snd b)" using s1(4) s2(5) Cons.prems(2) by simp
  then show ?case using s1 s2 by (intro exI [of _ s2]) auto
qed

lemma put_del:
  assumes "invar s" "mine v" "3 \<le> room s" "valid (enc e)"
  shows "\<exists>s1 s2. put v e s = Some s1 \<and> del v s1 = Some s2 \<and> invar s2 \<and> look s2 v = none \<and>
    (\<forall>w. mine w \<longrightarrow> page w \<noteq> page v \<longrightarrow> look s2 w = look s w)"
proof -
  obtain s1 where s1: "put v e s = Some s1" "invar s1"
    "\<forall>w. mine w \<longrightarrow> look s1 w = (if page w = page v then enc e else look s w)"
    using put_ok [OF assms(1-3)] by blast
  obtain s2 where s2: "del v s1 = Some s2" "invar s2"
    "\<forall>w. mine w \<longrightarrow> look s2 w = (if page w = page v \<and> valid (look s1 v) then none else look s1 w)"
    using del_ok [OF s1(2) assms(2)] by blast
  show ?thesis
    using s1 s2 assms(2,4) by (intro exI [of _ s1] exI [of _ s2]) simp
qed

end

definition map_page :: "u64 \<Rightarrow> u64 \<Rightarrow> u64 \<times> u64 \<Rightarrow> 'a frame_state_scheme \<Rightarrow> 'a frame_state_scheme option" where
  "map_page root va pf s = vmm_map (phys_to_virt s root) va (fst pf) (snd pf) s"

lemma vmm_map_room:
  assumes "space_ok I root s" "owned I va" "3 \<le> card (free_frames s)"
  shows "\<exists>s'. map_page root va pf s = Some s' \<and> space_ok I root s' \<and>
    card (free_frames s) \<le> card (free_frames s') + 3 \<and>
    (\<forall>w. owned I w \<longrightarrow> pte_of (mem s') root w =
       (if vpn w = vpn va then pte_make (fst pf) (snd pf) else pte_of (mem s) root w))"
  unfolding map_page_def
proof (rule vmm_map_cases [OF assms(1,2), of "fst pf" "snd pf"], goal_cases)
  case (1 s')
  then show ?case by (intro exI [of _ s'] conjI allI impI)
next
  case (2 s')
  then show ?case using assms(3) by linarith
qed

lemma vmm_unmap_correct_aux:
  assumes "space_ok I root s" "owned I va"
  shows "\<exists>s'. vmm_unmap (phys_to_virt s root) va s = Some s' \<and> space_ok I root s' \<and>
    free_frames s' = free_frames s \<and>
    (\<forall>w. owned I w \<longrightarrow> pte_of (mem s') root w =
       (if vpn w = vpn va \<and> present (pte_of (mem s) root va) then 0 else pte_of (mem s) root w))"
proof (cases "present (pte_of (mem s) root va)")
  case False
  then show ?thesis using vmm_unmap_absent [OF assms] assms(1) by auto
next
  case True
  then obtain m where m: "vmm_unmap (phys_to_virt s root) va s =
      Some (s\<lparr>mem := m, tlb_log := tlb_log s @ [Invlpg va]\<rparr>)" "space_ok I root (s\<lparr>mem := m\<rparr>)"
    "\<And>w. owned I w \<Longrightarrow> pte_of m root w = (if vpn w = vpn va then 0 else pte_of (mem s) root w)"
    using vmm_unmap_present [OF assms] by metis
  have "space_ok I root (s\<lparr>mem := m, tlb_log := tlb_log s @ [Invlpg va]\<rparr>)"
    using m(2) by (simp add: space_ok_def)
  then show ?thesis using m True by auto
qed

interpretation vm: address_space "\<lambda>s. pte_of (mem s) root" "map_page root"
  "\<lambda>va s. vmm_unmap (phys_to_virt s root) va s" vpn "\<lambda>pf. pte_make (fst pf) (snd pf)" present 0
  "space_ok I root" "owned I" "\<lambda>s. card (free_frames s)"
  for root I
proof unfold_locales
  show "\<not> present 0" by simp
next
  fix s :: "'a frame_state_scheme" and v pf
  assume a: "space_ok I root s" "owned I v"
  show "\<exists>s'. map_page root v pf s = Some s' \<and> space_ok I root s' \<and>
      card (free_frames s) \<le> card (free_frames s') + 3 \<and>
      (\<forall>w. owned I w \<longrightarrow> pte_of (mem s') root w =
        (if vpn w = vpn v then pte_make (fst pf) (snd pf) else pte_of (mem s) root w))"
    if "3 \<le> card (free_frames s)"
    using vmm_map_room [OF a that] .
  show "\<exists>s'. vmm_unmap (phys_to_virt s root) v s = Some s' \<and> space_ok I root s' \<and>
      card (free_frames s') = card (free_frames s) \<and>
      (\<forall>w. owned I w \<longrightarrow> pte_of (mem s') root w =
        (if vpn w = vpn v \<and> present (pte_of (mem s) root v) then 0 else pte_of (mem s) root w))"
    using vmm_unmap_correct_aux [OF a] by (elim exE conjE, intro exI conjI) simp_all
qed

lemma vmm_map_enough:
  assumes "space_ok I root s" "owned I va" "3 \<le> card (free_frames s)"
  obtains s' where "vmm_map (phys_to_virt s root) va pa fl s = Some s'" "space_ok I root s'"
    "mem_frame (tables I (mem s) root) s s'" "card (free_frames s) \<le> card (free_frames s') + 3"
    "\<And>w. owned I w \<Longrightarrow> pte_of (mem s') root w = (if vpn w = vpn va then pte_make pa fl else pte_of (mem s) root w)"
    "tables I (mem s) root \<subseteq> tables I (mem s') root"
    "tables I (mem s') root \<subseteq> tables I (mem s) root \<union> page2pa ` (free_frames s - free_frames s')"
proof (rule vmm_map_cases [OF assms(1,2), of pa fl], goal_cases)
  case (1 s')
  then show ?case using that [of s'] by blast
next
  case (2 s')
  then show ?case using assms(3) by linarith
qed

section \<open>Pages and addresses\<close>

lemma vpn_rounddown [simp]: "vpn (rounddown va 4096) = vpn va"
  by (rule bit_word_eqI) (auto simp: bit_vpn rounddown_def mask_4095 bit_simps dest: bit_imp_le_length)

lemma vpn_pte_of: "vpn v = vpn w \<Longrightarrow> pte_of m root v = pte_of m root w"
  using same_page_iff [of v w] by (simp add: pte_of_def)

lemma vpn_owned: "vpn v = vpn w \<Longrightarrow> owned I v = owned I w"
  using same_page_iff [of v w] by (simp add: owned_def dir_path_def)

lemma same_page_vpn:
  assumes "page_aligned t" "unat t \<le> unat va" "unat va < unat t + 4096"
  shows "vpn va = vpn t"
proof -
  obtain k where k: "unat t = 4096 * k" using assms(1) by (rule page_alignedE)
  then have "unat va div 4096 = k" using assms(2,3) by (simp add: div_nat_eqI)
  then have "unat (rounddown va 4096) = unat t" using k by (simp add: unat_rounddown_page)
  then have "rounddown va 4096 = t" by (simp only: word_unat_eq_iff)
  then show ?thesis using vpn_rounddown [of va] by simp
qed

section \<open>Properties\<close>

lemma zero_memory: "ent (\<lambda>_. 0) t j = 0"
proof -
  have "load_bytes n (\<lambda>_. 0) a = 0" for n a by (induction n arbitrary: a) auto
  then show ?thesis by (simp add: ent_def)
qed

lemma demo_space: "space_ok I 0 demo_frames" "tables I (mem demo_frames) 0 = {0}"
  "owned I va \<Longrightarrow> pte_of (mem demo_frames) 0 va = 0"
proof -
  have al: "page_aligned 0" by (simp add: page_aligned_def)
  have ab: "\<not> present (ent (mem demo_frames) 0 j)" for j by (simp add: demo_frames_fields zero_memory)
  note E = empty_root [OF al ab]
  show "tables I (mem demo_frames) 0 = {0}" by (rule E(2))
  show "owned I va \<Longrightarrow> pte_of (mem demo_frames) 0 va = 0" by (rule E(4))
  have "page2pa f \<noteq> 0" if "f \<in> free_frames demo_frames" for f
    using that by (auto simp: demo_free_frames page2pa_def PGSIZE_def)
  then show "space_ok I 0 demo_frames"
    using E(2,3) demo_frames_inv by (simp add: space_ok_def)
qed

lemma demo_other_space: "space_ok J 0x6000 demo_frames" "tables J (mem demo_frames) 0x6000 = {0x6000}"
proof -
  have al: "page_aligned 0x6000" by (simp add: page_aligned_def)
  have ab: "\<not> present (ent (mem demo_frames) 0x6000 j)" for j by (simp add: demo_frames_fields zero_memory)
  note E = empty_root [OF al ab]
  show "tables J (mem demo_frames) 0x6000 = {0x6000}" by (rule E(2))
  have "page2pa f \<noteq> 0x6000" if "f \<in> free_frames demo_frames" for f
    using that by (auto simp: demo_free_frames page2pa_def PGSIZE_def)
  then show "space_ok J 0x6000 demo_frames"
    using E(2,3) demo_frames_inv by (simp add: space_ok_def)
qed

lemma demo_room: "card (free_frames demo_frames) = 5"
  by (simp add: demo_free_frames)

lemma demo_owned: "owned UNIV va"
  by (simp add: owned_def)

text \<open>Claim C3. \<open>vmm_map\<close> refines the update of one entry of an abstract map from virtual pages to page table
  entries. It always returns and keeps the tree of tables well formed; either every page of the space
  keeps its entry except the given one, which becomes \<open>pte_make pa fl\<close>, or the allocator ran dry on a
  missing table (fewer than three free frames) and no entry changes. The bytes it writes belong to
  tables of this address space or to frames that were free.\<close>

theorem vmm_map_correct:
  assumes "space_ok I root s" "owned I va"
  shows "\<exists>s'. vmm_map (phys_to_virt s root) va pa fl s = Some s' \<and> space_ok I root s' \<and>
    mem_frame (tables I (mem s) root) s s' \<and>
    ((\<forall>w. owned I w \<longrightarrow> pte_of (mem s') root w = (if vpn w = vpn va then pte_make pa fl else pte_of (mem s) root w)) \<or>
     card (free_frames s) < 3 \<and> free_frames s' = {} \<and> \<not> present (pte_of (mem s) root va) \<and>
     (\<forall>w. owned I w \<longrightarrow> pte_of (mem s') root w = pte_of (mem s) root w))"
proof (rule vmm_map_cases [OF assms, of pa fl], goal_cases)
  case (1 s')
  then show ?case by (intro exI [of _ s'] conjI disjI1 allI impI)
next
  case (2 s')
  then have "space_ok I root s'" "mem_frame (tables I (mem s) root) s s'" by (simp_all add: grows_def)
  then show ?case using 2 grows_pte_of [OF 2(2)] by (intro exI [of _ s'] conjI disjI2 allI impI)
qed

theorem vmm_map_correct_witness:
  "\<exists>s'. vmm_map (phys_to_virt demo_frames 0) 0x400000 0x5000 7 demo_frames = Some s' \<and>
    (\<forall>w. owned UNIV w \<longrightarrow> pte_of (mem s') 0 w =
       (if vpn w = vpn 0x400000 then pte_make 0x5000 7 else pte_of (mem demo_frames) 0 w))"
  using vmm_map_correct [OF demo_space(1) demo_owned, of "0x400000" "0x5000" 7] demo_room
  by (elim exE conjE disjE) (intro exI conjI, assumption+, simp)

text \<open>Claim C15. After mapping a page-aligned frame with three free frames in hand, the processor translates
  the address to that frame at the same offset, for exactly the accesses the flags allow (ring 3 needs
  the user bit, stores need the write bit); the translation of every other page stays as it was.\<close>

theorem vmm_map_translates:
  assumes "space_ok I root s" "owned I va" "is_canonical va" "3 \<le> card (free_frames s)"
    "page_aligned pa" "unat pa < 2 ^ 52" "fl AND 0x000FFFFFFFFFF000 = 0"
  shows "\<exists>s'. vmm_map (phys_to_virt s root) va pa fl s = Some s' \<and>
    mmu_access user write (mem s') root va =
      (if bit fl 0 \<and> (user \<longrightarrow> bit fl 2) \<and> (write \<longrightarrow> bit fl 1) then Some (pa + take_bit 12 va) else None) \<and>
    (\<forall>w. owned I w \<longrightarrow> is_canonical w \<longrightarrow> vpn w \<noteq> vpn va \<longrightarrow>
      mmu_access user write (mem s') root w = mmu_access user write (mem s) root w)"
proof -
  obtain s' where s': "vmm_map (phys_to_virt s root) va pa fl s = Some s'" "space_ok I root s'"
    "\<forall>w. owned I w \<longrightarrow> pte_of (mem s') root w = (if vpn w = vpn va then pte_make pa fl else pte_of (mem s) root w)"
    using vmm_map_room [OF assms(1,2,4), of "(pa, fl)"] by (auto simp: map_page_def)
  have addr: "pte_get_addr (pte_make pa fl) = pa"
    using pte_get_addr_make [OF assms(7), of pa] pte_get_addr_frame [OF assms(5,6)]
    by (simp only: pte_get_addr_mask)
  have "grants user write (pte_make pa fl) \<longleftrightarrow> bit fl 0 \<and> (user \<longrightarrow> bit fl 2) \<and> (write \<longrightarrow> bit fl 1)"
    by (simp add: grants_def flag_bits bit_pte_make)
  then have "mmu_access user write (mem s') root va =
      (if bit fl 0 \<and> (user \<longrightarrow> bit fl 2) \<and> (write \<longrightarrow> bit fl 1) then Some (pa + take_bit 12 va) else None)"
    using mmu_access_pte_of [OF s'(2) assms(2,3)] s'(3) assms(2) addr by (simp add: Let_def)
  moreover have "mmu_access user write (mem s') root w = mmu_access user write (mem s) root w"
    if "owned I w" "is_canonical w" "vpn w \<noteq> vpn va" for w
    using mmu_access_pte_of [OF s'(2) that(1,2)] mmu_access_pte_of [OF assms(1) that(1,2)] s'(3) that by simp
  ultimately show ?thesis using s'(1) by (intro exI [of _ s'] conjI allI impI)
qed

lemma demo_canonical: "is_canonical 0x400000"
  by (rule low_canonical) simp

theorem vmm_map_translates_witness:
  "\<exists>s'. vmm_map (phys_to_virt demo_frames 0) 0x400000 0x5000 5 demo_frames = Some s' \<and>
    mmu_access True False (mem s') 0 0x400000 = Some 0x5000 \<and> mmu_access True True (mem s') 0 0x400000 = None"
proof -
  have f: "page_aligned 0x5000" "unat (0x5000 :: u64) < 2 ^ 52" "5 AND (0x000FFFFFFFFFF000 :: u64) = 0"
    "bit (5 :: u64) 0" "bit (5 :: u64) 2" "\<not> bit (5 :: u64) 1" "take_bit 12 (0x400000 :: u64) = 0"
    by (simp_all add: page_aligned_def bit_iff_odd)
  have r: "3 \<le> card (free_frames demo_frames)" by (simp add: demo_room)
  note T = vmm_map_translates [OF demo_space(1) demo_owned demo_canonical r f(1-3)]
  from T [of True False] obtain s1 where "vmm_map (phys_to_virt demo_frames 0) 0x400000 0x5000 5 demo_frames = Some s1"
    "mmu_access True False (mem s1) 0 0x400000 = Some 0x5000" using f by auto
  moreover from T [of True True] obtain s2 where
    "vmm_map (phys_to_virt demo_frames 0) 0x400000 0x5000 5 demo_frames = Some s2"
    "mmu_access True True (mem s2) 0 0x400000 = None" using f by auto
  ultimately show ?thesis by auto
qed

text \<open>Claim C25. \<open>vmm_unmap\<close> returns, removes exactly the entry of the given page and flushes its translation
  with \<open>invlpg\<close>; a page that is not mapped is left alone and nothing is flushed. No frame is freed.\<close>

theorem vmm_unmap_correct:
  assumes "space_ok I root s" "owned I va"
  shows "\<exists>s'. vmm_unmap (phys_to_virt s root) va s = Some s' \<and> space_ok I root s' \<and>
    free_frames s' = free_frames s \<and>
    (if present (pte_of (mem s) root va)
     then tlb_log s' = tlb_log s @ [Invlpg va] \<and>
       (\<forall>w. owned I w \<longrightarrow> pte_of (mem s') root w = (if vpn w = vpn va then 0 else pte_of (mem s) root w))
     else s' = s)"
proof (cases "present (pte_of (mem s) root va)")
  case False
  then show ?thesis using vmm_unmap_absent [OF assms] assms(1) by simp
next
  case True
  then obtain m where m: "vmm_unmap (phys_to_virt s root) va s =
      Some (s\<lparr>mem := m, tlb_log := tlb_log s @ [Invlpg va]\<rparr>)" "space_ok I root (s\<lparr>mem := m\<rparr>)"
    "\<And>w. owned I w \<Longrightarrow> pte_of m root w = (if vpn w = vpn va then 0 else pte_of (mem s) root w)"
    using vmm_unmap_present [OF assms] by metis
  have "space_ok I root (s\<lparr>mem := m, tlb_log := tlb_log s @ [Invlpg va]\<rparr>)"
    using m(2) by (simp add: space_ok_def)
  then show ?thesis using m True by auto
qed

theorem vmm_unmap_correct_witness: "vmm_unmap (phys_to_virt demo_frames 0) 0x400000 demo_frames = Some demo_frames"
  using vmm_unmap_correct [OF demo_space(1) demo_owned, of "0x400000"] demo_space(3) [OF demo_owned, of "0x400000"]
  by simp

text \<open>Without \<open>create\<close>, \<open>vmm_walk\<close> is a pure lookup: it returns the address of the leaf slot that the
  three directory levels lead to, or \<open>NULL\<close> when one is absent, and changes nothing.\<close>

theorem vmm_walk_lookup:
  assumes "space_ok I root s" "owned I va"
  shows "vmm_walk (phys_to_virt s root) va False s =
    Some (map_option (\<lambda>t. entry_ptr (phys_to_virt s t) (pt_index va)) (tbl (mem s) root (dir_path va)), s)"
  by (rule vmm_walk_step [OF assms(1) assms(2) [unfolded owned_def], of False]) auto

theorem vmm_walk_lookup_witness: "vmm_walk (phys_to_virt demo_frames 0) 0x400000 False demo_frames = Some (None, demo_frames)"
proof -
  have "tbl (mem demo_frames) 0 (dir_path 0x400000) = None"
    by (simp add: demo_frames_fields dir_path_def zero_memory)
  then show ?thesis using vmm_walk_lookup [OF demo_space(1) demo_owned, of "0x400000"] by simp
qed

text \<open>Claim C16. Mapping a page in one address space leaves every translation of another one alone, as long as
  they share no table: its tree stays well formed and keeps all its entries.\<close>

theorem vmm_map_isolated:
  assumes "space_ok I root s" "owned I va" "space_ok J root' s"
    "tables I (mem s) root \<inter> tables J (mem s) root' = {}"
  shows "\<exists>s'. vmm_map (phys_to_virt s root) va pa fl s = Some s' \<and> space_ok J root' s' \<and>
    (\<forall>w. owned J w \<longrightarrow> pte_of (mem s') root' w = pte_of (mem s) root' w) \<and>
    tables I (mem s') root \<inter> tables J (mem s') root' = {}"
proof -
  have disj: "tables J (mem s) root' \<inter> page2pa ` free_frames s = {}"
    using space_okD(3) [OF assms(3)] by auto
  have "\<exists>s'. vmm_map (phys_to_virt s root) va pa fl s = Some s' \<and> space_ok I root s' \<and>
      mem_frame (tables I (mem s) root) s s' \<and>
      tables I (mem s') root \<subseteq> tables I (mem s) root \<union> page2pa ` (free_frames s - free_frames s')"
  proof (rule vmm_map_cases [OF assms(1,2), of pa fl], goal_cases)
    case (1 s')
    then show ?case by (intro exI [of _ s'] conjI)
  next
    case (2 s')
    then show ?case by (intro exI [of _ s'] conjI) (simp_all add: grows_def)
  qed
  then obtain s' where s': "vmm_map (phys_to_virt s root) va pa fl s = Some s'" "space_ok I root s'"
    "mem_frame (tables I (mem s) root) s s'"
    "tables I (mem s') root \<subseteq> tables I (mem s) root \<union> page2pa ` (free_frames s - free_frames s')"
    by blast
  note O = other_space [OF assms(1,3) s'(3) assms(4) space_okD(1) [OF s'(2)]]
  have "tables I (mem s') root \<inter> tables J (mem s') root' = {}"
    using s'(4) disj assms(4) unfolding O(3) by blast
  then show ?thesis using s'(1) O(1,2) by (intro exI [of _ s'] conjI allI impI)
qed

theorem vmm_map_isolated_witness:
  "\<exists>s'. vmm_map (phys_to_virt demo_frames 0) 0x400000 0x5000 7 demo_frames = Some s' \<and> space_ok UNIV 0x6000 s' \<and>
    (\<forall>w. owned UNIV w \<longrightarrow> pte_of (mem s') 0x6000 w = pte_of (mem demo_frames) 0x6000 w)"
proof -
  have "tables UNIV (mem demo_frames) 0 \<inter> tables UNIV (mem demo_frames) 0x6000 = {}"
    by (simp add: demo_space demo_other_space)
  from vmm_map_isolated [OF demo_space(1) demo_owned demo_other_space(1) this, of "0x400000" "0x5000" 7] show ?thesis
    by (elim exE conjE, intro exI conjI)
qed

text \<open>Claim C26. \<open>vmm_new_address_space\<close> takes one free frame for the new root. Its user half maps nothing,
  its kernel half has the entries of the current root, and no memory outside the new root is written;
  without a free frame it returns \<open>NULL\<close> and changes nothing.\<close>

theorem vmm_new_address_space_correct:
  assumes "space_ok kernel_half root s" "cr3 s AND 0x000FFFFFFFFFF000 = root"
  shows "if free_frames s = {} then vmm_new_address_space s = Some (None, s)
    else \<exists>pp s'. vmm_new_address_space s = Some (Some (phys_to_virt s (page2pa pp)), s') \<and>
      pp \<in> free_frames s \<and> free_frames s' = free_frames s - {pp} \<and>
      space_ok user_half (page2pa pp) s' \<and> mem_frame {} s s' \<and>
      (\<forall>va. owned user_half va \<longrightarrow> pte_of (mem s') (page2pa pp) va = 0) \<and>
      (\<forall>j \<in> kernel_half. ent (mem s') (page2pa pp) j = ent (mem s) root j)"
proof (cases "free_frames s = {}")
  case True
  then show ?thesis
    using page_alloc_empty [OF space_okD(1) [OF assms(1)], of 1] by (simp add: vmm_new_address_space_def)
next
  case False
  obtain pp s' where "vmm_new_address_space s = Some (Some (phys_to_virt s (page2pa pp)), s')"
    "pp \<in> free_frames s" "free_frames s' = free_frames s - {pp}"
    "space_ok user_half (page2pa pp) s'" "mem_frame {} s s'"
    "\<And>va. owned user_half va \<Longrightarrow> pte_of (mem s') (page2pa pp) va = 0"
    "\<And>j. j \<in> kernel_half \<Longrightarrow> ent (mem s') (page2pa pp) j = ent (mem s) root j"
    using vmm_new_address_space_ok [OF assms False] by metis
  then show ?thesis using False by auto
qed

theorem vmm_new_address_space_correct_witness:
  "\<exists>pp s'. vmm_new_address_space demo_frames = Some (Some (phys_to_virt demo_frames (page2pa pp)), s') \<and>
    space_ok user_half (page2pa pp) s' \<and> (\<forall>va. owned user_half va \<longrightarrow> pte_of (mem s') (page2pa pp) va = 0)"
proof -
  have c: "cr3 demo_frames AND 0x000FFFFFFFFFF000 = 0" by (simp add: demo_frames_fields)
  have "free_frames demo_frames \<noteq> {}" by (simp add: demo_free_frames)
  with vmm_new_address_space_correct [OF demo_space(1) c] show ?thesis
    by (simp only: if_False) (elim exE conjE, intro exI conjI)
qed

text \<open>Mapping a list of distinct pages one after the other, with three free frames per page, gives
  every page its own entry and keeps the entries of all other pages of the address space.\<close>

theorem vmm_map_many:
  assumes "space_ok I root s" "\<forall>b \<in> set bs. owned I (fst b)" "3 * length bs \<le> card (free_frames s)"
    "distinct (map (vpn \<circ> fst) bs)"
  shows "\<exists>s'. put_all (map_page root) bs s = Some s' \<and> space_ok I root s' \<and>
    (\<forall>b \<in> set bs. pte_of (mem s') root (fst b) = pte_make (fst (snd b)) (snd (snd b))) \<and>
    (\<forall>w. owned I w \<longrightarrow> vpn w \<notin> (vpn \<circ> fst) ` set bs \<longrightarrow> pte_of (mem s') root w = pte_of (mem s) root w)"
  using vm.put_all_ok [OF assms] by (elim exE conjE, intro exI conjI)

theorem vmm_map_many_witness:
  "\<exists>s'. put_all (map_page 0) [(0x400000, (0x5000, 7))] demo_frames = Some s' \<and>
     pte_of (mem s') 0 0x400000 = pte_make 0x5000 7"
proof -
  have "3 * length [(0x400000 :: u64, (0x5000 :: u64, 7 :: u64))] \<le> card (free_frames demo_frames)"
    by (simp add: demo_room)
  from vmm_map_many [OF demo_space(1) _ this] show ?thesis
    using demo_owned by fastforce
qed

end
