(* ===== verification/Kheap.thy ===== *)
theory Kheap
  imports Paging
begin

text \<open>\<open>kheap.c\<close>: the kernel heap. The block headers inside the heap are kept as a typed store \<open>hblocks\<close> from
addresses to headers; reading or writing one faults unless its bytes are mapped writable in the current
address space. The two list walks are partial functions, since a damaged list may be cyclic. \<open>heap_inv xs s\<close>
is the invariant: the list from \<open>free_list\<close> visits exactly \<open>xs\<close>, the blocks lie apart inside the arena, and the
arena is mapped. \<open>live\<close> is the abstract state, the set of blocks handed out. This theory shows the list
surgery: search, split, free and coalesce.\<close>

record block_header =
  bsize :: u64
  bfree :: u32
  bnext :: "u64 option"

record heap_state = frame_state +
  heap_next :: u64
  heap_end :: u64
  free_list :: "u64 option"
  hblocks :: "u64 \<Rightarrow> block_header option"

definition KHEAP_BASE :: u64 where "KHEAP_BASE = 0xFFFF900000000000"

definition KHEAP_SIZE :: u64 where "KHEAP_SIZE = 512 * 1024 * 1024"

definition SIZEOF_HEADER :: u64 where "SIZEOF_HEADER = 24"

definition ALIGN :: u64 where "ALIGN = 16"

text \<open>A header is three words of heap memory. Touching one faults unless all of it is mapped writable.\<close>

definition hdr_mapped :: "'a heap_state_scheme \<Rightarrow> u64 \<Rightarrow> bool" where
  "hdr_mapped s a \<longleftrightarrow>
     (\<forall>i \<in> set [0, 8, 16]. mmu_access False True (mem s) (cr3 s AND 0x000FFFFFFFFFF000) (a + i) \<noteq> None)"

definition get_hdr :: "u64 \<Rightarrow> 'a heap_state_scheme \<Rightarrow> block_header option" where
  "get_hdr a s = (if hdr_mapped s a then hblocks s a else None)"

definition put_hdr :: "u64 \<Rightarrow> block_header \<Rightarrow> 'a heap_state_scheme \<Rightarrow> 'a heap_state_scheme option" where
  "put_hdr a h s = (if hdr_mapped s a then Some (s\<lparr>hblocks := (hblocks s)(a \<mapsto> h)\<rparr>) else None)"

primrec heap_extend_loop :: "nat \<Rightarrow> 'a heap_state_scheme \<Rightarrow> (bool \<times> 'a heap_state_scheme) option" where
  "heap_extend_loop 0 s = Some (True, s)"
| "heap_extend_loop (Suc n) s =
     (if heap_next s \<ge> KHEAP_BASE + KHEAP_SIZE then Some (False, s)
      else do {
        (pp, s) \<leftarrow> page_alloc 1 s;
        case pp of
          None \<Rightarrow> Some (False, s)
        | Some pp \<Rightarrow>
            let phys = page2pa pp;
                flags = 0;
                flags = flags OR push_bit 0 1;
                flags = flags OR push_bit 1 1
            in do { s \<leftarrow> vmm_map (get_current_pml4 s) (heap_next s) phys flags s;
                    heap_extend_loop n (s\<lparr>heap_next := heap_next s + PGSIZE\<rparr>) } })"

definition heap_extend :: "u64 \<Rightarrow> 'a heap_state_scheme \<Rightarrow> (bool \<times> 'a heap_state_scheme) option" where
  "heap_extend n s =
     do { (ok, s) \<leftarrow> heap_extend_loop (unat n) s;
          Some (if ok then (True, s\<lparr>heap_end := heap_next s\<rparr>) else (False, s)) }"

definition kheap_init :: "'a heap_state_scheme \<Rightarrow> 'a heap_state_scheme" where
  "kheap_init s = s\<lparr>heap_next := KHEAP_BASE, heap_end := KHEAP_BASE, free_list := None\<rparr>"

partial_function (option) find_from :: "u64 \<Rightarrow> 'a heap_state_scheme \<Rightarrow> u64 option \<Rightarrow> u64 option option" where
  "find_from sz s cur =
     (case cur of
        None \<Rightarrow> Some None
      | Some a \<Rightarrow> do { h \<leftarrow> get_hdr a s;
                     if bfree h \<noteq> 0 \<and> bsize h \<ge> sz then Some (Some a)
                     else find_from sz s (bnext h) })"

declare find_from.simps [code]

definition find_free_block :: "u64 \<Rightarrow> 'a heap_state_scheme \<Rightarrow> u64 option option" where
  "find_free_block sz s = find_from sz s (free_list s)"

definition split_block :: "u64 \<Rightarrow> u64 \<Rightarrow> 'a heap_state_scheme \<Rightarrow> 'a heap_state_scheme option" where
  "split_block b sz s =
     (let min_split = SIZEOF_HEADER + ALIGN in
      do { h \<leftarrow> get_hdr b s;
           if bsize h \<ge> sz + min_split then
             (let newb = b + SIZEOF_HEADER + sz in
              do { s \<leftarrow> put_hdr newb \<lparr>bsize = bsize h - sz - SIZEOF_HEADER, bfree = 1, bnext = bnext h\<rparr> s;
                   h \<leftarrow> get_hdr b s;
                   put_hdr b (h\<lparr>bsize := sz, bnext := Some newb\<rparr>) s })
           else Some s })"

definition kmalloc :: "u64 \<Rightarrow> 'a heap_state_scheme \<Rightarrow> (u64 option \<times> 'a heap_state_scheme) option" where
  "kmalloc sz s =
     (if sz = 0 then Some (None, s)
      else let sz = roundup sz ALIGN in
        do { (f, s) \<leftarrow> spinlock_acquire kheap_lock s;
             b \<leftarrow> find_free_block sz s;
             case b of
               Some b \<Rightarrow>
                 do { s \<leftarrow> split_block b sz s;
                      h \<leftarrow> get_hdr b s;
                      s \<leftarrow> put_hdr b (h\<lparr>bfree := 0\<rparr>) s;
                      Some (Some (b + SIZEOF_HEADER), spinlock_release kheap_lock f s) }
             | None \<Rightarrow>
                 let needed = sz + SIZEOF_HEADER;
                     npages = (needed + PGSIZE - 1) div PGSIZE;
                     new_block_addr = heap_next s
                 in do { (ok, s) \<leftarrow> heap_extend npages s;
                         if \<not> ok then Some (None, spinlock_release kheap_lock f s)
                         else do {
                           s \<leftarrow> put_hdr new_block_addr
                                 \<lparr>bsize = npages * PGSIZE - SIZEOF_HEADER, bfree = 0, bnext = free_list s\<rparr> s;
                           s \<leftarrow> split_block new_block_addr sz (s\<lparr>free_list := Some new_block_addr\<rparr>);
                           Some (Some (new_block_addr + SIZEOF_HEADER), spinlock_release kheap_lock f s) } } })"

partial_function (option) merge_from :: "u64 option \<Rightarrow> 'a heap_state_scheme \<Rightarrow> 'a heap_state_scheme option" where
  "merge_from cur s =
     (case cur of
        None \<Rightarrow> Some s
      | Some a \<Rightarrow>
          do { h \<leftarrow> get_hdr a s;
               if bfree h \<noteq> 0 \<and> bnext h \<noteq> None then
                 do { n \<leftarrow> get_hdr (the (bnext h)) s;
                      if bfree n \<noteq> 0 \<and> a + SIZEOF_HEADER + bsize h = the (bnext h)
                      then do { s \<leftarrow> put_hdr a (h\<lparr>bsize := bsize h + (SIZEOF_HEADER + bsize n), bnext := bnext n\<rparr>) s;
                                merge_from (Some a) s }
                      else merge_from (bnext h) s }
               else merge_from (bnext h) s })"

declare merge_from.simps [code]

definition kfree :: "u64 option \<Rightarrow> 'a heap_state_scheme \<Rightarrow> 'a heap_state_scheme option" where
  "kfree ptr s =
     (case ptr of
        None \<Rightarrow> Some s
      | Some p \<Rightarrow>
          do { (f, s) \<leftarrow> spinlock_acquire kheap_lock s;
               let b = p - SIZEOF_HEADER in
               do { h \<leftarrow> get_hdr b s;
                    s \<leftarrow> put_hdr b (h\<lparr>bfree := 1\<rparr>) s;
                    s \<leftarrow> merge_from (free_list s) s;
                    Some (spinlock_release kheap_lock f s) } })"

section \<open>The block list\<close>

type_synonym headers = "u64 \<Rightarrow> block_header option"

primrec seg :: "headers \<Rightarrow> u64 option \<Rightarrow> u64 list \<Rightarrow> u64 option \<Rightarrow> bool" where
  "seg H p [] q \<longleftrightarrow> p = q"
| "seg H p (a # as) q \<longleftrightarrow> p = Some a \<and> (\<exists>h. H a = Some h \<and> seg H (bnext h) as q)"

definition hd_of :: "headers \<Rightarrow> u64 \<Rightarrow> block_header" where
  "hd_of H a = the (H a)"

definition blk_end :: "headers \<Rightarrow> u64 \<Rightarrow> nat" where
  "blk_end H a = unat a + 24 + unat (bsize (hd_of H a))"

definition apart :: "headers \<Rightarrow> u64 \<Rightarrow> u64 \<Rightarrow> bool" where
  "apart H a b \<longleftrightarrow> blk_end H a \<le> unat b \<or> blk_end H b \<le> unat a"

definition blocks_ok :: "nat \<Rightarrow> headers \<Rightarrow> u64 list \<Rightarrow> bool" where
  "blocks_ok lim H xs \<longleftrightarrow> distinct xs \<and>
     (\<forall>a \<in> set xs. unat KHEAP_BASE \<le> unat a \<and> blk_end H a \<le> lim) \<and>
     (\<forall>a \<in> set xs. \<forall>b \<in> set xs. a \<noteq> b \<longrightarrow> apart H a b)"

definition heap_index :: "nat set" where "heap_index = {288}"

abbreviation heap_root :: "'a heap_state_scheme \<Rightarrow> u64" where
  "heap_root s \<equiv> cr3 s AND 0x000FFFFFFFFFF000"

definition heap_mapped :: "'a heap_state_scheme \<Rightarrow> bool" where
  "heap_mapped s \<longleftrightarrow>
     (\<forall>va. unat KHEAP_BASE \<le> unat va \<longrightarrow> unat va < unat (heap_next s) \<longrightarrow>
        present (pte_of (mem s) (heap_root s) va) \<and> writable (pte_of (mem s) (heap_root s) va))"

definition heap_arena :: "'a heap_state_scheme \<Rightarrow> bool" where
  "heap_arena s \<longleftrightarrow> space_ok heap_index (heap_root s) s \<and> heap_mapped s \<and>
     page_aligned (heap_next s) \<and> KHEAP_BASE \<le> heap_next s \<and> heap_next s \<le> KHEAP_BASE + KHEAP_SIZE"

definition heap_inv :: "u64 list \<Rightarrow> 'a heap_state_scheme \<Rightarrow> bool" where
  "heap_inv xs s \<longleftrightarrow>
     seg (hblocks s) (free_list s) xs None \<and> blocks_ok (unat (heap_next s)) (hblocks s) xs \<and>
     locks s kheap_lock = 0 \<and> heap_arena s"

definition live :: "headers \<Rightarrow> u64 list \<Rightarrow> (u64 \<times> u64) set" where
  "live H xs = {(a + SIZEOF_HEADER, bsize (hd_of H a)) | a. a \<in> set xs \<and> bfree (hd_of H a) = 0}"

lemma seg_append: "seg H p (as @ bs) r \<longleftrightarrow> (\<exists>q. seg H p as q \<and> seg H q bs r)"
  by (induction as arbitrary: p) auto

lemma seg_upd [simp]: "b \<notin> set as \<Longrightarrow> seg (H(b := v)) p as q = seg H p as q"
  by (induction as arbitrary: p) auto

lemma seg_upd_same:
  "H b = Some h \<Longrightarrow> bnext h' = bnext h \<Longrightarrow> seg (H(b \<mapsto> h')) p as q = seg H p as q"
  by (induction as arbitrary: p) auto

lemma seg_Some: "seg H p as q \<Longrightarrow> a \<in> set as \<Longrightarrow> \<exists>h. H a = Some h"
  by (induction as arbitrary: p) auto

lemma seg_split:
  assumes "seg H p (as @ b # bs) None" "distinct (as @ b # bs)" "n \<notin> set (as @ b # bs)"
  shows "seg (H(n \<mapsto> h1\<lparr>bnext := bnext (hd_of H b)\<rparr>, b \<mapsto> h2\<lparr>bnext := Some n\<rparr>)) p (as @ b # n # bs) None"
  using assms by (auto simp: seg_append hd_of_def)

lemma seg_merge:
  assumes "seg H p (as @ a # n # bs) None" "distinct (as @ a # n # bs)"
  shows "seg (H(a \<mapsto> h\<lparr>bnext := bnext (hd_of H n)\<rparr>)) p (as @ a # bs) None"
  using assms by (auto simp: seg_append hd_of_def)

lemma hd_of_upd [simp]: "hd_of (H(a \<mapsto> h)) b = (if b = a then h else hd_of H b)"
  by (simp add: hd_of_def)

section \<open>The arena\<close>

lemma high_canonical:
  assumes "2 ^ 64 - 2 ^ 47 \<le> unat va"
  shows "is_canonical va"
proof -
  have "NOT va = - 1 - va" by (simp add: not_eq_complement)
  moreover have "unat (- 1 - va) = unat (- 1 :: u64) - unat va" by (rule unat_sub) simp
  ultimately have "unat (NOT va) = 2 ^ 64 - 1 - unat va" by (simp only: unat_max_u64)
  then have "unat (NOT va) < 2 ^ 47" using assms unat_lt_u64 [of va] by linarith
  then have can: "is_canonical (NOT va)" by (rule low_canonical)
  have "bit va n = bit va 47" if "47 \<le> n" "n < 64" for n
  proof -
    have "bit (NOT va) n = bit (NOT va) 47" using can that unfolding is_canonical_bits by blast
    then show ?thesis using that by (simp add: bit_not_iff)
  qed
  then show ?thesis unfolding is_canonical_bits by blast
qed

lemma unat_KHEAP_BASE: "unat KHEAP_BASE = 18446620928407240704"
  by (simp add: KHEAP_BASE_def)

lemma unat_heap_limit: "unat (KHEAP_BASE + KHEAP_SIZE) = 18446620928407240704 + 536870912"
  by (simp add: KHEAP_BASE_def KHEAP_SIZE_def)

lemma heap_va:
  assumes "unat KHEAP_BASE \<le> unat va" "unat va < unat KHEAP_BASE + 2 ^ 30"
  shows "owned heap_index va" "is_canonical va"
proof -
  have "(2 :: nat) ^ 64 - 2 ^ 47 \<le> unat va" using assms(1) unat_KHEAP_BASE by simp
  then show "is_canonical va" by (rule high_canonical)
  obtain d where d: "unat va = 33554208 * 2 ^ 39 + d" "d < 2 ^ 30"
    using assms unat_KHEAP_BASE by (auto simp: le_iff_add)
  have "unat va div 2 ^ 39 = 33554208" unfolding d(1) using d(2) by simp
  then show "owned heap_index va" by (simp only: owned_def heap_index_def unat_index) simp
qed

lemma heap_arena_access:
  assumes ar: "heap_arena s" and va: "unat KHEAP_BASE \<le> unat va" "unat va < unat (heap_next s)"
  shows "mmu_access False True (mem s) (heap_root s) va \<noteq> None"
proof -
  have "unat (heap_next s) \<le> unat KHEAP_BASE + 536870912"
    using ar unat_heap_limit unat_KHEAP_BASE by (simp add: heap_arena_def word_le_nat_alt)
  then have h: "owned heap_index va" "is_canonical va" using heap_va va by auto
  have "present (pte_of (mem s) (heap_root s) va)" "writable (pte_of (mem s) (heap_root s) va)"
    using ar va by (simp_all add: heap_arena_def heap_mapped_def)
  moreover have "space_ok heap_index (heap_root s) s" using ar by (simp add: heap_arena_def)
  ultimately show ?thesis
    using mmu_access_pte_of [of heap_index "heap_root s" s va False True] h by (simp add: Let_def grants_def)
qed

lemma hdr_mapped_arena:
  assumes "heap_arena s" "unat KHEAP_BASE \<le> unat a" "unat a + 24 \<le> unat (heap_next s)"
  shows "hdr_mapped s a"
proof -
  have "unat (a + i) = unat a + unat i" if "i \<in> set [0, 8, 16]" for i
    using that assms(3) unat_lt_u64 [of "heap_next s"] by (subst unat_add_lem [THEN iffD1]) auto
  then have "unat KHEAP_BASE \<le> unat (a + i) \<and> unat (a + i) < unat (heap_next s)" if "i \<in> set [0, 8, 16]" for i
    using that assms(2,3) by auto
  then show ?thesis using heap_arena_access [OF assms(1)] unfolding hdr_mapped_def by blast
qed

lemma heap_arena_cong:
  assumes "mem s' = mem s" "cr3 s' = cr3 s" "pages s' = pages s" "page_free_list s' = page_free_list s"
    "heap_next s' = heap_next s" "locks s' page_alloc_lock = locks s page_alloc_lock"
  shows "heap_arena s' = heap_arena s"
proof -
  have "free_frames s' = free_frames s" by (simp add: free_frames_def assms)
  then have "frames_inv s' = frames_inv s" by (simp add: frames_inv_def assms)
  then have "space_ok I root s' = space_ok I root s" for I root
    using \<open>free_frames s' = free_frames s\<close> by (simp add: space_ok_def assms)
  then show ?thesis by (simp add: heap_arena_def heap_mapped_def assms)
qed

lemma hdr_mapped_cong: "mem s' = mem s \<Longrightarrow> cr3 s' = cr3 s \<Longrightarrow> hdr_mapped s' = hdr_mapped s"
  unfolding hdr_mapped_def [abs_def] by simp

lemma hdr_mapped_upd [simp]:
  "hdr_mapped (s\<lparr>hblocks := H\<rparr>) = hdr_mapped s" "hdr_mapped (s\<lparr>free_list := l\<rparr>) = hdr_mapped s"
  by (rule hdr_mapped_cong; simp)+

definition all_mapped :: "'a heap_state_scheme \<Rightarrow> u64 list \<Rightarrow> bool" where
  "all_mapped s xs \<longleftrightarrow> (\<forall>a \<in> set xs. hdr_mapped s a)"

lemma get_hdr_block: "hdr_mapped s a \<Longrightarrow> hblocks s a = Some h \<Longrightarrow> get_hdr a s = Some h"
  by (simp add: get_hdr_def)

lemma put_hdr_block: "hdr_mapped s a \<Longrightarrow> put_hdr a h s = Some (s\<lparr>hblocks := (hblocks s)(a \<mapsto> h)\<rparr>)"
  by (simp add: put_hdr_def)

section \<open>Searching\<close>

definition fits :: "headers \<Rightarrow> u64 \<Rightarrow> u64 \<Rightarrow> bool" where
  "fits H sz a \<longleftrightarrow> bfree (hd_of H a) \<noteq> 0 \<and> sz \<le> bsize (hd_of H a)"

lemma find_from_find:
  assumes "seg (hblocks s) p xs None" "all_mapped s xs"
  shows "find_from sz s p = Some (find (fits (hblocks s) sz) xs)"
  using assms
proof (induction xs arbitrary: p)
  case Nil
  then show ?case by (subst find_from.simps) simp
next
  case (Cons a xs)
  then obtain h where h: "p = Some a" "hblocks s a = Some h" "seg (hblocks s) (bnext h) xs None" by auto
  have "get_hdr a s = Some h" using h(2) Cons.prems(2) by (simp add: get_hdr_block all_mapped_def)
  moreover have "fits (hblocks s) sz a \<longleftrightarrow> bfree h \<noteq> 0 \<and> sz \<le> bsize h" using h(2) by (simp add: fits_def hd_of_def)
  moreover have "find_from sz s (bnext h) = Some (find (fits (hblocks s) sz) xs)"
    using Cons.IH [OF h(3)] Cons.prems(2) by (simp add: all_mapped_def)
  ultimately show ?case using h(1) by (subst find_from.simps) simp
qed

section \<open>Coalescing\<close>

fun coalesced :: "headers \<Rightarrow> u64 list \<Rightarrow> bool" where
  "coalesced H (a # b # xs) \<longleftrightarrow>
     \<not> (bfree (hd_of H a) \<noteq> 0 \<and> bfree (hd_of H b) \<noteq> 0 \<and> blk_end H a = unat b) \<and> coalesced H (b # xs)"
| "coalesced H _ \<longleftrightarrow> True"

lemma blk_end_upd: "blk_end (H(a \<mapsto> h)) b = (if b = a then unat a + 24 + unat (bsize h) else blk_end H b)"
  by (simp add: blk_end_def)

lemma blocks_ok_drop:
  assumes "blocks_ok lim H (as @ a # n # bs)" "blk_end H a = unat n"
    "unat (bsize h) = unat (bsize (hd_of H a)) + 24 + unat (bsize (hd_of H n))"
  shows "blocks_ok lim (H(a \<mapsto> h)) (as @ a # bs)"
proof -
  have e: "unat a + 24 + unat (bsize h) = blk_end H n" using assms(2,3) by (simp add: blk_end_def)
  have lt: "unat a < unat n" using assms(2) by (simp add: blk_end_def)
  have *: "distinct (as @ a # n # bs)" "\<And>b. b \<in> set (as @ a # n # bs) \<Longrightarrow> unat KHEAP_BASE \<le> unat b \<and> blk_end H b \<le> lim"
    "\<And>b c. b \<in> set (as @ a # n # bs) \<Longrightarrow> c \<in> set (as @ a # n # bs) \<Longrightarrow> b \<noteq> c \<Longrightarrow> apart H b c"
    using assms(1) by (auto simp: blocks_ok_def)
  have pair: "apart (H(a \<mapsto> h)) a c \<and> apart (H(a \<mapsto> h)) c a" if "c \<in> set (as @ bs)" for c
  proof -
    have "c \<noteq> a" "c \<noteq> n" using that *(1) by auto
    moreover have "apart H a c" "apart H n c" using *(3) that calculation by auto
    ultimately show ?thesis
      using e lt assms(2) by (auto simp: apart_def blk_end_upd) (auto simp: blk_end_def)
  qed
  show ?thesis
    unfolding blocks_ok_def
  proof (intro conjI ballI impI)
    show "distinct (as @ a # bs)" using *(1) by auto
    fix b assume b: "b \<in> set (as @ a # bs)"
    show "unat KHEAP_BASE \<le> unat b" using *(2) [of b] b by auto
    show "blk_end (H(a \<mapsto> h)) b \<le> lim" using *(2) [of b] *(2) [of n] b e by (auto simp: blk_end_upd)
    fix c assume c: "c \<in> set (as @ a # bs)" "b \<noteq> c"
    show "apart (H(a \<mapsto> h)) b c"
    proof (cases "b = a \<or> c = a")
      case True
      then show ?thesis using pair b c by auto
    next
      case False
      then have "apart H b c" using *(3) b c by auto
      then show ?thesis using False by (simp add: apart_def blk_end_upd)
    qed
  qed
qed

definition merge_post :: "nat \<Rightarrow> headers \<Rightarrow> u64 option \<Rightarrow> u64 list \<Rightarrow> u64 list \<Rightarrow> headers \<Rightarrow> u64 list \<Rightarrow> bool" where
  "merge_post lim H p as rest H' rest' \<longleftrightarrow>
     seg H' p (as @ rest') None \<and> blocks_ok lim H' (as @ rest') \<and> set rest' \<subseteq> set rest \<and>
     live H' (as @ rest') = live H (as @ rest) \<and> coalesced H' rest' \<and>
     (\<forall>a. a \<notin> set rest \<longrightarrow> H' a = H a) \<and>
     (rest \<noteq> [] \<longrightarrow> rest' \<noteq> [] \<and> hd rest' = hd rest \<and> bfree (hd_of H' (hd rest)) = bfree (hd_of H (hd rest)))"

lemma live_drop:
  assumes "bfree (hd_of H a) \<noteq> 0" "bfree (hd_of H n) \<noteq> 0" "bfree h \<noteq> 0" "distinct (as @ a # n # bs)"
  shows "live (H(a \<mapsto> h)) (as @ a # bs) = live H (as @ a # n # bs)"
  using assms unfolding live_def by auto

lemma merge_step:
  assumes "seg H p (as @ a # n # bs) None" "blocks_ok lim H (as @ a # n # bs)" "lim < 2 ^ 64"
    "bfree (hd_of H a) \<noteq> 0" "bfree (hd_of H n) \<noteq> 0" "a + SIZEOF_HEADER + bsize (hd_of H a) = n"
  defines "h \<equiv> (hd_of H a)\<lparr>bsize := bsize (hd_of H a) + (SIZEOF_HEADER + bsize (hd_of H n)), bnext := bnext (hd_of H n)\<rparr>"
  shows "seg (H(a \<mapsto> h)) p (as @ a # bs) None" "blocks_ok lim (H(a \<mapsto> h)) (as @ a # bs)"
    "live (H(a \<mapsto> h)) (as @ a # bs) = live H (as @ a # n # bs)"
proof -
  have d: "distinct (as @ a # n # bs)" "blk_end H a \<le> lim" "blk_end H n \<le> lim"
    using assms(2) by (auto simp: blocks_ok_def)
  show "seg (H(a \<mapsto> h)) p (as @ a # bs) None"
    using seg_merge [OF assms(1) d(1)] by (simp add: h_def)
  have "unat (a + SIZEOF_HEADER + bsize (hd_of H a)) = unat a + 24 + unat (bsize (hd_of H a))"
    using d(2) assms(3) by (simp add: blk_end_def SIZEOF_HEADER_def unat_word_ariths)
  then have e: "blk_end H a = unat n" using assms(6) by (simp add: blk_end_def)
  have "unat (bsize h) = unat (bsize (hd_of H a)) + 24 + unat (bsize (hd_of H n))"
    using d(3) assms(3) e by (simp add: h_def blk_end_def SIZEOF_HEADER_def unat_word_ariths)
  then show "blocks_ok lim (H(a \<mapsto> h)) (as @ a # bs)" using blocks_ok_drop [OF assms(2) e] by blast
  show "live (H(a \<mapsto> h)) (as @ a # bs) = live H (as @ a # n # bs)"
    by (rule live_drop) (use assms(4,5) d(1) in \<open>simp_all add: h_def\<close>)
qed

lemma merge_from_spec:
  assumes "seg (hblocks s) p (as @ rest) None" "blocks_ok lim (hblocks s) (as @ rest)" "lim < 2 ^ 64"
    "all_mapped s rest" "seg (hblocks s) q rest None"
  shows "\<exists>H' rest'. merge_from q s = Some (s\<lparr>hblocks := H'\<rparr>) \<and> merge_post lim (hblocks s) p as rest H' rest'"
  using assms
proof (induction "length rest" arbitrary: s as rest q rule: less_induct)
  case less
  show ?case
  proof (cases rest)
    case Nil
    then have "merge_from q s = Some (s\<lparr>hblocks := hblocks s\<rparr>)"
      using less.prems(5) by (subst merge_from.simps) simp
    then show ?thesis
      using less.prems Nil by (intro exI [of _ "hblocks s"] exI [of _ "[]"]) (simp add: merge_post_def)
  next
    case (Cons a rs)
    then obtain h where h: "q = Some a" "hblocks s a = Some h" "seg (hblocks s) (bnext h) rs None"
      using less.prems(5) by auto
    have ha: "hd_of (hblocks s) a = h" by (simp add: hd_of_def h(2))
    have get: "get_hdr a s = Some h" "hdr_mapped s a"
      using h(2) less.prems(4) Cons by (simp_all add: get_hdr_block all_mapped_def)
    show ?thesis
    proof (cases "\<exists>n bs. rs = n # bs \<and> bfree h \<noteq> 0 \<and> bfree (hd_of (hblocks s) n) \<noteq> 0 \<and> a + SIZEOF_HEADER + bsize h = n")
      case True
      then obtain n bs where n: "rs = n # bs" "bfree h \<noteq> 0" "bfree (hd_of (hblocks s) n) \<noteq> 0"
        "a + SIZEOF_HEADER + bsize h = n" by blast
      define hn where "hn = hd_of (hblocks s) n"
      have getn: "get_hdr n s = Some hn" "bnext h = Some n"
        using h(3) n(1) less.prems(4) Cons by (auto simp: get_hdr_block all_mapped_def hn_def hd_of_def)
      define h' where "h' = h\<lparr>bsize := bsize h + (SIZEOF_HEADER + bsize hn), bnext := bnext hn\<rparr>"
      let ?s1 = "s\<lparr>hblocks := (hblocks s)(a \<mapsto> h')\<rparr>"
      have step: "merge_from q s = merge_from (Some a) ?s1"
        using h(1) get getn n by (subst merge_from.simps) (simp add: put_hdr_block h'_def hn_def)
      have M: "seg (hblocks ?s1) p (as @ a # bs) None" "blocks_ok lim (hblocks ?s1) (as @ a # bs)"
        "live (hblocks ?s1) (as @ a # bs) = live (hblocks s) (as @ a # n # bs)"
        using merge_step [of "hblocks s" p as a n bs lim] less.prems(1-3) Cons n ha
        by (simp_all add: h'_def hn_def)
      have d: "distinct (as @ a # n # bs)" using less.prems(2) Cons n by (simp add: blocks_ok_def)
      have "seg (hblocks ?s1) (Some a) (a # bs) None"
        using M(1) by (auto simp: seg_append)
      then obtain H' rest' where IH: "merge_from (Some a) ?s1 = Some (?s1\<lparr>hblocks := H'\<rparr>)"
        "merge_post lim (hblocks ?s1) p as (a # bs) H' rest'"
        using less.hyps [of "a # bs" ?s1 as "Some a"] Cons n less.prems(3,4) M(1,2)
        by (auto simp: all_mapped_def)
      have "merge_post lim (hblocks s) p as rest H' rest'"
        using IH(2) M(3) Cons n d ha by (auto simp: merge_post_def h'_def)
      then show ?thesis using step IH(1) by auto
    next
      case False
      have d: "distinct (as @ a # rs)" using less.prems(2) Cons by (simp add: blocks_ok_def)
      have step: "merge_from q s = merge_from (bnext h) s"
      proof (cases rs)
        case Nil
        then show ?thesis using h get by (subst merge_from.simps) simp
      next
        case (Cons n bs)
        then have "bnext h = Some n" "get_hdr n s = Some (hd_of (hblocks s) n)"
          using h(3) less.prems(4) \<open>rest = a # rs\<close> by (auto simp: get_hdr_block all_mapped_def hd_of_def)
        then show ?thesis using False Cons h(1) get by (subst merge_from.simps) auto
      qed
      obtain H' rest' where IH: "merge_from (bnext h) s = Some (s\<lparr>hblocks := H'\<rparr>)"
        "merge_post lim (hblocks s) p (as @ [a]) rs H' rest'"
        using less.hyps [of rs s "as @ [a]" "bnext h"] Cons less.prems h(3)
        by (auto simp: all_mapped_def)
      have Ha: "H' a = hblocks s a" using IH(2) d by (auto simp: merge_post_def)
      have co: "coalesced H' (a # rest')"
      proof (cases rs)
        case Nil
        then have "rest' = []" using IH(2) by (simp add: merge_post_def)
        then show ?thesis by simp
      next
        case (Cons n bs)
        then obtain bs' where r': "rest' = n # bs'" "bfree (hd_of H' n) = bfree (hd_of (hblocks s) n)"
          using IH(2) by (cases rest') (auto simp: merge_post_def)
        have "blk_end H' a = blk_end (hblocks s) a" using Ha by (simp add: blk_end_def hd_of_def)
        moreover have "unat (a + SIZEOF_HEADER + bsize h) = blk_end (hblocks s) a"
          using less.prems(2,3) \<open>rest = a # rs\<close> ha
          by (simp add: blocks_ok_def blk_end_def SIZEOF_HEADER_def unat_word_ariths)
        ultimately have "\<not> (bfree (hd_of H' a) \<noteq> 0 \<and> bfree (hd_of H' n) \<noteq> 0 \<and> blk_end H' a = unat n)"
          using False Cons Ha r'(2) h(2) ha by (auto simp: hd_of_def word_unat_eq_iff)
        then show ?thesis using IH(2) r' by (simp add: merge_post_def)
      qed
      have "merge_post lim (hblocks s) p as rest H' (a # rest')"
        using IH(2) co Ha Cons by (auto simp: merge_post_def hd_of_def)
      then show ?thesis using step IH(1) by auto
    qed
  qed
qed

section \<open>Freeing\<close>

lemma heap_invD:
  assumes "heap_inv xs s"
  shows "seg (hblocks s) (free_list s) xs None" "blocks_ok (unat (heap_next s)) (hblocks s) xs"
    "locks s kheap_lock = 0" "heap_arena s" "all_mapped s xs" "unat (heap_next s) < 2 ^ 64"
proof -
  show I: "seg (hblocks s) (free_list s) xs None" "blocks_ok (unat (heap_next s)) (hblocks s) xs"
    "locks s kheap_lock = 0" and ar: "heap_arena s"
    using assms by (simp_all add: heap_inv_def)
  show "unat (heap_next s) < 2 ^ 64" by (rule unat_lt_u64)
  show "all_mapped s xs"
    unfolding all_mapped_def
  proof
    fix a assume "a \<in> set xs"
    then have "unat KHEAP_BASE \<le> unat a" "blk_end (hblocks s) a \<le> unat (heap_next s)"
      using I(2) by (simp_all add: blocks_ok_def)
    then show "hdr_mapped s a" by (intro hdr_mapped_arena [OF ar]) (simp_all add: blk_end_def)
  qed
qed

lemma blocks_ok_free:
  assumes "blocks_ok lim H xs" "bsize h = bsize (hd_of H b)"
  shows "blocks_ok lim (H(b \<mapsto> h)) xs"
proof -
  have "blk_end (H(b \<mapsto> h)) = blk_end H" using assms(2) by (auto simp: blk_end_upd blk_end_def fun_eq_iff)
  then show ?thesis using assms(1) by (simp add: blocks_ok_def apart_def)
qed

lemma live_free:
  assumes "distinct xs" "b \<in> set xs" "bfree h = 1"
  shows "live (H(b \<mapsto> h)) xs = live H xs - {(b + SIZEOF_HEADER, bsize (hd_of H b))}"
  using assms unfolding live_def by auto

lemma coalesced_cong: "(\<And>a. a \<in> set xs \<Longrightarrow> H' a = H a) \<Longrightarrow> coalesced H' xs = coalesced H xs"
  by (induction H xs rule: coalesced.induct) (auto simp: hd_of_def blk_end_def)

lemma kfree_live:
  assumes inv: "heap_inv xs s" and b: "b \<in> set xs"
  shows "\<exists>H' xs'. kfree (Some (b + SIZEOF_HEADER)) s = Some (s\<lparr>hblocks := H'\<rparr>) \<and>
    heap_inv xs' (s\<lparr>hblocks := H'\<rparr>) \<and> coalesced H' xs' \<and>
    live H' xs' = live (hblocks s) xs - {(b + SIZEOF_HEADER, bsize (hd_of (hblocks s) b))}"
proof -
  note I = heap_invD [OF inv]
  obtain h where h: "hblocks s b = Some h" using seg_Some [OF I(1) b] by blast
  have hb: "hd_of (hblocks s) b = h" by (simp add: hd_of_def h)
  define H1 where "H1 = (hblocks s)(b \<mapsto> h\<lparr>bfree := 1\<rparr>)"
  define s1 where "s1 = s\<lparr>rflags := rflags s AND NOT IF_FLAG, locks := (locks s)(kheap_lock := 1)\<rparr>"
  let ?s2 = "s1\<lparr>hblocks := H1\<rparr>"
  have map1: "hdr_mapped s1 = hdr_mapped s" by (rule hdr_mapped_cong) (simp_all add: s1_def)
  have mb: "hdr_mapped s b" using I(5) b by (simp add: all_mapped_def)
  have seg1: "seg H1 (free_list s) xs None"
    using I(1) seg_upd_same [of "hblocks s" b h "h\<lparr>bfree := 1\<rparr>"] h by (simp add: H1_def)
  have ok1: "blocks_ok (unat (heap_next s)) H1 xs"
    unfolding H1_def by (rule blocks_ok_free [OF I(2)]) (simp add: hb)
  have "all_mapped ?s2 xs" using I(5) map1 by (simp add: all_mapped_def)
  then obtain H' xs' where m: "merge_from (free_list s) ?s2 = Some (?s2\<lparr>hblocks := H'\<rparr>)"
    "merge_post (unat (heap_next s)) H1 (free_list s) [] xs H' xs'"
    using merge_from_spec [of ?s2 "free_list s" "[]" xs "unat (heap_next s)" "free_list s"] seg1 ok1 I(6) by auto
  have g: "get_hdr b s1 = Some h" using map1 mb h by (simp add: get_hdr_def s1_def)
  have p: "put_hdr b (h\<lparr>bfree := 1\<rparr>) s1 = Some ?s2"
    using map1 mb by (simp add: put_hdr_def H1_def) (simp add: s1_def)
  have acq: "spinlock_acquire kheap_lock s = Some (rflags s, s1)" using I(3) by (simp add: s1_def)
  have fl: "free_list s1 = free_list s" by (simp add: s1_def)
  have "kfree (Some (b + SIZEOF_HEADER)) s = Some (spinlock_release kheap_lock (rflags s) (?s2\<lparr>hblocks := H'\<rparr>))"
    by (simp add: kfree_def Let_def acq g p m(1) fl del: spinlock_acquire_free spinlock_release_simp)
  also have "\<dots> = Some (s\<lparr>hblocks := H'\<rparr>)" using I(3) by (simp add: s1_def)
  finally have run: "kfree (Some (b + SIZEOF_HEADER)) s = Some (s\<lparr>hblocks := H'\<rparr>)" .
  have "live H' xs' = live H1 xs" using m(2) by (simp add: merge_post_def)
  also have "\<dots> = live (hblocks s) xs - {(b + SIZEOF_HEADER, bsize h)}"
    using live_free [of xs b "h\<lparr>bfree := 1\<rparr>" "hblocks s"] b I(2) hb by (simp add: H1_def blocks_ok_def)
  finally have lv: "live H' xs' = live (hblocks s) xs - {(b + SIZEOF_HEADER, bsize h)}" .
  have "heap_arena (s\<lparr>hblocks := H'\<rparr>)" using heap_arena_cong [of "s\<lparr>hblocks := H'\<rparr>" s] I(4) by simp
  then have "heap_inv xs' (s\<lparr>hblocks := H'\<rparr>)"
    using m(2) I(3) by (simp add: heap_inv_def merge_post_def)
  moreover have "coalesced H' xs'" using m(2) by (simp add: merge_post_def)
  ultimately show ?thesis using run lv unfolding hb by (intro exI conjI)
qed

section \<open>Splitting\<close>

lemma blocks_ok_split:
  assumes ok: "blocks_ok lim H (as @ b # bs)" and lim: "lim < 2 ^ 64"
    and sz: "unat sz + 40 \<le> unat (bsize (hd_of H b))"
    and n: "n = b + SIZEOF_HEADER + sz"
    and h1: "bsize h1 = bsize (hd_of H b) - sz - SIZEOF_HEADER" and h2: "bsize h2 = sz"
  shows "n \<notin> set (as @ b # bs)" "blocks_ok lim (H(n \<mapsto> h1, b \<mapsto> h2)) (as @ b # n # bs)"
    "unat n = unat b + 24 + unat sz"
proof -
  have *: "distinct (as @ b # bs)" "\<And>c. c \<in> set (as @ b # bs) \<Longrightarrow> unat KHEAP_BASE \<le> unat c \<and> blk_end H c \<le> lim"
    "\<And>c d. c \<in> set (as @ b # bs) \<Longrightarrow> d \<in> set (as @ b # bs) \<Longrightarrow> c \<noteq> d \<Longrightarrow> apart H c d"
    using ok by (auto simp: blocks_ok_def)
  have bl: "blk_end H b \<le> lim" using *(2) by auto
  show un: "unat n = unat b + 24 + unat sz"
    using bl lim sz by (simp add: n blk_end_def SIZEOF_HEADER_def unat_word_ariths)
  have "unat (bsize (hd_of H b) - sz) = unat (bsize (hd_of H b)) - unat sz"
    by (rule unat_sub) (use sz in \<open>simp add: word_le_nat_alt\<close>)
  moreover from this have "unat (bsize (hd_of H b) - sz - SIZEOF_HEADER) = unat (bsize (hd_of H b) - sz) - 24"
    using sz by (subst unat_sub) (simp_all add: SIZEOF_HEADER_def word_le_nat_alt)
  ultimately have u1: "unat (bsize h1) = unat (bsize (hd_of H b)) - unat sz - 24" using h1 by simp
  have inside: "unat b < unat n" "unat n < blk_end H b" using un sz by (simp_all add: blk_end_def)
  have nin: "c \<noteq> n" if "c \<in> set (as @ b # bs)" for c
  proof (cases "c = b")
    case False
    then have "apart H c b" using *(3) that by auto
    then show ?thesis using inside by (auto simp: apart_def blk_end_def)
  qed (use inside in auto)
  then show nn: "n \<notin> set (as @ b # bs)" by blast
  let ?H = "H(n \<mapsto> h1, b \<mapsto> h2)"
  have en: "blk_end ?H n = blk_end H b" "blk_end ?H b = unat n" "\<And>c. c \<noteq> n \<Longrightarrow> c \<noteq> b \<Longrightarrow> blk_end ?H c = blk_end H c"
    using nin [of b] un u1 sz h2 by (auto simp: blk_end_def)
  have pb: "apart ?H b c \<and> apart ?H c b \<and> apart ?H n c \<and> apart ?H c n" if "c \<in> set (as @ bs)" for c
  proof -
    have "c \<noteq> b" "c \<noteq> n" using that *(1) nin by auto
    moreover have "apart H b c" using *(3) that calculation by auto
    ultimately show ?thesis using en inside by (auto simp: apart_def)
  qed
  have bn: "apart ?H b n" "apart ?H n b" using en by (simp_all add: apart_def)
  show "blocks_ok lim ?H (as @ b # n # bs)"
    unfolding blocks_ok_def
  proof (intro conjI ballI impI)
    show "distinct (as @ b # n # bs)" using *(1) nn by auto
    fix c assume c: "c \<in> set (as @ b # n # bs)"
    show "unat KHEAP_BASE \<le> unat c" using c *(2) [of c] *(2) [of b] inside by (cases "c = n") auto
    show "blk_end ?H c \<le> lim" using c *(2) [of c] bl en inside by (cases "c = n"; cases "c = b") auto
    fix d assume d: "d \<in> set (as @ b # n # bs)" "c \<noteq> d"
    show "apart ?H c d"
    proof (cases "c \<in> {b, n} \<or> d \<in> {b, n}")
      case True
      then show ?thesis using c d pb bn by auto
    next
      case False
      then have "apart H c d" using c d *(3) by auto
      then show ?thesis using False en(3) by (simp add: apart_def)
    qed
  qed
qed

definition live_other :: "headers \<Rightarrow> u64 \<Rightarrow> u64 list \<Rightarrow> (u64 \<times> u64) set" where
  "live_other H b xs = {(a + SIZEOF_HEADER, bsize (hd_of H a)) | a. a \<in> set xs \<and> a \<noteq> b \<and> bfree (hd_of H a) = 0}"

lemma live_with:
  "b \<in> set xs \<Longrightarrow> live H xs =
     (if bfree (hd_of H b) = 0 then insert (b + SIZEOF_HEADER, bsize (hd_of H b)) (live_other H b xs)
      else live_other H b xs)"
  by (auto simp: live_def live_other_def)

lemma live_other_upd [simp]: "live_other (H(b \<mapsto> h)) b xs = live_other H b xs"
  by (auto simp: live_other_def)

definition split_post :: "'a heap_state_scheme \<Rightarrow> u64 \<Rightarrow> u64 \<Rightarrow> u64 list \<Rightarrow> headers \<Rightarrow> u64 list \<Rightarrow> bool" where
  "split_post s b sz xs H' xs' \<longleftrightarrow>
     seg H' (free_list s) xs' None \<and> blocks_ok (unat (heap_next s)) H' xs' \<and> b \<in> set xs' \<and>
     (\<exists>h'. H' b = Some h' \<and> bfree h' = bfree (hd_of (hblocks s) b) \<and> sz \<le> bsize h') \<and>
     live_other H' b xs' = live_other (hblocks s) b xs"

lemma split_block_spec:
  assumes seg: "seg (hblocks s) (free_list s) xs None" and ok: "blocks_ok (unat (heap_next s)) (hblocks s) xs"
    and ar: "heap_arena s" and b: "b \<in> set xs" "sz \<le> bsize (hd_of (hblocks s) b)" and sz: "unat sz + 40 < 2 ^ 64"
  shows "\<exists>H' xs'. split_block b sz s = Some (s\<lparr>hblocks := H'\<rparr>) \<and> split_post s b sz xs H' xs'"
proof -
  obtain as bs where xs: "xs = as @ b # bs" using b(1) by (metis split_list)
  obtain h where h: "hblocks s b = Some h" using seg_Some [OF seg b(1)] by blast
  have hb: "hd_of (hblocks s) b = h" by (simp add: hd_of_def h)
  have lim: "unat (heap_next s) < 2 ^ 64" by (rule unat_lt_u64)
  have base: "unat KHEAP_BASE \<le> unat b" "blk_end (hblocks s) b \<le> unat (heap_next s)"
    using ok b(1) by (simp_all add: blocks_ok_def)
  have mb: "hdr_mapped s b" using base by (intro hdr_mapped_arena [OF ar]) (simp_all add: blk_end_def)
  have get: "get_hdr b s = Some h" using mb h by (rule get_hdr_block)
  have u40: "unat (sz + (SIZEOF_HEADER + ALIGN)) = unat sz + 40"
    using sz by (simp add: SIZEOF_HEADER_def ALIGN_def unat_word_ariths)
  show ?thesis
  proof (cases "sz + (SIZEOF_HEADER + ALIGN) \<le> bsize h")
    case False
    then have "split_block b sz s = Some (s\<lparr>hblocks := hblocks s\<rparr>)"
      using get by (simp add: split_block_def Let_def)
    then show ?thesis
      using seg ok b h hb by (intro exI [of _ "hblocks s"] exI [of _ xs]) (simp add: split_post_def)
  next
    case True
    then have le: "unat sz + 40 \<le> unat (bsize (hd_of (hblocks s) b))" using u40 hb by (simp add: word_le_nat_alt)
    define n where "n = b + SIZEOF_HEADER + sz"
    define h1 where "h1 = \<lparr>bsize = bsize h - sz - SIZEOF_HEADER, bfree = 1, bnext = bnext h\<rparr>"
    define h2 where "h2 = h\<lparr>bsize := sz, bnext := Some n\<rparr>"
    note S = blocks_ok_split [OF ok [unfolded xs] lim le n_def, of h1 h2]
    have S': "n \<notin> set (as @ b # bs)" "blocks_ok (unat (heap_next s)) ((hblocks s)(n \<mapsto> h1, b \<mapsto> h2)) (as @ b # n # bs)"
      "unat n = unat b + 24 + unat sz"
      using S by (simp_all add: h1_def h2_def hb)
    have mn: "hdr_mapped s n"
      using base le S'(3) by (intro hdr_mapped_arena [OF ar]) (simp_all add: blk_end_def)
    have nb: "n \<noteq> b" using S'(1) by auto
    let ?H = "(hblocks s)(n \<mapsto> h1, b \<mapsto> h2)"
    have run: "split_block b sz s = Some (s\<lparr>hblocks := ?H\<rparr>)"
      using get True mb mn nb h
      by (simp add: split_block_def Let_def put_hdr_def get_hdr_def n_def [symmetric] h1_def h2_def)
    have d: "distinct (as @ b # bs)" using ok xs by (simp add: blocks_ok_def)
    have "seg ?H (free_list s) (as @ b # n # bs) None"
      using seg_split [OF seg [unfolded xs] d S'(1), of h1 h2] by (simp add: h1_def h2_def hb)
    moreover have "live_other ?H b (as @ b # n # bs) = live_other (hblocks s) b xs"
      using S'(1) by (auto simp: live_other_def xs h1_def)
    ultimately have "split_post s b sz xs ?H (as @ b # n # bs)"
      using S'(2) nb hb by (simp add: split_post_def h2_def)
    then show ?thesis using run by blast
  qed
qed

end
