(* ===== verification/KheapAlloc.thy ===== *)
theory KheapAlloc
  imports Kheap
begin

text \<open>The kernel heap, continued: growth of the arena through the frame allocator and the page tables, the two
paths of \<open>kmalloc\<close>, and the contract of the heap as the locale \<open>block_heap\<close>, interpreted on \<open>kmalloc\<close> and
\<open>kfree\<close>.\<close>

section \<open>Extending\<close>

definition heap_frame :: "'a heap_state_scheme \<Rightarrow> 'a heap_state_scheme \<Rightarrow> bool" where
  "heap_frame s s' \<longleftrightarrow> (\<exists>m ps h nx. s' = s\<lparr>mem := m, pages := ps, page_free_list := h, heap_next := nx\<rparr>)"

lemma heap_frame_refl: "heap_frame s s"
  unfolding heap_frame_def
  by (rule exI [of _ "mem s"], rule exI [of _ "pages s"], rule exI [of _ "page_free_list s"], rule exI [of _ "heap_next s"]) simp

lemma heap_frame_trans: "heap_frame s t \<Longrightarrow> heap_frame t u \<Longrightarrow> heap_frame s u"
  by (auto simp: heap_frame_def) blast

lemma mem_frame_heap:
  assumes "mem_frame T s s'"
  shows "heap_frame s (s'\<lparr>heap_next := nx\<rparr>)" "heap_next s' = heap_next s" "cr3 s' = cr3 s"
proof -
  obtain m ps h where "s' = s\<lparr>mem := m, pages := ps, page_free_list := h\<rparr>"
    using assms unfolding mem_frame_def by blast
  then show "heap_frame s (s'\<lparr>heap_next := nx\<rparr>)" "heap_next s' = heap_next s" "cr3 s' = cr3 s"
    by (auto simp: heap_frame_def)
qed

lemma get_current_pml4_root: "get_current_pml4 s = phys_to_virt s (cr3 s AND 0x000FFFFFFFFFF000)"
  by (simp add: get_current_pml4_def Let_def)

lemma heap_flags: "present (pte_make pa 3)" "writable (pte_make pa 3)"
proof -
  have "bit (3 :: u64) 0" "bit (3 :: u64) 1" by (simp_all add: bit_iff_odd)
  then show "present (pte_make pa 3)" "writable (pte_make pa 3)" by (simp_all add: flag_bits bit_pte_make)
qed

lemma unat_add_page: "unat v + 4096 < 2 ^ 64 \<Longrightarrow> unat (v + PGSIZE) = unat v + 4096"
  by (simp add: PGSIZE_def unat_word_ariths)

lemma heap_extend_page:
  assumes ar: "heap_arena s" and room: "4 \<le> card (free_frames s)" and lt: "heap_next s < KHEAP_BASE + KHEAP_SIZE"
  obtains s' where "heap_extend_loop (Suc n) s = heap_extend_loop n s'" "heap_arena s'" "heap_frame s s'"
    "unat (heap_next s') = unat (heap_next s) + 4096" "card (free_frames s) \<le> card (free_frames s') + 4"
proof -
  let ?r = "heap_root s" and ?v = "heap_next s"
  have sp: "space_ok heap_index ?r s" "heap_mapped s" "page_aligned ?v" "KHEAP_BASE \<le> ?v"
    using ar by (simp_all add: heap_arena_def)
  have lim: "unat KHEAP_BASE \<le> unat ?v" "unat ?v < unat KHEAP_BASE + 536870912"
    using sp(4) lt unfolding word_le_nat_alt word_less_nat_alt unat_heap_limit unat_KHEAP_BASE by blast+
  have own: "owned heap_index ?v" by (rule heap_va(1) [OF lim(1)]) (use lim(2) in simp)
  note inv = space_okD(1) [OF sp(1)]
  have "free_frames s \<noteq> {}" using room by auto
  then obtain pp s1 where al: "page_alloc 1 s = Some (Some pp, s1)" "alloc_post 1 s pp s1"
    using page_alloc_pop [OF inv] by blast
  have f1: "pp \<in> free_frames s" "free_frames s1 = free_frames s - {pp}" using al(2) by (simp_all add: alloc_post_def)
  have c1: "card (free_frames s1) = card (free_frames s) - 1"
    using f1 fa.avail_finite [OF inv] by simp
  note A = space_alloc [OF sp(1) al(2)]
  note F1 = mem_frame_heap [OF alloc_mem_frame [OF al(2)]]
  have three: "3 \<le> card (free_frames s1)" using c1 room by simp
  obtain s2 where m: "vmm_map (phys_to_virt s1 ?r) ?v (page2pa pp) 3 s1 = Some s2" "space_ok heap_index ?r s2"
    "mem_frame (tables heap_index (mem s1) ?r) s1 s2" "card (free_frames s1) \<le> card (free_frames s2) + 3"
    "\<And>w. owned heap_index w \<Longrightarrow> pte_of (mem s2) ?r w = (if vpn w = vpn ?v then pte_make (page2pa pp) 3 else pte_of (mem s1) ?r w)"
    by (rule vmm_map_enough [OF A(1) own three, of "page2pa pp" 3]) blast
  note F2 = mem_frame_heap [OF m(3)]
  define s' where "s' = s2\<lparr>heap_next := ?v + PGSIZE\<rparr>"
  have nx: "heap_next s2 = ?v" "heap_next s1 = ?v" and cr: "cr3 s2 = cr3 s" "cr3 s1 = cr3 s" using F1 F2 by simp_all
  have nl: "\<not> KHEAP_BASE + KHEAP_SIZE \<le> ?v" using lt by (simp add: not_le)
  have run: "heap_extend_loop (Suc n) s = heap_extend_loop n s'"
    using al(1) m(1) nx cr nl by (simp add: get_current_pml4_root Let_def s'_def)
  have un: "unat (?v + PGSIZE) = unat ?v + 4096"
    by (rule unat_add_page) (use lim(2) unat_KHEAP_BASE in simp)
  have root': "heap_root s' = ?r" "mem s' = mem s2" "heap_next s' = ?v + PGSIZE" using cr by (simp_all add: s'_def)
  have mapped: "present (pte_of (mem s') ?r va) \<and> writable (pte_of (mem s') ?r va)"
    if va: "unat KHEAP_BASE \<le> unat va" "unat va < unat ?v + 4096" for va
  proof -
    have own': "owned heap_index va" by (rule heap_va(1) [OF va(1)]) (use va(2) lim(2) in simp)
    show ?thesis
    proof (cases "vpn va = vpn ?v")
      case True
      then show ?thesis using m(5) [OF own'] heap_flags by (simp add: root')
    next
      case False
      then have "unat va < unat ?v" using same_page_vpn [OF sp(3), of va] va(2) by (cases "unat ?v \<le> unat va") auto
      then show ?thesis
        using False m(5) [OF own'] A(2) [OF own'] sp(2) va(1) by (simp add: root' heap_mapped_def)
    qed
  qed
  have sp': "space_ok heap_index ?r s'"
    using m(2) by (simp add: space_ok_def s'_def frames_inv_def free_frames_def)
  have al': "page_aligned (?v + PGSIZE)" using sp(3) unfolding page_aligned_def un by simp
  have "unat ?v + 4096 \<le> unat (KHEAP_BASE + KHEAP_SIZE)"
  proof -
    obtain k where "unat ?v = 4096 * k" using sp(3) by (rule page_alignedE)
    moreover have "unat (KHEAP_BASE + KHEAP_SIZE) = 4096 * 4503569562730496" unfolding unat_heap_limit by simp
    moreover from calculation have "k < 4503569562730496" using lt unfolding word_less_nat_alt by simp
    ultimately show ?thesis by simp
  qed
  then have le': "?v + PGSIZE \<le> KHEAP_BASE + KHEAP_SIZE" "KHEAP_BASE \<le> ?v + PGSIZE"
    unfolding word_le_nat_alt un using lim(1) by linarith+
  have "heap_arena s'"
    unfolding heap_arena_def heap_mapped_def root' un
    by (intro conjI allI impI sp' al' le' mapped [unfolded root', THEN conjunct1] mapped [unfolded root', THEN conjunct2])
  moreover have "heap_frame s s'"
    using heap_frame_trans [OF _ F2(1) [of "?v + PGSIZE"], of s] F1(1) [of "heap_next s1"] by (simp add: s'_def)
  moreover have "free_frames s' = free_frames s2" by (simp add: s'_def free_frames_def)
  moreover have "unat (heap_next s') = unat ?v + 4096" using root'(3) un by metis
  moreover have "card (free_frames s) \<le> card (free_frames s2) + 4" using m(4) c1 by linarith
  ultimately show thesis using that run by metis
qed

lemma heap_extend_ok:
  assumes "heap_arena s" "4 * n \<le> card (free_frames s)"
    "unat (heap_next s) + 4096 * n \<le> unat (KHEAP_BASE + KHEAP_SIZE)"
  shows "\<exists>s'. heap_extend_loop n s = Some (True, s') \<and> heap_arena s' \<and> heap_frame s s' \<and>
    unat (heap_next s') = unat (heap_next s) + 4096 * n"
  using assms
proof (induction n arbitrary: s)
  case 0
  then show ?case using heap_frame_refl by auto
next
  case (Suc n)
  have four: "4 \<le> card (free_frames s)" using Suc.prems(2) by simp
  have "heap_next s < KHEAP_BASE + KHEAP_SIZE" using Suc.prems(3) unfolding word_less_nat_alt by simp
  then obtain s1 where s1: "heap_extend_loop (Suc n) s = heap_extend_loop n s1" "heap_arena s1" "heap_frame s s1"
    "unat (heap_next s1) = unat (heap_next s) + 4096" "card (free_frames s) \<le> card (free_frames s1) + 4"
    using heap_extend_page [OF Suc.prems(1) four] by blast
  have "4 * n \<le> card (free_frames s1)" using Suc.prems(2) s1(5) by simp
  moreover have "unat (heap_next s1) + 4096 * n \<le> unat (KHEAP_BASE + KHEAP_SIZE)" using Suc.prems(3) s1(4) by simp
  ultimately obtain s2 where "heap_extend_loop n s1 = Some (True, s2)" "heap_arena s2" "heap_frame s1 s2"
    "unat (heap_next s2) = unat (heap_next s1) + 4096 * n"
    using Suc.IH [OF s1(2)] by blast
  then show ?case using s1 heap_frame_trans [OF s1(3)] by (intro exI [of _ s2]) simp
qed

section \<open>Allocating\<close>

definition kmalloc_pages :: "u64 \<Rightarrow> nat" where
  "kmalloc_pages sz = (unat sz + 4119) div 4096"

lemma kmalloc_round:
  assumes "unat sz \<le> 2 ^ 30"
  shows "unat sz \<le> unat (roundup sz ALIGN)" "unat (roundup sz ALIGN) \<le> 2 ^ 31"
proof -
  have a: "unat (roundup sz ALIGN) = (unat sz + 15) div 16 * 16"
    using assms unat_roundup_16 [of sz] by (simp add: ALIGN_def)
  have "(unat sz + 15) div 16 * 16 + (unat sz + 15) mod 16 = unat sz + 15" by (rule div_mult_mod_eq)
  moreover have "(unat sz + 15) mod 16 < 16" by simp
  ultimately show "unat sz \<le> unat (roundup sz ALIGN)" "unat (roundup sz ALIGN) \<le> 2 ^ 31"
    using a assms by (linarith, simp)
qed

lemma kmalloc_sizes:
  assumes "unat s16 \<le> 2 ^ 31"
  shows "unat ((s16 + SIZEOF_HEADER + PGSIZE - 1) div PGSIZE) = kmalloc_pages s16"
    "24 + unat ((s16 + SIZEOF_HEADER + PGSIZE - 1) div PGSIZE * PGSIZE - SIZEOF_HEADER) = 4096 * kmalloc_pages s16"
    "unat s16 + 24 \<le> 4096 * kmalloc_pages s16" "unat s16 + 40 < 2 ^ 64"
proof -
  have "s16 + SIZEOF_HEADER + PGSIZE - 1 = s16 + 4119" by (simp add: SIZEOF_HEADER_def PGSIZE_def)
  moreover have "unat (s16 + 4119) = unat s16 + 4119" using assms by (subst unat_add_lem [THEN iffD1]) auto
  ultimately show d: "unat ((s16 + SIZEOF_HEADER + PGSIZE - 1) div PGSIZE) = kmalloc_pages s16"
    by (simp only: unat_div kmalloc_pages_def) (simp add: PGSIZE_def)
  have eq: "4096 * kmalloc_pages s16 + (unat s16 + 4119) mod 4096 = unat s16 + 4119"
    using mult_div_mod_eq [of 4096 "unat s16 + 4119"] by (simp only: kmalloc_pages_def)
  have "(unat s16 + 4119) mod 4096 < 4096" by simp
  then show e: "unat s16 + 24 \<le> 4096 * kmalloc_pages s16" using eq by linarith
  show "unat s16 + 40 < 2 ^ 64" using assms by simp
  have lim: "4096 * kmalloc_pages s16 < 2 ^ 64" using assms eq by simp
  let ?np = "(s16 + SIZEOF_HEADER + PGSIZE - 1) div PGSIZE"
  have m: "unat (?np * PGSIZE) = 4096 * kmalloc_pages s16"
    using d lim by (simp add: unat_word_ariths PGSIZE_def mult.commute)
  then have "unat (?np * PGSIZE - SIZEOF_HEADER) = 4096 * kmalloc_pages s16 - 24"
    using e by (subst unat_sub) (simp_all add: SIZEOF_HEADER_def word_le_nat_alt)
  then show "24 + unat (?np * PGSIZE - SIZEOF_HEADER) = 4096 * kmalloc_pages s16" using e by linarith
qed

definition heap_core :: "u64 list \<Rightarrow> 'a heap_state_scheme \<Rightarrow> bool" where
  "heap_core xs s \<longleftrightarrow>
     seg (hblocks s) (free_list s) xs None \<and> blocks_ok (unat (heap_next s)) (hblocks s) xs \<and> heap_arena s"

lemma heap_coreD:
  assumes "heap_core xs s"
  shows "seg (hblocks s) (free_list s) xs None" "blocks_ok (unat (heap_next s)) (hblocks s) xs" "heap_arena s"
  using assms by (simp_all add: heap_core_def)

lemma heap_inv_core: "heap_inv xs s \<longleftrightarrow> heap_core xs s \<and> locks s kheap_lock = 0"
  by (auto simp: heap_inv_def heap_core_def)

lemma heap_core_cong:
  assumes "mem s' = mem s" "cr3 s' = cr3 s" "pages s' = pages s" "page_free_list s' = page_free_list s"
    "heap_next s' = heap_next s" "locks s' page_alloc_lock = locks s page_alloc_lock"
    "hblocks s' = hblocks s" "free_list s' = free_list s"
  shows "heap_core xs s' = heap_core xs s"
  unfolding heap_core_def heap_arena_cong [OF assms(1-6)] assms(5,7,8) ..

lemma block_mapped:
  assumes "heap_core xs s" "b \<in> set xs"
  shows "hdr_mapped s b"
proof (rule hdr_mapped_arena [OF heap_coreD(3) [OF assms(1)]])
  have "unat KHEAP_BASE \<le> unat b \<and> blk_end (hblocks s) b \<le> unat (heap_next s)"
    using heap_coreD(2) [OF assms(1)] assms(2) by (simp add: blocks_ok_def)
  then show "unat KHEAP_BASE \<le> unat b" "unat b + 24 \<le> unat (heap_next s)" by (simp_all add: blk_end_def)
qed

lemma split_core:
  assumes core: "heap_core xs s" and b: "b \<in> set xs" "sz \<le> bsize (hd_of (hblocks s) b)" and sz: "unat sz + 40 < 2 ^ 64"
  obtains H h xs' where "split_block b sz s = Some (s\<lparr>hblocks := H\<rparr>)" "get_hdr b (s\<lparr>hblocks := H\<rparr>) = Some h"
    "bfree h = bfree (hd_of (hblocks s) b)" "sz \<le> bsize h" "b \<in> set xs'" "hdr_mapped s b" "H b = Some h"
    "heap_core xs' (s\<lparr>hblocks := H\<rparr>)" "live_other H b xs' = live_other (hblocks s) b xs"
proof -
  note C = heap_coreD [OF core]
  obtain H xs' where S: "split_block b sz s = Some (s\<lparr>hblocks := H\<rparr>)" "split_post s b sz xs H xs'"
    using split_block_spec [OF C b sz] by blast
  then obtain h where h: "H b = Some h" "bfree h = bfree (hd_of (hblocks s) b)" "sz \<le> bsize h"
    by (auto simp: split_post_def)
  have "heap_arena (s\<lparr>hblocks := H\<rparr>)" using C(3) heap_arena_cong [of "s\<lparr>hblocks := H\<rparr>" s] by simp
  then have "heap_core xs' (s\<lparr>hblocks := H\<rparr>)" using S(2) by (simp add: heap_core_def split_post_def)
  moreover have "get_hdr b (s\<lparr>hblocks := H\<rparr>) = Some h" using block_mapped [OF core b(1)] h(1) by (simp add: get_hdr_def)
  ultimately show thesis
    using that [OF S(1), of h xs'] h S(2) block_mapped [OF core b(1)] by (simp add: split_post_def)
qed

lemma take_block:
  assumes core: "heap_core xs s" and fd: "find (fits (hblocks s) sz) xs = Some b" and sz: "unat sz + 40 < 2 ^ 64"
  obtains H h xs' where "split_block b sz s = Some (s\<lparr>hblocks := H\<rparr>)" "get_hdr b (s\<lparr>hblocks := H\<rparr>) = Some h"
    "hdr_mapped s b" "sz \<le> bsize h" "heap_core xs' (s\<lparr>hblocks := H(b \<mapsto> h\<lparr>bfree := 0\<rparr>)\<rparr>)"
    "live (H(b \<mapsto> h\<lparr>bfree := 0\<rparr>)) xs' = insert (b + SIZEOF_HEADER, bsize h) (live (hblocks s) xs)"
proof -
  have b: "b \<in> set xs" "fits (hblocks s) sz b" using fd by (auto simp: find_Some_iff)
  then have fit: "bfree (hd_of (hblocks s) b) \<noteq> 0" "sz \<le> bsize (hd_of (hblocks s) b)" by (simp_all add: fits_def)
  obtain H h xs' where S: "split_block b sz s = Some (s\<lparr>hblocks := H\<rparr>)" "get_hdr b (s\<lparr>hblocks := H\<rparr>) = Some h"
    "sz \<le> bsize h" "b \<in> set xs'" "hdr_mapped s b" "H b = Some h"
    "heap_core xs' (s\<lparr>hblocks := H\<rparr>)" "live_other H b xs' = live_other (hblocks s) b xs"
    using split_core [OF core b(1) fit(2) sz] by metis
  note C = heap_coreD [OF S(7)]
  let ?H = "H(b \<mapsto> h\<lparr>bfree := 0\<rparr>)"
  have "seg ?H (free_list s) xs' None" using C(1) seg_upd_same [of H b h "h\<lparr>bfree := 0\<rparr>"] S(6) by simp
  moreover have "blocks_ok (unat (heap_next s)) ?H xs'"
    by (rule blocks_ok_free) (use C(2) S(6) in \<open>simp_all add: hd_of_def\<close>)
  moreover have "heap_arena (s\<lparr>hblocks := ?H\<rparr>)"
    using C(3) heap_arena_cong [of "s\<lparr>hblocks := ?H\<rparr>" "s\<lparr>hblocks := H\<rparr>"] by simp
  ultimately have core': "heap_core xs' (s\<lparr>hblocks := ?H\<rparr>)" by (simp add: heap_core_def)
  have "live ?H xs' = insert (b + SIZEOF_HEADER, bsize h) (live (hblocks s) xs)"
    using live_with [OF S(4), of ?H] live_with [OF b(1), of "hblocks s"] fit(1) S(8) by simp
  then show thesis using that [OF S(1,2,5,3) core'] by blast
qed

lemma blocks_ok_new:
  assumes ok: "blocks_ok lim H xs" and a: "unat a = lim" "unat KHEAP_BASE \<le> lim" and h: "lim + 24 + unat (bsize h) = lim'"
  shows "a \<notin> set xs" "blocks_ok lim' (H(a \<mapsto> h)) (a # xs)"
proof -
  have *: "unat KHEAP_BASE \<le> unat c" "blk_end H c \<le> lim" "unat c < lim" if "c \<in> set xs" for c
    using ok that by (auto simp: blocks_ok_def blk_end_def)
  then show na: "a \<notin> set xs" using a(1) by blast
  have e: "blk_end (H(a \<mapsto> h)) a = lim'" "\<And>c. c \<in> set xs \<Longrightarrow> blk_end (H(a \<mapsto> h)) c = blk_end H c"
    using a(1) h na by (auto simp: blk_end_upd)
  have ap: "apart (H(a \<mapsto> h)) a c" "apart (H(a \<mapsto> h)) c a" if "c \<in> set xs" for c
    using *(2) [OF that] e(2) [OF that] a(1) by (simp_all add: apart_def)
  have "apart (H(a \<mapsto> h)) c d" if "c \<in> set xs" "d \<in> set xs" "c \<noteq> d" for c d
  proof -
    have "apart H c d" using ok that by (simp add: blocks_ok_def)
    then show ?thesis using that e(2) by (simp add: apart_def)
  qed
  moreover have "blk_end (H(a \<mapsto> h)) c \<le> lim'" if "c \<in> set xs" for c using *(2) [OF that] e(2) [OF that] h by simp
  moreover have "distinct (a # xs)" using ok na by (simp add: blocks_ok_def)
  ultimately show "blocks_ok lim' (H(a \<mapsto> h)) (a # xs)"
    unfolding blocks_ok_def using ap e(1) a *(1) by (simp del: distinct.simps)
qed

lemma extend_core:
  assumes core: "heap_core xs s" and room: "4 * n \<le> card (free_frames s)"
    and lim: "unat (heap_next s) + 4096 * n \<le> unat (KHEAP_BASE + KHEAP_SIZE)"
    and h: "24 + unat (bsize h) = 4096 * n" "bnext h = free_list s" and np: "unat np = n"
  obtains s2 where "heap_extend np s = Some (True, s2)" "hdr_mapped s2 (heap_next s)" "heap_next s \<notin> set xs"
    "hblocks s2 = hblocks s" "free_list s2 = free_list s" "locks s2 = locks s" "rflags s2 = rflags s"
    "heap_core (heap_next s # xs) (s2\<lparr>hblocks := (hblocks s)(heap_next s \<mapsto> h), free_list := Some (heap_next s)\<rparr>)"
proof -
  note C = heap_coreD [OF core]
  obtain s1 where s1: "heap_extend_loop n s = Some (True, s1)" "heap_arena s1" "heap_frame s s1"
    "unat (heap_next s1) = unat (heap_next s) + 4096 * n"
    using heap_extend_ok [OF C(3) room lim] by blast
  let ?a = "heap_next s" and ?s2 = "s1\<lparr>heap_end := heap_next s1\<rparr>"
  have fr: "hblocks s1 = hblocks s" "free_list s1 = free_list s" "locks s1 = locks s" "rflags s1 = rflags s"
    using s1(3) by (auto simp: heap_frame_def)
  have base: "unat KHEAP_BASE \<le> unat ?a" using C(3) by (simp add: heap_arena_def word_le_nat_alt)
  have ar2: "heap_arena ?s2" using s1(2) heap_arena_cong [of ?s2 s1] by simp
  have map: "hdr_mapped ?s2 ?a" by (rule hdr_mapped_arena [OF ar2 base]) (use s1(4) h(1) in simp)
  have new: "?a \<notin> set xs" "blocks_ok (unat (heap_next s1)) ((hblocks s)(?a \<mapsto> h)) (?a # xs)"
    using blocks_ok_new [OF C(2) refl base, of h "unat (heap_next s1)"] h(1) s1(4) by simp_all
  let ?s3 = "?s2\<lparr>hblocks := (hblocks s)(?a \<mapsto> h), free_list := Some ?a\<rparr>"
  have "heap_arena ?s3" using ar2 heap_arena_cong [of ?s3 ?s2] by simp
  then have "heap_core (?a # xs) ?s3" using new C(1) h(2) by (simp add: heap_core_def)
  moreover have "heap_extend np s = Some (True, ?s2)" using s1(1) np by (simp add: heap_extend_def)
  ultimately show thesis using that [of ?s2] map new(1) fr by simp
qed

lemma live_new: "a \<notin> set xs \<Longrightarrow> live_other (H(a \<mapsto> h)) a (a # xs) = live H xs"
  by (auto simp: live_other_def live_def)

definition kmalloc_post :: "u64 \<Rightarrow> u64 list \<Rightarrow> 'a heap_state_scheme \<Rightarrow> u64 list \<Rightarrow> u64 \<Rightarrow> u64 \<Rightarrow> 'a heap_state_scheme \<Rightarrow> bool" where
  "kmalloc_post sz xs s xs' p m s' \<longleftrightarrow>
     kmalloc sz s = Some (Some p, s') \<and> heap_inv xs' s' \<and> roundup sz ALIGN \<le> m \<and> rflags s' = rflags s \<and>
     live (hblocks s') xs' = insert (p, m) (live (hblocks s) xs) \<and> p \<notin> fst ` live (hblocks s) xs"

lemma locked_core:
  assumes "heap_inv xs s"
  defines "s1 \<equiv> s\<lparr>rflags := rflags s AND NOT IF_FLAG, locks := (locks s)(kheap_lock := 1)\<rparr>"
  shows "spinlock_acquire kheap_lock s = Some (rflags s, s1)" "heap_core xs s1"
    "find_free_block sz s1 = Some (find (fits (hblocks s) sz) xs)"
proof -
  note I = heap_invD [OF assms(1)]
  show "spinlock_acquire kheap_lock s = Some (rflags s, s1)" using I(3) by (simp add: s1_def)
  show core: "heap_core xs s1"
    using assms(1) heap_core_cong [of s1 s] by (simp add: s1_def heap_inv_core)
  have "all_mapped s1 xs" using block_mapped [OF core] by (simp add: all_mapped_def)
  then show "find_free_block sz s1 = Some (find (fits (hblocks s) sz) xs)"
    using find_from_find [of s1 "free_list s1" xs] heap_coreD(1) [OF core]
    by (simp add: find_free_block_def s1_def)
qed

lemma unlocked_inv:
  assumes "heap_core xs s"
  shows "heap_inv xs (spinlock_release kheap_lock f s)"
  using assms heap_core_cong [of "spinlock_release kheap_lock f s" s] by (simp add: heap_inv_core)

lemma kmalloc_found:
  assumes inv: "heap_inv xs s" and s16: "s16 = roundup sz ALIGN" and sz: "sz \<noteq> 0" "unat s16 \<le> 2 ^ 31"
    and fd: "find (fits (hblocks s) s16) xs = Some b"
  shows "\<exists>xs' m s'. kmalloc_post sz xs s xs' (b + SIZEOF_HEADER) m s'"
proof -
  note Z = kmalloc_sizes [OF sz(2)]
  define s1 where "s1 = s\<lparr>rflags := rflags s AND NOT IF_FLAG, locks := (locks s)(kheap_lock := 1)\<rparr>"
  note L = locked_core [OF inv, folded s1_def]
  have H1: "hblocks s1 = hblocks s" by (simp add: s1_def)
  obtain H h xs' where T: "split_block b s16 s1 = Some (s1\<lparr>hblocks := H\<rparr>)"
    "get_hdr b (s1\<lparr>hblocks := H\<rparr>) = Some h" "hdr_mapped s1 b" "s16 \<le> bsize h"
    "heap_core xs' (s1\<lparr>hblocks := H(b \<mapsto> h\<lparr>bfree := 0\<rparr>)\<rparr>)"
    "live (H(b \<mapsto> h\<lparr>bfree := 0\<rparr>)) xs' = insert (b + SIZEOF_HEADER, bsize h) (live (hblocks s) xs)"
    using take_block [OF L(2) _ Z(4), of b] fd H1 by metis
  let ?t = "s1\<lparr>hblocks := H(b \<mapsto> h\<lparr>bfree := 0\<rparr>)\<rparr>"
  let ?s' = "spinlock_release kheap_lock (rflags s) ?t"
  have put: "put_hdr b (h\<lparr>bfree := 0\<rparr>) (s1\<lparr>hblocks := H\<rparr>) = Some ?t" using T(3) by (simp add: put_hdr_def)
  have "kmalloc sz s = Some (Some (b + SIZEOF_HEADER), ?s')"
    using sz(1) L(1) L(3) [of s16] fd T(1,2) put
    by (simp add: kmalloc_def Let_def s16 [symmetric] del: spinlock_acquire_free spinlock_release_simp)
  moreover have "heap_inv xs' ?s'" by (rule unlocked_inv [OF T(5)])
  moreover have "b + SIZEOF_HEADER \<notin> fst ` live (hblocks s) xs"
    using fd by (auto simp: find_Some_iff fits_def live_def)
  ultimately show ?thesis
    using T(4,6) s16 unfolding kmalloc_post_def by (intro exI [of _ xs'] exI [of _ "bsize h"] exI [of _ ?s']) simp
qed

lemma kmalloc_grown:
  assumes inv: "heap_inv xs s" and s16: "s16 = roundup sz ALIGN" and sz: "sz \<noteq> 0" "unat s16 \<le> 2 ^ 31"
    and fd: "find (fits (hblocks s) s16) xs = None"
    and room: "4 * kmalloc_pages s16 \<le> card (free_frames s)"
      "unat (heap_next s) + 4096 * kmalloc_pages s16 \<le> unat (KHEAP_BASE + KHEAP_SIZE)"
  shows "\<exists>xs' m s'. kmalloc_post sz xs s xs' (heap_next s + SIZEOF_HEADER) m s'"
proof -
  note Z = kmalloc_sizes [OF sz(2)]
  define s1 where "s1 = s\<lparr>rflags := rflags s AND NOT IF_FLAG, locks := (locks s)(kheap_lock := 1)\<rparr>"
  note L = locked_core [OF inv, folded s1_def]
  define np where "np = (s16 + SIZEOF_HEADER + PGSIZE - 1) div PGSIZE"
  define h where "h = \<lparr>bsize = np * PGSIZE - SIZEOF_HEADER, bfree = 0, bnext = free_list s\<rparr>"
  let ?a = "heap_next s"
  have same: "heap_next s1 = ?a" "hblocks s1 = hblocks s" "free_list s1 = free_list s" "free_frames s1 = free_frames s"
    by (simp_all add: s1_def free_frames_def)
  have bs: "24 + unat (bsize h) = 4096 * kmalloc_pages s16" using Z(2) by (simp add: h_def np_def)
  obtain s2 where E: "heap_extend np s1 = Some (True, s2)" "hdr_mapped s2 ?a" "?a \<notin> set xs"
    "hblocks s2 = hblocks s" "free_list s2 = free_list s"
    "heap_core (?a # xs) (s2\<lparr>hblocks := (hblocks s)(?a \<mapsto> h), free_list := Some ?a\<rparr>)"
    by (rule extend_core [OF L(2), of "kmalloc_pages s16" h np])
      (use room same bs Z(1) in \<open>simp_all add: np_def h_def\<close>)
  let ?s3 = "s2\<lparr>hblocks := (hblocks s)(?a \<mapsto> h), free_list := Some ?a\<rparr>"
  have le: "s16 \<le> bsize h" using Z(3) bs by (simp add: word_le_nat_alt)
  obtain H h' xs' where S: "split_block ?a s16 ?s3 = Some (?s3\<lparr>hblocks := H\<rparr>)" "bfree h' = 0" "s16 \<le> bsize h'"
    "?a \<in> set xs'" "H ?a = Some h'" "heap_core xs' (?s3\<lparr>hblocks := H\<rparr>)"
    "live_other H ?a xs' = live_other ((hblocks s)(?a \<mapsto> h)) ?a (?a # xs)"
    by (rule split_core [OF E(6) _ _ Z(4), of ?a]) (use le in \<open>simp_all add: h_def\<close>)
  let ?s' = "spinlock_release kheap_lock (rflags s) (?s3\<lparr>hblocks := H\<rparr>)"
  have put: "put_hdr ?a h s2 = Some (s2\<lparr>hblocks := (hblocks s)(?a \<mapsto> h)\<rparr>)" using E(2,4) by (simp add: put_hdr_def)
  have "kmalloc sz s = Some (Some (?a + SIZEOF_HEADER), ?s')"
    using sz(1) L(1) L(3) [of s16] fd E(1,5) same put S(1)
    by (simp add: kmalloc_def Let_def s16 [symmetric] np_def [symmetric] h_def del: spinlock_acquire_free spinlock_release_simp)
  moreover have "heap_inv xs' ?s'" by (rule unlocked_inv [OF S(6)])
  moreover have "live H xs' = insert (?a + SIZEOF_HEADER, bsize h') (live (hblocks s) xs)"
    using live_with [OF S(4), of H] S(2,5,7) live_new [OF E(3)] by (simp add: hd_of_def)
  moreover have "?a + SIZEOF_HEADER \<notin> fst ` live (hblocks s) xs" using E(3) by (auto simp: live_def)
  ultimately show ?thesis
    using S(3) s16 unfolding kmalloc_post_def by (intro exI [of _ xs'] exI [of _ "bsize h'"] exI [of _ ?s']) simp
qed

lemma kmalloc_total:
  assumes "heap_inv xs s" "sz \<noteq> 0" "unat (roundup sz ALIGN) \<le> 2 ^ 31"
    "4 * kmalloc_pages (roundup sz ALIGN) \<le> card (free_frames s)"
    "unat (heap_next s) + 4096 * kmalloc_pages (roundup sz ALIGN) \<le> unat (KHEAP_BASE + KHEAP_SIZE)"
  shows "\<exists>xs' p m s'. kmalloc_post sz xs s xs' p m s'"
proof (cases "find (fits (hblocks s) (roundup sz ALIGN)) xs")
  case None
  then show ?thesis using kmalloc_grown [OF assms(1) refl assms(2,3) None assms(4,5)] by blast
next
  case (Some b)
  then show ?thesis using kmalloc_found [OF assms(1) refl assms(2,3)] by blast
qed

lemma live_payload:
  assumes "heap_inv xs s" "(p, m) \<in> live (hblocks s) xs"
  obtains b where "b \<in> set xs" "p = b + SIZEOF_HEADER" "m = bsize (hd_of (hblocks s) b)" "unat p = unat b + 24"
    "unat KHEAP_BASE \<le> unat b" "unat p + unat m = blk_end (hblocks s) b" "unat p + unat m \<le> unat (heap_next s)"
proof -
  note I = heap_invD [OF assms(1)]
  obtain b where b: "b \<in> set xs" "p = b + SIZEOF_HEADER" "m = bsize (hd_of (hblocks s) b)"
    using assms(2) by (auto simp: live_def)
  have B: "unat KHEAP_BASE \<le> unat b" "blk_end (hblocks s) b \<le> unat (heap_next s)"
    using I(2) b(1) by (simp_all add: blocks_ok_def)
  have "unat p = unat b + 24"
    using B(2) I(6) by (simp add: b(2) SIZEOF_HEADER_def blk_end_def unat_word_ariths)
  then show thesis using that [OF b] B by (simp add: blk_end_def b(3))
qed

lemma live_disjoint:
  assumes "heap_inv xs s" "(p, m) \<in> live (hblocks s) xs" "(q, n) \<in> live (hblocks s) xs" "p \<noteq> q"
  shows "unat p + unat m \<le> unat q \<or> unat q + unat n \<le> unat p"
proof -
  obtain b where b: "b \<in> set xs" "p = b + SIZEOF_HEADER" "unat p = unat b + 24" "unat p + unat m = blk_end (hblocks s) b"
    using live_payload [OF assms(1,2)] by metis
  obtain c where c: "c \<in> set xs" "q = c + SIZEOF_HEADER" "unat q = unat c + 24" "unat q + unat n = blk_end (hblocks s) c"
    using live_payload [OF assms(1,3)] by metis
  have "apart (hblocks s) b c"
    using heap_invD(2) [OF assms(1)] b(1,2) c(1,2) assms(4) by (auto simp: blocks_ok_def)
  then show ?thesis using b(3,4) c(3,4) by (auto simp: apart_def)
qed

lemma live_writable:
  assumes "heap_inv xs s" "(p, m) \<in> live (hblocks s) xs" "i < unat m"
  shows "mmu_access False True (mem s) (heap_root s) (p + of_nat i) \<noteq> None"
proof -
  obtain b :: u64 where b: "unat p = unat b + 24" "unat KHEAP_BASE \<le> unat b" "unat p + unat m \<le> unat (heap_next s)"
    using live_payload [OF assms(1,2)] by metis
  have "unat (p + of_nat i) = unat p + i"
    using b(3) assms(3) unat_lt_u64 [of "heap_next s"] by (subst unat_add_lem [THEN iffD1]) (simp_all add: unat_of_nat)
  then show ?thesis
    using b assms(3) by (intro heap_arena_access [OF heap_invD(4) [OF assms(1)]]) simp_all
qed

lemma live_size:
  assumes "heap_inv xs s" "(p, m) \<in> live (hblocks s) xs"
  shows "unat m < 2 ^ 30"
proof -
  obtain b :: u64 where b: "unat p = unat b + 24" "unat KHEAP_BASE \<le> unat b" "unat p + unat m \<le> unat (heap_next s)"
    using live_payload [OF assms] by metis
  have "unat (heap_next s) \<le> unat (KHEAP_BASE + KHEAP_SIZE)"
    using heap_invD(4) [OF assms(1)] by (simp add: heap_arena_def word_le_nat_alt)
  then show ?thesis using b unat_heap_limit unat_KHEAP_BASE by simp
qed

lemma kfree_live_payload:
  assumes "heap_inv xs s" "(p, m) \<in> live (hblocks s) xs"
  shows "\<exists>xs' s'. kfree (Some p) s = Some s' \<and> heap_inv xs' s' \<and> coalesced (hblocks s') xs' \<and>
    live (hblocks s') xs' = live (hblocks s) xs - {(p, m)} \<and> heap_next s' = heap_next s \<and> free_frames s' = free_frames s"
proof -
  obtain b where b: "b \<in> set xs" "p = b + SIZEOF_HEADER" "m = bsize (hd_of (hblocks s) b)"
    using live_payload [OF assms] by metis
  obtain H xs' where K: "kfree (Some p) s = Some (s\<lparr>hblocks := H\<rparr>)" "heap_inv xs' (s\<lparr>hblocks := H\<rparr>)" "coalesced H xs'"
    "live H xs' = live (hblocks s) xs - {(p, m)}"
    using kfree_live [OF assms(1) b(1)] unfolding b(2,3) by blast
  then show ?thesis by (intro exI [of _ xs'] exI [of _ "s\<lparr>hblocks := H\<rparr>"]) (simp add: free_frames_def)
qed

section \<open>The contract of the heap\<close>

text \<open>What a client of the heap may rely on. \<open>owns s L\<close> says that in state \<open>s\<close> exactly the blocks of \<open>L\<close>
  (address and length) are handed out; \<open>room s sz\<close> that a request of that size can be served.\<close>

locale block_heap =
  fixes owns :: "'s \<Rightarrow> (u64 \<times> u64) set \<Rightarrow> bool"
    and room :: "'s \<Rightarrow> u64 \<Rightarrow> bool"
    and alloc :: "u64 \<Rightarrow> 's \<Rightarrow> (u64 option \<times> 's) option"
    and release :: "u64 option \<Rightarrow> 's \<Rightarrow> 's option"
  assumes alloc_law: "owns s L \<Longrightarrow> room s sz \<Longrightarrow>
      \<exists>p m s'. alloc sz s = Some (Some p, s') \<and> owns s' (insert (p, m) L) \<and> unat sz \<le> unat m \<and> p \<notin> fst ` L"
    and release_law: "owns s L \<Longrightarrow> (p, m) \<in> L \<Longrightarrow> \<exists>s'. release (Some p) s = Some s' \<and> owns s' (L - {(p, m)})"
    and separate: "owns s L \<Longrightarrow> (p, m) \<in> L \<Longrightarrow> (q, n) \<in> L \<Longrightarrow> p \<noteq> q \<Longrightarrow>
      unat p + unat m \<le> unat q \<or> unat q + unat n \<le> unat p"
begin

lemma alloc_separate:
  assumes "owns s L" "room s sz"
  shows "\<exists>p m s'. alloc sz s = Some (Some p, s') \<and> owns s' (insert (p, m) L) \<and> unat sz \<le> unat m \<and>
    (\<forall>(q, n) \<in> L. unat p + unat m \<le> unat q \<or> unat q + unat n \<le> unat p)"
proof -
  obtain p m s' where A: "alloc sz s = Some (Some p, s')" "owns s' (insert (p, m) L)" "unat sz \<le> unat m" "p \<notin> fst ` L"
    using alloc_law [OF assms] by blast
  have "unat p + unat m \<le> unat q \<or> unat q + unat n \<le> unat p" if "(q, n) \<in> L" for q n
    using separate [OF A(2), of p m q n] that A(4) by force
  then show ?thesis using A by blast
qed

lemma alloc_release:
  assumes "owns s L" "room s sz"
  shows "\<exists>p s' s''. alloc sz s = Some (Some p, s') \<and> release (Some p) s' = Some s'' \<and> owns s'' L"
proof -
  obtain p m s' where A: "alloc sz s = Some (Some p, s')" "owns s' (insert (p, m) L)" "p \<notin> fst ` L"
    using alloc_law [OF assms] by blast
  obtain s'' where R: "release (Some p) s' = Some s''" "owns s'' (insert (p, m) L - {(p, m)})"
    using release_law [OF A(2), of p m] by blast
  have "insert (p, m) L - {(p, m)} = L" using A(3) by force
  then show ?thesis using A(1) R by auto
qed

end

definition heap_owns :: "'a heap_state_scheme \<Rightarrow> (u64 \<times> u64) set \<Rightarrow> bool" where
  "heap_owns s L \<longleftrightarrow> (\<exists>xs. heap_inv xs s \<and> live (hblocks s) xs = L)"

definition heap_room :: "'a heap_state_scheme \<Rightarrow> u64 \<Rightarrow> bool" where
  "heap_room s sz \<longleftrightarrow> sz \<noteq> 0 \<and> unat sz \<le> 2 ^ 30 \<and>
     4 * kmalloc_pages (roundup sz ALIGN) \<le> card (free_frames s) \<and>
     unat (heap_next s) + 4096 * kmalloc_pages (roundup sz ALIGN) \<le> unat (KHEAP_BASE + KHEAP_SIZE)"

interpretation kh: block_heap heap_owns heap_room kmalloc kfree
proof
  fix s :: "'a heap_state_scheme" and L sz
  assume "heap_owns s L" and r: "heap_room s sz"
  then obtain xs where xs: "heap_inv xs s" "live (hblocks s) xs = L" by (auto simp: heap_owns_def)
  have R: "sz \<noteq> 0" "unat sz \<le> 2 ^ 30" "4 * kmalloc_pages (roundup sz ALIGN) \<le> card (free_frames s)"
     "unat (heap_next s) + 4096 * kmalloc_pages (roundup sz ALIGN) \<le> unat (KHEAP_BASE + KHEAP_SIZE)"
    using r by (simp_all add: heap_room_def)
  note Z = kmalloc_round [OF R(2)]
  obtain xs' p m s' where "kmalloc_post sz xs s xs' p m s'"
    using kmalloc_total [OF xs(1) R(1) Z(2) R(3,4)] by blast
  then have K: "kmalloc sz s = Some (Some p, s')" "heap_inv xs' s'" "roundup sz ALIGN \<le> m"
    "live (hblocks s') xs' = insert (p, m) L" "p \<notin> fst ` L"
    using xs(2) by (simp_all add: kmalloc_post_def)
  have "unat sz \<le> unat m" using Z(1) K(3) by (simp add: word_le_nat_alt)
  then show "\<exists>p m s'. kmalloc sz s = Some (Some p, s') \<and> heap_owns s' (insert (p, m) L) \<and> unat sz \<le> unat m \<and> p \<notin> fst ` L"
    using K unfolding heap_owns_def by blast
next
  fix s :: "'a heap_state_scheme" and L p m
  assume "heap_owns s L" "(p, m) \<in> L"
  then show "\<exists>s'. kfree (Some p) s = Some s' \<and> heap_owns s' (L - {(p, m)})"
    using kfree_live_payload unfolding heap_owns_def by blast
next
  fix s :: "'a heap_state_scheme" and L p m q n
  assume "heap_owns s L" "(p, m) \<in> L" "(q, n) \<in> L" "p \<noteq> q"
  then show "unat p + unat m \<le> unat q \<or> unat q + unat n \<le> unat p"
    using live_disjoint unfolding heap_owns_def by blast
qed

section \<open>Properties\<close>

definition demo_heap :: heap_state where
  "demo_heap = kheap_init (frame_state.extend demo_frames
     \<lparr>heap_next = 0, heap_end = 0, free_list = None, hblocks = Map.empty\<rparr>)"

lemma demo_heap_fields:
  "mem demo_heap = mem demo_frames" "cr3 demo_heap = 0" "pages demo_heap = pages demo_frames"
  "page_free_list demo_heap = page_free_list demo_frames" "locks demo_heap = locks demo_frames"
  "heap_next demo_heap = KHEAP_BASE" "free_list demo_heap = None" "hblocks demo_heap = Map.empty"
  by (simp_all add: demo_heap_def kheap_init_def demo_frames_def demo_pmm_def demo_idt_def demo_gdt_def demo_machine_def
      frame_state.defs pmm_state.defs idt_state.defs gdt_state.defs machine.defs)

lemma demo_heap_free: "free_frames demo_heap = {1, 2, 3, 4, 5}"
  using demo_free_frames by (simp add: free_frames_def demo_heap_fields)

lemma demo_heap_inv: "heap_inv [] demo_heap"
proof -
  have "frames_inv demo_heap = frames_inv demo_frames"
    by (simp add: frames_inv_def free_frames_def demo_heap_fields)
  then have "space_ok heap_index 0 demo_heap"
    using demo_space(1) [of heap_index] by (simp add: space_ok_def demo_heap_free demo_free_frames demo_heap_fields)
  moreover have "page_aligned KHEAP_BASE" unfolding page_aligned_def unat_KHEAP_BASE by simp
  moreover have "KHEAP_BASE \<le> KHEAP_BASE + KHEAP_SIZE" by (simp add: KHEAP_BASE_def KHEAP_SIZE_def)
  moreover have "heap_mapped demo_heap" unfolding heap_mapped_def demo_heap_fields by simp
  ultimately show ?thesis
    by (simp add: heap_inv_def heap_arena_def demo_heap_fields blocks_ok_def demo_frames_fields)
qed

lemma demo_heap_pages: "kmalloc_pages (roundup 100 ALIGN) = 1" "kmalloc_pages 0 = 1"
  by (simp_all add: kmalloc_pages_def roundup_def ALIGN_def)

lemma demo_heap_room: "heap_room demo_heap 100" "heap_owns demo_heap {}"
proof -
  have "unat KHEAP_BASE + 4096 \<le> unat (KHEAP_BASE + KHEAP_SIZE)" by (simp only: unat_heap_limit unat_KHEAP_BASE)
  then show "heap_room demo_heap 100"
    by (simp add: heap_room_def demo_heap_pages demo_heap_free demo_heap_fields)
  show "heap_owns demo_heap {}" using demo_heap_inv by (auto simp: heap_owns_def live_def)
qed

text \<open>Claim C7. With a well-formed heap, a request between one byte and a gibibyte and enough free
  frames and heap addresses, \<open>kmalloc\<close> returns a block of at least the requested length. The heap stays
  well formed, exactly this block is added to the blocks handed out, it overlaps none of them, every byte
  of it is mapped writable for the kernel, and the interrupt flag is as before the call.\<close>

theorem kmalloc_correct:
  assumes "heap_inv xs s" "heap_room s sz"
  shows "\<exists>p m xs' s'. kmalloc sz s = Some (Some p, s') \<and> heap_inv xs' s' \<and> unat sz \<le> unat m \<and>
    live (hblocks s') xs' = insert (p, m) (live (hblocks s) xs) \<and>
    (\<forall>(q, n) \<in> live (hblocks s) xs. unat p + unat m \<le> unat q \<or> unat q + unat n \<le> unat p) \<and>
    (\<forall>i < unat m. mmu_access False True (mem s') (heap_root s') (p + of_nat i) \<noteq> None)"
proof -
  have own: "heap_owns s (live (hblocks s) xs)" using assms(1) by (auto simp: heap_owns_def)
  obtain p m s' where A: "kmalloc sz s = Some (Some p, s')" "unat sz \<le> unat m"
    "heap_owns s' (insert (p, m) (live (hblocks s) xs))"
    "\<forall>(q, n) \<in> live (hblocks s) xs. unat p + unat m \<le> unat q \<or> unat q + unat n \<le> unat p"
    using kh.alloc_separate [OF own assms(2)] by (elim exE conjE)
  then obtain xs' where X: "heap_inv xs' s'" "live (hblocks s') xs' = insert (p, m) (live (hblocks s) xs)"
    by (auto simp: heap_owns_def)
  have "\<forall>i < unat m. mmu_access False True (mem s') (heap_root s') (p + of_nat i) \<noteq> None"
    using live_writable [OF X(1), of p m] X(2) by blast
  then show ?thesis
    by (intro exI [of _ p] exI [of _ m] exI [of _ xs'] exI [of _ s'] conjI A X) assumption
qed

theorem kmalloc_correct_witness:
  "\<exists>p m xs' s'. kmalloc 100 demo_heap = Some (Some p, s') \<and> heap_inv xs' s' \<and> 100 \<le> unat m \<and>
    live (hblocks s') xs' = {(p, m)}"
proof -
  obtain p m xs' s' where K: "kmalloc 100 demo_heap = Some (Some p, s')" "heap_inv xs' s'" "unat (100 :: u64) \<le> unat m"
    "live (hblocks s') xs' = insert (p, m) (live (hblocks demo_heap) [])"
    using kmalloc_correct [OF demo_heap_inv demo_heap_room(1)] by (elim exE conjE)
  show ?thesis
    using K by (intro exI [of _ p] exI [of _ m] exI [of _ xs'] exI [of _ s']) (simp add: live_def)
qed

text \<open>Claim C17. Freeing a block that was handed out returns, keeps the heap well formed, removes exactly
  that block from the blocks handed out, and leaves no two neighbouring free blocks unmerged: after
  \<open>kfree\<close> the list of blocks is fully coalesced.\<close>

theorem kfree_correct:
  assumes "heap_inv xs s" "(p, m) \<in> live (hblocks s) xs"
  shows "\<exists>xs' s'. kfree (Some p) s = Some s' \<and> heap_inv xs' s' \<and> coalesced (hblocks s') xs' \<and>
    live (hblocks s') xs' = live (hblocks s) xs - {(p, m)}"
  using kfree_live_payload [OF assms] by blast

theorem kfree_correct_witness:
  "\<exists>p s1 xs s2. kmalloc 100 demo_heap = Some (Some p, s1) \<and> kfree (Some p) s1 = Some s2 \<and>
    heap_inv xs s2 \<and> live (hblocks s2) xs = {}"
proof -
  obtain p m s1 where A: "kmalloc 100 demo_heap = Some (Some p, s1)" "heap_owns s1 {(p, m)}"
    using kh.alloc_law [OF demo_heap_room(2,1)] by blast
  then obtain xs where X: "heap_inv xs s1" "live (hblocks s1) xs = {(p, m)}" by (auto simp: heap_owns_def)
  then show ?thesis using kfree_correct [of xs s1 p m] A(1) by fastforce
qed

text \<open>Allocating a block and freeing it again gives back a well-formed heap with the same blocks
  handed out as before.\<close>

theorem kmalloc_kfree_roundtrip:
  assumes "heap_owns s L" "heap_room s sz"
  shows "\<exists>p s1 s2. kmalloc sz s = Some (Some p, s1) \<and> kfree (Some p) s1 = Some s2 \<and> heap_owns s2 L"
  using assms by (rule kh.alloc_release)

theorem kmalloc_kfree_roundtrip_witness:
  "\<exists>p s1 s2. kmalloc 100 demo_heap = Some (Some p, s1) \<and> kfree (Some p) s1 = Some s2 \<and> heap_owns s2 {}"
  by (rule kmalloc_kfree_roundtrip [OF demo_heap_room(2,1)])

text \<open>When no block fits and no frame is free, \<open>kmalloc\<close> returns NULL and leaves the machine exactly
  as it was, lock and interrupt flag included.\<close>

theorem kmalloc_exhausted:
  assumes "heap_inv xs s" "unat sz \<le> 2 ^ 30" "free_frames s = {}" "\<forall>a \<in> set xs. \<not> fits (hblocks s) (roundup sz ALIGN) a"
  shows "kmalloc sz s = Some (None, s)"
proof (cases "sz = 0")
  case True
  then show ?thesis by (simp add: kmalloc_def)
next
  case False
  define s1 where "s1 = s\<lparr>rflags := rflags s AND NOT IF_FLAG, locks := (locks s)(kheap_lock := 1)\<rparr>"
  note L = locked_core [OF assms(1), folded s1_def]
  note Z = kmalloc_sizes [OF kmalloc_round(2) [OF assms(2)]]
  have fd: "find (fits (hblocks s) (roundup sz ALIGN)) xs = None" using assms(4) by (auto simp: find_None_iff)
  have "free_frames s1 = {}" using assms(3) by (simp add: s1_def free_frames_def)
  moreover have "frames_inv s1" using heap_coreD(3) [OF L(2)] space_okD(1) by (auto simp: heap_arena_def)
  ultimately have pa: "page_alloc 1 s1 = Some (None, s1)" by (intro page_alloc_empty)
  obtain k where "kmalloc_pages (roundup sz ALIGN) = Suc k" using Z(3) by (cases "kmalloc_pages (roundup sz ALIGN)") auto
  then have "heap_extend ((roundup sz ALIGN + SIZEOF_HEADER + PGSIZE - 1) div PGSIZE) s1 = Some (False, s1)"
    unfolding heap_extend_def Z(1) by (simp add: pa)
  then have "kmalloc sz s = Some (None, spinlock_release kheap_lock (rflags s) s1)"
    using False L(1,3) fd by (simp add: kmalloc_def Let_def del: spinlock_acquire_free spinlock_release_simp)
  then show ?thesis using heap_invD(3) [OF assms(1)] by (simp add: s1_def)
qed

theorem kmalloc_exhausted_witness:
  "kmalloc 100 (demo_heap\<lparr>pages := replicate 7 \<lparr>pp_link = None, pp_ref = 1\<rparr>, page_free_list := None\<rparr>) = Some (None, demo_heap\<lparr>pages := replicate 7 \<lparr>pp_link = None, pp_ref = 1\<rparr>, page_free_list := None\<rparr>)"
proof -
  let ?s = "demo_heap\<lparr>pages := replicate 7 \<lparr>pp_link = None, pp_ref = 1\<rparr>, page_free_list := None\<rparr>"
  have fl: "flist (pages ?s) (page_free_list ?s) []" by simp
  have none: "free_frames ?s = {}" using free_frames_flist [OF fl] by simp
  have "frames_inv ?s" using fl none by (auto simp: frames_inv_def demo_heap_fields demo_frames_fields nth_replicate)
  then have "space_ok heap_index 0 ?s"
    using demo_space(1) [of heap_index] none by (simp add: space_ok_def demo_heap_fields)
  then have "heap_inv [] ?s"
    using demo_heap_inv by (simp add: heap_inv_def heap_arena_def heap_mapped_def demo_heap_fields)
  then show ?thesis using kmalloc_exhausted [of "[]" ?s 100] none by simp
qed

text \<open>Claim C33. The size is not checked for overflow. For a request within fifteen bytes of \<open>2 ^ 64\<close> the rounding
  wraps to zero, and \<open>kmalloc\<close> returns a block far shorter than the request instead of NULL.\<close>

theorem kmalloc_wraps:
  assumes "heap_inv xs s" "2 ^ 64 - 15 \<le> unat sz" "4 \<le> card (free_frames s)"
    "unat (heap_next s) + 4096 \<le> unat (KHEAP_BASE + KHEAP_SIZE)"
  shows "\<exists>p m xs' s'. kmalloc sz s = Some (Some p, s') \<and> heap_inv xs' s' \<and> (p, m) \<in> live (hblocks s') xs' \<and>
    unat m < 2 ^ 30"
proof -
  have "unat (sz + 15) = (unat sz + 15) mod 2 ^ 64" by (simp add: unat_word_ariths)
  also have "\<dots> = unat sz + 15 - 2 ^ 64" using assms(2) unat_lt_u64 [of sz] by (simp add: mod_if)
  also have "\<dots> < 2 ^ 4" using unat_lt_u64 [of sz] by simp
  finally have "unat (sz + 15) div 2 ^ 4 = 0" by (rule div_less)
  then have "(sz + 15) AND NOT (mask 4) = 0"
    using unat_and_not_mask [of "sz + 15" 4] by (simp only: unat_eq_zero mult_0)
  then have "roundup sz ALIGN = 0" by (simp add: roundup_def ALIGN_def mask_15 add.commute)
  then obtain xs' p m s' where "kmalloc_post sz xs s xs' p m s'"
    using kmalloc_total [OF assms(1), of sz] assms(2-4) demo_heap_pages(2) by (cases "sz = 0") auto
  then show ?thesis
    using live_size unfolding kmalloc_post_def by blast
qed

theorem kmalloc_wraps_witness:
  "\<exists>p m xs' s'. kmalloc 0xFFFFFFFFFFFFFFFF demo_heap = Some (Some p, s') \<and> heap_inv xs' s' \<and>
    (p, m) \<in> live (hblocks s') xs' \<and> unat m < 2 ^ 30"
  using kmalloc_wraps [of "[]" demo_heap "0xFFFFFFFFFFFFFFFF", OF demo_heap_inv] demo_heap_room(1) demo_heap_pages
  by (simp add: heap_room_def demo_heap_free)

end
