(* ===== verification/Devices.thy ===== *)
theory Devices
  imports KheapAlloc
begin

text \<open>\<open>pic.c\<close>, \<open>pit.c\<close> and \<open>lapic.c\<close>: the 8259 interrupt controllers, the interval timer and the local APIC. The
port writes are the log of \<open>Machine\<close>; a reference model of one 8259 (\<open>i8259\<close>) interprets that log. Model specific
registers and the registers of the local APIC are maps of their own.\<close>

section \<open>The interrupt controllers (pic.c)\<close>

definition PIC1_CMD :: u16 where "PIC1_CMD = 0x20"

definition PIC1_DATA :: u16 where "PIC1_DATA = 0x21"

definition PIC2_CMD :: u16 where "PIC2_CMD = 0xA0"

definition PIC2_DATA :: u16 where "PIC2_DATA = 0xA1"

definition PIC_EOI :: u8 where "PIC_EOI = 0x20"

definition out_wait :: "u16 \<Rightarrow> u8 \<Rightarrow> 'a machine_scheme \<Rightarrow> 'a machine_scheme" where
  "out_wait port v s = io_wait (outb port v s)"

definition pic_remap :: "'a machine_scheme \<Rightarrow> 'a machine_scheme option" where
  "pic_remap s =
     (let (mask1, s) = inb PIC1_DATA s;
          (mask2, s) = inb PIC2_DATA s;
          s = out_wait PIC1_CMD (0x10 OR 0x01) s;
          s = out_wait PIC2_CMD (0x10 OR 0x01) s;
          s = out_wait PIC1_DATA 0x20 s;
          s = out_wait PIC2_DATA 0x28 s;
          s = out_wait PIC1_DATA 0x04 s;
          s = out_wait PIC2_DATA 0x02 s;
          s = out_wait PIC1_DATA 0x01 s;
          s = out_wait PIC2_DATA 0x01 s;
          s = outb PIC1_DATA mask1 s;
          s = outb PIC2_DATA mask2 s;
          s = outb 0x22 0x70 s;
          s = outb 0x23 0x01 s
      in kprintf (''pic_remap: IRQ0-7 -> 0x20-0x27, IRQ8-15 -> 0x28-0x2F, IMCR forced to PIC mode'' @ [CHR 0x0A]) [] s)"

definition pic_send_eoi :: "u8 \<Rightarrow> 'a machine_scheme \<Rightarrow> 'a machine_scheme" where
  "pic_send_eoi irq s =
     (let s = (if irq \<ge> 8 then outb PIC2_CMD PIC_EOI s else s)
      in outb PIC1_CMD PIC_EOI s)"

definition pic_set_mask :: "u8 \<Rightarrow> 'a machine_scheme \<Rightarrow> 'a machine_scheme" where
  "pic_set_mask irq s =
     (let port = (if irq < 8 then PIC1_DATA else PIC2_DATA);
          irq_line = (if irq < 8 then irq else irq - 8);
          (old, s) = inb port s
      in outb port (old OR push_bit (unat irq_line) 1) s)"

definition pic_clear_mask :: "u8 \<Rightarrow> 'a machine_scheme \<Rightarrow> 'a machine_scheme" where
  "pic_clear_mask irq s =
     (let port = (if irq < 8 then PIC1_DATA else PIC2_DATA);
          irq_line = (if irq < 8 then irq else irq - 8);
          (old, s) = inb port s
      in outb port (old AND NOT (push_bit (unat irq_line) 1)) s)"

subsection \<open>What the controllers make of it\<close>

text \<open>One controller of the pair, as its data sheet describes it: a command byte with bit 4 set starts
  the initialisation; the next data bytes are the vector offset, the cascade wiring unless bit 1 of the command
  says that there is one controller, and the mode if bit 0 announces it; outside the initialisation a data byte is
  the interrupt mask.\<close>

record i8259 =
  vector :: u8
  cascade :: u8
  mode :: u8
  imr :: u8
  icw_left :: nat
  single :: bool
  ic4 :: bool

definition i8259_cmd :: "u8 \<Rightarrow> i8259 \<Rightarrow> i8259" where
  "i8259_cmd v c = (if bit v 4 then c\<lparr>icw_left := 3, imr := 0, mode := 0, single := bit v 1, ic4 := bit v 0\<rparr> else c)"

definition i8259_data :: "u8 \<Rightarrow> i8259 \<Rightarrow> i8259" where
  "i8259_data v c =
     (if icw_left c = 3 then c\<lparr>vector := v, icw_left := (if single c then of_bool (ic4 c) else 2)\<rparr>
      else if icw_left c = 2 then c\<lparr>cascade := v, icw_left := of_bool (ic4 c)\<rparr>
      else if icw_left c = 1 then c\<lparr>mode := v, icw_left := 0\<rparr>
      else c\<lparr>imr := v\<rparr>)"

fun i8259_run :: "u16 \<Rightarrow> u16 \<Rightarrow> (u16 \<times> u8) list \<Rightarrow> i8259 \<Rightarrow> i8259" where
  "i8259_run cmd dat [] c = c"
| "i8259_run cmd dat ((p, v) # ws) c =
     i8259_run cmd dat ws (if p = cmd then i8259_cmd v c else if p = dat then i8259_data v c else c)"

lemma i8259_run_append: "i8259_run cmd dat (xs @ ys) c = i8259_run cmd dat ys (i8259_run cmd dat xs c)"
  by (induction cmd dat xs c rule: i8259_run.induct) auto

lemma i8259_run_other: "p \<noteq> cmd \<Longrightarrow> p \<noteq> dat \<Longrightarrow> i8259_run cmd dat (map (Pair p) t) c = c"
  by (induction t) auto

lemma say_ports: "io_out (say t s) = io_out s @ map (Pair UART_DATA) t"
  by (simp add: say_def)

section \<open>The interval timer (pit.c)\<close>

definition PIT_BASE_FREQUENCY :: u32 where "PIT_BASE_FREQUENCY = 1193182"

definition pit_reload :: "u32 \<Rightarrow> u32" where
  "pit_reload frequency_hz =
     (let reload = PIT_BASE_FREQUENCY div frequency_hz;
          reload = (if reload > 65535 then 65535 else reload)
      in if reload = 0 then 1 else reload)"

definition pit_init :: "u32 \<Rightarrow> 'a machine_scheme \<Rightarrow> 'a machine_scheme option" where
  "pit_init frequency_hz s =
     (let frequency_hz = (if frequency_hz < 19 then 19 else frequency_hz);
          reload = pit_reload frequency_hz;
          s = outb 0x43 0x34 s;
          s = outb 0x40 (ucast (reload AND 0xFF)) s;
          s = outb 0x40 (ucast (drop_bit 8 reload AND 0xFF)) s;
          actual_hz = PIT_BASE_FREQUENCY div reload
      in kprintf (''pit_init: requested=%ldHz reload=%ld actual=%ldHz'' @ [CHR 0x0A])
           [W (ucast frequency_hz), W (ucast reload), W (ucast actual_hz)] s)"

section \<open>The local APIC (lapic.c)\<close>

text \<open>Model-specific registers and the memory-mapped registers of the local APIC are device state of
  their own; the registers of the APIC are an array of 32-bit words. A store reaches them also when \<open>vmm_map\<close> could not
  allocate a table; the real machine would fault there.\<close>

record apic_state = heap_state +
  msr :: "u32 \<Rightarrow> u64"
  lapic_base :: u64
  lapic_regs :: "u32 \<Rightarrow> u32"

definition rdmsr :: "u32 \<Rightarrow> 'a apic_state_scheme \<Rightarrow> u64" where
  "rdmsr r s =
     (let lo = (ucast (msr s r) :: u32); hi = (ucast (drop_bit 32 (msr s r)) :: u32)
      in push_bit 32 (ucast hi) OR ucast lo)"

definition wrmsr :: "u32 \<Rightarrow> u64 \<Rightarrow> 'a apic_state_scheme \<Rightarrow> 'a apic_state_scheme" where
  "wrmsr r v s =
     (let lo = (ucast (v AND 0xFFFFFFFF) :: u32); hi = (ucast (drop_bit 32 v) :: u32)
      in s\<lparr>msr := (msr s)(r := push_bit 32 (ucast hi) OR ucast lo)\<rparr>)"

definition lapic_read :: "u32 \<Rightarrow> 'a apic_state_scheme \<Rightarrow> u32" where
  "lapic_read reg s = lapic_regs s (reg div 4)"

definition lapic_write :: "u32 \<Rightarrow> u32 \<Rightarrow> 'a apic_state_scheme \<Rightarrow> 'a apic_state_scheme" where
  "lapic_write reg v s = s\<lparr>lapic_regs := (lapic_regs s)(reg div 4 := v)\<rparr>"

definition lapic_enable :: "'a apic_state_scheme \<Rightarrow> 'a apic_state_scheme option" where
  "lapic_enable s =
     (let apic_base_msr = rdmsr 0x1B s;
          apic_phys = apic_base_msr AND 0xFFFFF000;
          apic_base_msr = apic_base_msr OR push_bit 11 1;
          s = wrmsr 0x1B apic_base_msr s;
          vaddr = phys_to_virt s apic_phys;
          flags = push_bit 0 1 OR push_bit 1 1
      in do {
        s \<leftarrow> vmm_map (get_current_pml4 s) vaddr apic_phys flags s;
        let s = s\<lparr>lapic_base := vaddr\<rparr>;
            s = lapic_write 0x0F0 (lapic_read 0x0F0 s OR 0x100 OR 0xFF) s;
            s = lapic_write 0x350 0x700 s
        in kprintf (''lapic_enable: base=%lx, LINT0 set to ExtINT/unmasked'' @ [CHR 0x0A]) [W apic_phys] s })"

lemma msr_halves: "push_bit 32 (ucast (ucast (drop_bit 32 v) :: u32)) OR ucast (ucast (v AND 0xFFFFFFFF) :: u32) = (v :: u64)"
proof -
  have m: "(0xFFFFFFFF :: u64) = mask 32" by (simp add: mask_eq_exp_minus_1)
  show ?thesis by (rule bit_word_eqI) (auto simp: bit_simps m)
qed

lemma low_half: "(ucast (v AND 0xFFFFFFFF) :: u32) = ucast (v :: u64)"
proof -
  have m: "(0xFFFFFFFF :: u64) = mask 32" by (simp add: mask_eq_exp_minus_1)
  show ?thesis by (rule bit_word_eqI) (auto simp: bit_simps m)
qed

lemma rdmsr_simp [simp]: "rdmsr r s = msr s r"
  using msr_halves [of "msr s r"] by (simp add: rdmsr_def low_half)

lemma wrmsr_simp [simp]: "wrmsr r v s = s\<lparr>msr := (msr s)(r := v)\<rparr>"
  by (simp add: wrmsr_def msr_halves Let_def)

lemma reload_bytes:
  fixes r :: u32
  assumes "unat r < 65536"
  shows "unat (ucast (r AND 0xFF) :: u8) + 256 * unat (ucast (drop_bit 8 r AND 0xFF) :: u8) = unat r"
proof -
  have m: "(0xFF :: u32) = mask 8" by (simp add: mask_eq_exp_minus_1)
  have lo: "unat (ucast (r AND 0xFF) :: u8) = unat r mod 256"
    by (simp add: m unsigned_ucast_eq unsigned_take_bit_eq take_bit_nat_def flip: take_bit_eq_mask)
  have "unat r div 256 < 256" using assms by (simp add: less_mult_imp_div_less)
  then have hi: "unat (ucast (drop_bit 8 r AND 0xFF) :: u8) = unat r div 256"
    by (simp add: m unsigned_ucast_eq unsigned_take_bit_eq unsigned_drop_bit_eq drop_bit_nat_def take_bit_nat_def
        flip: take_bit_eq_mask)
  show ?thesis unfolding lo hi by simp
qed

lemma pit_reload_rate:
  assumes "19 \<le> f" "f \<le> PIT_BASE_FREQUENCY"
  shows "unat (pit_reload f) = 1193182 div unat f" "1 \<le> unat (pit_reload f)" "unat (pit_reload f) \<le> 62799"
proof -
  have f: "19 \<le> unat f" "unat f \<le> 1193182" using assms by (simp_all add: word_le_nat_alt PIT_BASE_FREQUENCY_def)
  define q where "q = PIT_BASE_FREQUENCY div f"
  have q: "unat q = 1193182 div unat f" by (simp add: q_def unat_div PIT_BASE_FREQUENCY_def)
  have up: "1193182 div unat f \<le> 1193182 div 19" by (rule div_le_mono2) (use f in simp_all)
  have lo: "1 \<le> 1193182 div unat f" using f by (simp add: Suc_le_eq div_greater_zero_iff)
  have "\<not> q > 65535" "q \<noteq> 0" using q up lo by (auto simp: word_less_nat_alt)
  then have "pit_reload f = q" by (simp add: pit_reload_def q_def [symmetric] Let_def)
  then show "unat (pit_reload f) = 1193182 div unat f" "1 \<le> unat (pit_reload f)" "unat (pit_reload f) \<le> 62799"
    using q up lo by simp_all
qed

section \<open>Properties\<close>

text \<open>Claim C36. Whatever state the two controllers are in, the bytes \<open>pic_remap\<close> sends
  leave the first at vectors \<open>0x20\<close> to \<open>0x27\<close> and the second at \<open>0x28\<close> to \<open>0x2F\<close>, wired as master and
  slave in 8086 mode, out of initialisation, and with the interrupt masks read before.\<close>

theorem pic_remap_programs:
  assumes "console_ok s"
  shows "\<exists>s' ws. pic_remap s = Some s' \<and> io_out s' = io_out s @ ws \<and>
    i8259_run PIC1_CMD PIC1_DATA ws c1 =
      \<lparr>vector = 0x20, cascade = 0x04, mode = 0x01, imr = io_in s (io_reads s) PIC1_DATA, icw_left = 0, single = False, ic4 = True\<rparr> \<and>
    i8259_run PIC2_CMD PIC2_DATA ws c2 =
      \<lparr>vector = 0x28, cascade = 0x02, mode = 0x01, imr = io_in s (Suc (io_reads s)) PIC2_DATA, icw_left = 0, single = False, ic4 = True\<rparr>"
proof -
  let ?m1 = "io_in s (io_reads s) PIC1_DATA" and ?m2 = "io_in s (Suc (io_reads s)) PIC2_DATA"
  define ws where "ws = [(PIC1_CMD, 0x11), (0x80, 0), (PIC2_CMD, 0x11), (0x80, 0), (PIC1_DATA, 0x20), (0x80, 0),
    (PIC2_DATA, 0x28), (0x80, 0), (PIC1_DATA, 0x04), (0x80, 0), (PIC2_DATA, 0x02), (0x80, 0),
    (PIC1_DATA, 0x01), (0x80, 0), (PIC2_DATA, 0x01), (0x80, 0), (PIC1_DATA, ?m1), (PIC2_DATA, ?m2), (0x22, 0x70), (0x23, 0x01 :: u8)]"
  let ?t = "s\<lparr>io_reads := Suc (Suc (io_reads s)), io_out := io_out s @ ws\<rparr>"
  let ?msg = "''pic_remap: IRQ0-7 -> 0x20-0x27, IRQ8-15 -> 0x28-0x2F, IMCR forced to PIC mode'' @ [CHR 0x0A]"
  have "pic_remap s = kprintf ?msg [] ?t"
    by (simp add: pic_remap_def inb_def out_wait_def io_wait_def outb_def ws_def Let_def)
  also have "\<dots> = Some (say (kmsg ?msg []) ?t)"
    using assms by (intro kprintf_ok) (simp_all add: console_ok_def)
  finally have run: "pic_remap s = Some (say (kmsg ?msg []) ?t)" .
  have out: "io_out (say (kmsg ?msg []) ?t) = io_out s @ ws @ map (Pair UART_DATA) (kmsg ?msg [])"
    by (simp add: say_ports)
  have "i8259_run PIC1_CMD PIC1_DATA ws c1 = \<lparr>vector = 0x20, cascade = 0x04, mode = 0x01, imr = ?m1, icw_left = 0, single = False, ic4 = True\<rparr>"
    by (cases c1) (simp add: ws_def i8259_cmd_def i8259_data_def PIC1_CMD_def PIC1_DATA_def PIC2_CMD_def PIC2_DATA_def bit_iff_odd)
  moreover have "i8259_run PIC2_CMD PIC2_DATA ws c2 = \<lparr>vector = 0x28, cascade = 0x02, mode = 0x01, imr = ?m2, icw_left = 0, single = False, ic4 = True\<rparr>"
    by (cases c2) (simp add: ws_def i8259_cmd_def i8259_data_def PIC1_CMD_def PIC1_DATA_def PIC2_CMD_def PIC2_DATA_def bit_iff_odd)
  moreover have "i8259_run PIC1_CMD PIC1_DATA (map (Pair UART_DATA) (kmsg ?msg [])) c = c"
    "i8259_run PIC2_CMD PIC2_DATA (map (Pair UART_DATA) (kmsg ?msg [])) c = c" for c
    by (rule i8259_run_other; simp add: UART_DATA_def PIC1_CMD_def PIC1_DATA_def PIC2_CMD_def PIC2_DATA_def)+
  ultimately show ?thesis using run out by (intro exI conjI) (assumption | simp only: i8259_run_append)+
qed

theorem pic_remap_programs_witness:
  "\<exists>s' ws. pic_remap demo_machine = Some s' \<and> io_out s' = ws \<and> vector (i8259_run PIC2_CMD PIC2_DATA ws
     \<lparr>vector = 0, cascade = 0, mode = 0, imr = 0xFF, icw_left = 0, single = False, ic4 = False\<rparr>) = 0x28"
  using pic_remap_programs [OF console_ok_demo, of undefined "\<lparr>vector = 0, cascade = 0, mode = 0, imr = 0xFF, icw_left = 0, single = False, ic4 = False\<rparr>"]
  by (auto simp: demo_machine_def)

text \<open>For a requested frequency of at least 19 Hz that the device
  can serve, the divisor \<open>pit_init\<close> programs, low byte first, is between 1 and 65535, the rate it gives is not below the
  request, and the next larger divisor would be below it.\<close>

theorem pit_init_rate:
  assumes "console_ok s" "19 \<le> f" "f \<le> PIT_BASE_FREQUENCY"
  shows "\<exists>s' lo hi t. pit_init f s = Some s' \<and>
    io_out s' = io_out s @ [(0x43, 0x34), (0x40, lo), (0x40, hi)] @ map (Pair UART_DATA) t \<and>
    unat lo + 256 * unat hi = unat (pit_reload f) \<and> 1 \<le> unat (pit_reload f) \<and> unat (pit_reload f) \<le> 65535 \<and>
    unat f * unat (pit_reload f) \<le> 1193182 \<and> 1193182 < unat f * Suc (unat (pit_reload f))"
proof -
  note R = pit_reload_rate [OF assms(2,3)]
  let ?r = "pit_reload f"
  let ?msg = "''pit_init: requested=%ldHz reload=%ld actual=%ldHz'' @ [CHR 0x0A]"
  let ?args = "[W (ucast f), W (ucast ?r), W (ucast (PIT_BASE_FREQUENCY div ?r))]"
  let ?lo = "ucast (?r AND 0xFF) :: u8" and ?hi = "ucast (drop_bit 8 ?r AND 0xFF) :: u8"
  let ?t = "s\<lparr>io_out := io_out s @ [(0x43, 0x34), (0x40, ?lo), (0x40, ?hi)]\<rparr>"
  have nl: "\<not> f < 19" using assms(2) by (simp add: not_less)
  have "pit_init f s = kprintf ?msg ?args ?t"
    using nl by (simp only: pit_init_def Let_def if_False outb_def) simp
  also have "\<dots> = Some (say (kmsg ?msg ?args) ?t)"
    using assms(1) by (intro kprintf_ok) (simp_all add: console_ok_def)
  finally have run: "pit_init f s = Some (say (kmsg ?msg ?args) ?t)" .
  have f0: "0 < unat f" using assms(2) by (simp add: word_le_nat_alt)
  have d: "unat f * unat ?r + 1193182 mod unat f = 1193182" unfolding R(1) by (rule mult_div_mod_eq)
  moreover have "1193182 mod unat f < unat f" using f0 by simp
  ultimately have hi: "1193182 < unat f * Suc (unat ?r)" unfolding mult_Suc_right by linarith
  have lo: "unat f * unat ?r \<le> 1193182" using d by linarith
  have "unat ?lo + 256 * unat ?hi = unat ?r" by (rule reload_bytes) (use R(3) in simp)
  then show ?thesis
    using run hi lo R(2,3)
    by (intro exI [of _ "say (kmsg ?msg ?args) ?t"] exI [of _ ?lo] exI [of _ ?hi] exI [of _ "kmsg ?msg ?args"])
      (simp add: say_ports)
qed

theorem pit_init_rate_witness:
  "\<exists>s' lo hi t. pit_init 1000 demo_machine = Some s' \<and>
    io_out s' = [(0x43, 0x34), (0x40, lo), (0x40, hi)] @ map (Pair UART_DATA) t \<and> unat lo + 256 * unat hi = 1193"
proof -
  have "unat (pit_reload 1000) = 1193"
    by (subst pit_reload_rate) (simp_all add: PIT_BASE_FREQUENCY_def)
  then show ?thesis
    using pit_init_rate [OF console_ok_demo, of 1000] by (auto simp: PIT_BASE_FREQUENCY_def demo_machine_def)
qed

end
