(* ===== verification/Memory.thy ===== *)
theory Memory
  imports Paging
begin

text \<open>\<open>memory.c\<close>: \<open>memcpy\<close>, \<open>memset\<close>, \<open>memmove\<close> and \<open>memcmp\<close> as byte loops on virtual addresses. An address below
\<open>2 ^ 47\<close> is translated by the current page tables, any other one by the direct map; a byte that does not
translate is a fault, \<open>None\<close>.\<close>

section \<open>Loads and stores of the kernel\<close>

text \<open>Addresses of the low half go through the page tables and fault where these do not allow the access; addresses that are not
  canonical fault; addresses of the high half are read as direct-map addresses, which the boot loader has mapped.\<close>

definition vresolve :: "bool \<Rightarrow> 'a machine_scheme \<Rightarrow> u64 \<Rightarrow> u64 option" where
  "vresolve write s va =
     (if unat va < 2 ^ 47 then mmu_access False write (mem s) (cr3 s AND 0x000FFFFFFFFFF000) va
      else if unat va < 2 ^ 64 - 2 ^ 47 then None
      else Some (virt_to_phys s va))"

definition vread8 :: "'a machine_scheme \<Rightarrow> u64 \<Rightarrow> u8 option" where
  "vread8 s va = map_option (mem s) (vresolve False s va)"

definition vwrite8 :: "u64 \<Rightarrow> u8 \<Rightarrow> 'a machine_scheme \<Rightarrow> 'a machine_scheme option" where
  "vwrite8 va b s = map_option (\<lambda>p. s\<lparr>mem := (mem s)(p := b)\<rparr>) (vresolve True s va)"

section \<open>The four routines\<close>

primrec copy_up :: "nat \<Rightarrow> u64 \<Rightarrow> u64 \<Rightarrow> 'a machine_scheme \<Rightarrow> 'a machine_scheme option" where
  "copy_up 0 pdest psrc s = Some s"
| "copy_up (Suc n) pdest psrc s =
     do { b \<leftarrow> vread8 s psrc; s \<leftarrow> vwrite8 pdest b s; copy_up n (pdest + 1) (psrc + 1) s }"

primrec copy_down :: "nat \<Rightarrow> u64 \<Rightarrow> u64 \<Rightarrow> 'a machine_scheme \<Rightarrow> 'a machine_scheme option" where
  "copy_down 0 pdest psrc s = Some s"
| "copy_down (Suc i) pdest psrc s =
     do { b \<leftarrow> vread8 s (psrc + of_nat i); s \<leftarrow> vwrite8 (pdest + of_nat i) b s; copy_down i pdest psrc s }"

definition memcpy :: "u64 \<Rightarrow> u64 \<Rightarrow> u64 \<Rightarrow> 'a machine_scheme \<Rightarrow> (u64 \<times> 'a machine_scheme) option" where
  "memcpy dest src n s = do { s \<leftarrow> copy_up (unat n) dest src s; Some (dest, s) }"

primrec fill_up :: "nat \<Rightarrow> u64 \<Rightarrow> u8 \<Rightarrow> 'a machine_scheme \<Rightarrow> 'a machine_scheme option" where
  "fill_up 0 p c s = Some s"
| "fill_up (Suc n) p c s = do { s \<leftarrow> vwrite8 p c s; fill_up n (p + 1) c s }"

definition memset :: "u64 \<Rightarrow> u32 \<Rightarrow> u64 \<Rightarrow> 'a machine_scheme \<Rightarrow> (u64 \<times> 'a machine_scheme) option" where
  "memset p c n s = do { s \<leftarrow> fill_up (unat n) p (ucast c) s; Some (p, s) }"

definition memmove :: "u64 \<Rightarrow> u64 \<Rightarrow> u64 \<Rightarrow> 'a machine_scheme \<Rightarrow> (u64 \<times> 'a machine_scheme) option" where
  "memmove dest src n s =
     do { s \<leftarrow> (if src > dest then copy_up (unat n) dest src s
                else if src < dest then copy_down (unat n) dest src s
                else Some s);
          Some (dest, s) }"

primrec compare_up :: "nat \<Rightarrow> u64 \<Rightarrow> u64 \<Rightarrow> 'a machine_scheme \<Rightarrow> int option" where
  "compare_up 0 p1 p2 s = Some 0"
| "compare_up (Suc n) p1 p2 s =
     do { a \<leftarrow> vread8 s p1; b \<leftarrow> vread8 s p2;
          if a \<noteq> b then Some (if a < b then -1 else 1) else compare_up n (p1 + 1) (p2 + 1) s }"

definition memcmp :: "u64 \<Rightarrow> u64 \<Rightarrow> u64 \<Rightarrow> 'a machine_scheme \<Rightarrow> int option" where
  "memcmp s1 s2 n s = compare_up (unat n) s1 s2 s"

section \<open>Kernel ranges\<close>

definition kernel_range :: "u64 \<Rightarrow> nat \<Rightarrow> bool" where
  "kernel_range va n \<longleftrightarrow> 2 ^ 64 - 2 ^ 47 \<le> unat va \<and> unat va + n \<le> 2 ^ 64"

definition copy_block :: "pmem \<Rightarrow> u64 \<Rightarrow> u64 \<Rightarrow> nat \<Rightarrow> pmem" where
  "copy_block m d p n = (\<lambda>x. if unat (x - d) < n then m (p + (x - d)) else m x)"

lemma kernel_range_Suc:
  assumes "kernel_range va (Suc n)"
  shows "\<not> unat va < 2 ^ 64 - 2 ^ 47" "n = 0 \<or> kernel_range (va + 1) n" "kernel_range va n"
proof -
  have b: "2 ^ 64 - 2 ^ 47 \<le> unat va" "unat va + Suc n \<le> 2 ^ 64" using assms by (simp_all add: kernel_range_def)
  then show "\<not> unat va < 2 ^ 64 - 2 ^ 47" "kernel_range va n" by (simp_all add: kernel_range_def)
  show "n = 0 \<or> kernel_range (va + 1) n"
  proof (cases "n = 0")
    case False
    then have "unat (va + 1) = unat va + 1"
      using b by (subst unat_add_lem [THEN iffD1]) auto
    then show ?thesis using b by (simp add: kernel_range_def)
  qed simp
qed

lemma kernel_range_nth:
  assumes "kernel_range va n" "i < n"
  shows "\<not> unat (va + of_nat i) < 2 ^ 64 - 2 ^ 47" "unat (va + of_nat i) = unat va + i"
proof -
  have b: "2 ^ 64 - 2 ^ 47 \<le> unat va" "unat va + n \<le> 2 ^ 64" "n \<le> 2 ^ 64"
    using assms(1) by (simp_all add: kernel_range_def)
  have "unat (of_nat i :: u64) = i" using assms(2) b by (simp add: unat_of_nat)
  then show eq: "unat (va + of_nat i) = unat va + i"
    using assms(2) b by (subst unat_add_lem [THEN iffD1]) auto
  show "\<not> unat (va + of_nat i) < 2 ^ 64 - 2 ^ 47" unfolding eq using b by simp
qed

lemma vread8_kernel: "\<not> unat va < 2 ^ 64 - 2 ^ 47 \<Longrightarrow> vread8 s va = Some (mem s (virt_to_phys s va))"
  unfolding vread8_def vresolve_def by simp

lemma vwrite8_kernel:
  "\<not> unat va < 2 ^ 64 - 2 ^ 47 \<Longrightarrow> vwrite8 va b s = Some (s\<lparr>mem := (mem s)(virt_to_phys s va := b)\<rparr>)"
  unfolding vwrite8_def vresolve_def by simp

lemma virt_to_phys_linear:
  "virt_to_phys s (va + k) = virt_to_phys s va + k" "virt_to_phys (s\<lparr>mem := m\<rparr>) va = virt_to_phys s va"
  by (simp_all add: virt_to_phys_def)

lemma copy_block_step_up:
  assumes "n < 2 ^ 64 - 1" "\<And>j. 0 < j \<Longrightarrow> j \<le> n \<Longrightarrow> p + of_nat j \<noteq> d"
  shows "copy_block (m(d := m p)) (d + 1) (p + 1) n = copy_block m d p (Suc n)"
proof
  fix x
  show "copy_block (m(d := m p)) (d + 1) (p + 1) n x = copy_block m d p (Suc n) x"
  proof (cases "x = d")
    case True
    have "d - (d + 1) = - 1" by simp
    then have "unat (d - (d + 1)) = 2 ^ 64 - 1" by (simp only: unat_max_u64)
    then show ?thesis using True assms(1) by (simp add: copy_block_def)
  next
    case False
    let ?k = "unat (x - d)"
    have k: "?k = Suc (unat (x - (d + 1)))" using False by (rule unat_minus_Suc)
    have "p + (x - d) \<noteq> d" if "?k < Suc n"
      using assms(2) [of ?k] that k by simp
    moreover have "p + 1 + (x - (d + 1)) = p + (x - d)" by simp
    ultimately show ?thesis using False k by (simp add: copy_block_def)
  qed
qed

lemma copy_up_kernel:
  assumes "kernel_range d n" "kernel_range p n" "n < 2 ^ 64 - 1"
    "\<And>i j. i < j \<Longrightarrow> j < n \<Longrightarrow> p + of_nat j \<noteq> d + of_nat i"
  shows "copy_up n d p s = Some (s\<lparr>mem := copy_block (mem s) (virt_to_phys s d) (virt_to_phys s p) n\<rparr>)"
  using assms
proof (induction n arbitrary: d p s)
  case 0
  then show ?case by (simp add: copy_block_def)
next
  case (Suc n)
  let ?d = "virt_to_phys s d" and ?p = "virt_to_phys s p"
  define m1 where "m1 = (mem s)(?d := mem s ?p)"
  let ?s = "s\<lparr>mem := m1\<rparr>"
  have one: "copy_up (Suc n) d p s = copy_up n (d + 1) (p + 1) ?s"
    using kernel_range_Suc(1) [OF Suc.prems(1)] kernel_range_Suc(1) [OF Suc.prems(2)]
    by (simp add: vread8_kernel vwrite8_kernel m1_def)
  have apart: "?p + of_nat j \<noteq> ?d" if "0 < j" "j \<le> n" for j
    using Suc.prems(4) [of 0 j] that by (auto simp: virt_to_phys_def)
  have block: "copy_block m1 (?d + 1) (?p + 1) n = copy_block (mem s) ?d ?p (Suc n)"
    unfolding m1_def by (rule copy_block_step_up) (use Suc.prems(3) apart in auto)
  show ?case
  proof (cases "n = 0")
    case True
    have "copy_block m1 (?d + 1) (?p + 1) 0 = m1" by (simp add: copy_block_def)
    then show ?thesis using one block True by simp
  next
    case False
    have "p + 1 + of_nat j \<noteq> d + 1 + of_nat i" if "i < j" "j < n" for i j
      using Suc.prems(4) [of "Suc i" "Suc j"] that by (simp add: algebra_simps)
    then have "copy_up n (d + 1) (p + 1) ?s =
        Some (?s\<lparr>mem := copy_block (mem ?s) (virt_to_phys ?s (d + 1)) (virt_to_phys ?s (p + 1)) n\<rparr>)"
      using Suc.IH [of "d + 1" "p + 1" ?s] False Suc.prems(3)
        kernel_range_Suc(2) [OF Suc.prems(1)] kernel_range_Suc(2) [OF Suc.prems(2)] by auto
    then show ?thesis using one block by (simp add: virt_to_phys_linear)
  qed
qed

lemma copy_block_step_down:
  assumes "n < 2 ^ 64" "\<And>i. i < n \<Longrightarrow> p + of_nat i \<noteq> d + of_nat n"
  shows "copy_block (m(d + of_nat n := m (p + of_nat n))) d p n = copy_block m d p (Suc n)"
proof
  fix x
  have un: "unat (of_nat n :: u64) = n" using assms(1) by (simp add: unat_of_nat)
  consider "unat (x - d) < n" | "unat (x - d) = n" | "unat (x - d) > n" by linarith
  then show "copy_block (m(d + of_nat n := m (p + of_nat n))) d p n x = copy_block m d p (Suc n) x"
  proof cases
    case 1
    then have "p + (x - d) \<noteq> d + of_nat n" using assms(2) [of "unat (x - d)"] by simp
    then show ?thesis using 1 by (simp add: copy_block_def)
  next
    case 2
    then have "x - d = of_nat n" using un by (simp only: word_unat_eq_iff)
    then have "x = d + of_nat n" by (simp add: algebra_simps)
    then show ?thesis using un by (simp add: copy_block_def)
  next
    case 3
    then have "x \<noteq> d + of_nat n" using un by auto
    then show ?thesis using 3 by (simp add: copy_block_def)
  qed
qed

lemma copy_down_kernel:
  assumes "kernel_range d n" "kernel_range p n" "n < 2 ^ 64"
    "\<And>i j. i < j \<Longrightarrow> j < n \<Longrightarrow> p + of_nat i \<noteq> d + of_nat j"
  shows "copy_down n d p s = Some (s\<lparr>mem := copy_block (mem s) (virt_to_phys s d) (virt_to_phys s p) n\<rparr>)"
  using assms
proof (induction n arbitrary: s)
  case 0
  then show ?case by (simp add: copy_block_def)
next
  case (Suc n)
  let ?d = "virt_to_phys s d" and ?p = "virt_to_phys s p"
  define m1 where "m1 = (mem s)(?d + of_nat n := mem s (?p + of_nat n))"
  let ?s = "s\<lparr>mem := m1\<rparr>"
  have one: "copy_down (Suc n) d p s = copy_down n d p ?s"
    using kernel_range_nth(1) [OF Suc.prems(1), of n] kernel_range_nth(1) [OF Suc.prems(2), of n]
    by (simp add: vread8_kernel vwrite8_kernel virt_to_phys_linear m1_def)
  have apart: "?p + of_nat i \<noteq> ?d + of_nat n" if "i < n" for i
    using Suc.prems(4) [of i n] that by (auto simp: virt_to_phys_def)
  have block: "copy_block m1 ?d ?p n = copy_block (mem s) ?d ?p (Suc n)"
    unfolding m1_def by (rule copy_block_step_down) (use Suc.prems(3) apart in auto)
  have "copy_down n d p ?s =
      Some (?s\<lparr>mem := copy_block (mem ?s) (virt_to_phys ?s d) (virt_to_phys ?s p) n\<rparr>)"
    using Suc.IH [of ?s] Suc.prems(3,4) kernel_range_Suc(3) [OF Suc.prems(1)] kernel_range_Suc(3) [OF Suc.prems(2)]
    by simp
  then show ?case using one block by (simp add: virt_to_phys_linear)
qed

lemma fill_up_kernel:
  assumes "kernel_range d n" "n < 2 ^ 64 - 1"
  shows "fill_up n d c s =
    Some (s\<lparr>mem := (\<lambda>x. if unat (x - virt_to_phys s d) < n then c else mem s x)\<rparr>)"
  using assms
proof (induction n arbitrary: d s)
  case 0
  then show ?case by simp
next
  case (Suc n)
  let ?d = "virt_to_phys s d"
  define m1 where "m1 = (mem s)(?d := c)"
  have one: "fill_up (Suc n) d c s = fill_up n (d + 1) c (s\<lparr>mem := m1\<rparr>)"
    using kernel_range_Suc(1) [OF Suc.prems(1)] by (simp add: vwrite8_kernel m1_def)
  have block: "(\<lambda>x. if unat (x - (?d + 1)) < n then c else m1 x) = (\<lambda>x. if unat (x - ?d) < Suc n then c else mem s x)"
  proof
    fix x
    show "(if unat (x - (?d + 1)) < n then c else m1 x) = (if unat (x - ?d) < Suc n then c else mem s x)"
      by (cases "x = ?d") (simp_all add: m1_def unat_minus_Suc)
  qed
  show ?case
  proof (cases "n = 0")
    case True
    then show ?thesis using one block by simp
  next
    case False
    then have "fill_up n (d + 1) c (s\<lparr>mem := m1\<rparr>) =
        Some (s\<lparr>mem := (\<lambda>x. if unat (x - (?d + 1)) < n then c else m1 x)\<rparr>)"
      using Suc.IH [of "d + 1" "s\<lparr>mem := m1\<rparr>"] Suc.prems(2) kernel_range_Suc(2) [OF Suc.prems(1)]
      by (simp add: virt_to_phys_linear cong: if_cong)
    then show ?thesis using one by (simp only: block)
  qed
qed

lemma kernel_range_apart:
  assumes "kernel_range d n" "kernel_range p n" "i < n" "j < n" "p + of_nat j = d + of_nat i"
  shows "unat p + j = unat d + i"
  using arg_cong [OF assms(5), of unat] kernel_range_nth(2) [OF assms(1,3)] kernel_range_nth(2) [OF assms(2,4)]
  by simp

definition kbytes :: "'a machine_scheme \<Rightarrow> u64 \<Rightarrow> nat \<Rightarrow> u8 list" where
  "kbytes s va n = map (\<lambda>i. mem s (virt_to_phys s (va + of_nat i))) [0..<n]"

fun list_cmp :: "u8 list \<Rightarrow> u8 list \<Rightarrow> int" where
  "list_cmp (a # as) (b # bs) = (if a < b then -1 else if b < a then 1 else list_cmp as bs)"
| "list_cmp _ _ = 0"

lemma kbytes_Suc: "kbytes s va (Suc n) = mem s (virt_to_phys s va) # kbytes s (va + 1) n"
  unfolding kbytes_def by (simp add: upt_conv_Cons map_Suc_upt [symmetric] algebra_simps del: upt_Suc)

lemma compare_up_kernel:
  "kernel_range a n \<Longrightarrow> kernel_range b n \<Longrightarrow> compare_up n a b s = Some (list_cmp (kbytes s a n) (kbytes s b n))"
proof (induction n arbitrary: a b)
  case 0
  then show ?case by (simp add: kbytes_def)
next
  case (Suc n)
  have r: "vread8 s a = Some (mem s (virt_to_phys s a))" "vread8 s b = Some (mem s (virt_to_phys s b))"
    using vread8_kernel kernel_range_Suc(1) [OF Suc.prems(1)] kernel_range_Suc(1) [OF Suc.prems(2)] by blast+
  have "compare_up n (a + 1) (b + 1) s = Some (list_cmp (kbytes s (a + 1) n) (kbytes s (b + 1) n))"
    using kernel_range_Suc(2) [OF Suc.prems(1)] kernel_range_Suc(2) [OF Suc.prems(2)] Suc.IH [of "a + 1" "b + 1"]
    by (cases "n = 0") (auto simp: kbytes_def)
  then show ?case using r by (auto simp: kbytes_Suc dest: order.asym)
qed

section \<open>Properties\<close>

text \<open>On kernel memory \<open>memmove\<close> copies as if through a temporary buffer, for every overlap of the
  two ranges: the destination holds what the source held before the call, nothing else changes, and
  the result is the destination pointer.\<close>

theorem memmove_correct:
  assumes "kernel_range dest (unat n)" "kernel_range src (unat n)"
  shows "memmove dest src n s =
    Some (dest, s\<lparr>mem := copy_block (mem s) (virt_to_phys s dest) (virt_to_phys s src) (unat n)\<rparr>)"
proof -
  have n: "unat n < 2 ^ 64 - 1" "unat n < 2 ^ 64" using assms(1) by (simp_all add: kernel_range_def)
  consider "src > dest" | "src < dest" | "src = dest" by (rule linorder_cases)
  then show ?thesis
  proof cases
    case 1
    then have "unat dest < unat src" by (simp add: word_less_nat_alt)
    then have "src + of_nat j \<noteq> dest + of_nat i" if "i < j" "j < unat n" for i j
      using kernel_range_apart [OF assms, of i j] that by auto
    then show ?thesis using copy_up_kernel [OF assms n(1), of s] 1 by (simp add: memmove_def)
  next
    case 2
    then have "unat src < unat dest" by (simp add: word_less_nat_alt)
    then have "src + of_nat i \<noteq> dest + of_nat j" if "i < j" "j < unat n" for i j
      using kernel_range_apart [OF assms, of j i] that by auto
    moreover have "\<not> dest < src" using 2 by (simp add: not_less)
    ultimately show ?thesis using copy_down_kernel [OF assms n(2), of s] 2 by (simp add: memmove_def)
  next
    case 3
    then show ?thesis by (simp add: memmove_def copy_block_def cong: if_cong)
  qed
qed

definition demo_kva :: u64 where "demo_kva = 0xFFFF800000001000"

lemma demo_kernel_range: "kernel_range demo_kva 16" "kernel_range (demo_kva + 4) 16"
  by (simp_all add: kernel_range_def demo_kva_def)

theorem memmove_correct_witness:
  "\<exists>s'. memmove (demo_kva + 4) demo_kva 16 demo_machine = Some (demo_kva + 4, s')"
  using memmove_correct [of "demo_kva + 4" 16 demo_kva demo_machine] demo_kernel_range by simp

text \<open>For ranges that do not overlap \<open>memcpy\<close> copies the source bytes to the destination,
  \<open>memset\<close> fills its range with the low byte of its argument, and \<open>memcmp\<close> returns the order of the first
  differing byte, \<open>0\<close> exactly for equal contents.\<close>

theorem memcpy_correct:
  assumes "kernel_range dest (unat n)" "kernel_range src (unat n)"
    "unat dest + unat n \<le> unat src \<or> unat src + unat n \<le> unat dest"
  shows "memcpy dest src n s =
      Some (dest, s\<lparr>mem := copy_block (mem s) (virt_to_phys s dest) (virt_to_phys s src) (unat n)\<rparr>) \<and>
    memset dest c n s =
      Some (dest, s\<lparr>mem := (\<lambda>x. if unat (x - virt_to_phys s dest) < unat n then ucast c else mem s x)\<rparr>) \<and>
    memcmp dest src n s = Some (list_cmp (kbytes s dest (unat n)) (kbytes s src (unat n)))"
proof -
  have n: "unat n < 2 ^ 64 - 1" using assms(1) by (simp add: kernel_range_def)
  have "src + of_nat j \<noteq> dest + of_nat i" if "i < j" "j < unat n" for i j
    using kernel_range_apart [OF assms(1,2), of i j] that assms(3) by auto
  then show ?thesis
    using copy_up_kernel [OF assms(1,2) n, of s] fill_up_kernel [OF assms(1) n, of "ucast c" s] compare_up_kernel [OF assms(1,2), of s]
    by (simp add: memcpy_def memset_def memcmp_def)
qed

theorem memcpy_correct_witness:
  "memcmp demo_kva (demo_kva + 16) 16 demo_machine =
     Some (list_cmp (kbytes demo_machine demo_kva 16) (kbytes demo_machine (demo_kva + 16) 16))"
  using memcpy_correct [of demo_kva 16 "demo_kva + 16" demo_machine] by (simp add: kernel_range_def demo_kva_def)

end
