(* ===== verification/CopySpace.thy ===== *)
theory CopySpace
  imports Memory
begin

text \<open>\<open>vmm_copy_address_space\<close> of \<open>paging.c\<close>: one definition per nested loop, each with the early return of the
code for a frame that cannot be allocated.\<close>

section \<open>Copying an address space\<close>

definition copy_page :: "u64 \<Rightarrow> nat \<Rightarrow> nat \<Rightarrow> nat \<Rightarrow> u64 \<Rightarrow> nat \<Rightarrow> 'a frame_state_scheme \<Rightarrow>
    ('a frame_state_scheme, u64 option \<times> 'a frame_state_scheme) flow option" where
  "copy_page child_pml4 i4 i3 i2 parent_pt i1 s =
     (let parent_pte = hread64 s (entry_ptr parent_pt (of_nat i1)) in
      if \<not> present parent_pte then Some (Next s)
      else let vaddr = push_bit 39 (of_nat i4) OR push_bit 30 (of_nat i3) OR push_bit 21 (of_nat i2) OR push_bit 12 (of_nat i1);
               parent_phys = pte_get_addr parent_pte;
               flags = parent_pte AND 0xFFF
           in do { (new_pp, s) \<leftarrow> page_alloc 0 s;
                   case new_pp of
                     None \<Rightarrow> Some (Ret (None, s))
                   | Some new_pp \<Rightarrow>
                       let new_phys = page2pa new_pp in
                       do { (_, s) \<leftarrow> memcpy (phys_to_virt s new_phys) (phys_to_virt s parent_phys) 4096 s;
                            s \<leftarrow> vmm_map child_pml4 vaddr new_phys flags s;
                            Some (Next s) } })"

definition copy_pd :: "u64 \<Rightarrow> nat \<Rightarrow> nat \<Rightarrow> u64 \<Rightarrow> nat \<Rightarrow> 'a frame_state_scheme \<Rightarrow>
    ('a frame_state_scheme, u64 option \<times> 'a frame_state_scheme) flow option" where
  "copy_pd child_pml4 i4 i3 parent_pd i2 s =
     (let e = hread64 s (entry_ptr parent_pd (of_nat i2)) in
      if \<not> present e then Some (Next s)
      else foreach (copy_page child_pml4 i4 i3 i2 (phys_to_virt s (pte_get_addr e))) [0..<512] s)"

definition copy_pdpt :: "u64 \<Rightarrow> nat \<Rightarrow> u64 \<Rightarrow> nat \<Rightarrow> 'a frame_state_scheme \<Rightarrow>
    ('a frame_state_scheme, u64 option \<times> 'a frame_state_scheme) flow option" where
  "copy_pdpt child_pml4 i4 parent_pdpt i3 s =
     (let e = hread64 s (entry_ptr parent_pdpt (of_nat i3)) in
      if \<not> present e then Some (Next s)
      else foreach (copy_pd child_pml4 i4 i3 (phys_to_virt s (pte_get_addr e))) [0..<512] s)"

definition copy_pml4 :: "u64 \<Rightarrow> u64 \<Rightarrow> nat \<Rightarrow> 'a frame_state_scheme \<Rightarrow>
    ('a frame_state_scheme, u64 option \<times> 'a frame_state_scheme) flow option" where
  "copy_pml4 child_pml4 parent_pml4 i4 s =
     (let e = hread64 s (entry_ptr parent_pml4 (of_nat i4)) in
      if \<not> present e then Some (Next s)
      else foreach (copy_pdpt child_pml4 i4 (phys_to_virt s (pte_get_addr e))) [0..<512] s)"

definition vmm_copy_address_space :: "u64 \<Rightarrow> 'a frame_state_scheme \<Rightarrow> (u64 option \<times> 'a frame_state_scheme) option" where
  "vmm_copy_address_space parent_pml4 s =
     do { (pml4_pp, s) \<leftarrow> page_alloc 1 s;
          case pml4_pp of
            None \<Rightarrow> Some (None, s)
          | Some pml4_pp \<Rightarrow>
              let child_pml4 = phys_to_virt s (page2pa pml4_pp);
                  s = copy_entries child_pml4 parent_pml4 [KERNEL_PML4_START..<512] s
              in do { r \<leftarrow> foreach (copy_pml4 child_pml4 parent_pml4) [0..<KERNEL_PML4_START] s;
                      case r of Ret x \<Rightarrow> Some x | Next s \<Rightarrow> Some (Some child_pml4, s) } }"

end
