(* ===== verification/Task.thy ===== *)
theory Task
  imports Devices CopySpace
begin

text \<open>\<open>task.h\<close> and \<open>task.c\<close>: the task table and its free list, creation, destruction, fork, and the stack frames from
which a task is first entered. A pointer into \<open>task_table[]\<close> is an index, NULL is \<open>None\<close>; the record \<open>kernel_state\<close>
is the whole state of the kernel.\<close>

section \<open>The task table (task.h, task.c)\<close>

datatype task_state = TASK_UNUSED | TASK_RUNNABLE | TASK_RUNNING | TASK_BLOCKED | TASK_DEAD

datatype block_reason = BLOCK_NONE | BLOCK_ON_RECV | BLOCK_ON_SEND | BLOCK_ON_WAIT

record task =
  task_id :: u64
  pml4 :: "u64 option"
  state :: task_state
  next_free :: "nat option"
  context_rsp :: u64
  kstack :: "u64 option"
  kstack_top :: "u64 option"
  block_reason :: block_reason
  ipc_peer :: u64
  ipc_buf :: u64
  ipc_len :: u64
  parent_id :: u64
  exit_code :: u64

text \<open>The registers a context switch saves and restores, and the instruction pointer.\<close>

record cpu_regs =
  rsp :: u64
  rbx :: u64
  rbp :: u64
  r12 :: u64
  r13 :: u64
  r14 :: u64
  r15 :: u64
  rip :: u64

record kernel_state = apic_state +
  task_table :: "task list"
  task_free_list :: "nat option"
  current_task :: "nat option"
  idle_task :: "nat option"
  g_ticks :: u64
  cpu :: cpu_regs
  syscall_entry_return :: u64
  task_entry_trampoline :: u64

definition MAX_TASKS :: nat where "MAX_TASKS = 64"

definition SIZEOF_REGS :: u64 where "SIZEOF_REGS = 160"

abbreviation tsk :: "'a kernel_state_scheme \<Rightarrow> nat \<Rightarrow> task" where
  "tsk s i \<equiv> task_table s ! i"

definition upd_task :: "nat \<Rightarrow> (task \<Rightarrow> task) \<Rightarrow> 'a kernel_state_scheme \<Rightarrow> 'a kernel_state_scheme" where
  "upd_task i f s = s\<lparr>task_table := (task_table s)[i := f (tsk s i)]\<rparr>"

definition task_table_lock_acquire :: "'a kernel_state_scheme \<Rightarrow> (u64 \<times> 'a kernel_state_scheme) option" where
  "task_table_lock_acquire s = spinlock_acquire task_table_lock s"

definition task_table_lock_release :: "u64 \<Rightarrow> 'a kernel_state_scheme \<Rightarrow> 'a kernel_state_scheme" where
  "task_table_lock_release flags s = spinlock_release task_table_lock flags s"

definition task_table_ptr :: "nat \<Rightarrow> nat option" where
  "task_table_ptr i = (if i \<ge> MAX_TASKS then None else Some i)"

definition task_table_size :: nat where
  "task_table_size = MAX_TASKS"

definition empty_slot :: "nat \<Rightarrow> nat option \<Rightarrow> task" where
  "empty_slot i nf = \<lparr>task_id = of_nat i, pml4 = None, state = TASK_UNUSED, next_free = nf, context_rsp = 0,
     kstack = None, kstack_top = None, block_reason = BLOCK_NONE, ipc_peer = 0, ipc_buf = 0, ipc_len = 0,
     parent_id = - 1, exit_code = 0\<rparr>"

definition init_slot :: "nat \<Rightarrow> 'a kernel_state_scheme \<Rightarrow> 'a kernel_state_scheme" where
  "init_slot i s = upd_task i (\<lambda>_. empty_slot i (task_free_list s)) s\<lparr>task_free_list := Some i\<rparr>"

definition task_table_init :: "'a kernel_state_scheme \<Rightarrow> 'a kernel_state_scheme option" where
  "task_table_init s =
     (let s = spinlock_init task_table_lock s;
          s = s\<lparr>task_free_list := None\<rparr>;
          s = upd_task 0 (\<lambda>_. empty_slot 0 None) s;
          s = fold init_slot (rev [1..<MAX_TASKS]) s
      in kprintf (''task_table_init: %d slots ready (slot 0 reserved, never allocated)'' @ [CHR 0x0A])
           [W (of_nat (MAX_TASKS - 1))] s)"

definition task_slot_alloc :: "'a kernel_state_scheme \<Rightarrow> (nat option \<times> 'a kernel_state_scheme) option" where
  "task_slot_alloc s =
     do { (f, s) \<leftarrow> spinlock_acquire task_table_lock s;
          case task_free_list s of
            None \<Rightarrow> do { s \<leftarrow> kprintf (''task_slot_alloc: no free task slots'' @ [CHR 0x0A]) []
                                (spinlock_release task_table_lock f s);
                         Some (None, s) }
          | Some t \<Rightarrow>
              let s = s\<lparr>task_free_list := next_free (tsk s t)\<rparr>;
                  s = upd_task t (next_free_update (\<lambda>_. None)) s
              in Some (Some t, spinlock_release task_table_lock f s) }"

definition task_slot_free :: "nat \<Rightarrow> 'a kernel_state_scheme \<Rightarrow> 'a kernel_state_scheme option" where
  "task_slot_free t s =
     do { (f, s) \<leftarrow> spinlock_acquire task_table_lock s;
          let s = upd_task t (\<lambda>x. x\<lparr>state := TASK_UNUSED, block_reason := BLOCK_NONE, parent_id := - 1,
                    exit_code := 0, next_free := task_free_list s\<rparr>) s;
              s = s\<lparr>task_free_list := Some t\<rparr>
          in Some (spinlock_release task_table_lock f s) }"

definition task_kstack_alloc :: "nat \<Rightarrow> 'a kernel_state_scheme \<Rightarrow> (bool \<times> 'a kernel_state_scheme) option" where
  "task_kstack_alloc t s =
     do { (pp, s) \<leftarrow> page_alloc 1 s;
          case pp of
            None \<Rightarrow> Some (False, s)
          | Some pp \<Rightarrow>
              let base = phys_to_virt s (page2pa pp)
              in Some (True, upd_task t (\<lambda>x. x\<lparr>kstack := Some base, kstack_top := Some (base + 4096)\<rparr>) s) }"

definition task_create :: "'a kernel_state_scheme \<Rightarrow> (nat option \<times> 'a kernel_state_scheme) option" where
  "task_create s =
     do { (t, s) \<leftarrow> task_slot_alloc s;
          case t of None \<Rightarrow> Some (None, s) | Some t \<Rightarrow>
     do { (p, s) \<leftarrow> vmm_new_address_space s;
          case p of
            None \<Rightarrow> do { s \<leftarrow> kprintf (''task_create: failed to allocate address space'' @ [CHR 0x0A]) [] s;
                         s \<leftarrow> task_slot_free t s;
                         Some (None, s) }
          | Some p \<Rightarrow>
     do { (ok, s) \<leftarrow> task_kstack_alloc t s;
          if \<not> ok then do { s \<leftarrow> kprintf (''task_create: failed to allocate kernel stack'' @ [CHR 0x0A]) [] s;
                             s \<leftarrow> task_slot_free t s;
                             Some (None, s) }
          else
            let s = upd_task t (\<lambda>x. x\<lparr>pml4 := Some p, state := TASK_RUNNABLE, context_rsp := 0, parent_id := - 1, exit_code := 0\<rparr>) s
            in do { s \<leftarrow> kprintf (''task_create: task_id=%ld pml4=%lx kstack_top=%lx state=RUNNABLE'' @ [CHR 0x0A])
                           [W (task_id (tsk s t)), W p, W (the (kstack_top (tsk s t)))] s;
                    Some (Some t, s) } } } }"

text \<open>\<open>write_words a ws\<close> stores consecutive words upwards from \<open>a\<close>.\<close>

primrec write_words :: "u64 \<Rightarrow> u64 list \<Rightarrow> 'a machine_scheme \<Rightarrow> 'a machine_scheme" where
  "write_words a [] s = s"
| "write_words a (v # vs) s = write_words (a + 8) vs (hwrite64 a v s)"

text \<open>The frame a first switch into a task pops: six callee-saved registers, the fourth of them \<open>arg\<close>,
  and the address to return to. \<open>task_stack_init\<close>, \<open>task_fork\<close> and \<open>task_prepare_user_entry\<close> each build one.\<close>

definition push_switch_frame :: "u64 \<Rightarrow> u64 \<Rightarrow> u64 \<Rightarrow> 'a machine_scheme \<Rightarrow> u64 \<times> 'a machine_scheme" where
  "push_switch_frame sp ret arg s =
     (let sp = sp - 8;
          s = hwrite64 sp ret s;
          sp = sp - 48
      in (sp, write_words sp [0, 0, 0, arg, 0, 0] s))"

definition task_stack_init :: "nat \<Rightarrow> u64 \<Rightarrow> 'a kernel_state_scheme \<Rightarrow> 'a kernel_state_scheme option" where
  "task_stack_init t entry s =
     do { sp \<leftarrow> kstack_top (tsk s t);
          let (sp, s) = push_switch_frame sp (task_entry_trampoline s) entry s
          in Some (upd_task t (context_rsp_update (\<lambda>_. sp)) s) }"

definition task_create_kernel :: "u64 \<Rightarrow> 'a kernel_state_scheme \<Rightarrow> (nat option \<times> 'a kernel_state_scheme) option" where
  "task_create_kernel entry s =
     do { (t, s) \<leftarrow> task_slot_alloc s;
          case t of None \<Rightarrow> Some (None, s) | Some t \<Rightarrow>
     do { (ok, s) \<leftarrow> task_kstack_alloc t s;
          if \<not> ok then do { s \<leftarrow> kprintf (''task_create_kernel: failed to allocate kernel stack'' @ [CHR 0x0A]) [] s;
                             s \<leftarrow> task_slot_free t s;
                             Some (None, s) }
          else
            let p = get_current_pml4 s;
                s = upd_task t (\<lambda>x. x\<lparr>pml4 := Some p, state := TASK_RUNNABLE, parent_id := - 1, exit_code := 0\<rparr>) s
            in do { s \<leftarrow> task_stack_init t entry s;
                    s \<leftarrow> kprintf (''task_create_kernel: task_id=%ld kstack_top=%lx state=RUNNABLE'' @ [CHR 0x0A])
                           [W (task_id (tsk s t)), W (the (kstack_top (tsk s t)))] s;
                    Some (Some t, s) } } }"

definition task_destroy :: "nat option \<Rightarrow> 'a kernel_state_scheme \<Rightarrow> 'a kernel_state_scheme option" where
  "task_destroy t s =
     (case t of None \<Rightarrow> Some s | Some t \<Rightarrow>
        if state (tsk s t) = TASK_UNUSED
        then kprintf (''task_destroy: double free of task_id=%ld'' @ [CHR 0x0A]) [W (task_id (tsk s t))] s
        else do { s \<leftarrow> task_slot_free t (upd_task t (\<lambda>x. x\<lparr>pml4 := None, kstack := None, kstack_top := None, context_rsp := 0\<rparr>) s);
                  kprintf (''task_destroy: task_id=%ld slot freed'' @ [CHR 0x0A]) [W (task_id (tsk s t))] s })"

fun task_state_str :: "task_state \<Rightarrow> string" where
  "task_state_str TASK_UNUSED = ''UNUSED''"
| "task_state_str TASK_RUNNABLE = ''RUNNABLE''"
| "task_state_str TASK_RUNNING = ''RUNNING''"
| "task_state_str TASK_BLOCKED = ''BLOCKED''"
| "task_state_str TASK_DEAD = ''DEAD''"

definition ptr_val :: "u64 option \<Rightarrow> u64" where
  "ptr_val p = (case p of None \<Rightarrow> 0 | Some a \<Rightarrow> a)"

primrec task_dump_loop :: "nat list \<Rightarrow> 'a kernel_state_scheme \<Rightarrow> 'a kernel_state_scheme option" where
  "task_dump_loop [] s = Some s"
| "task_dump_loop (i # is) s =
     (let t = tsk s i in
      if state t = TASK_UNUSED then task_dump_loop is s
      else do { s \<leftarrow> kprintf (''  [%d] task_id=%ld state=%s pml4=%lx kstack_top=%lx'' @ [CHR 0x0A])
                      [W (of_nat i), W (task_id t), S (task_state_str (state t)), W (ptr_val (pml4 t)), W (ptr_val (kstack_top t))] s;
                task_dump_loop is s })"

definition task_dump :: "'a kernel_state_scheme \<Rightarrow> 'a kernel_state_scheme option" where
  "task_dump s = do { s \<leftarrow> kprintf (''task table (%d slots):'' @ [CHR 0x0A]) [W (of_nat MAX_TASKS)] s;
                      task_dump_loop [0..<MAX_TASKS] s }"

definition read_words :: "'a machine_scheme \<Rightarrow> u64 \<Rightarrow> nat \<Rightarrow> u64 list" where
  "read_words s a n = map (\<lambda>i. hread64 s (a + 8 * of_nat i)) [0..<n]"

definition task_fork :: "nat \<Rightarrow> u64 \<Rightarrow> 'a kernel_state_scheme \<Rightarrow> (nat option \<times> 'a kernel_state_scheme) option" where
  "task_fork parent parent_regs s =
     do { (child, s) \<leftarrow> task_slot_alloc s;
          case child of None \<Rightarrow> Some (None, s) | Some child \<Rightarrow>
     do { parent_pml4 \<leftarrow> pml4 (tsk s parent);
          (child_pml4, s) \<leftarrow> vmm_copy_address_space parent_pml4 s;
          case child_pml4 of None \<Rightarrow> do { s \<leftarrow> task_slot_free child s; Some (None, s) } | Some child_pml4 \<Rightarrow>
     do { (ok, s) \<leftarrow> task_kstack_alloc child s;
          if \<not> ok then do { s \<leftarrow> task_slot_free child s; Some (None, s) }
          else do {
            let s = upd_task child (\<lambda>x. x\<lparr>pml4 := Some child_pml4, parent_id := task_id (tsk s parent), exit_code := 0\<rparr>) s
            in do {
              kst \<leftarrow> kstack_top (tsk s child);
              let child_regs = kst - SIZEOF_REGS;
                  s = write_words child_regs (read_words s parent_regs 20) s;
                  s = hwrite64 child_regs 0 s;
                  (sp, s) = push_switch_frame child_regs (syscall_entry_return s) child_regs s;
                  s = upd_task child (\<lambda>x. x\<lparr>context_rsp := sp, state := TASK_RUNNABLE\<rparr>) s
              in do { s \<leftarrow> kprintf (''task_fork: parent_id=%ld child_id=%ld parent_rip=%lx parent_rsp=%lx'' @ [CHR 0x0A])
                             [W (task_id (tsk s parent)), W (task_id (tsk s child)),
                              W (hread64 s (parent_regs + 120)), W (hread64 s (parent_regs + 144))] s;
                      Some (Some child, s) } } } } } }"

definition task_find_by_id :: "u64 \<Rightarrow> 'a kernel_state_scheme \<Rightarrow> (nat option \<times> 'a kernel_state_scheme) option" where
  "task_find_by_id tid s =
     do { (f, s) \<leftarrow> spinlock_acquire task_table_lock s;
          let found = find (\<lambda>i. state (tsk s i) \<noteq> TASK_UNUSED \<and> task_id (tsk s i) = tid) [0..<task_table_size]
          in Some (found, spinlock_release task_table_lock f s) }"

definition task_wake :: "nat \<Rightarrow> 'a kernel_state_scheme \<Rightarrow> 'a kernel_state_scheme" where
  "task_wake t s = upd_task t (\<lambda>x. x\<lparr>state := TASK_RUNNABLE, block_reason := BLOCK_NONE\<rparr>) s"

definition USER_CS :: u64 where "USER_CS = 0x23"

definition USER_DS :: u64 where "USER_DS = 0x1B"

definition user_regs :: "u64 \<Rightarrow> u64 \<Rightarrow> u64 \<Rightarrow> 'a machine_scheme \<Rightarrow> 'a machine_scheme" where
  "user_regs regs entry user_stack_top s =
     (let s = fold (\<lambda>i s. hwrite8 (regs + of_nat i) 0 s) [0..<unat SIZEOF_REGS] s;
          s = hwrite64 (regs + 120) entry s;
          s = hwrite64 (regs + 128) USER_CS s;
          s = hwrite64 (regs + 136) 0x202 s;
          s = hwrite64 (regs + 144) user_stack_top s
      in hwrite64 (regs + 152) USER_DS s)"

definition task_prepare_user_entry :: "nat \<Rightarrow> u64 \<Rightarrow> u64 \<Rightarrow> 'a kernel_state_scheme \<Rightarrow> 'a kernel_state_scheme option" where
  "task_prepare_user_entry t entry user_stack_top s =
     do { kst \<leftarrow> kstack_top (tsk s t);
          let regs = kst - SIZEOF_REGS;
              s = user_regs regs entry user_stack_top s;
              (sp, s) = push_switch_frame regs (syscall_entry_return s) regs s
          in Some (upd_task t (\<lambda>x. x\<lparr>context_rsp := sp, state := TASK_RUNNABLE\<rparr>) s) }"

end
