(* ===== verification/Scheduler.thy ===== *)
theory Scheduler
  imports Task
begin

text \<open>\<open>scheduler.c\<close>, \<open>context_switch.S\<close> and \<open>timer.c\<close>: the round-robin choice of the next task, the switch of
stacks and registers, blocking, and the timer interrupt.\<close>

section \<open>Choosing the next task (scheduler.c)\<close>

definition index_of :: "nat \<Rightarrow> nat" where
  "index_of t = (case find (\<lambda>i. task_table_ptr i = Some t) [0..<task_table_size] of Some i \<Rightarrow> i | None \<Rightarrow> 0)"

definition scheduler_init :: "'a kernel_state_scheme \<Rightarrow> 'a kernel_state_scheme" where
  "scheduler_init s = s\<lparr>idle_task := None\<rparr>"

definition scheduler_set_idle_task :: "nat option \<Rightarrow> 'a kernel_state_scheme \<Rightarrow> 'a kernel_state_scheme" where
  "scheduler_set_idle_task t s = s\<lparr>idle_task := t\<rparr>"

definition scheduler_pick_next :: "nat option \<Rightarrow> 'a kernel_state_scheme \<Rightarrow> (nat option \<times> 'a kernel_state_scheme) option" where
  "scheduler_pick_next current s =
     (let n = task_table_size in
      if n = 0 then Some (current, s)
      else do {
        (f, s) \<leftarrow> task_table_lock_acquire s;
        let start = (case current of Some t \<Rightarrow> index_of t | None \<Rightarrow> 0);
            found = find (\<lambda>idx. state (tsk s idx) = TASK_RUNNABLE) (map (\<lambda>offset. (start + offset) mod n) [1..<n + 1]);
            found = (case found of Some t \<Rightarrow> Some t
                     | None \<Rightarrow>
                         if current \<noteq> None \<and> state (tsk s (the current)) = TASK_RUNNABLE then current
                         else if idle_task s \<noteq> None then idle_task s
                         else current)
        in Some (found, task_table_lock_release f s) })"

section \<open>Switching (context\_switch.S, scheduler.c)\<close>

definition set_cpu :: "(cpu_regs \<Rightarrow> cpu_regs) \<Rightarrow> 'a kernel_state_scheme \<Rightarrow> 'a kernel_state_scheme" where
  "set_cpu f s = s\<lparr>cpu := f (cpu s)\<rparr>"

definition push :: "u64 \<Rightarrow> 'a kernel_state_scheme \<Rightarrow> 'a kernel_state_scheme" where
  "push v s = (let r = rsp (cpu s) - 8 in hwrite64 r v (set_cpu (rsp_update (\<lambda>_. r)) s))"

definition pop :: "'a kernel_state_scheme \<Rightarrow> u64 \<times> 'a kernel_state_scheme" where
  "pop s = (hread64 s (rsp (cpu s)), set_cpu (\<lambda>c. c\<lparr>rsp := rsp c + 8\<rparr>) s)"

definition context_switch :: "nat option \<Rightarrow> nat \<Rightarrow> 'a kernel_state_scheme \<Rightarrow> 'a kernel_state_scheme" where
  "context_switch old new s =
     (let s = (case old of
                 None \<Rightarrow> s
               | Some old \<Rightarrow>
                   let s = push (rbx (cpu s)) s;
                       s = push (rbp (cpu s)) s;
                       s = push (r12 (cpu s)) s;
                       s = push (r13 (cpu s)) s;
                       s = push (r14 (cpu s)) s;
                       s = push (r15 (cpu s)) s
                   in upd_task old (context_rsp_update (\<lambda>_. rsp (cpu s))) s);
          s = set_cpu (rsp_update (\<lambda>_. context_rsp (tsk s new))) s;
          (v, s) = pop s; s = set_cpu (r15_update (\<lambda>_. v)) s;
          (v, s) = pop s; s = set_cpu (r14_update (\<lambda>_. v)) s;
          (v, s) = pop s; s = set_cpu (r13_update (\<lambda>_. v)) s;
          (v, s) = pop s; s = set_cpu (r12_update (\<lambda>_. v)) s;
          (v, s) = pop s; s = set_cpu (rbp_update (\<lambda>_. v)) s;
          (v, s) = pop s; s = set_cpu (rbx_update (\<lambda>_. v)) s;
          (v, s) = pop s
      in set_cpu (rip_update (\<lambda>_. v)) s)"

definition scheduler_switch_to :: "nat option \<Rightarrow> nat \<Rightarrow> 'a kernel_state_scheme \<Rightarrow> 'a kernel_state_scheme" where
  "scheduler_switch_to old new s =
     (let s = (case pml4 (tsk s new) of None \<Rightarrow> s | Some p \<Rightarrow> vmm_switch_address_space p s);
          s = (case kstack_top (tsk s new) of None \<Rightarrow> s | Some k \<Rightarrow> tss_set_rsp0 k s)
      in context_switch old new s)"

text \<open>\<open>task_block_and_switch\<close> returns at once when nothing else can run (\<open>True\<close>); otherwise the processor
  leaves this task (\<open>False\<close>), and the call returns only when a later switch comes back to it.\<close>

definition task_block_and_switch :: "block_reason \<Rightarrow> u64 \<Rightarrow> u64 \<Rightarrow> u64 \<Rightarrow> 'a kernel_state_scheme \<Rightarrow>
    (bool \<times> 'a kernel_state_scheme) option" where
  "task_block_and_switch reason peer buf len s =
     do { self \<leftarrow> current_task s;
          (f, s) \<leftarrow> spinlock_acquire task_table_lock s;
          let s = upd_task self (\<lambda>x. x\<lparr>state := TASK_BLOCKED, block_reason := reason, ipc_peer := peer, ipc_buf := buf, ipc_len := len\<rparr>) s;
              s = spinlock_release task_table_lock f s
          in do {
            (nxt, s) \<leftarrow> scheduler_pick_next (Some self) s;
            nxt \<leftarrow> nxt;
            if nxt = self then Some (True, s)
            else do {
              (f, s) \<leftarrow> spinlock_acquire task_table_lock s;
              let s = s\<lparr>current_task := Some nxt\<rparr>;
                  s = upd_task nxt (state_update (\<lambda>_. TASK_RUNNING)) s;
                  s = spinlock_release task_table_lock f s
              in Some (False, scheduler_switch_to (Some self) nxt s) } } }"

section \<open>The timer interrupt (timer.c, idt.c)\<close>

definition TIME_SLICE_TICKS :: u64 where "TIME_SLICE_TICKS = 20"

definition timer_get_ticks :: "'a kernel_state_scheme \<Rightarrow> u64" where
  "timer_get_ticks s = g_ticks s"

definition timer_tick_handler :: "'a kernel_state_scheme \<Rightarrow> 'a kernel_state_scheme option" where
  "timer_tick_handler s =
     (let s = s\<lparr>g_ticks := g_ticks s + 1\<rparr>;
          s = pic_send_eoi 0 s
      in if g_ticks s mod TIME_SLICE_TICKS \<noteq> 0 then Some s
         else case current_task s of
           None \<Rightarrow> Some s
         | Some prev \<Rightarrow>
             do { (nxt, s) \<leftarrow> scheduler_pick_next (Some prev) s;
                  nxt \<leftarrow> nxt;
                  if nxt = prev then Some s
                  else do {
                    (f, s) \<leftarrow> task_table_lock_acquire s;
                    let s = (if state (tsk s prev) = TASK_RUNNING
                             then upd_task prev (state_update (\<lambda>_. TASK_RUNNABLE)) s else s);
                        s = upd_task nxt (state_update (\<lambda>_. TASK_RUNNING)) s;
                        s = s\<lparr>current_task := Some nxt\<rparr>;
                        s = task_table_lock_release f s
                    in Some (scheduler_switch_to (Some prev) nxt s) } })"

definition timer_isr :: "'a kernel_state_scheme \<Rightarrow> 'a kernel_state_scheme option" where
  "timer_isr s = timer_tick_handler (s\<lparr>seg_data := 0x10\<rparr>)"

end
