(* ===== verification/Uaccess.thy ===== *)
theory Uaccess
  imports Paging
begin

text \<open>\<open>uaccess.c\<close>: the check of user pointers, against what the processor would allow byte by byte
(\<open>uva_bytes_ok\<close>).\<close>

definition uva_check_page :: "u64 \<Rightarrow> bool \<Rightarrow> u64 \<Rightarrow> 'a frame_state_scheme \<Rightarrow> ('a frame_state_scheme, bool \<times> 'a frame_state_scheme) flow option" where
  "uva_check_page pml4 need_write va s =
     do { (pte, s) \<leftarrow> vmm_walk pml4 va False s;
          case pte of
            None \<Rightarrow> Some (Ret (False, s))
          | Some pte \<Rightarrow>
              if \<not> present (hread64 s pte) then Some (Ret (False, s))
              else if \<not> user_accessible (hread64 s pte) then Some (Ret (False, s))
              else if need_write \<and> \<not> writable (hread64 s pte) then Some (Ret (False, s))
              else Some (Next s) }"

definition uva_check_range :: "u64 \<Rightarrow> u64 \<Rightarrow> u64 \<Rightarrow> bool \<Rightarrow> 'a frame_state_scheme \<Rightarrow> (bool \<times> 'a frame_state_scheme) option" where
  "uva_check_range pml4 uva len need_write s =
     (if len = 0 then Some (True, s)
      else let end = uva + len in
        if end < uva then Some (False, s)
        else let last_byte = end - 1 in
          if \<not> is_canonical uva \<or> \<not> is_canonical last_byte then Some (False, s)
          else if unat (pml4_index uva) \<ge> KERNEL_PML4_START \<or> unat (pml4_index last_byte) \<ge> KERNEL_PML4_START
          then Some (False, s)
          else let page_start = rounddown uva 4096;
                   page_end_excl = rounddown last_byte 4096 + 4096
               in do { r \<leftarrow> for_pages (uva_check_page pml4 need_write) page_start page_end_excl s;
                       case r of Ret b \<Rightarrow> Some b | Next s \<Rightarrow> Some (True, s) })"

lemma uva_check_page_spec:
  assumes "space_ok I root s" "owned I va"
  shows "uva_check_page (phys_to_virt s root) need_write va s =
    Some (if grants True need_write (pte_of (mem s) root va) then Next s else Ret (False, s))"
proof -
  have walk: "vmm_walk (phys_to_virt s root) va False s =
      Some (map_option (\<lambda>t. entry_ptr (phys_to_virt s t) (pt_index va)) (tbl (mem s) root (dir_path va)), s)"
    by (rule vmm_walk_step [OF assms(1) assms(2) [unfolded owned_def], of False]) auto
  show ?thesis
    by (cases "tbl (mem s) root (dir_path va)")
       (auto simp: uva_check_page_def walk pte_of_def pte_at_def grants_def leaf_index_def)
qed

lemma foreach_check:
  assumes "\<And>x. x \<in> set xs \<Longrightarrow> f x s = Some (if P x then Next s else Ret r)"
  shows "foreach f xs s = Some (if \<forall>x \<in> set xs. P x then Next s else Ret r)"
  using assms by (induction xs) auto

lemma vpn_ball:
  assumes "vpn ` A = vpn ` B" "\<And>v w. vpn v = vpn w \<Longrightarrow> P v = P w"
  shows "(\<forall>p \<in> A. P p) \<longleftrightarrow> (\<forall>p \<in> B. P p)"
  using assms by (metis (no_types, lifting) imageE image_eqI)

lemma page_of_low:
  assumes "unat va < 2 ^ 47"
  shows "owned user_half va" "is_canonical va"
proof -
  show "is_canonical va" using assms by (rule low_canonical)
  have "unat va div 2 ^ 39 < 256" using assms by (simp add: less_mult_imp_div_less)
  then show "owned user_half va" by (simp add: owned_def user_half_def unat_index)
qed

definition uva_bytes_ok :: "u64 \<Rightarrow> u64 \<Rightarrow> u64 \<Rightarrow> bool \<Rightarrow> pmem \<Rightarrow> bool" where
  "uva_bytes_ok root uva len need_write m \<longleftrightarrow>
     (\<forall>i < unat len. unat uva + i < 2 ^ 47 \<and> mmu_access True need_write m root (uva + of_nat i) \<noteq> None)"

lemma last_byte:
  assumes "unat (uva + len) = unat uva + unat (len :: u64)" "0 < unat len"
  shows "unat (uva + len - 1) = unat uva + unat len - 1"
proof -
  have "uva + len \<noteq> 0" using assms by (metis add_gr_0 less_irrefl unat_0)
  then have "unat (uva + len - 1) = unat (uva + len) - 1" by (rule unat_minus_one)
  then show ?thesis using assms(1) by (simp only:)
qed

lemma low_range:
  assumes "len \<noteq> 0"
  shows "(\<forall>i < unat len. unat uva + i < 2 ^ 47) \<longleftrightarrow>
    \<not> uva + len < uva \<and> is_canonical uva \<and> is_canonical (uva + len - 1) \<and>
    unat (pml4_index uva) < 256 \<and> unat (pml4_index (uva + len - 1)) < 256"
    (is "?L \<longleftrightarrow> ?R")
proof
  have pos: "0 < unat len" using assms by (simp add: unat_gt_0)
  assume ?L
  moreover have "unat len - 1 < unat len" using pos by simp
  ultimately have top: "unat uva + (unat len - 1) < 2 ^ 47" by blast
  have s: "unat (uva + len) = unat uva + unat len"
    using top pos by (subst unat_add_lem [THEN iffD1]) auto
  have e: "\<not> uva + len < uva" using s pos by (simp add: word_less_nat_alt)
  have l: "unat (uva + len - 1) = unat uva + unat len - 1" using last_byte [OF s pos] .
  have "unat (uva + len - 1) < 2 ^ 47" "unat uva < 2 ^ 47" using l top pos by linarith+
  then show ?R using e page_of_low [of uva] page_of_low [of "uva + len - 1"]
    unfolding owned_def user_half_def lessThan_iff by blast
next
  have pos: "0 < unat len" using assms by (simp add: unat_gt_0)
  assume R: ?R
  then have "uva \<le> uva + len" by (simp only: not_less)
  then have s: "unat (uva + len) = unat uva + unat len" by (simp only: unat_plus_simple)
  have "unat (uva + len - 1) < 2 ^ 47" using R canonical_low by blast
  then show ?L using last_byte [OF s pos] by linarith
qed

lemma set_page_range:
  assumes "page_aligned va" "page_aligned vend"
  shows "set (page_range va vend) = {x. page_aligned x \<and> va \<le> x \<and> x < vend}"
proof -
  obtain u v where uv: "unat va = 4096 * u" "unat vend = 4096 * v"
    using assms by (auto elim!: page_alignedE)
  have v: "4096 * v < 2 ^ 64" using unat_lt_u64 [of vend] uv(2) by simp
  have el: "unat (va + 4096 * of_nat i) = 4096 * (u + i)" if "u + i < v" for i
  proof -
    have "unat (4096 * of_nat i :: u64) = 4096 * i"
      using that v by (simp add: unat_word_ariths unat_of_nat)
    then show ?thesis using that v uv(1) by (subst unat_add_lem [THEN iffD1]) auto
  qed
  have len: "(unat vend - unat va) div 4096 = v - u" using uv by (simp flip: diff_mult_distrib2)
  show ?thesis
  proof (intro set_eqI iffI)
    fix x assume "x \<in> set (page_range va vend)"
    then obtain i where "i < v - u" "x = va + 4096 * of_nat i" by (auto simp: page_range_def len)
    then have "unat x = 4096 * (u + i)" "u + i < v" using el [of i] by auto
    then show "x \<in> {x. page_aligned x \<and> va \<le> x \<and> x < vend}"
      using uv by (simp add: page_aligned_def word_le_nat_alt word_less_nat_alt)
  next
    fix x assume "x \<in> {x. page_aligned x \<and> va \<le> x \<and> x < vend}"
    then obtain k where k: "unat x = 4096 * k" "u \<le> k" "k < v"
      using uv by (auto simp: word_le_nat_alt word_less_nat_alt elim!: page_alignedE)
    then have "unat (va + 4096 * of_nat (k - u)) = unat x" using el [of "k - u"] by simp
    then have "x = va + 4096 * of_nat (k - u)" by (simp only: word_unat_eq_iff)
    moreover have "k - u \<in> set [0..<v - u]" using k by simp
    ultimately show "x \<in> set (page_range va vend)"
      unfolding page_range_def len set_map by (rule image_eqI)
  qed
qed

lemma pages_of_range:
  assumes low: "\<forall>i < unat len. unat uva + i < 2 ^ 47" and pos: "0 < unat len"
  defines "ps \<equiv> set (page_range (rounddown uva 4096) (rounddown (uva + len - 1) 4096 + 4096))"
  shows "vpn ` ps = vpn ` {uva + of_nat i | i. i < unat len}"
    and "\<And>p. p \<in> ps \<Longrightarrow> unat p < 2 ^ 47"
    and "page_aligned (rounddown (uva + len - 1) 4096 + 4096)"
proof -
  let ?last = "uva + len - 1" and ?rd = "\<lambda>x :: u64. rounddown x 4096"
  have top: "unat uva + (unat len - 1) < 2 ^ 47" using low pos by (meson diff_less zero_less_one)
  have s: "unat (uva + len) = unat uva + unat len"
    using top pos by (subst unat_add_lem [THEN iffD1]) auto
  have last: "unat ?last = unat uva + unat len - 1" using last_byte [OF s pos] .
  have rd: "unat (?rd x) \<le> unat x" "unat x < unat (?rd x) + 4096" for x
    using unat_rounddown_page [of x] div_mult_mod_eq [of "unat x" 4096] mod_less_divisor [of 4096 "unat x"] by linarith+
  have el: "unat (?rd ?last + 4096) = unat (?rd ?last) + 4096"
    using last top pos rd(1) [of ?last] by (subst unat_add_lem [THEN iffD1]) auto
  show al: "page_aligned (?rd ?last + 4096)"
    using page_aligned_rounddown [of ?last] unfolding page_aligned_def el by simp
  have set: "ps = {p. page_aligned p \<and> ?rd uva \<le> p \<and> p < ?rd ?last + 4096}"
    unfolding ps_def by (rule set_page_range [OF page_aligned_rounddown al])
  have byte: "unat (uva + of_nat i) = unat uva + i" if "i < unat len" for i
    using low that unat_lt_u64 [of len]
    by (subst unat_add_lem [THEN iffD1]) (auto simp: unat_of_nat)
  have mem: "unat p \<le> unat (?rd ?last)" "unat (?rd uva) \<le> unat p" if "p \<in> ps" for p
  proof -
    obtain b where "unat (?rd ?last) = 4096 * b" using page_aligned_rounddown by (rule page_alignedE)
    moreover have "page_aligned p" using that unfolding set by simp
    then obtain a where "unat p = 4096 * a" by (rule page_alignedE)
    ultimately show "unat p \<le> unat (?rd ?last)" using that el unfolding set by (auto simp: word_less_nat_alt)
    show "unat (?rd uva) \<le> unat p" using that unfolding set by (auto simp: word_le_nat_alt)
  qed
  then show "\<And>p. p \<in> ps \<Longrightarrow> unat p < 2 ^ 47" using rd(1) [of ?last] last top pos by fastforce
  show "vpn ` ps = vpn ` {uva + of_nat i | i. i < unat len}"
  proof (intro set_eqI iffI)
    fix v assume "v \<in> vpn ` ps"
    then obtain p where p: "v = vpn p" "p \<in> ps" by auto
    show "v \<in> vpn ` {uva + of_nat i | i. i < unat len}"
    proof (cases "unat p \<le> unat uva")
      case True
      have "rounddown uva 4096 = p"
      proof -
        obtain b where "unat (?rd uva) = 4096 * b" using page_aligned_rounddown by (rule page_alignedE)
        moreover have "page_aligned p" using p(2) unfolding set by simp
        then obtain a where "unat p = 4096 * a" by (rule page_alignedE)
        ultimately have "unat (?rd uva) = unat p" using mem(2) [OF p(2)] rd(2) [of uva] True by simp
        then show ?thesis by (simp only: word_unat_eq_iff)
      qed
      then have "v = vpn (uva + of_nat 0)" using p(1) vpn_rounddown [of uva] by simp
      then show ?thesis using pos by blast
    next
      case False
      let ?i = "unat p - unat uva"
      have i: "?i < unat len" using mem(1) [OF p(2)] rd(1) [of ?last] last pos False by linarith
      then have "unat (uva + of_nat ?i) = unat p" using byte [OF i] False by simp
      then have "p = uva + of_nat ?i" by (simp only: word_unat_eq_iff)
      then have "p \<in> {uva + of_nat i | i. i < unat len}" using i by blast
      then show ?thesis unfolding p(1) by (rule imageI)
    qed
  next
    fix v assume "v \<in> vpn ` {uva + of_nat i | i. i < unat len}"
    then obtain i where i: "v = vpn (uva + of_nat i)" "i < unat len" by auto
    let ?p = "?rd (uva + of_nat i)"
    have b: "unat uva \<le> unat (uva + of_nat i)" "unat (uva + of_nat i) \<le> unat ?last"
      using byte [OF i(2)] last i(2) by linarith+
    then have "unat (?rd uva) \<le> unat ?p" "unat ?p \<le> unat (?rd ?last)"
      unfolding unat_rounddown_page by (simp_all add: div_le_mono)
    then have "?p \<in> ps" unfolding set by (simp add: word_le_nat_alt word_less_nat_alt el)
    then show "v \<in> vpn ` ps" using i(1) vpn_rounddown [of "uva + of_nat i"] by (metis image_eqI)
  qed
qed

lemma check_range_spec:
  assumes "space_ok user_half root s"
  shows "uva_check_range (phys_to_virt s root) uva len need_write s =
    Some (uva_bytes_ok root uva len need_write (mem s), s)"
proof (cases "\<forall>i < unat len. unat uva + i < 2 ^ 47")
  case False
  then have len: "len \<noteq> 0" by auto
  then have "\<not> (\<not> uva + len < uva \<and> is_canonical uva \<and> is_canonical (uva + len - 1) \<and>
      unat (pml4_index uva) < 256 \<and> unat (pml4_index (uva + len - 1)) < 256)"
    using False low_range [OF len, of uva] by blast
  then have "uva_check_range (phys_to_virt s root) uva len need_write s = Some (False, s)"
    using len by (auto simp: uva_check_range_def Let_def KERNEL_PML4_START_def not_le)
  moreover have "\<not> uva_bytes_ok root uva len need_write (mem s)"
    using False by (auto simp: uva_bytes_ok_def)
  ultimately show ?thesis by simp
next
  case low: True
  show ?thesis
  proof (cases "len = 0")
    case True
    then show ?thesis by (simp add: uva_check_range_def uva_bytes_ok_def)
  next
    case False
    let ?ps = "page_range (rounddown uva 4096) (rounddown (uva + len - 1) 4096 + 4096)"
    let ?P = "\<lambda>va. grants True need_write (pte_of (mem s) root va)"
    have pos: "0 < unat len" using False by (simp add: unat_gt_0)
    note R = pages_of_range [OF low pos]
    have "uva_check_page (phys_to_virt s root) need_write p s = Some (if ?P p then Next s else Ret (False, s))"
      if "p \<in> set ?ps" for p
      using uva_check_page_spec [OF assms page_of_low(1) [OF R(2) [OF that]]] .
    then have "for_pages (uva_check_page (phys_to_virt s root) need_write) (rounddown uva 4096)
        (rounddown (uva + len - 1) 4096 + 4096) s = Some (if \<forall>p \<in> set ?ps. ?P p then Next s else Ret (False, s))"
      unfolding for_pages_foreach [OF page_aligned_rounddown R(3)] by (rule foreach_check)
    then have run: "uva_check_range (phys_to_virt s root) uva len need_write s = Some (\<forall>p \<in> set ?ps. ?P p, s)"
      using low_range [OF False, of uva] low False
      unfolding uva_check_range_def Let_def KERNEL_PML4_START_def by (simp add: not_le)
    have "(\<forall>p \<in> set ?ps. ?P p) \<longleftrightarrow> (\<forall>p \<in> {uva + of_nat i | i. i < unat len}. ?P p)"
    proof (rule vpn_ball [OF R(1)])
      fix v w :: u64 assume "vpn v = vpn w"
      then have "pte_of (mem s) root v = pte_of (mem s) root w" by (rule vpn_pte_of)
      then show "?P v = ?P w" by (simp only:)
    qed
    also have "\<dots> \<longleftrightarrow> uva_bytes_ok root uva len need_write (mem s)"
    proof -
      have "?P (uva + of_nat i) \<longleftrightarrow> mmu_access True need_write (mem s) root (uva + of_nat i) \<noteq> None"
        if "i < unat len" for i
      proof -
        have "unat (uva + of_nat i) = unat uva + i"
          using low that unat_lt_u64 [of len] by (subst unat_add_lem [THEN iffD1]) (auto simp: unat_of_nat)
        then have "unat (uva + of_nat i) < 2 ^ 47" using low that by (simp only:)
        note lw = page_of_low [OF this]
        show ?thesis
          unfolding mmu_access_pte_of [OF assms lw] Let_def by simp
      qed
      then show ?thesis using low by (auto simp: uva_bytes_ok_def)
    qed
    finally show ?thesis using run by simp
  qed
qed

section \<open>Properties\<close>

text \<open>Claim C9. \<open>uva_check_range\<close> always returns, changes nothing, and accepts a user range exactly when every
  byte of it lies in the lower half and the processor would grant ring 3 the access (a store when
  \<open>need_write\<close>) at that byte: no accepted pointer can reach kernel memory or fault, and no valid pointer is
  refused, whatever the length, the alignment or an overflow of \<open>uva + len\<close>.\<close>

theorem uva_check_range_exact:
  assumes "space_ok user_half root s"
  shows "uva_check_range (phys_to_virt s root) uva len need_write s =
    Some (uva_bytes_ok root uva len need_write (mem s), s)"
  by (rule check_range_spec [OF assms])

theorem uva_check_range_exact_witness:
  "uva_check_range (phys_to_virt demo_frames 0) 0x400000 16 False demo_frames = Some (False, demo_frames)"
proof -
  have "mmu_access True False (mem demo_frames) 0 (0x400000 + of_nat 0) = None"
    using mmu_access_pte_of [OF demo_space(1) demo_owned demo_canonical, of True False] demo_space(3) [OF demo_owned, of "0x400000"]
    by (simp add: grants_def)
  moreover have "0 < unat (16 :: u64)" by simp
  ultimately have "\<not> uva_bytes_ok 0 0x400000 16 False (mem demo_frames)"
    unfolding uva_bytes_ok_def by blast
  then show ?thesis using uva_check_range_exact [OF demo_space(1), of "0x400000" 16 False] by simp
qed

end
