(* ===== verification/Quiet.thy ===== *)
theory Quiet
  imports CopySpace Uaccess
begin

text \<open>The footprint of the memory operations: \<open>quiet s s'\<close> says that only memory, the frame allocator and the port log
may differ, so that everything the task table depends on is unchanged.\<close>

section \<open>Operations on memory leave the rest of the kernel alone\<close>

definition quiet :: "'a frame_state_scheme \<Rightarrow> 'a frame_state_scheme \<Rightarrow> bool" where
  "quiet s s' \<longleftrightarrow>
     s'\<lparr>mem := mem s, pages := pages s, page_free_list := page_free_list s, io_out := io_out s, io_reads := io_reads s\<rparr> = s"

lemma quiet_refl [simp, intro!]: "quiet s s"
  by (simp add: quiet_def)

lemma quiet_iff:
  "quiet s s' \<longleftrightarrow> (\<exists>m ps h out r. s' = s\<lparr>mem := m, pages := ps, page_free_list := h, io_out := out, io_reads := r\<rparr>)"
proof
  assume q: "quiet s s'"
  have "s' = s'\<lparr>mem := mem s, pages := pages s, page_free_list := page_free_list s, io_out := io_out s, io_reads := io_reads s\<rparr>
      \<lparr>mem := mem s', pages := pages s', page_free_list := page_free_list s', io_out := io_out s', io_reads := io_reads s'\<rparr>"
    by simp
  then show "\<exists>m ps h out r. s' = s\<lparr>mem := m, pages := ps, page_free_list := h, io_out := out, io_reads := r\<rparr>"
    using q unfolding quiet_def by metis
qed (auto simp: quiet_def)

lemma quiet_trans [trans]: "quiet s t \<Longrightarrow> quiet t u \<Longrightarrow> quiet s u"
  unfolding quiet_iff by (elim exE) (simp, blast)

lemma quiet_mem [simp]: "quiet s (s\<lparr>mem := m\<rparr>)"
  by (simp add: quiet_def)

lemma quiet_hwrite [simp]: "quiet s (hwrite64 a v s)" "quiet s (hwrite8 a b s)"
  by (simp_all add: hwrite64_def hwrite8_def)

lemma quiet_say [simp]: "quiet s (say t s)"
  by (simp add: quiet_def say_def)

lemma quiet_step [simp]:
  "quiet s t \<Longrightarrow> quiet s (hwrite64 a v t)" "quiet s t \<Longrightarrow> quiet s (hwrite8 a b t)" "quiet s t \<Longrightarrow> quiet s (say x t)"
  using quiet_trans quiet_hwrite quiet_say by blast+

lemma page_alloc_quiet: "page_alloc fl s = Some (r, s') \<Longrightarrow> quiet s s'"
  by (cases "locks s page_alloc_lock = 0")
    (auto simp: page_alloc_def quiet_def Let_def zero_bytes_mem split: option.splits if_splits)

lemma walk_level_quiet: "walk_level t i c s = Some (r, s') \<Longrightarrow> quiet s s'"
  by (auto simp: walk_level_def Let_def split: option.splits if_splits bind_splits
      dest!: page_alloc_quiet)

lemma vmm_walk_quiet: "vmm_walk p va c s = Some (r, s') \<Longrightarrow> quiet s s'"
  by (auto simp: vmm_walk_def split: option.splits bind_splits dest!: walk_level_quiet) (blast intro: quiet_trans)+

lemma vmm_map_quiet: "vmm_map p va pa fl s = Some s' \<Longrightarrow> quiet s s'"
  by (auto simp: vmm_map_def split: option.splits bind_splits dest!: vmm_walk_quiet)

lemma copy_entries_quiet [simp]: "quiet s t \<Longrightarrow> quiet s (copy_entries d p is t)"
  by (induction "is" arbitrary: t) auto

lemma vmm_new_address_space_quiet: "vmm_new_address_space s = Some (r, s') \<Longrightarrow> quiet s s'"
  by (auto simp: vmm_new_address_space_def Let_def split: option.splits bind_splits
      dest!: page_alloc_quiet)

lemma vwrite8_quiet: "vwrite8 a b s = Some s' \<Longrightarrow> quiet s s'"
  by (auto simp: vwrite8_def)

lemma copy_up_quiet: "copy_up n d p s = Some s' \<Longrightarrow> quiet s s'"
  by (induction n arbitrary: d p s) (auto split: bind_splits dest!: vwrite8_quiet, meson quiet_trans)

lemma memcpy_quiet: "memcpy d p n s = Some (r, s') \<Longrightarrow> quiet s s'"
  by (auto simp: memcpy_def split: bind_splits dest!: copy_up_quiet)

definition flow_quiet :: "('x \<Rightarrow> 'a frame_state_scheme \<Rightarrow> ('a frame_state_scheme, 'r \<times> 'a frame_state_scheme) flow option) \<Rightarrow> bool" where
  "flow_quiet f \<longleftrightarrow> (\<forall>x s. (\<forall>s'. f x s = Some (Next s') \<longrightarrow> quiet s s') \<and> (\<forall>r s'. f x s = Some (Ret (r, s')) \<longrightarrow> quiet s s'))"

lemma flow_quietD:
  assumes "flow_quiet f"
  shows "f x s = Some (Next s') \<Longrightarrow> quiet s s'" "f x s = Some (Ret (r, s')) \<Longrightarrow> quiet s s'"
  using assms by (auto simp: flow_quiet_def)

lemma foreach_quiet:
  assumes "flow_quiet f"
  shows "foreach f xs s = Some (Next s') \<Longrightarrow> quiet s s'" "foreach f xs s = Some (Ret (r, s')) \<Longrightarrow> quiet s s'"
  by (induction xs arbitrary: s) (auto split: option.splits flow.splits dest!: flow_quietD [OF assms] dest: quiet_trans)

lemma copy_page_quiet: "flow_quiet (copy_page c i4 i3 i2 pt)"
  by (auto simp: flow_quiet_def copy_page_def Let_def split: option.splits if_splits bind_splits
      dest!: page_alloc_quiet memcpy_quiet vmm_map_quiet dest: quiet_trans)

lemma copy_pd_quiet: "flow_quiet (copy_pd c i4 i3 pd)"
  using foreach_quiet [OF copy_page_quiet] by (auto simp: flow_quiet_def copy_pd_def Let_def split: if_splits)

lemma copy_pdpt_quiet: "flow_quiet (copy_pdpt c i4 pd)"
  using foreach_quiet [OF copy_pd_quiet] by (auto simp: flow_quiet_def copy_pdpt_def Let_def split: if_splits)

lemma copy_pml4_quiet: "flow_quiet (copy_pml4 c p)"
  using foreach_quiet [OF copy_pdpt_quiet] by (auto simp: flow_quiet_def copy_pml4_def Let_def split: if_splits)

lemma vmm_copy_address_space_quiet: "vmm_copy_address_space p s = Some (r, s') \<Longrightarrow> quiet s s'"
  by (auto simp: vmm_copy_address_space_def Let_def split: option.splits bind_splits flow.splits
      dest!: page_alloc_quiet foreach_quiet [OF copy_pml4_quiet]) (meson quiet_trans copy_entries_quiet quiet_refl)+

lemma vmm_walk_lookup_pure: "vmm_walk p va False s = Some (r, s') \<Longrightarrow> s' = s"
  by (auto simp: vmm_walk_def walk_level_def split: option.splits if_splits bind_splits)

lemma uva_check_page_pure:
  "uva_check_page p w va s = Some (Next s') \<Longrightarrow> s' = s" "uva_check_page p w va s = Some (Ret (b, s')) \<Longrightarrow> s' = s"
  by (auto simp: uva_check_page_def split: option.splits if_splits bind_splits dest!: vmm_walk_lookup_pure)

lemma foreach_pure:
  assumes "\<And>x s s'. f x s = Some (Next s') \<Longrightarrow> s' = s" "\<And>x s r s'. f x s = Some (Ret (r, s')) \<Longrightarrow> s' = s"
  shows "foreach f xs s = Some (Next s') \<Longrightarrow> s' = s" "foreach f xs s = Some (Ret (r, s')) \<Longrightarrow> s' = s"
  by (induction xs arbitrary: s) (auto split: option.splits flow.splits dest!: assms)

lemma page_aligned_next: "page_aligned t \<Longrightarrow> page_aligned (t + 4096)"
  by (simp add: page_aligned_def unat_word_ariths dvd_mod)

lemma uva_check_pages_pure:
  "foreach (uva_check_page p w) vs s = Some (Next s') \<Longrightarrow> s' = s"
  "foreach (uva_check_page p w) vs s = Some (Ret (b, s')) \<Longrightarrow> s' = s"
  by (erule foreach_pure [rotated 2], erule uva_check_page_pure, erule uva_check_page_pure)+

lemma uva_check_range_pure: "uva_check_range p uva n w s = Some (b, s') \<Longrightarrow> s' = s"
  by (auto simp: uva_check_range_def Let_def for_pages_foreach page_aligned_next split: if_splits bind_splits flow.splits
      dest!: uva_check_pages_pure)

lemma quiet_fields:
  assumes "quiet s s'"
  shows "locks s' = locks s" "rflags s' = rflags s" "cr3 s' = cr3 s" "g_hhdm_offset s' = g_hhdm_offset s"
    "io_in s' = io_in s" "kprintf_lock_ready s' = kprintf_lock_ready s" "frame_state.more s' = frame_state.more s"
    "console_ok s' = console_ok s"
  using assms by (auto simp: quiet_iff console_ok_def uart_live_def)

end
