(* ===== verification/TaskInv.thy ===== *)
theory TaskInv
  imports Scheduler Quiet
begin

text \<open>The invariant of the task table (\<open>tasks_ok\<close>): the free list holds exactly the unused slots apart from slot 0 and
the slots being set up, identities are slot numbers, only the current task is marked running, and the table
lock is free. Every operation of \<open>task.c\<close>, \<open>scheduler.c\<close> and \<open>timer.c\<close> keeps it.\<close>

section \<open>The invariant of the task table\<close>

primrec tlist :: "task list \<Rightarrow> nat option \<Rightarrow> nat list \<Rightarrow> bool" where
  "tlist ts h [] \<longleftrightarrow> h = None"
| "tlist ts h (i # is) \<longleftrightarrow> h = Some i \<and> tlist ts (next_free (ts ! i)) is"

definition table_inv :: "nat set \<Rightarrow> nat list \<Rightarrow> 'a kernel_state_scheme \<Rightarrow> bool" where
  "table_inv T xs s \<longleftrightarrow>
     length (task_table s) = MAX_TASKS \<and> locks s task_table_lock = 0 \<and>
     (\<forall>i < MAX_TASKS. task_id (tsk s i) = of_nat i) \<and>
     tlist (task_table s) (task_free_list s) xs \<and> distinct xs \<and> set xs \<subseteq> {1..<MAX_TASKS} \<and>
     T \<subseteq> {1..<MAX_TASKS} - set xs \<and>
     (\<forall>i < MAX_TASKS. state (tsk s i) = TASK_UNUSED \<longleftrightarrow> i = 0 \<or> i \<in> set xs \<or> i \<in> T)"

definition run_inv :: "'a kernel_state_scheme \<Rightarrow> bool" where
  "run_inv s \<longleftrightarrow>
     (\<forall>i < MAX_TASKS. state (tsk s i) = TASK_RUNNING \<longrightarrow> current_task s = Some i) \<and>
     (\<forall>i. current_task s = Some i \<longrightarrow> i < MAX_TASKS \<and> state (tsk s i) \<noteq> TASK_UNUSED) \<and>
     (\<forall>i. idle_task s = Some i \<longrightarrow> i < MAX_TASKS \<and> state (tsk s i) \<noteq> TASK_UNUSED \<and> parent_id (tsk s i) = - 1)"

lemma table_invD:
  assumes "table_inv T xs s"
  shows "length (task_table s) = MAX_TASKS" "locks s task_table_lock = 0"
    "tlist (task_table s) (task_free_list s) xs" "distinct xs" "set xs \<subseteq> {1..<MAX_TASKS}"
    "T \<subseteq> {1..<MAX_TASKS} - set xs" "\<And>i. i < MAX_TASKS \<Longrightarrow> task_id (tsk s i) = of_nat i"
    "\<And>i. i < MAX_TASKS \<Longrightarrow> state (tsk s i) = TASK_UNUSED \<longleftrightarrow> i = 0 \<or> i \<in> set xs \<or> i \<in> T"
  using assms unfolding table_inv_def by blast+

lemma nth_upd: "(xs[i := x]) ! j = (if i < length xs \<and> j = i then x else xs ! j)"
  by (cases "i < length xs") (auto simp: nth_list_update list_update_beyond)

lemma tlist_upd [simp]: "i \<notin> set xs \<Longrightarrow> tlist (ts[i := t]) h xs = tlist ts h xs"
  by (induction xs arbitrary: h) auto

lemma tlist_upd_same: "next_free t = next_free (ts ! i) \<Longrightarrow> tlist (ts[i := t]) h xs = tlist ts h xs"
  by (induction xs arbitrary: h) (auto simp: nth_upd)

text \<open>Everything the task table depends on.\<close>

definition same_tasks :: "'a kernel_state_scheme \<Rightarrow> 'a kernel_state_scheme \<Rightarrow> bool" where
  "same_tasks s s' \<longleftrightarrow> task_table s' = task_table s \<and> task_free_list s' = task_free_list s \<and>
     current_task s' = current_task s \<and> idle_task s' = idle_task s \<and> locks s' = locks s \<and>
     console_ok s' = console_ok s"

lemma same_tasks_refl [simp]: "same_tasks s s"
  by (simp add: same_tasks_def)

lemma same_tasks_trans [trans]: "same_tasks s t \<Longrightarrow> same_tasks t u \<Longrightarrow> same_tasks s u"
  by (simp add: same_tasks_def)

lemma same_tasks_inv:
  assumes "same_tasks s s'"
  shows "table_inv T xs s' = table_inv T xs s" "run_inv s' = run_inv s" "console_ok s' = console_ok s"
  using assms by (simp_all add: same_tasks_def table_inv_def run_inv_def)

lemma quiet_same_tasks: "quiet s s' \<Longrightarrow> same_tasks s s'"
  using quiet_fields(8) [of s s'] by (auto simp: same_tasks_def quiet_iff)

lemma kprintf_quiet: "console_ok s \<Longrightarrow> kprintf fmt args s = Some s' \<Longrightarrow> quiet s s'"
  by (auto simp: kprintf_console)

lemma console_upd [simp]:
  "console_ok (s\<lparr>task_table := ts\<rparr>) = console_ok s" "console_ok (s\<lparr>task_free_list := h\<rparr>) = console_ok s"
  "console_ok (s\<lparr>current_task := c\<rparr>) = console_ok s" "console_ok (s\<lparr>g_ticks := n\<rparr>) = console_ok s"
  "console_ok (s\<lparr>cpu := r\<rparr>) = console_ok s" "console_ok (s\<lparr>idle_task := c\<rparr>) = console_ok s"
  by (simp_all add: console_ok_def uart_live_def)

lemma console_upd_task [simp]: "console_ok (upd_task i f s) = console_ok s"
  by (simp add: upd_task_def)

lemma task_table_upd [simp]: "length (task_table (upd_task i f s)) = length (task_table s)"
  by (simp add: upd_task_def)

lemma upd_task_fields [simp]:
  "task_free_list (upd_task i f s) = task_free_list s" "current_task (upd_task i f s) = current_task s"
  "idle_task (upd_task i f s) = idle_task s" "locks (upd_task i f s) = locks s"
  "i < length (task_table s) \<Longrightarrow> tsk (upd_task i f s) j = (if j = i then f (tsk s i) else tsk s j)"
  by (simp_all add: upd_task_def nth_upd)

text \<open>A change of one entry that keeps its identity and its link, and keeps a used slot used.\<close>

definition link_safe :: "(task \<Rightarrow> task) \<Rightarrow> bool" where
  "link_safe f \<longleftrightarrow> (\<forall>x. task_id (f x) = task_id x \<and> next_free (f x) = next_free x)"

lemma table_inv_upd:
  assumes "table_inv T xs s" "link_safe f" "i < MAX_TASKS" "T' \<subseteq> T" "T - T' \<subseteq> {i}"
    "state (f (tsk s i)) = TASK_UNUSED \<longleftrightarrow> i = 0 \<or> i \<in> set xs \<or> i \<in> T'"
  shows "table_inv T' xs (upd_task i f s)"
proof -
  note I = table_invD [OF assms(1)]
  have "tlist (task_table (upd_task i f s)) (task_free_list s) xs"
    using I(3) tlist_upd_same [of "f (tsk s i)" "task_table s" i] assms(2) by (simp add: upd_task_def link_safe_def)
  moreover have "task_id (tsk (upd_task i f s) j) = of_nat j" if "j < MAX_TASKS" for j
    using I(1) I(7) [OF that] assms(2,3) by (auto simp: link_safe_def)
  moreover have "state (tsk (upd_task i f s) j) = TASK_UNUSED \<longleftrightarrow> j = 0 \<or> j \<in> set xs \<or> j \<in> T'" if "j < MAX_TASKS" for j
  proof (cases "j = i")
    case True
    then show ?thesis using I(1) assms(3,6) by simp
  next
    case False
    then have "j \<in> T \<longleftrightarrow> j \<in> T'" using assms(4,5) by blast
    then show ?thesis using False I(1) I(8) [OF that] assms(3) by simp
  qed
  moreover have "T' \<subseteq> {1..<MAX_TASKS} - set xs" using I(6) assms(4) by blast
  ultimately show ?thesis
    unfolding table_inv_def using I(1,2,4,5) by simp
qed

lemma run_invD:
  assumes "run_inv s"
  shows "\<And>j. j < MAX_TASKS \<Longrightarrow> state (tsk s j) = TASK_RUNNING \<Longrightarrow> current_task s = Some j"
    "\<And>j. current_task s = Some j \<Longrightarrow> j < MAX_TASKS \<and> state (tsk s j) \<noteq> TASK_UNUSED"
    "\<And>j. idle_task s = Some j \<Longrightarrow> j < MAX_TASKS \<and> state (tsk s j) \<noteq> TASK_UNUSED \<and> parent_id (tsk s j) = - 1"
  using assms unfolding run_inv_def by blast+

lemma run_invI:
  assumes "\<And>j. j < MAX_TASKS \<Longrightarrow> state (tsk s j) = TASK_RUNNING \<Longrightarrow> current_task s = Some j"
    "\<And>j. current_task s = Some j \<Longrightarrow> j < MAX_TASKS \<and> state (tsk s j) \<noteq> TASK_UNUSED"
    "\<And>j. idle_task s = Some j \<Longrightarrow> j < MAX_TASKS \<and> state (tsk s j) \<noteq> TASK_UNUSED \<and> parent_id (tsk s j) = - 1"
  shows "run_inv s"
  using assms unfolding run_inv_def by blast

lemma run_inv_change:
  assumes run: "run_inv s" and ct: "current_task s' = current_task s" "idle_task s' = idle_task s"
    and other: "\<And>j. j \<noteq> i \<Longrightarrow> tsk s' j = tsk s j"
    and here: "state (tsk s' i) = TASK_RUNNING \<Longrightarrow> current_task s = Some i"
      "current_task s = Some i \<or> idle_task s = Some i \<Longrightarrow> state (tsk s' i) \<noteq> TASK_UNUSED"
      "idle_task s = Some i \<Longrightarrow> parent_id (tsk s' i) = - 1"
  shows "run_inv s'"
proof (rule run_invI)
  note R = run_invD [OF run]
  fix j
  show "current_task s' = Some j" if "j < MAX_TASKS" "state (tsk s' j) = TASK_RUNNING"
    using that R(1) [of j] here(1) other [of j] ct by (cases "j = i") simp_all
  show "j < MAX_TASKS \<and> state (tsk s' j) \<noteq> TASK_UNUSED" if "current_task s' = Some j"
    using that R(2) [of j] here(2) other [of j] ct by (cases "j = i") simp_all
  show "j < MAX_TASKS \<and> state (tsk s' j) \<noteq> TASK_UNUSED \<and> parent_id (tsk s' j) = - 1" if "idle_task s' = Some j"
    using that R(3) [of j] here(2,3) other [of j] ct by (cases "j = i") simp_all
qed

lemma run_inv_upd:
  assumes "run_inv s" "i < length (task_table s)"
    "state (f (tsk s i)) = TASK_RUNNING \<Longrightarrow> current_task s = Some i"
    "current_task s = Some i \<or> idle_task s = Some i \<Longrightarrow> state (f (tsk s i)) \<noteq> TASK_UNUSED"
    "idle_task s = Some i \<Longrightarrow> parent_id (f (tsk s i)) = - 1"
  shows "run_inv (upd_task i f s)"
  by (rule run_inv_change [OF assms(1), of _ i]) (use assms(2-) in simp_all)

definition tasks_ok :: "nat set \<Rightarrow> 'a kernel_state_scheme \<Rightarrow> bool" where
  "tasks_ok T s \<longleftrightarrow> (\<exists>xs. table_inv T xs s) \<and> run_inv s \<and> console_ok s"

lemma tasks_ok_same: "same_tasks s s' \<Longrightarrow> tasks_ok T s \<Longrightarrow> tasks_ok T s'"
  by (simp add: tasks_ok_def same_tasks_inv)

lemma tasks_ok_quiet: "quiet s s' \<Longrightarrow> tasks_ok T s \<Longrightarrow> tasks_ok T s'"
  by (blast intro: tasks_ok_same quiet_same_tasks)

lemma tasks_okD:
  assumes "tasks_ok T s"
  shows "length (task_table s) = MAX_TASKS" "locks s task_table_lock = 0" "run_inv s" "console_ok s"
    "\<And>i. i \<in> T \<Longrightarrow> i \<in> {1..<MAX_TASKS} \<and> state (tsk s i) = TASK_UNUSED"
    "\<And>i. i < MAX_TASKS \<Longrightarrow> task_id (tsk s i) = of_nat i"
    "state (tsk s 0) = TASK_UNUSED"
proof -
  obtain xs where xs: "table_inv T xs s" and *: "run_inv s" "console_ok s" using assms by (auto simp: tasks_ok_def)
  note I = table_invD [OF xs]
  show "length (task_table s) = MAX_TASKS" "locks s task_table_lock = 0" by (rule I)+
  show "run_inv s" "console_ok s" by (rule *)+
  show "\<And>i. i < MAX_TASKS \<Longrightarrow> task_id (tsk s i) = of_nat i" by (rule I(7))
  show "state (tsk s 0) = TASK_UNUSED" using I(8) [of 0] by (simp add: MAX_TASKS_def)
  fix i assume "i \<in> T"
  then have "i \<in> {1..<MAX_TASKS}" using I(6) by blast
  then show "i \<in> {1..<MAX_TASKS} \<and> state (tsk s i) = TASK_UNUSED" using I(8) [of i] \<open>i \<in> T\<close> by simp
qed

lemma tasks_ok_kprintf: "tasks_ok T s \<Longrightarrow> kprintf fmt args s = Some s' \<Longrightarrow> tasks_ok T s'"
  by (metis kprintf_quiet tasks_okD(4) tasks_ok_quiet)

lemma fresh_slot:
  assumes "tasks_ok T s" "i \<in> T"
  shows "current_task s \<noteq> Some i" "idle_task s \<noteq> Some i" "i < length (task_table s)" "i < MAX_TASKS"
proof -
  have i: "i \<in> {1..<MAX_TASKS}" "state (tsk s i) = TASK_UNUSED" using tasks_okD(5) [OF assms] by blast+
  then show "i < MAX_TASKS" "i < length (task_table s)" using tasks_okD(1) [OF assms(1)] by simp_all
  note R = run_invD [OF tasks_okD(3) [OF assms(1)]]
  show "current_task s \<noteq> Some i" "idle_task s \<noteq> Some i" using R(2,3) i(2) by blast+
qed

text \<open>Changes to a slot that is being set up, and the change that puts it into use.\<close>

lemma tasks_ok_fill:
  assumes "tasks_ok T s" "i \<in> T" "link_safe f" "state (f (tsk s i)) = TASK_UNUSED"
  shows "tasks_ok T (upd_task i f s)"
proof -
  obtain xs where xs: "table_inv T xs s" using assms(1) by (auto simp: tasks_ok_def)
  note F = fresh_slot [OF assms(1,2)]
  have "table_inv T xs (upd_task i f s)" by (rule table_inv_upd [OF xs assms(3) F(4)]) (use assms(2,4) in auto)
  moreover have "run_inv (upd_task i f s)"
    by (rule run_inv_upd [OF tasks_okD(3) [OF assms(1)] F(3)]) (use F(1,2) assms(4) in auto)
  ultimately show ?thesis using tasks_okD(4) [OF assms(1)] by (auto simp: tasks_ok_def)
qed

lemma tasks_ok_use:
  assumes "tasks_ok T s" "i \<in> T" "link_safe f" "state (f (tsk s i)) \<notin> {TASK_UNUSED, TASK_RUNNING}"
  shows "tasks_ok (T - {i}) (upd_task i f s)"
proof -
  obtain xs where xs: "table_inv T xs s" using assms(1) by (auto simp: tasks_ok_def)
  note F = fresh_slot [OF assms(1,2)]
  have "table_inv (T - {i}) xs (upd_task i f s)"
    by (rule table_inv_upd [OF xs assms(3) F(4)]) (use assms(2,4) table_invD(6) [OF xs] in auto)
  moreover have "run_inv (upd_task i f s)"
    by (rule run_inv_upd [OF tasks_okD(3) [OF assms(1)] F(3)]) (use F(1,2) assms(4) in auto)
  ultimately show ?thesis using tasks_okD(4) [OF assms(1)] by (auto simp: tasks_ok_def)
qed

text \<open>Changes to a task in use.\<close>

lemma tasks_ok_change:
  assumes "tasks_ok T s" "i < MAX_TASKS" "link_safe f" "state (tsk s i) \<noteq> TASK_UNUSED" "state (f (tsk s i)) \<noteq> TASK_UNUSED"
    "state (f (tsk s i)) = TASK_RUNNING \<Longrightarrow> current_task s = Some i" "parent_id (f (tsk s i)) = parent_id (tsk s i)"
  shows "tasks_ok T (upd_task i f s)"
proof -
  obtain xs where xs: "table_inv T xs s" using assms(1) by (auto simp: tasks_ok_def)
  have il: "i < length (task_table s)" using tasks_okD(1) [OF assms(1)] assms(2) by simp
  have "table_inv T xs (upd_task i f s)"
    by (rule table_inv_upd [OF xs assms(3) assms(2)]) (use assms(4,5) table_invD(8) [OF xs assms(2)] in auto)
  moreover have "run_inv (upd_task i f s)"
    by (rule run_inv_upd [OF tasks_okD(3) [OF assms(1)] il])
      (use assms(5-7) run_invD(3) [OF tasks_okD(3) [OF assms(1)]] in simp_all)
  ultimately show ?thesis using tasks_okD(4) [OF assms(1)] by (auto simp: tasks_ok_def)
qed

section \<open>Slots\<close>

lemma slot_alloc_spec:
  assumes inv: "table_inv {} xs s" and con: "console_ok s" and run: "task_slot_alloc s = Some (r, s')"
  shows "xs = [] \<and> r = None \<and> quiet s s' \<or>
    (\<exists>t ys. xs = t # ys \<and> r = Some t \<and> table_inv {t} ys s' \<and>
       s' = s\<lparr>task_free_list := next_free (tsk s t), task_table := (task_table s)[t := (tsk s t)\<lparr>next_free := None\<rparr>]\<rparr>)"
proof (cases xs)
  case Nil
  then have "task_free_list s = None" using table_invD(3) [OF inv] by simp
  then have "r = None \<and> kprintf (''task_slot_alloc: no free task slots'' @ [CHR 0x0A]) [] s = Some s'"
    using run table_invD(2) [OF inv] by (auto simp: task_slot_alloc_def Let_def split: bind_splits)
  then show ?thesis using Nil kprintf_quiet [OF con] by blast
next
  case (Cons t ys)
  note I = table_invD [OF inv]
  have h: "task_free_list s = Some t" "tlist (task_table s) (next_free (tsk s t)) ys" "t \<notin> set ys"
    "t \<in> {1..<MAX_TASKS}" "distinct ys" "set ys \<subseteq> {1..<MAX_TASKS}"
    using I(3,4,5) Cons by auto
  let ?s = "s\<lparr>task_free_list := next_free (tsk s t), task_table := (task_table s)[t := (tsk s t)\<lparr>next_free := None\<rparr>]\<rparr>"
  have rs: "r = Some t" "s' = ?s"
    using run h(1) I(2) by (auto simp: task_slot_alloc_def Let_def upd_task_def split: bind_splits)
  have tl: "t < length (task_table s)" using h(4) I(1) by simp
  have at: "tsk ?s j = (if j = t then (tsk s t)\<lparr>next_free := None\<rparr> else tsk s j)" for j using tl by (simp add: nth_upd)
  have "state (tsk ?s j) = TASK_UNUSED \<longleftrightarrow> j = 0 \<or> j \<in> set ys \<or> j \<in> {t}" if "j < MAX_TASKS" for j
    using I(8) [OF that] Cons unfolding at by auto
  moreover have "task_id (tsk ?s j) = of_nat j" if "j < MAX_TASKS" for j using I(7) [OF that] unfolding at by auto
  ultimately have "table_inv {t} ys ?s"
    unfolding table_inv_def using I(1,2) h(2-6) by (intro conjI allI impI) simp_all
  then show ?thesis using Cons rs by simp
qed

lemma slot_alloc_ok:
  assumes "tasks_ok {} s" "task_slot_alloc s = Some (r, s')"
  shows "(case r of None \<Rightarrow> tasks_ok {} s' | Some t \<Rightarrow> tasks_ok {t} s')"
proof -
  obtain xs where xs: "table_inv {} xs s" using assms(1) by (auto simp: tasks_ok_def)
  note K = tasks_okD [OF assms(1)]
  from slot_alloc_spec [OF xs K(4) assms(2)] show ?thesis
  proof (elim disjE exE conjE)
    assume "r = None" "quiet s s'"
    then show ?thesis using tasks_ok_quiet assms(1) by simp
  next
    fix t ys assume t: "xs = t # ys" "r = Some t" "table_inv {t} ys s'"
      and s': "s' = s\<lparr>task_free_list := next_free (tsk s t), task_table := (task_table s)[t := (tsk s t)\<lparr>next_free := None\<rparr>]\<rparr>"
    have tl: "t < length (task_table s)" using table_invD(5) [OF xs] K(1) t(1) by simp
    have at: "tsk s' j = (if j = t then (tsk s t)\<lparr>next_free := None\<rparr> else tsk s j)" for j using tl by (simp add: s' nth_upd)
    have ct: "current_task s' = current_task s" "idle_task s' = idle_task s" by (simp_all add: s')
    note R = run_invD [OF K(3)]
    have "run_inv s'"
      by (rule run_inv_change [OF K(3) ct, of t]) (use R [of t] table_invD(5) [OF xs] t(1) in \<open>auto simp: at\<close>)
    moreover have "console_ok s'" using K(4) by (simp add: s')
    ultimately show ?thesis using t by (auto simp: tasks_ok_def)
  qed
qed

lemma slot_free_spec:
  assumes inv: "table_inv T xs s" and t: "t \<in> {1..<MAX_TASKS}" "t \<notin> set xs" and run: "task_slot_free t s = Some s'"
  defines "x \<equiv> (tsk s t)\<lparr>state := TASK_UNUSED, block_reason := BLOCK_NONE, parent_id := - 1, exit_code := 0, next_free := task_free_list s\<rparr>"
  shows "table_inv (T - {t}) (t # xs) s'" "s' = s\<lparr>task_table := (task_table s)[t := x], task_free_list := Some t\<rparr>"
proof -
  note I = table_invD [OF inv]
  show s': "s' = s\<lparr>task_table := (task_table s)[t := x], task_free_list := Some t\<rparr>"
    using run I(2) by (auto simp: task_slot_free_def Let_def upd_task_def x_def)
  have tl: "t < length (task_table s)" using I(1) t(1) by simp
  show "table_inv (T - {t}) (t # xs) s'"
    unfolding table_inv_def
  proof (intro conjI allI impI)
    show "length (task_table s') = MAX_TASKS" "locks s' task_table_lock = 0" using I(1,2) by (simp_all add: s')
    show "tlist (task_table s') (task_free_list s') (t # xs)" using I(3) t(2) tl by (simp add: s' x_def)
    show "distinct (t # xs)" "set (t # xs) \<subseteq> {1..<MAX_TASKS}" using I(4,5) t by simp_all
    show "T - {t} \<subseteq> {1..<MAX_TASKS} - set (t # xs)" using I(6) by auto
    fix j assume j: "j < MAX_TASKS"
    have at: "tsk s' j = (if j = t then x else tsk s j)" using tl by (simp add: s' nth_upd)
    show "task_id (tsk s' j) = of_nat j" using I(7) [OF j] unfolding at by (auto simp: x_def)
    show "(state (tsk s' j) = TASK_UNUSED) = (j = 0 \<or> j \<in> set (t # xs) \<or> j \<in> T - {t})"
      using I(8) [OF j] unfolding at by (auto simp: x_def)
  qed
qed

lemma slot_free_ok:
  assumes "tasks_ok T s" "t \<in> T \<or> t \<in> {1..<MAX_TASKS} \<and> state (tsk s t) \<noteq> TASK_UNUSED"
    "current_task s \<noteq> Some t" "idle_task s \<noteq> Some t" "task_slot_free t s = Some s'"
  shows "tasks_ok (T - {t}) s'"
proof -
  obtain xs where xs: "table_inv T xs s" using assms(1) by (auto simp: tasks_ok_def)
  note I = table_invD [OF xs]
  have t: "t \<in> {1..<MAX_TASKS}" "t \<notin> set xs" using assms(2) I(6) I(8) [of t] by auto
  note S = slot_free_spec [OF xs t assms(5)]
  have tl: "t < length (task_table s)" using t(1) I(1) by simp
  have at: "\<And>j. j \<noteq> t \<Longrightarrow> tsk s' j = tsk s j" "state (tsk s' t) = TASK_UNUSED" using tl by (simp_all add: S(2) nth_upd)
  have ct: "current_task s' = current_task s" "idle_task s' = idle_task s" by (simp_all add: S(2))
  have "run_inv s'"
    by (rule run_inv_change [OF tasks_okD(3) [OF assms(1)] ct at(1)]) (use at(2) assms(3,4) in auto)
  moreover have "console_ok s'" using tasks_okD(4) [OF assms(1)] by (simp add: S(2))
  ultimately show ?thesis using S(1) by (auto simp: tasks_ok_def)
qed

section \<open>Creating and destroying tasks\<close>

lemma kstack_alloc_ok:
  assumes "tasks_ok {t} s" "task_kstack_alloc t s = Some (b, s')"
  shows "tasks_ok {t} s'"
proof -
  obtain r s1 where a: "page_alloc 1 s = Some (r, s1)" using assms(2) by (auto simp: task_kstack_alloc_def split: bind_splits)
  have ok: "tasks_ok {t} s1" using page_alloc_quiet [OF a] assms(1) by (rule tasks_ok_quiet)
  show ?thesis
  proof (cases r)
    case None
    then show ?thesis using a assms(2) ok by (simp add: task_kstack_alloc_def)
  next
    case (Some pp)
    then show ?thesis
      using a assms(2) tasks_ok_fill [OF ok, of t] tasks_okD(5) [OF ok, of t]
      by (auto simp: task_kstack_alloc_def Let_def link_safe_def)
  qed
qed

lemma slot_drop_ok:
  assumes "tasks_ok {t} s" "task_slot_free t s = Some s'"
  shows "tasks_ok {} s'"
  using slot_free_ok [OF assms(1) _ _ _ assms(2)] fresh_slot [OF assms(1), of t] by simp

lemma slot_fail_ok:
  "tasks_ok {t} s \<Longrightarrow> kprintf fmt args s = Some s1 \<Longrightarrow> task_slot_free t s1 = Some s' \<Longrightarrow> tasks_ok {} s'"
  using tasks_ok_kprintf slot_drop_ok by blast

lemma task_create_ok:
  assumes ok: "tasks_ok {} s" and run: "task_create s = Some (r, s')"
  shows "tasks_ok {} s'"
proof -
  obtain r0 s1 where s1: "task_slot_alloc s = Some (r0, s1)" using run by (auto simp: task_create_def split: bind_splits)
  note A = slot_alloc_ok [OF ok s1]
  show ?thesis
  proof (cases r0)
    case None
    then show ?thesis using run s1 A by (simp add: task_create_def)
  next
    case (Some t)
    then obtain q s2 where s2: "vmm_new_address_space s1 = Some (q, s2)"
      using run s1 by (auto simp: task_create_def split: bind_splits)
    have ok2: "tasks_ok {t} s2" using vmm_new_address_space_quiet [OF s2] A Some tasks_ok_quiet by auto
    show ?thesis
    proof (cases q)
      case None
      then show ?thesis
        using run s1 s2 \<open>r0 = _\<close> by (auto simp: task_create_def split: bind_splits intro: slot_fail_ok [OF ok2])
    next
      case (Some p)
      then obtain b s3 where s3: "task_kstack_alloc t s2 = Some (b, s3)"
        using run s1 s2 \<open>r0 = _\<close> by (auto simp: task_create_def split: bind_splits)
      note ok3 = kstack_alloc_ok [OF ok2 s3]
      let ?f = "\<lambda>x. x\<lparr>pml4 := Some p, state := TASK_RUNNABLE, context_rsp := 0, parent_id := - 1, exit_code := 0\<rparr>"
      have ok4: "tasks_ok {} (upd_task t ?f s3)"
        using tasks_ok_use [OF ok3, of t ?f] by (simp add: link_safe_def)
      show ?thesis
        using run s1 s2 s3 \<open>r0 = _\<close> \<open>q = _\<close>
        by (cases b) (auto simp: task_create_def Let_def split: bind_splits
            intro: slot_fail_ok [OF ok3] tasks_ok_kprintf [OF ok4])
    qed
  qed
qed

lemma quiet_write_words [simp]: "quiet s t \<Longrightarrow> quiet s (write_words a ws t)"
  by (induction ws arbitrary: a t) auto

lemma quiet_switch_frame: "push_switch_frame sp ret arg s = (v, s') \<Longrightarrow> quiet s s'"
  using quiet_write_words [OF quiet_hwrite(1) [of s "sp - 8" ret]] by (auto simp: push_switch_frame_def Let_def simp del: write_words.simps)

lemma quiet_clear: "quiet s t \<Longrightarrow> quiet s (fold (\<lambda>i s. hwrite8 (a + of_nat i) 0 s) xs t)"
  by (induction xs arbitrary: t) auto

lemma quiet_user_regs: "quiet s (user_regs regs entry stk s)"
  by (simp add: user_regs_def Let_def quiet_clear)

lemma stack_init_ok:
  assumes "tasks_ok {} s" "t < MAX_TASKS" "state (tsk s t) \<noteq> TASK_UNUSED" "state (tsk s t) = TASK_RUNNING \<longrightarrow> current_task s = Some t"
    "task_stack_init t entry s = Some s'"
  shows "tasks_ok {} s'"
proof -
  obtain sp where sp: "kstack_top (tsk s t) = Some sp" using assms(5) by (auto simp: task_stack_init_def split: bind_splits)
  obtain v s1 where p: "push_switch_frame sp (task_entry_trampoline s) entry s = (v, s1)" by fastforce
  have q: "quiet s s1" using quiet_switch_frame [OF p] .
  have ok1: "tasks_ok {} s1" using q assms(1) by (rule tasks_ok_quiet)
  have "task_table s1 = task_table s" "current_task s1 = current_task s" using quiet_same_tasks [OF q] by (simp_all add: same_tasks_def)
  then have "tasks_ok {} (upd_task t (context_rsp_update (\<lambda>_. v)) s1)"
    using assms(2-4) by (intro tasks_ok_change [OF ok1]) (simp_all add: link_safe_def)
  then show ?thesis using assms(5) sp p by (simp add: task_stack_init_def)
qed

lemma task_create_kernel_ok:
  assumes ok: "tasks_ok {} s" and run: "task_create_kernel entry s = Some (r, s')"
  shows "tasks_ok {} s'"
proof -
  obtain r0 s1 where s1: "task_slot_alloc s = Some (r0, s1)" using run by (auto simp: task_create_kernel_def split: bind_splits)
  note A = slot_alloc_ok [OF ok s1]
  show ?thesis
  proof (cases r0)
    case None
    then show ?thesis using run s1 A by (simp add: task_create_kernel_def)
  next
    case (Some t)
    then have ok1: "tasks_ok {t} s1" using A by simp
    obtain b s2 where s2: "task_kstack_alloc t s1 = Some (b, s2)"
      using run s1 \<open>r0 = _\<close> by (auto simp: task_create_kernel_def split: bind_splits)
    note ok2 = kstack_alloc_ok [OF ok1 s2]
    let ?f = "\<lambda>x. x\<lparr>pml4 := Some (get_current_pml4 s2), state := TASK_RUNNABLE, parent_id := - 1, exit_code := 0\<rparr>"
    have ok3: "tasks_ok {} (upd_task t ?f s2)"
      using tasks_ok_use [OF ok2, of t ?f] by (simp add: link_safe_def)
    have t: "t < MAX_TASKS" "state (tsk (upd_task t ?f s2) t) = TASK_RUNNABLE"
      using fresh_slot [OF ok2, of t] by simp_all
    have ok4: "tasks_ok {} s4" if "task_stack_init t entry (upd_task t ?f s2) = Some s4" for s4
      using stack_init_ok [OF ok3 t(1) _ _ that] t(2) by simp
    show ?thesis
      using run s1 s2 \<open>r0 = _\<close>
      by (cases b) (auto simp: task_create_kernel_def Let_def split: bind_splits
          intro: slot_fail_ok [OF ok2] tasks_ok_kprintf dest: ok4)
  qed
qed

lemma task_destroy_ok:
  assumes ok: "tasks_ok {} s" and t: "t < MAX_TASKS" "current_task s \<noteq> Some t" "idle_task s \<noteq> Some t"
    and run: "task_destroy (Some t) s = Some s'"
  shows "tasks_ok {} s'"
proof (cases "state (tsk s t) = TASK_UNUSED")
  case True
  then show ?thesis using run by (auto simp: task_destroy_def intro: tasks_ok_kprintf [OF ok])
next
  case False
  then have "t \<noteq> 0" using tasks_okD(7) [OF ok] by metis
  let ?f = "\<lambda>x. x\<lparr>pml4 := None, kstack := None, kstack_top := None, context_rsp := 0\<rparr>"
  have ok1: "tasks_ok {} (upd_task t ?f s)"
    using run_invD(1) [OF tasks_okD(3) [OF ok] t(1)] False
    by (intro tasks_ok_change [OF ok t(1)]) (simp_all add: link_safe_def)
  have st: "state (tsk (upd_task t ?f s) t) \<noteq> TASK_UNUSED" using False t(1) tasks_okD(1) [OF ok] by simp
  have "tasks_ok {} s2" if "task_slot_free t (upd_task t ?f s) = Some s2" for s2
    using slot_free_ok [OF ok1 _ _ _ that] st t \<open>t \<noteq> 0\<close> by simp
  then show ?thesis
    using run False by (auto simp: task_destroy_def split: bind_splits intro: tasks_ok_kprintf)
qed

lemma task_prepare_user_entry_ok:
  assumes ok: "tasks_ok {} s" and t: "t < MAX_TASKS" "state (tsk s t) \<noteq> TASK_UNUSED"
    and run: "task_prepare_user_entry t entry stk s = Some s'"
  shows "tasks_ok {} s'"
proof -
  obtain sp where sp: "kstack_top (tsk s t) = Some sp" using run by (auto simp: task_prepare_user_entry_def split: bind_splits)
  obtain v s1 where p: "push_switch_frame (sp - SIZEOF_REGS) (syscall_entry_return (user_regs (sp - SIZEOF_REGS) entry stk s))
      (sp - SIZEOF_REGS) (user_regs (sp - SIZEOF_REGS) entry stk s) = (v, s1)" by fastforce
  have s1: "quiet s s1" "s' = upd_task t (\<lambda>x. x\<lparr>context_rsp := v, state := TASK_RUNNABLE\<rparr>) s1"
    using run sp p quiet_trans [OF quiet_user_regs quiet_switch_frame [OF p]]
    by (simp_all add: task_prepare_user_entry_def Let_def)
  have ok1: "tasks_ok {} s1" using s1(1) ok by (rule tasks_ok_quiet)
  have "task_table s1 = task_table s" using quiet_same_tasks [OF s1(1)] by (simp add: same_tasks_def)
  then show ?thesis
    unfolding s1(2) using t by (intro tasks_ok_change [OF ok1]) (simp_all add: link_safe_def)
qed

lemma task_fork_ok:
  assumes ok: "tasks_ok {} s" and run: "task_fork parent regs s = Some (r, s')"
  shows "tasks_ok {} s'"
proof -
  obtain r0 s1 where s1: "task_slot_alloc s = Some (r0, s1)" using run by (auto simp: task_fork_def split: bind_splits)
  note A = slot_alloc_ok [OF ok s1]
  show ?thesis
  proof (cases r0)
    case None
    then show ?thesis using run s1 A by (simp add: task_fork_def)
  next
    case (Some t)
    then have ok1: "tasks_ok {t} s1" using A by simp
    obtain p q s2 where p: "pml4 (tsk s1 parent) = Some p" and s2: "vmm_copy_address_space p s1 = Some (q, s2)"
      using run s1 \<open>r0 = _\<close> by (auto simp: task_fork_def split: bind_splits)
    have ok2: "tasks_ok {t} s2" using vmm_copy_address_space_quiet [OF s2] ok1 by (rule tasks_ok_quiet)
    show ?thesis
    proof (cases q)
      case None
      then show ?thesis using run s1 p s2 \<open>r0 = _\<close> by (auto simp: task_fork_def split: bind_splits intro: slot_drop_ok [OF ok2])
    next
      case (Some cp)
      obtain b s3 where s3: "task_kstack_alloc t s2 = Some (b, s3)"
        using run s1 p s2 \<open>r0 = _\<close> \<open>q = _\<close> by (auto simp: task_fork_def split: bind_splits)
      note ok3 = kstack_alloc_ok [OF ok2 s3]
      show ?thesis
      proof (cases b)
        case False
        then show ?thesis
          using run s1 p s2 s3 \<open>r0 = _\<close> \<open>q = _\<close> by (auto simp: task_fork_def split: bind_splits intro: slot_drop_ok [OF ok3])
      next
        case True
        define s4 where "s4 = upd_task t (\<lambda>x. x\<lparr>pml4 := Some cp, parent_id := task_id (tsk s3 parent), exit_code := 0\<rparr>) s3"
        have ok4: "tasks_ok {t} s4"
          unfolding s4_def using tasks_okD(5) [OF ok3, of t] by (intro tasks_ok_fill [OF ok3]) (simp_all add: link_safe_def)
        obtain top where top: "kstack_top (tsk s4 t) = Some top"
          using run s1 p s2 s3 \<open>r0 = _\<close> \<open>q = _\<close> True by (auto simp: task_fork_def Let_def s4_def split: bind_splits)
        define cr where "cr = top - SIZEOF_REGS"
        define s5 where "s5 = hwrite64 cr 0 (write_words cr (read_words s4 regs 20) s4)"
        obtain v s6 where s6: "push_switch_frame cr (syscall_entry_return s5) cr s5 = (v, s6)" by fastforce
        have "quiet s4 s6" using quiet_trans [OF _ quiet_switch_frame [OF s6]] by (simp add: s5_def)
        then have ok6: "tasks_ok {t} s6" using ok4 by (rule tasks_ok_quiet)
        have ok7: "tasks_ok {} (upd_task t (\<lambda>x. x\<lparr>context_rsp := v, state := TASK_RUNNABLE\<rparr>) s6)"
          using tasks_ok_use [OF ok6, of t "\<lambda>x. x\<lparr>context_rsp := v, state := TASK_RUNNABLE\<rparr>"] by (simp add: link_safe_def)
        show ?thesis
          using run s1 p s2 s3 \<open>r0 = _\<close> \<open>q = _\<close> True top s6
          by (auto simp: task_fork_def Let_def s4_def [symmetric] cr_def [symmetric] s5_def [symmetric] split: bind_splits
              intro: tasks_ok_kprintf [OF ok7])
      qed
    qed
  qed
qed

section \<open>Scheduling\<close>

definition rr_order :: "nat \<Rightarrow> nat list" where
  "rr_order c = map (\<lambda>k. (c + k) mod MAX_TASKS) [1..<MAX_TASKS + 1]"

definition pick :: "'a kernel_state_scheme \<Rightarrow> nat \<Rightarrow> nat" where
  "pick s c = (case find (\<lambda>i. state (tsk s i) = TASK_RUNNABLE) (rr_order c) of
     Some t \<Rightarrow> t | None \<Rightarrow> (case idle_task s of Some i \<Rightarrow> i | None \<Rightarrow> c))"

lemma index_of_valid: "t < MAX_TASKS \<Longrightarrow> index_of t = t"
proof -
  assume t: "t < MAX_TASKS"
  then have "find (\<lambda>i. task_table_ptr i = Some t) [0..<task_table_size] = Some t"
    unfolding find_Some_iff task_table_ptr_def task_table_size_def by (intro exI [of _ t]) simp
  then show ?thesis by (simp add: index_of_def)
qed

lemma rr_order_Suc: "map (\<lambda>k. (c + k) mod MAX_TASKS) [Suc 0..<Suc MAX_TASKS] = rr_order c"
  by (simp add: rr_order_def del: upt_Suc)

lemma self_in_order: "c < MAX_TASKS \<Longrightarrow> c \<in> set (rr_order c)"
  by (auto simp: rr_order_def image_iff intro!: bexI [of _ MAX_TASKS])

lemma set_rr_order: "set (rr_order c) \<subseteq> {..<MAX_TASKS}"
  by (auto simp: rr_order_def MAX_TASKS_def)

lemma pick_next_pick:
  assumes "locks s task_table_lock = 0" "c < MAX_TASKS"
  shows "scheduler_pick_next (Some c) s = Some (Some (pick s c), s)"
proof -
  let ?s = "s\<lparr>rflags := rflags s AND NOT IF_FLAG, locks := (locks s)(task_table_lock := 1)\<rparr>"
  have n: "task_table_size = MAX_TASKS" "MAX_TASKS \<noteq> 0" by (simp_all add: task_table_size_def MAX_TASKS_def)
  have "state (tsk s c) \<noteq> TASK_RUNNABLE" if "find (\<lambda>i. state (tsk s i) = TASK_RUNNABLE) (rr_order c) = None"
    using that self_in_order [OF assms(2)] by (auto simp: find_None_iff)
  then show ?thesis
    using assms by (auto simp: scheduler_pick_next_def task_table_lock_acquire_def task_table_lock_release_def n
        index_of_valid pick_def rr_order_Suc Let_def simp del: upt_Suc split: option.split)
qed

lemma pick_cases:
  assumes "pick s c = t"
  shows "t \<in> set (rr_order c) \<and> state (tsk s t) = TASK_RUNNABLE \<or> idle_task s = Some t \<or> t = c"
  using assms by (auto simp: pick_def find_Some_iff split: option.splits)

lemma pick_used:
  assumes "tasks_ok {} s" "current_task s = Some c"
  shows "pick s c < MAX_TASKS" "state (tsk s (pick s c)) \<noteq> TASK_UNUSED" "pick s c \<noteq> 0"
proof -
  note R = run_invD [OF tasks_okD(3) [OF assms(1)]]
  show "pick s c < MAX_TASKS" and st: "state (tsk s (pick s c)) \<noteq> TASK_UNUSED"
    using pick_cases [OF refl, of s c] R(2) [OF assms(2)] R(3) set_rr_order [of c] by auto
  show "pick s c \<noteq> 0" using st tasks_okD(7) [OF assms(1)] by metis
qed

section \<open>Switching and the timer\<close>

lemma same_tasks_ok: "same_tasks s s' \<Longrightarrow> tasks_ok T s' = tasks_ok T s"
  by (simp add: tasks_ok_def same_tasks_inv)

lemma cpu_same_tasks [simp]:
  "same_tasks s (set_cpu f s)" "same_tasks s (push v s)" "same_tasks s (snd (pop s))"
  by (simp_all add: same_tasks_def set_cpu_def push_def pop_def hwrite64_def Let_def console_ok_def uart_live_def)

lemma tasks_ok_cpu [simp]:
  "tasks_ok T (set_cpu f s) = tasks_ok T s" "tasks_ok T (push v s) = tasks_ok T s" "tasks_ok T (snd (pop s)) = tasks_ok T s"
  by (rule same_tasks_ok, simp)+

lemma push_table [simp]: "task_table (push v s) = task_table s"
  by (simp add: push_def set_cpu_def hwrite64_def Let_def)

lemma push_current [simp]: "current_task (push v s) = current_task s"
  by (simp add: push_def set_cpu_def hwrite64_def Let_def)

lemma context_switch_ok:
  assumes "tasks_ok {} s" "\<And>i. old = Some i \<Longrightarrow> i < MAX_TASKS \<and> state (tsk s i) \<noteq> TASK_UNUSED"
  shows "tasks_ok {} (context_switch old new s)"
proof (cases old)
  case None
  then show ?thesis using assms(1) by (simp add: context_switch_def Let_def split_def)
next
  case (Some i)
  define s1 where "s1 = push (r15 (cpu s)) (push (r14 (cpu s)) (push (r13 (cpu s)) (push (r12 (cpu s)) (push (rbp (cpu s)) (push (rbx (cpu s)) s)))))"
  have ok: "tasks_ok {} s1" using assms(1) by (simp add: s1_def)
  have "task_table s1 = task_table s" "current_task s1 = current_task s" by (simp_all add: s1_def)
  then have "tasks_ok {} (upd_task i (context_rsp_update (\<lambda>_. v)) s1)" for v
    using assms(2) [OF Some] run_invD(1) [OF tasks_okD(3) [OF assms(1)]]
    by (intro tasks_ok_change [OF ok]) (simp_all add: link_safe_def)
  moreover have "cpu (push v t) = (cpu t)\<lparr>rsp := rsp (cpu t) - 8\<rparr>" for v and t :: "'a kernel_state_scheme"
    by (simp add: push_def set_cpu_def hwrite64_def Let_def)
  ultimately show ?thesis using Some by (simp add: context_switch_def Let_def split_def s1_def)
qed

lemma switch_to_ok:
  assumes "tasks_ok {} s" "\<And>i. old = Some i \<Longrightarrow> i < MAX_TASKS \<and> state (tsk s i) \<noteq> TASK_UNUSED"
  shows "tasks_ok {} (scheduler_switch_to old new s)"
proof -
  have sw: "same_tasks t (vmm_switch_address_space p t)" "same_tasks t (tss_set_rsp0 k t)" for t :: "'a kernel_state_scheme" and p k
    by (simp_all add: same_tasks_def vmm_switch_address_space_def tss_set_rsp0_def Let_def console_ok_def uart_live_def)
  define s1 where "s1 = (case pml4 (tsk s new) of None \<Rightarrow> s | Some p \<Rightarrow> vmm_switch_address_space p s)"
  define s2 where "s2 = (case kstack_top (tsk s1 new) of None \<Rightarrow> s1 | Some k \<Rightarrow> tss_set_rsp0 k s1)"
  have "same_tasks s s1" by (simp add: s1_def sw split: option.split)
  also have "same_tasks s1 s2" by (simp add: s2_def sw split: option.split)
  finally have same: "same_tasks s s2" .
  then have "tasks_ok {} s2" using assms(1) by (simp add: same_tasks_ok)
  moreover have "task_table s2 = task_table s" using same by (simp add: same_tasks_def)
  ultimately have "tasks_ok {} (context_switch old new s2)" using assms(2) by (intro context_switch_ok) simp_all
  then show ?thesis unfolding scheduler_switch_to_def Let_def s1_def [symmetric] s2_def [symmetric] .
qed

lemma upd_task_current: "upd_task n f (s\<lparr>current_task := c\<rparr>) = (upd_task n f s)\<lparr>current_task := c\<rparr>"
  by (rule kernel_state.equality) (simp_all add: upd_task_def)

text \<open>Handing the processor from \<open>c\<close> to \<open>n\<close>: \<open>c\<close> must not stay marked running.\<close>

lemma hand_over:
  assumes ok: "tasks_ok {} s" and c: "current_task s = Some c" "state (tsk s c) \<noteq> TASK_RUNNING"
    and n: "n < MAX_TASKS" "state (tsk s n) \<noteq> TASK_UNUSED"
  shows "tasks_ok {} (upd_task n (state_update (\<lambda>_. TASK_RUNNING)) (s\<lparr>current_task := Some n\<rparr>))"
proof -
  note R = run_invD [OF tasks_okD(3) [OF ok]]
  have "run_inv (s\<lparr>current_task := Some n\<rparr>)"
  proof (rule run_invI)
    fix j
    show "current_task (s\<lparr>current_task := Some n\<rparr>) = Some j"
      if "j < MAX_TASKS" "state (tsk (s\<lparr>current_task := Some n\<rparr>) j) = TASK_RUNNING"
      using that R(1) [of j] c by auto
    show "j < MAX_TASKS \<and> state (tsk (s\<lparr>current_task := Some n\<rparr>) j) \<noteq> TASK_UNUSED"
      if "current_task (s\<lparr>current_task := Some n\<rparr>) = Some j"
      using that n by simp
    show "j < MAX_TASKS \<and> state (tsk (s\<lparr>current_task := Some n\<rparr>) j) \<noteq> TASK_UNUSED \<and>
        parent_id (tsk (s\<lparr>current_task := Some n\<rparr>) j) = - 1" if "idle_task (s\<lparr>current_task := Some n\<rparr>) = Some j"
      using that R(3) by simp
  qed
  then have "tasks_ok {} (s\<lparr>current_task := Some n\<rparr>)" using ok by (auto simp: tasks_ok_def table_inv_def)
  then show ?thesis using n by (intro tasks_ok_change) (simp_all add: link_safe_def)
qed

lemma tick_same: "same_tasks s (pic_send_eoi 0 (s\<lparr>g_ticks := k\<rparr>))"
  by (simp add: same_tasks_def pic_send_eoi_def outb_def Let_def console_ok_def uart_live_def)

lemma timer_tick_cases:
  assumes ok: "tasks_ok {} s" and run: "timer_tick_handler s = Some s'"
  obtains "same_tasks s s'"
  | c n s1 where "current_task s = Some c" "n = pick s c" "n \<noteq> c" "same_tasks s s1"
      "s' = scheduler_switch_to (Some c) n
         ((upd_task n (state_update (\<lambda>_. TASK_RUNNING))
            (if state (tsk s c) = TASK_RUNNING then upd_task c (state_update (\<lambda>_. TASK_RUNNABLE)) s1 else s1))
          \<lparr>current_task := Some n\<rparr>)"
proof -
  define s1 where "s1 = pic_send_eoi 0 (s\<lparr>g_ticks := g_ticks s + 1\<rparr>)"
  have same: "same_tasks s s1" unfolding s1_def by (rule tick_same)
  have t1: "task_table s1 = task_table s" "current_task s1 = current_task s" "idle_task s1 = idle_task s" "locks s1 = locks s"
    using same by (simp_all add: same_tasks_def)
  have pk: "pick s1 = pick s" unfolding pick_def [abs_def] t1 ..
  consider "s' = s1" | c where "current_task s = Some c" "g_ticks s1 mod TIME_SLICE_TICKS = 0"
    using run unfolding timer_tick_handler_def Let_def s1_def [symmetric] t1(2) by (auto split: if_splits option.splits)
  then show thesis
  proof cases
    case 1
    then show thesis using that(1) same by simp
  next
    case (2 c)
    have c: "c < MAX_TASKS" using run_invD(2) [OF tasks_okD(3) [OF ok]] 2(1) by blast
    have lk: "locks s1 task_table_lock = 0" using tasks_okD(2) [OF ok] t1(4) by simp
    note P = pick_next_pick [OF lk c, unfolded pk]
    show thesis
    proof (cases "pick s c = c")
      case True
      then have "s' = s1"
        using run 2 P unfolding timer_tick_handler_def Let_def s1_def [symmetric] t1(2) by simp
      then show thesis using that(1) same by simp
    next
      case False
      have "s' = scheduler_switch_to (Some c) (pick s c)
         ((upd_task (pick s c) (state_update (\<lambda>_. TASK_RUNNING))
            (if state (tsk s c) = TASK_RUNNING then upd_task c (state_update (\<lambda>_. TASK_RUNNABLE)) s1 else s1))
          \<lparr>current_task := Some (pick s c)\<rparr>)"
        using run 2 P False lk t1(1) unfolding timer_tick_handler_def Let_def s1_def [symmetric] t1(2)
        by (simp add: task_table_lock_acquire_def task_table_lock_release_def upd_task_def split: if_splits)
      then show thesis using that(2) [of c "pick s c" s1] 2(1) False same by blast
    qed
  qed
qed

lemma timer_tick_ok:
  assumes ok: "tasks_ok {} s" and run: "timer_tick_handler s = Some s'"
  shows "tasks_ok {} s'"
  using ok run
proof (cases rule: timer_tick_cases)
  case 1
  then show ?thesis using ok by (simp add: same_tasks_ok)
next
  case (2 c n s1)
  have t1: "task_table s1 = task_table s" "current_task s1 = current_task s" using 2(4) by (simp_all add: same_tasks_def)
  have ok1: "tasks_ok {} s1" using ok 2(4) by (simp add: same_tasks_ok)
  have c: "c < MAX_TASKS" "state (tsk s c) \<noteq> TASK_UNUSED" using run_invD(2) [OF tasks_okD(3) [OF ok] 2(1)] by blast+
  have n: "n < MAX_TASKS" "state (tsk s n) \<noteq> TASK_UNUSED" using pick_used [OF ok 2(1)] 2(2) by blast+
  define s2 where "s2 = (if state (tsk s c) = TASK_RUNNING then upd_task c (state_update (\<lambda>_. TASK_RUNNABLE)) s1 else s1)"
  have cl: "c < length (task_table s1)" using c(1) tasks_okD(1) [OF ok1] by simp
  have ok2: "tasks_ok {} s2"
    using ok1 tasks_ok_change [OF ok1 c(1), of "state_update (\<lambda>_. TASK_RUNNABLE)"] c(2) by (simp add: s2_def link_safe_def t1)
  have st: "state (tsk s2 c) \<noteq> TASK_RUNNING" "current_task s2 = Some c" "tsk s2 n = tsk s n" "state (tsk s2 c) \<noteq> TASK_UNUSED"
    using cl 2(1,3) c(2) by (auto simp: s2_def t1)
  have H: "tasks_ok {} (upd_task n (state_update (\<lambda>_. TASK_RUNNING)) (s2\<lparr>current_task := Some n\<rparr>))"
    using hand_over [OF ok2 st(2,1) n(1)] n(2) st(3) by simp
  have "tasks_ok {} (scheduler_switch_to (Some c) n (upd_task n (state_update (\<lambda>_. TASK_RUNNING)) (s2\<lparr>current_task := Some n\<rparr>)))"
    by (rule switch_to_ok [OF H]) (use c(1) st(4) 2(3) n(1) tasks_okD(1) [OF ok2] in \<open>simp add: nth_upd upd_task_def\<close>)
  then show ?thesis unfolding 2(5) s2_def [symmetric] upd_task_current .
qed

lemma block_and_switch_ok:
  assumes ok: "tasks_ok {} s" and run: "task_block_and_switch reason peer buf n s = Some (b, s')"
  shows "tasks_ok {} s'"
proof -
  obtain c where c: "current_task s = Some c" using run by (auto simp: task_block_and_switch_def split: bind_splits)
  have cm: "c < MAX_TASKS" "state (tsk s c) \<noteq> TASK_UNUSED" using run_invD(2) [OF tasks_okD(3) [OF ok] c] by blast+
  have lk: "locks s task_table_lock = 0" by (rule tasks_okD(2) [OF ok])
  let ?f = "\<lambda>x. x\<lparr>state := TASK_BLOCKED, block_reason := reason, ipc_peer := peer, ipc_buf := buf, ipc_len := n\<rparr>"
  define s1 where "s1 = upd_task c ?f s"
  have ok1: "tasks_ok {} s1" unfolding s1_def using cm by (intro tasks_ok_change [OF ok]) (simp_all add: link_safe_def)
  have c1: "current_task s1 = Some c" "state (tsk s1 c) = TASK_BLOCKED" "locks s1 task_table_lock = 0"
    using c cm(1) tasks_okD(1) [OF ok] lk by (simp_all add: s1_def)
  note P = pick_next_pick [OF c1(3) cm(1)]
  let ?n = "pick s1 c"
  have N: "?n < MAX_TASKS" "state (tsk s1 ?n) \<noteq> TASK_UNUSED" using pick_used [OF ok1 c1(1)] by blast+
  have acq: "spinlock_release task_table_lock (rflags s) (upd_task c ?f
      (s\<lparr>rflags := rflags s AND NOT IF_FLAG, locks := (locks s)(task_table_lock := 1)\<rparr>)) = s1"
    using lk by (simp add: s1_def upd_task_def)
  show ?thesis
  proof (cases "?n = c")
    case True
    then show ?thesis
      using run c lk acq P ok1 by (simp add: task_block_and_switch_def Let_def del: spinlock_release_simp)
  next
    case False
    let ?s2 = "upd_task ?n (state_update (\<lambda>_. TASK_RUNNING)) (s1\<lparr>current_task := Some ?n\<rparr>)"
    have s': "s' = scheduler_switch_to (Some c) ?n ?s2"
      using run c lk acq P False c1(3)
      by (simp add: task_block_and_switch_def Let_def del: spinlock_release_simp)
        (simp add: upd_task_def)
    have H: "tasks_ok {} ?s2" using hand_over [OF ok1 c1(1) _ N] c1(2) by simp
    show ?thesis
      unfolding s' by (rule switch_to_ok [OF H]) (use cm(1) c1(2) False N(1) tasks_okD(1) [OF ok1] in \<open>simp add: nth_upd upd_task_def\<close>)
  qed
qed

end
