(* ===== verification/Syscall.thy ===== *)
theory Syscall
  imports TaskInv
begin

text \<open>\<open>syscall.c\<close>: the system calls and their dispatcher. A call that blocks leaves the processor to another task; what
it does when it is switched back to is its continuation \<open>kont\<close>. The inductive relation \<open>kstep\<close> is one step of
the kernel, and every step keeps the invariant of the task table.\<close>

section \<open>System calls (syscall.c)\<close>

text \<open>What a system call does: it returns a value, or it suspends the calling task, which will go on with
  \<open>kont\<close> when a later context switch comes back to it, or it never returns (\<open>sys_exit\<close>).\<close>

datatype kont = Return_ipc_len | Retry_wait u64

datatype sys_out = Returns u64 | Suspends kont | Exits

definition IPC_ANY_SENDER :: u64 where "IPC_ANY_SENDER = 0xFFFFFFFFFFFFFFFF"

definition SYS_WRITE :: u64 where "SYS_WRITE = 0"
definition SYS_EXIT :: u64 where "SYS_EXIT = 1"
definition SYS_FORK :: u64 where "SYS_FORK = 2"
definition SYS_SEND :: u64 where "SYS_SEND = 3"
definition SYS_RECV :: u64 where "SYS_RECV = 4"
definition SYS_WAIT :: u64 where "SYS_WAIT = 5"

text \<open>The two byte loops through a buffer on the kernel stack: read \<open>n\<close> bytes at a user address, write
  bytes to a user address, both in the current address space.\<close>

primrec read_user :: "nat \<Rightarrow> u64 \<Rightarrow> 'a machine_scheme \<Rightarrow> u8 list option" where
  "read_user 0 src s = Some []"
| "read_user (Suc n) src s = do { b \<leftarrow> vread8 s src; bs \<leftarrow> read_user n (src + 1) s; Some (b # bs) }"

fun write_user :: "u64 \<Rightarrow> u8 list \<Rightarrow> 'a machine_scheme \<Rightarrow> 'a machine_scheme option" where
  "write_user dst [] s = Some s"
| "write_user dst (b # bs) s = do { s \<leftarrow> vwrite8 dst b s; write_user (dst + 1) bs s }"

text \<open>A check against the page tables of a task. The code does not test \<open>pml4\<close> for NULL.\<close>

definition uva_check_task :: "nat \<Rightarrow> u64 \<Rightarrow> u64 \<Rightarrow> bool \<Rightarrow> 'a kernel_state_scheme \<Rightarrow> (bool \<times> 'a kernel_state_scheme) option" where
  "uva_check_task t uva n need_write s = do { p \<leftarrow> pml4 (tsk s t); uva_check_range p uva n need_write s }"

definition cstr :: "u8 list \<Rightarrow> string" where
  "cstr bs = map (\<lambda>b. char_of (unat b)) (takeWhile (\<lambda>b. b \<noteq> 0) bs)"

definition sys_fork :: "u64 \<Rightarrow> 'a kernel_state_scheme \<Rightarrow> (sys_out \<times> 'a kernel_state_scheme) option" where
  "sys_fork regs s =
     (case current_task s of
        None \<Rightarrow> Some (Returns (- 1), s)
      | Some c \<Rightarrow> do { (child, s) \<leftarrow> task_fork c regs s;
                       case child of
                         None \<Rightarrow> Some (Returns (- 1), s)
                       | Some child \<Rightarrow> Some (Returns (task_id (tsk s child)), s) })"

definition sys_write :: "u64 \<Rightarrow> u64 \<Rightarrow> 'a kernel_state_scheme \<Rightarrow> (sys_out \<times> 'a kernel_state_scheme) option" where
  "sys_write user_ptr n s =
     (let n = (if n > 255 then 255 else n) in
      case current_task s of
        None \<Rightarrow> do { s \<leftarrow> kprintf (''sys_write: no current task, rejecting'' @ [CHR 0x0A]) [] s;
                     Some (Returns (- 1), s) }
      | Some c \<Rightarrow>
          do { (ok, s) \<leftarrow> uva_check_task c user_ptr n False s;
               if \<not> ok then
                 do { s \<leftarrow> kprintf (''sys_write: invalid user pointer 0x%lx len=0x%lx, rejecting'' @ [CHR 0x0A]) [W user_ptr, W n] s;
                      Some (Returns (- 1), s) }
               else do { buf \<leftarrow> read_user (unat n) user_ptr s;
                         s \<leftarrow> kprintf ''%s'' [S (cstr buf)] s;
                         Some (Returns n, s) } })"

text \<open>The end of \<open>sys_send\<close> and \<open>sys_recv\<close>: block, and return \<open>ipc_len\<close> once the task runs again.\<close>

definition block_ipc :: "block_reason \<Rightarrow> u64 \<Rightarrow> u64 \<Rightarrow> u64 \<Rightarrow> 'a kernel_state_scheme \<Rightarrow> (sys_out \<times> 'a kernel_state_scheme) option" where
  "block_ipc reason peer buf n s =
     do { (back, s) \<leftarrow> task_block_and_switch reason peer buf n s;
          if back then do { c \<leftarrow> current_task s; Some (Returns (ipc_len (tsk s c)), s) }
          else Some (Suspends Return_ipc_len, s) }"

definition can_receive :: "nat \<Rightarrow> 'a kernel_state_scheme \<Rightarrow> nat \<Rightarrow> bool" where
  "can_receive c s t \<longleftrightarrow> state (tsk s t) = TASK_BLOCKED \<and> block_reason (tsk s t) = BLOCK_ON_RECV \<and>
     (ipc_peer (tsk s t) = IPC_ANY_SENDER \<or> ipc_peer (tsk s t) = task_id (tsk s c))"

text \<open>The branch of \<open>sys_send\<close> for a target that is waiting, entered with the table locked.\<close>

definition send_now :: "nat \<Rightarrow> u64 \<Rightarrow> u64 \<Rightarrow> u64 \<Rightarrow> 'a kernel_state_scheme \<Rightarrow> (sys_out \<times> 'a kernel_state_scheme) option" where
  "send_now target user_buf n f s =
     (let copy_len = (if n < ipc_len (tsk s target) then n else ipc_len (tsk s target)) in
      do { (ok, s) \<leftarrow> uva_check_task target (ipc_buf (tsk s target)) copy_len True s;
           if \<not> ok then
             do { s \<leftarrow> kprintf (''sys_send: target's recv buffer no longer valid'' @ [CHR 0x0A]) [] (task_table_lock_release f s);
                  Some (Returns (- 1), s) }
           else do {
             tmp \<leftarrow> read_user (unat copy_len) user_buf s;
             p \<leftarrow> pml4 (tsk s target);
             let sender_pml4 = get_current_pml4 s;
                 s = vmm_switch_address_space p s
             in do { s \<leftarrow> write_user (ipc_buf (tsk s target)) tmp s;
                     let s = vmm_switch_address_space sender_pml4 s;
                         s = task_wake target s
                     in Some (Returns copy_len, task_table_lock_release f s) } } })"

definition sys_send :: "u64 \<Rightarrow> u64 \<Rightarrow> u64 \<Rightarrow> 'a kernel_state_scheme \<Rightarrow> (sys_out \<times> 'a kernel_state_scheme) option" where
  "sys_send target_id user_buf n s =
     (case current_task s of None \<Rightarrow> Some (Returns (- 1), s) | Some c \<Rightarrow>
      let n = (if n > 256 then 256 else n) in
      do { (ok, s) \<leftarrow> uva_check_task c user_buf n False s;
           if \<not> ok then
             do { s \<leftarrow> kprintf (''sys_send: invalid source pointer 0x%lx len=0x%lx'' @ [CHR 0x0A]) [W user_buf, W n] s;
                  Some (Returns (- 1), s) }
           else do {
             (target, s) \<leftarrow> task_find_by_id target_id s;
             case target of
               None \<Rightarrow> do { s \<leftarrow> kprintf (''sys_send: no such task_id=%ld'' @ [CHR 0x0A]) [W target_id] s;
                            Some (Returns (- 1), s) }
             | Some target \<Rightarrow> do {
                 (f, s) \<leftarrow> task_table_lock_acquire s;
                 if can_receive c s target then send_now target user_buf n f s
                 else block_ipc BLOCK_ON_SEND target_id user_buf n (task_table_lock_release f s) } } })"

definition recv_from :: "u64 \<Rightarrow> u64 \<Rightarrow> u64 \<Rightarrow> nat \<Rightarrow> nat \<Rightarrow> 'a kernel_state_scheme \<Rightarrow>
    ('a kernel_state_scheme, u64 \<times> 'a kernel_state_scheme) flow option" where
  "recv_from from_id user_buf n c i s =
     (let sender = tsk s i in
      if state sender \<noteq> TASK_BLOCKED then Some (Next s)
      else if block_reason sender \<noteq> BLOCK_ON_SEND then Some (Next s)
      else if ipc_peer sender \<noteq> task_id (tsk s c) then Some (Next s)
      else if from_id \<noteq> IPC_ANY_SENDER \<and> task_id sender \<noteq> from_id then Some (Next s)
      else let copy_len = (if n < ipc_len sender then n else ipc_len sender) in
        do { (ok, s) \<leftarrow> uva_check_task i (ipc_buf sender) copy_len False s;
             if \<not> ok then Some (Next s)
             else do {
               p \<leftarrow> pml4 sender;
               let receiver_pml4 = get_current_pml4 s;
                   s = vmm_switch_address_space p s
               in do { tmp \<leftarrow> read_user (unat copy_len) (ipc_buf sender) s;
                       s \<leftarrow> write_user user_buf tmp (vmm_switch_address_space receiver_pml4 s);
                       let s = upd_task i (ipc_len_update (\<lambda>_. copy_len)) s;
                           s = task_wake i s
                       in Some (Ret (copy_len, s)) } } })"

definition sys_recv :: "u64 \<Rightarrow> u64 \<Rightarrow> u64 \<Rightarrow> 'a kernel_state_scheme \<Rightarrow> (sys_out \<times> 'a kernel_state_scheme) option" where
  "sys_recv from_id user_buf n s =
     (case current_task s of None \<Rightarrow> Some (Returns (- 1), s) | Some c \<Rightarrow>
      let n = (if n > 256 then 256 else n) in
      do { (ok, s) \<leftarrow> uva_check_task c user_buf n True s;
           if \<not> ok then
             do { s \<leftarrow> kprintf (''sys_recv: invalid destination pointer 0x%lx len=0x%lx'' @ [CHR 0x0A]) [W user_buf, W n] s;
                  Some (Returns (- 1), s) }
           else do {
      (f, s) \<leftarrow> task_table_lock_acquire s;
      r \<leftarrow> foreach (recv_from from_id user_buf n c) [0..<task_table_size] s;
      case r of
        Ret (copy_len, s) \<Rightarrow> Some (Returns copy_len, task_table_lock_release f s)
      | Next s \<Rightarrow> block_ipc BLOCK_ON_RECV from_id user_buf n (task_table_lock_release f s) } })"

definition waits_for :: "nat \<Rightarrow> 'a kernel_state_scheme \<Rightarrow> nat \<Rightarrow> bool" where
  "waits_for c s i \<longleftrightarrow> state (tsk s i) = TASK_BLOCKED \<and> block_reason (tsk s i) = BLOCK_ON_WAIT \<and>
     task_id (tsk s i) = parent_id (tsk s c) \<and>
     (ipc_peer (tsk s i) = IPC_ANY_SENDER \<or> ipc_peer (tsk s i) = task_id (tsk s c))"

definition sys_exit :: "u64 \<Rightarrow> 'a kernel_state_scheme \<Rightarrow> (sys_out \<times> 'a kernel_state_scheme) option" where
  "sys_exit code s =
     do { s \<leftarrow> kprintf ([CHR 0x0A] @ ''user program exited with code=%ld'' @ [CHR 0x0A]) [W code] s;
          s \<leftarrow> (case current_task s of
                  None \<Rightarrow> Some s
                | Some c \<Rightarrow>
                    let s = upd_task c (\<lambda>x. x\<lparr>exit_code := code, state := TASK_DEAD\<rparr>) s in
                    do { (f, s) \<leftarrow> task_table_lock_acquire s;
                         let s = (case find (waits_for c s) [0..<task_table_size] of
                                    None \<Rightarrow> s | Some t \<Rightarrow> task_wake t s)
                         in Some (task_table_lock_release f s) });
          Some (Exits, s\<lparr>rflags := rflags s OR IF_FLAG\<rparr>) }"

text \<open>The loop at the end of \<open>sys_exit\<close>: the processor halts until the timer interrupts it, and the handler comes back to the loop
  unless it has switched to another task.\<close>

partial_function (option) exit_loop :: "'a kernel_state_scheme \<Rightarrow> 'a kernel_state_scheme option" where
  "exit_loop s = Option.bind (timer_isr s) (\<lambda>s'. if current_task s' = current_task s then exit_loop s' else Some s')"

declare exit_loop.simps [code]

definition child_of :: "u64 \<Rightarrow> nat \<Rightarrow> 'a kernel_state_scheme \<Rightarrow> nat \<Rightarrow> bool" where
  "child_of child_id c s i \<longleftrightarrow> state (tsk s i) \<noteq> TASK_UNUSED \<and> parent_id (tsk s i) = task_id (tsk s c) \<and>
     (child_id = IPC_ANY_SENDER \<or> task_id (tsk s i) = child_id)"

partial_function (option) sys_wait :: "u64 \<Rightarrow> 'a kernel_state_scheme \<Rightarrow> (sys_out \<times> 'a kernel_state_scheme) option" where
  "sys_wait child_id s =
     (case current_task s of None \<Rightarrow> Some (Returns (- 1), s) | Some c \<Rightarrow>
      Option.bind (task_table_lock_acquire s) (\<lambda>(f, s).
      case find (\<lambda>i. child_of child_id c s i \<and> state (tsk s i) = TASK_DEAD) [0..<task_table_size] of
        Some t \<Rightarrow>
          let ec = exit_code (tsk s t); tid = task_id (tsk s t)
          in Option.bind (task_destroy (Some t) (task_table_lock_release f s)) (\<lambda>s.
             Option.bind (kprintf (''sys_wait: reaped child task_id=%ld exit_code=%ld'' @ [CHR 0x0A]) [W tid, W ec] s) (\<lambda>s.
             Some (Returns tid, s)))
      | None \<Rightarrow>
          Option.bind (task_table_lock_acquire (task_table_lock_release f s)) (\<lambda>(f, s).
          let have_child = (find (child_of child_id c s) [0..<task_table_size] \<noteq> None);
              s = task_table_lock_release f s
          in if \<not> have_child then Some (Returns (- 1), s)
             else Option.bind (task_block_and_switch BLOCK_ON_WAIT child_id 0 0 s) (\<lambda>(back, s).
                  if back then sys_wait child_id s else Some (Suspends (Retry_wait child_id), s)))))"

declare sys_wait.simps [code]

definition resume :: "kont \<Rightarrow> 'a kernel_state_scheme \<Rightarrow> (sys_out \<times> 'a kernel_state_scheme) option" where
  "resume k s =
     (case k of
        Return_ipc_len \<Rightarrow> do { c \<leftarrow> current_task s; Some (Returns (ipc_len (tsk s c)), s) }
      | Retry_wait child_id \<Rightarrow> sys_wait child_id s)"

definition finish :: "u64 \<Rightarrow> (sys_out \<times> 'a kernel_state_scheme) \<Rightarrow> (sys_out \<times> 'a kernel_state_scheme)" where
  "finish regs r = (case r of (Returns v, s) \<Rightarrow> (Returns v, hwrite64 regs v s) | r \<Rightarrow> r)"

definition syscall_dispatch :: "u64 \<Rightarrow> 'a kernel_state_scheme \<Rightarrow> (sys_out \<times> 'a kernel_state_scheme) option" where
  "syscall_dispatch regs s =
     (let rax = hread64 s regs; rdi = hread64 s (regs + 40); rsi = hread64 s (regs + 32); rdx = hread64 s (regs + 24) in
      do { r \<leftarrow> (if rax = SYS_WRITE then sys_write rdi rsi s
                 else if rax = SYS_EXIT then sys_exit rdi s
                 else if rax = SYS_FORK then sys_fork regs s
                 else if rax = SYS_SEND then sys_send rdi rsi rdx s
                 else if rax = SYS_RECV then sys_recv rdi rsi rdx s
                 else if rax = SYS_WAIT then sys_wait rdi s
                 else do { s \<leftarrow> kprintf (''syscall_dispatch: unknown syscall %ld'' @ [CHR 0x0A]) [W rax] s;
                           Some (Returns (- 1), s) });
           Some (finish regs r) })"

section \<open>Every system call keeps the task table\<close>

definition upto_lock :: "'a kernel_state_scheme \<Rightarrow> 'a kernel_state_scheme \<Rightarrow> bool" where
  "upto_lock s s' \<longleftrightarrow> task_table s' = task_table s \<and> task_free_list s' = task_free_list s \<and>
     current_task s' = current_task s \<and> idle_task s' = idle_task s \<and> console_ok s' = console_ok s"

lemma upto_lock_refl [simp]: "upto_lock s s"
  by (simp add: upto_lock_def)

lemma upto_lock_trans [trans]: "upto_lock s t \<Longrightarrow> upto_lock t u \<Longrightarrow> upto_lock s u"
  by (simp add: upto_lock_def)

lemma upto_lock_quiet: "quiet s s' \<Longrightarrow> upto_lock s s'"
  using quiet_same_tasks [of s s'] by (simp add: same_tasks_def upto_lock_def)

lemma upto_lock_switch [simp]: "upto_lock s (vmm_switch_address_space p s)"
  by (simp add: upto_lock_def vmm_switch_address_space_def Let_def console_ok_def uart_live_def)

lemma acquire_upto_lock: "task_table_lock_acquire s = Some (f, s') \<Longrightarrow> locks s task_table_lock = 0 \<and> upto_lock s s'"
  by (cases "locks s task_table_lock = 0")
    (auto simp: task_table_lock_acquire_def upto_lock_def console_ok_def uart_live_def)

lemma tasks_ok_cong:
  assumes "task_table s' = task_table s" "task_free_list s' = task_free_list s" "current_task s' = current_task s"
    "idle_task s' = idle_task s" "locks s' task_table_lock = locks s task_table_lock" "console_ok s' = console_ok s"
  shows "tasks_ok T s' = tasks_ok T s"
  by (simp add: tasks_ok_def table_inv_def run_inv_def assms)

lemma release_fields [simp]:
  "task_table (task_table_lock_release f s) = task_table s" "task_free_list (task_table_lock_release f s) = task_free_list s"
  "current_task (task_table_lock_release f s) = current_task s" "idle_task (task_table_lock_release f s) = idle_task s"
  "locks (task_table_lock_release f s) task_table_lock = 0" "console_ok (task_table_lock_release f s) = console_ok s"
  by (simp_all add: task_table_lock_release_def console_ok_def uart_live_def)

lemma release_ok: "tasks_ok T s \<Longrightarrow> upto_lock s s' \<Longrightarrow> tasks_ok T (task_table_lock_release f s')"
  using tasks_ok_cong [of "task_table_lock_release f s'" s T] tasks_okD(2) [of T s] by (simp add: upto_lock_def)

lemma release_upd: "task_table_lock_release f (upd_task i g s) = upd_task i g (task_table_lock_release f s)"
  by (rule kernel_state.equality) (simp_all add: task_table_lock_release_def upd_task_def)

lemma release_acquired:
  assumes "task_table_lock_acquire s = Some (f, s')"
  shows "task_table_lock_release f s' = s"
  using assms by (cases "locks s task_table_lock = 0")
    (auto simp: task_table_lock_acquire_def task_table_lock_release_def)

lemma write_user_quiet: "write_user d bs s = Some s' \<Longrightarrow> quiet s s'"
  by (induction d bs s rule: write_user.induct) (auto split: bind_splits dest!: vwrite8_quiet, meson quiet_trans)

lemma uva_check_task_pure: "uva_check_task t uva n w s = Some (b, s') \<Longrightarrow> s' = s"
  by (auto simp: uva_check_task_def split: bind_splits dest: uva_check_range_pure)

lemma find_by_id_spec:
  assumes "locks s task_table_lock = 0"
  shows "task_find_by_id tid s =
    Some (find (\<lambda>i. state (tsk s i) \<noteq> TASK_UNUSED \<and> task_id (tsk s i) = tid) [0..<MAX_TASKS], s)"
  using assms by (simp add: task_find_by_id_def task_table_size_def Let_def)

lemma task_wake_ok:
  assumes "tasks_ok {} s" "t < MAX_TASKS" "state (tsk s t) \<noteq> TASK_UNUSED"
  shows "tasks_ok {} (task_wake t s)"
  unfolding task_wake_def using assms by (intro tasks_ok_change) (simp_all add: link_safe_def)

lemma sys_fork_ok: "tasks_ok {} s \<Longrightarrow> sys_fork regs s = Some (r, s') \<Longrightarrow> tasks_ok {} s'"
  by (auto simp: sys_fork_def split: option.splits bind_splits dest: task_fork_ok)

lemma sys_write_ok: "tasks_ok {} s \<Longrightarrow> sys_write p n s = Some (r, s') \<Longrightarrow> tasks_ok {} s'"
  by (auto simp: sys_write_def Let_def split: option.splits bind_splits if_splits
      dest!: uva_check_task_pure intro: tasks_ok_kprintf)

lemma block_ipc_ok: "tasks_ok {} s \<Longrightarrow> block_ipc reason peer buf n s = Some (r, s') \<Longrightarrow> tasks_ok {} s'"
  by (auto simp: block_ipc_def split: bind_splits if_splits dest: block_and_switch_ok)

lemma wake_released:
  assumes ok: "tasks_ok {} s" and up: "upto_lock s s1" and t: "t < MAX_TASKS" "state (tsk s t) \<noteq> TASK_UNUSED"
  shows "tasks_ok {} (task_table_lock_release f (task_wake t s1))"
proof -
  let ?s2 = "task_table_lock_release f s1"
  have "tasks_ok {} ?s2" by (rule release_ok [OF ok up])
  moreover have "task_table ?s2 = task_table s" using up by (simp add: upto_lock_def)
  ultimately show ?thesis using task_wake_ok [of ?s2 t] t unfolding task_wake_def release_upd by simp
qed

lemma upto_lock_copied:
  assumes "upto_lock s s1" "write_user d tmp (vmm_switch_address_space p s1) = Some w"
  shows "upto_lock s (vmm_switch_address_space q w)"
  using assms(1) upto_lock_switch upto_lock_quiet [OF write_user_quiet [OF assms(2)]] by (meson upto_lock_trans)

lemma send_now_ok:
  assumes ok: "tasks_ok {} s" and L: "task_table_lock_acquire s = Some (f, s1)"
    and t: "t < MAX_TASKS" "state (tsk s t) \<noteq> TASK_UNUSED" and run: "send_now t buf n f s1 = Some (r, s')"
  shows "tasks_ok {} s'"
proof -
  note U = acquire_upto_lock [OF L, THEN conjunct2]
  define m where "m = (if n < ipc_len (tsk s1 t) then n else ipc_len (tsk s1 t))"
  obtain b where chk: "uva_check_task t (ipc_buf (tsk s1 t)) m True s1 = Some (b, s1)"
    using run uva_check_task_pure by (fastforce simp: send_now_def m_def [symmetric] split: bind_splits)
  show ?thesis
  proof (cases b)
    case False
    then show ?thesis
      using run chk release_acquired [OF L]
      by (auto simp: send_now_def m_def [symmetric] split: bind_splits intro: tasks_ok_kprintf [OF ok])
  next
    case True
    then show ?thesis
      using run chk
      by (auto simp: send_now_def m_def [symmetric] Let_def split: bind_splits intro: wake_released [OF ok upto_lock_copied [OF U] t])
  qed
qed

lemma sys_send_ok:
  assumes ok: "tasks_ok {} s" and run: "sys_send tid buf n s = Some (r, s')"
  shows "tasks_ok {} s'"
proof (cases "current_task s")
  case None
  then show ?thesis using ok run by (simp add: sys_send_def)
next
  case (Some c)
  define m where "m = (if n > 256 then 256 else n)"
  note lk = tasks_okD(2) [OF ok]
  define fd where "fd = find (\<lambda>i. state (tsk s i) \<noteq> TASK_UNUSED \<and> task_id (tsk s i) = tid) [0..<MAX_TASKS]"
  note F = find_by_id_spec [OF lk, of tid, folded fd_def]
  have t: "t < MAX_TASKS" "state (tsk s t) \<noteq> TASK_UNUSED" if "fd = Some t" for t
    using that by (auto simp: fd_def find_Some_iff)
  obtain f s1 where L: "task_table_lock_acquire s = Some (f, s1)"
    using lk by (auto simp: task_table_lock_acquire_def)
  obtain b where chk: "uva_check_task c buf m False s = Some (b, s)"
    using run Some uva_check_task_pure by (fastforce simp: sys_send_def m_def [symmetric] split: bind_splits)
  show ?thesis
    using run Some chk F L release_acquired [OF L] t
    by (auto simp: sys_send_def m_def [symmetric] split: bind_splits if_splits option.splits
        intro: tasks_ok_kprintf [OF ok] send_now_ok [OF ok L] block_ipc_ok [OF ok])
qed

lemma recv_from_next: "recv_from from_id buf n c i s = Some (Next s') \<Longrightarrow> s' = s"
  by (auto simp: recv_from_def Let_def split: if_splits bind_splits dest: uva_check_task_pure)

lemma recv_from_ret:
  assumes "recv_from from_id buf n c i s = Some (Ret (m, s'))"
  obtains w where "upto_lock s w" "state (tsk s i) = TASK_BLOCKED" "s' = task_wake i (upd_task i (ipc_len_update (\<lambda>_. m)) w)"
proof -
  obtain d tmp p q w where "write_user d tmp (vmm_switch_address_space q (vmm_switch_address_space p s)) = Some w"
    "state (tsk s i) = TASK_BLOCKED" "s' = task_wake i (upd_task i (ipc_len_update (\<lambda>_. m)) w)"
    using assms by (auto simp: recv_from_def Let_def split: if_splits bind_splits dest!: uva_check_task_pure)
  moreover have "upto_lock s w"
    using upto_lock_quiet [OF write_user_quiet [OF calculation(1)]] upto_lock_switch by (meson upto_lock_trans)
  ultimately show thesis using that by blast
qed

lemma foreach_search:
  assumes "\<And>i s s'. f i s = Some (Next s') \<Longrightarrow> s' = s" "foreach f xs s = Some r"
  shows "r = Next s \<or> (\<exists>i \<in> set xs. \<exists>x. f i s = Some (Ret x) \<and> r = Ret x)"
  using assms(2) by (induction xs) (auto split: option.splits flow.splits dest!: assms(1))

lemma sys_recv_ok:
  assumes ok: "tasks_ok {} s" and run: "sys_recv from_id buf n s = Some (r, s')"
  shows "tasks_ok {} s'"
proof (cases "current_task s")
  case None
  then show ?thesis using ok run by (simp add: sys_recv_def)
next
  case (Some c)
  define m where "m = (if n > 256 then 256 else n)"
  obtain f s1 where L: "task_table_lock_acquire s = Some (f, s1)"
    using tasks_okD(2) [OF ok] by (auto simp: task_table_lock_acquire_def)
  note U = acquire_upto_lock [OF L, THEN conjunct2]
  obtain b where chk: "uva_check_task c buf m True s = Some (b, s)"
    using run Some uva_check_task_pure by (fastforce simp: sys_recv_def m_def [symmetric] split: bind_splits)
  show ?thesis
  proof (cases b)
    case False
    then show ?thesis
      using run Some chk by (auto simp: sys_recv_def m_def [symmetric] split: bind_splits intro: tasks_ok_kprintf [OF ok])
  next
    case True
    then obtain x where x: "foreach (recv_from from_id buf m c) [0..<task_table_size] s1 = Some x"
      using run Some chk L by (auto simp: sys_recv_def m_def [symmetric] split: bind_splits)
    have "x = Next s1 \<or> (\<exists>i \<in> set [0..<task_table_size]. \<exists>y. recv_from from_id buf m c i s1 = Some (Ret y) \<and> x = Ret y)"
      by (rule foreach_search [OF _ x]) (erule recv_from_next)
    then show ?thesis
    proof (elim disjE bexE exE conjE)
      assume "x = Next s1"
      then show ?thesis
        using run Some chk True L x release_acquired [OF L]
        by (auto simp: sys_recv_def m_def [symmetric] intro: block_ipc_ok [OF ok])
    next
      fix i y assume i: "i \<in> set [0..<task_table_size]" "recv_from from_id buf m c i s1 = Some (Ret y)" "x = Ret y"
      obtain k s2 where y: "y = (k, s2)" by fastforce
      obtain w where w: "upto_lock s1 w" "state (tsk s1 i) = TASK_BLOCKED" "s2 = task_wake i (upd_task i (ipc_len_update (\<lambda>_. k)) w)"
        using recv_from_ret i(2) y by metis
      have up: "upto_lock s w" by (rule upto_lock_trans [OF U w(1)])
      have im: "i < MAX_TASKS" using i(1) by (simp add: task_table_size_def)
      have ti: "tsk (task_table_lock_release f w) i = tsk s i" "state (tsk s i) = TASK_BLOCKED"
        using up U w(2) by (simp_all add: upto_lock_def)
      have "tasks_ok {} (upd_task i (ipc_len_update (\<lambda>_. k)) (task_table_lock_release f w))"
        using ti im by (intro tasks_ok_change [OF release_ok [OF ok up]]) (simp_all add: link_safe_def)
      moreover have "state (tsk (upd_task i (ipc_len_update (\<lambda>_. k)) (task_table_lock_release f w)) i) \<noteq> TASK_UNUSED"
        using ti im tasks_okD(1) [OF release_ok [OF ok up]] by simp
      ultimately have "tasks_ok {} (task_table_lock_release f s2)"
        using task_wake_ok [OF _ im] unfolding w(3) task_wake_def release_upd by blast
      then show ?thesis using run Some chk True L x i(3) y by (auto simp: sys_recv_def m_def [symmetric])
    qed
  qed
qed

lemma sys_exit_ok:
  assumes ok: "tasks_ok {} s" and run: "sys_exit code s = Some (r, s')"
  shows "tasks_ok {} s'"
proof -
  have sti: "tasks_ok {} (t\<lparr>rflags := v\<rparr>) = tasks_ok {} t" for t :: "'a kernel_state_scheme" and v
    by (rule tasks_ok_cong) (simp_all add: console_ok_def uart_live_def)
  obtain s0 where s0: "kprintf ([CHR 0x0A] @ ''user program exited with code=%ld'' @ [CHR 0x0A]) [W code] s = Some s0"
    using run unfolding sys_exit_def by (auto split: bind_splits)
  note ok0 = tasks_ok_kprintf [OF ok s0]
  show ?thesis
  proof (cases "current_task s0")
    case None
    then show ?thesis using run ok0 unfolding sys_exit_def s0 by (auto simp: sti)
  next
    case (Some c)
    define s1 where "s1 = upd_task c (\<lambda>x. x\<lparr>exit_code := code, state := TASK_DEAD\<rparr>) s0"
    have c: "c < MAX_TASKS" "state (tsk s0 c) \<noteq> TASK_UNUSED" using run_invD(2) [OF tasks_okD(3) [OF ok0] Some] by blast+
    have ok1: "tasks_ok {} s1" unfolding s1_def using c by (intro tasks_ok_change [OF ok0]) (simp_all add: link_safe_def)
    obtain f s2 where L: "task_table_lock_acquire s1 = Some (f, s2)"
      using tasks_okD(2) [OF ok1] by (auto simp: task_table_lock_acquire_def)
    note U = acquire_upto_lock [OF L, THEN conjunct2]
    have t2: "task_table s2 = task_table s1" using U by (simp add: upto_lock_def)
    define g where "g = find (waits_for c s2) [0..<task_table_size]"
    have "tasks_ok {} (task_table_lock_release f (case g of None \<Rightarrow> s2 | Some t \<Rightarrow> task_wake t s2))"
    proof (cases g)
      case None
      then show ?thesis using release_ok [OF ok1 U] by simp
    next
      case (Some t)
      then have "t < MAX_TASKS" "state (tsk s1 t) \<noteq> TASK_UNUSED"
        using t2 by (auto simp: g_def find_Some_iff waits_for_def task_table_size_def)
      then show ?thesis using Some wake_released [OF ok1 U] by simp
    qed
    then show ?thesis
      using run Some L unfolding sys_exit_def s0 by (auto simp: s1_def [symmetric] g_def [symmetric] Let_def sti)
  qed
qed

lemma block_back:
  assumes ok: "tasks_ok {} s" and run: "task_block_and_switch reason peer buf n s = Some (True, s')"
  obtains c where "current_task s = Some c" "current_task s' = Some c" "state (tsk s' c) = TASK_BLOCKED"
proof -
  obtain c where c: "current_task s = Some c" using run by (auto simp: task_block_and_switch_def split: bind_splits)
  have cm: "c < MAX_TASKS" using run_invD(2) [OF tasks_okD(3) [OF ok] c] by blast
  let ?s1 = "upd_task c (\<lambda>x. x\<lparr>state := TASK_BLOCKED, block_reason := reason, ipc_peer := peer, ipc_buf := buf, ipc_len := n\<rparr>) s"
  have lk: "locks s task_table_lock = 0" by (rule tasks_okD(2) [OF ok])
  have eq: "spinlock_release task_table_lock (rflags s) (upd_task c (\<lambda>x. x\<lparr>state := TASK_BLOCKED, block_reason := reason, ipc_peer := peer, ipc_buf := buf, ipc_len := n\<rparr>)
      (s\<lparr>rflags := rflags s AND NOT IF_FLAG, locks := (locks s)(task_table_lock := 1)\<rparr>)) = ?s1"
    using lk by (simp add: upd_task_def)
  have P: "scheduler_pick_next (Some c) ?s1 = Some (Some (pick ?s1 c), ?s1)" by (rule pick_next_pick) (use lk cm in simp_all)
  have "s' = ?s1"
    using run c lk eq P by (auto simp: task_block_and_switch_def Let_def simp del: spinlock_release_simp split: bind_splits if_splits)
  then show thesis using that [of c] c cm tasks_okD(1) [OF ok] by simp
qed

definition alive :: "'a kernel_state_scheme \<Rightarrow> bool" where
  "alive s \<longleftrightarrow> (\<forall>c. current_task s = Some c \<longrightarrow> state (tsk s c) \<noteq> TASK_DEAD)"

lemma of_nat_minus_one: "i < MAX_TASKS \<Longrightarrow> (of_nat i :: u64) \<noteq> - 1"
proof
  assume i: "i < MAX_TASKS" and "(of_nat i :: u64) = - 1"
  then have "unat (of_nat i :: u64) = unat (- 1 :: u64)" by simp
  then show False using i by (simp add: unat_of_nat MAX_TASKS_def)
qed

lemma reap_ok:
  assumes ok: "tasks_ok {} s" "alive s" and c: "current_task s = Some c"
    and t: "t < MAX_TASKS" "child_of cid c s t" "state (tsk s t) = TASK_DEAD" and run: "task_destroy (Some t) s = Some s'"
  shows "tasks_ok {} s'"
proof (rule task_destroy_ok [OF ok(1) t(1) _ _ run])
  show "current_task s \<noteq> Some t" using ok(2) t(3) by (auto simp: alive_def)
  have "c < MAX_TASKS" using run_invD(2) [OF tasks_okD(3) [OF ok(1)] c] by blast
  then have "parent_id (tsk s t) \<noteq> - 1"
    using t(2) tasks_okD(6) [OF ok(1)] of_nat_minus_one by (simp add: child_of_def)
  then show "idle_task s \<noteq> Some t" using run_invD(3) [OF tasks_okD(3) [OF ok(1)]] by blast
qed

definition wait_body :: "(u64 \<Rightarrow> 'a kernel_state_scheme \<Rightarrow> (sys_out \<times> 'a kernel_state_scheme) option) \<Rightarrow>
    u64 \<Rightarrow> 'a kernel_state_scheme \<Rightarrow> (sys_out \<times> 'a kernel_state_scheme) option" where
  "wait_body again child_id s =
     (case current_task s of None \<Rightarrow> Some (Returns (- 1), s) | Some c \<Rightarrow>
      (case find (\<lambda>i. child_of child_id c s i \<and> state (tsk s i) = TASK_DEAD) [0..<MAX_TASKS] of
        Some t \<Rightarrow>
          do { s1 \<leftarrow> task_destroy (Some t) s;
               s2 \<leftarrow> kprintf (''sys_wait: reaped child task_id=%ld exit_code=%ld'' @ [CHR 0x0A])
                       [W (task_id (tsk s t)), W (exit_code (tsk s t))] s1;
               Some (Returns (task_id (tsk s t)), s2) }
      | None \<Rightarrow>
          if find (child_of child_id c s) [0..<MAX_TASKS] = None then Some (Returns (- 1), s)
          else do { (back, s) \<leftarrow> task_block_and_switch BLOCK_ON_WAIT child_id 0 0 s;
                    if back then again child_id s else Some (Suspends (Retry_wait child_id), s) }))"

lemma child_of_cong: "task_table s' = task_table s \<Longrightarrow> child_of cid c s' = child_of cid c s"
  by (simp add: child_of_def [abs_def])

lemma sys_wait_body:
  assumes "locks s task_table_lock = 0"
  shows "sys_wait cid s = wait_body sys_wait cid s"
proof -
  obtain f s1 where L: "task_table_lock_acquire s = Some (f, s1)" using assms by (auto simp: task_table_lock_acquire_def)
  have t1: "task_table s1 = task_table s" using acquire_upto_lock [OF L] by (simp add: upto_lock_def)
  show ?thesis
    by (subst sys_wait.simps)
      (simp add: wait_body_def L release_acquired [OF L] t1 child_of_cong [OF t1] task_table_size_def Let_def cong: option.case_cong if_cong)
qed

lemma wait_body_ok:
  assumes IH: "\<And>s y. again cid s = Some y \<Longrightarrow> tasks_ok {} s \<Longrightarrow> alive s \<Longrightarrow> tasks_ok {} (snd y)"
    and ok: "tasks_ok {} s" "alive s" and body: "wait_body again cid s = Some y"
  shows "tasks_ok {} (snd y)"
proof (cases "current_task s")
  case None
  then show ?thesis using body ok by (auto simp: wait_body_def)
next
  case (Some c)
  show ?thesis
  proof (cases "find (\<lambda>i. child_of cid c s i \<and> state (tsk s i) = TASK_DEAD) [0..<MAX_TASKS]")
    case (Some t)
    then have t: "t < MAX_TASKS" "child_of cid c s t" "state (tsk s t) = TASK_DEAD" by (auto simp: find_Some_iff)
    then show ?thesis
      using body Some \<open>current_task s = Some c\<close> reap_ok [OF ok \<open>current_task s = Some c\<close> t]
      by (auto simp: wait_body_def split: bind_splits dest: tasks_ok_kprintf)
  next
    case None
    show ?thesis
    proof (cases "find (child_of cid c s) [0..<MAX_TASKS] = None")
      case True
      then show ?thesis using body None \<open>current_task s = Some c\<close> ok by (auto simp: wait_body_def)
    next
      case False
      then obtain bk s2 where b: "task_block_and_switch BLOCK_ON_WAIT cid 0 0 s = Some (bk, s2)"
        and y: "Some y = (if bk then again cid s2 else Some (Suspends (Retry_wait cid), s2))"
        using body None \<open>current_task s = Some c\<close> by (auto simp: wait_body_def split: bind_splits)
      have ok2: "tasks_ok {} s2" by (rule block_and_switch_ok [OF ok(1) b])
      show ?thesis
      proof (cases bk)
        case True
        then have "task_block_and_switch BLOCK_ON_WAIT cid 0 0 s = Some (True, s2)" using b by simp
        then obtain d where "current_task s2 = Some d" "state (tsk s2 d) = TASK_BLOCKED"
          using block_back [OF ok(1)] by metis
        then have "alive s2" by (simp add: alive_def)
        then show ?thesis using IH [OF _ ok2] y True by simp
      qed (use y ok2 in simp)
    qed
  qed
qed

lemma sys_wait_induct [consumes 2, case_names step]:
  assumes "sys_wait cid s = Some y" "locks s task_table_lock = 0"
    and step: "\<And>again cid s y. (\<And>cid s y. again cid s = Some y \<Longrightarrow> locks s task_table_lock = 0 \<Longrightarrow> P cid s y) \<Longrightarrow>
      locks s task_table_lock = 0 \<Longrightarrow> wait_body again cid s = Some y \<Longrightarrow> P cid s y"
  shows "P cid s y"
proof -
  have "locks s task_table_lock = 0 \<longrightarrow> P cid s y"
  proof (rule sys_wait.raw_induct [where P = "\<lambda>cid s y. locks s task_table_lock = 0 \<longrightarrow> P cid s y", OF _ assms(1)])
    fix again :: "u64 \<Rightarrow> 'a kernel_state_scheme \<Rightarrow> (sys_out \<times> 'a kernel_state_scheme) option" and cid s y
    assume IH: "\<And>cid s y. again cid s = Some y \<Longrightarrow> locks s task_table_lock = 0 \<longrightarrow> P cid s y"
      and run: "(case current_task s of None \<Rightarrow> Some (Returns (- 1), s) | Some c \<Rightarrow>
      Option.bind (task_table_lock_acquire s) (\<lambda>(f, s).
      case find (\<lambda>i. child_of cid c s i \<and> state (tsk s i) = TASK_DEAD) [0..<task_table_size] of
        Some t \<Rightarrow>
          let ec = exit_code (tsk s t); tid = task_id (tsk s t)
          in Option.bind (task_destroy (Some t) (task_table_lock_release f s)) (\<lambda>s.
             Option.bind (kprintf (''sys_wait: reaped child task_id=%ld exit_code=%ld'' @ [CHR 0x0A]) [W tid, W ec] s) (\<lambda>s.
             Some (Returns tid, s)))
      | None \<Rightarrow>
          Option.bind (task_table_lock_acquire (task_table_lock_release f s)) (\<lambda>(f, s).
          let have_child = (find (child_of cid c s) [0..<task_table_size] \<noteq> None);
              s = task_table_lock_release f s
          in if \<not> have_child then Some (Returns (- 1), s)
             else Option.bind (task_block_and_switch BLOCK_ON_WAIT cid 0 0 s) (\<lambda>(back, s).
                  if back then again cid s else Some (Suspends (Retry_wait cid), s))))) = Some y"
    show "locks s task_table_lock = 0 \<longrightarrow> P cid s y"
    proof
      assume lk: "locks s task_table_lock = 0"
      obtain f s1 where L: "task_table_lock_acquire s = Some (f, s1)" using lk by (auto simp: task_table_lock_acquire_def)
      have t1: "task_table s1 = task_table s" using acquire_upto_lock [OF L] by (simp add: upto_lock_def)
      have "wait_body again cid s = Some y"
        using run by (simp add: wait_body_def L release_acquired [OF L] t1 child_of_cong [OF t1] task_table_size_def Let_def
            cong: option.case_cong if_cong)
      then show "P cid s y" using step [of again s cid y] IH lk by blast
    qed
  qed
  then show ?thesis using assms(2) by blast
qed

lemma sys_wait_ok:
  assumes "sys_wait cid s = Some y" "tasks_ok {} s" "alive s"
  shows "tasks_ok {} (snd y)"
  using assms(1) tasks_okD(2) [OF assms(2)] assms(2,3)
proof (induction rule: sys_wait_induct)
  case (step again cid s y)
  show ?case by (rule wait_body_ok [OF step.IH step.prems step.hyps(2)]) (use tasks_okD(2) in auto)
qed

lemma finish_ok: "tasks_ok {} (snd r) \<Longrightarrow> tasks_ok {} (snd (finish regs r))"
  using tasks_ok_quiet [OF quiet_hwrite(1)] by (cases r; cases "fst r") (auto simp: finish_def)

lemma syscall_dispatch_ok:
  assumes "tasks_ok {} s" "alive s" "syscall_dispatch regs s = Some (r, s')"
  shows "tasks_ok {} s'"
proof -
  obtain r0 s0 where r0: "finish regs (r0, s0) = (r, s')" and "tasks_ok {} s0"
    using assms(3)
    by (auto simp: syscall_dispatch_def Let_def split: bind_splits if_splits
        dest: sys_write_ok [OF assms(1)] sys_exit_ok [OF assms(1)] sys_fork_ok [OF assms(1)] sys_send_ok [OF assms(1)]
          sys_recv_ok [OF assms(1)] sys_wait_ok [OF _ assms(1,2)] tasks_ok_kprintf [OF assms(1)])
  then show ?thesis using finish_ok [of "(r0, s0)" regs] by simp
qed

lemma resume_ok:
  assumes "tasks_ok {} s" "alive s" "resume k s = Some (r, s')"
  shows "tasks_ok {} s'"
  using assms sys_wait_ok [OF _ assms(1,2)] by (cases k) (auto simp: resume_def split: bind_splits)

section \<open>The kernel as a transition system\<close>

text \<open>One step of the kernel, on its own processor and therefore one at a time: a timer interrupt, a system
  call of the current task (a dead task only halts, so it makes none), the rest of a system call after
  the task was switched back to, a task being created, destroyed or made the idle task by the kernel, or the first
  task being entered at boot.\<close>

inductive kstep :: "'a kernel_state_scheme \<Rightarrow> 'a kernel_state_scheme \<Rightarrow> bool" where
  tick: "timer_tick_handler s = Some s' \<Longrightarrow> kstep s s'"
| syscall: "alive s \<Longrightarrow> syscall_dispatch regs s = Some (r, s') \<Longrightarrow> kstep s s'"
| back_in: "alive s \<Longrightarrow> resume k s = Some (r, s') \<Longrightarrow> kstep s s'"
| create: "task_create s = Some (r, s') \<Longrightarrow> kstep s s'"
| create_kernel: "task_create_kernel entry s = Some (r, s') \<Longrightarrow> kstep s s'"
| destroy: "t < MAX_TASKS \<Longrightarrow> current_task s \<noteq> Some t \<Longrightarrow> idle_task s \<noteq> Some t \<Longrightarrow> task_destroy (Some t) s = Some s' \<Longrightarrow> kstep s s'"
| set_idle: "t < MAX_TASKS \<Longrightarrow> state (tsk s t) \<noteq> TASK_UNUSED \<Longrightarrow> parent_id (tsk s t) = - 1 \<Longrightarrow>
     kstep s (scheduler_set_idle_task (Some t) s)"
| prepare: "t < MAX_TASKS \<Longrightarrow> state (tsk s t) \<noteq> TASK_UNUSED \<Longrightarrow> task_prepare_user_entry t entry stk s = Some s' \<Longrightarrow> kstep s s'"
| start: "current_task s = None \<Longrightarrow> t < MAX_TASKS \<Longrightarrow> state (tsk s t) \<noteq> TASK_UNUSED \<Longrightarrow>
     kstep s (scheduler_switch_to None t (s\<lparr>current_task := Some t\<rparr>))"

inductive_cases kstepE: "kstep s s'"

lemma kstep_ok:
  assumes "kstep s s'" "tasks_ok {} s"
  shows "tasks_ok {} s'"
  using assms(1)
proof cases
  case tick
  then show ?thesis by (rule timer_tick_ok [OF assms(2)])
next
  case (syscall regs r)
  then show ?thesis using syscall_dispatch_ok [OF assms(2)] by blast
next
  case (back_in k r)
  then show ?thesis using resume_ok [OF assms(2)] by blast
next
  case (create r)
  then show ?thesis using task_create_ok [OF assms(2)] by blast
next
  case (create_kernel entry r)
  then show ?thesis using task_create_kernel_ok [OF assms(2)] by blast
next
  case (destroy t)
  show ?thesis by (rule task_destroy_ok [OF assms(2) destroy(1-4)])
next
  case (set_idle t)
  note R = run_invD [OF tasks_okD(3) [OF assms(2)]]
  have "run_inv (s\<lparr>idle_task := Some t\<rparr>)"
  proof (rule run_invI)
    show "current_task (s\<lparr>idle_task := Some t\<rparr>) = Some j" if "j < MAX_TASKS" "state (tsk (s\<lparr>idle_task := Some t\<rparr>) j) = TASK_RUNNING" for j
      using R(1) that by simp
    show "j < MAX_TASKS \<and> state (tsk (s\<lparr>idle_task := Some t\<rparr>) j) \<noteq> TASK_UNUSED" if "current_task (s\<lparr>idle_task := Some t\<rparr>) = Some j" for j
      using R(2) that by simp
  qed (use set_idle(2-4) in simp)
  then have "tasks_ok {} (s\<lparr>idle_task := Some t\<rparr>)" using assms(2) by (auto simp: tasks_ok_def table_inv_def)
  then show ?thesis unfolding set_idle(1) scheduler_set_idle_task_def .
next
  case (prepare t entry stk)
  then show ?thesis using task_prepare_user_entry_ok [OF assms(2)] by blast
next
  case (start t)
  note R = run_invD [OF tasks_okD(3) [OF assms(2)]]
  have "run_inv (s\<lparr>current_task := Some t\<rparr>)"
    by (rule run_invI) (use R(1,3) start in auto)
  then have "tasks_ok {} (s\<lparr>current_task := Some t\<rparr>)" using assms(2) by (auto simp: tasks_ok_def table_inv_def)
  then show ?thesis unfolding start(1) by (rule switch_to_ok) simp
qed

end
