(* ===== verification/Kernel.thy ===== *)
theory Kernel
  imports Syscall
begin

text \<open>The kernel as a transition system: the initial task table, the invariant of all reachable states, and the
scheduling properties, which follow the round-robin order through the timer handler.\<close>

section \<open>The initial task table\<close>

definition next_slot :: "nat \<Rightarrow> nat option" where
  "next_slot i = (if Suc i < MAX_TASKS then Some (Suc i) else None)"

definition fresh_table :: "task list" where
  "fresh_table = empty_slot 0 None # map (\<lambda>i. empty_slot i (next_slot i)) [1..<MAX_TASKS]"

lemma fresh_table_simps:
  "length fresh_table = MAX_TASKS"
  "i < MAX_TASKS \<Longrightarrow> fresh_table ! i = empty_slot i (if i = 0 then None else next_slot i)"
  by (auto simp: fresh_table_def MAX_TASKS_def nth_Cons split: nat.split)

lemma init_loop:
  assumes "length (task_table s) = MAX_TASKS" "task_free_list s = None" "n \<le> MAX_TASKS"
  shows "fold init_slot (rev [n..<MAX_TASKS]) s =
    s\<lparr>task_table := take n (task_table s) @ map (\<lambda>i. empty_slot i (next_slot i)) [n..<MAX_TASKS],
      task_free_list := (if n < MAX_TASKS then Some n else None)\<rparr>"
  using assms(3)
proof (induction rule: inc_induct)
  case base
  then show ?case using assms(1,2) by simp
next
  case (step n)
  let ?f = "\<lambda>i. empty_slot i (next_slot i)"
  have "rev [n..<MAX_TASKS] = rev [Suc n..<MAX_TASKS] @ [n]" using step(2) by (simp add: upt_conv_Cons)
  moreover have "(take (Suc n) (task_table s) @ map ?f [Suc n..<MAX_TASKS])[n := ?f n] =
      take n (task_table s) @ map ?f [n..<MAX_TASKS]"
    using step(2) assms(1) by (simp add: take_Suc_conv_app_nth upt_conv_Cons list_update_append)
  ultimately show ?case using step(2,3) by (simp add: init_slot_def upd_task_def next_slot_def)
qed

lemma task_table_init_says:
  assumes "length (task_table s) = MAX_TASKS" "console_ok s"
  shows "\<exists>t. task_table_init s =
    Some (say t (s\<lparr>locks := (locks s)(task_table_lock := 0), task_table := fresh_table, task_free_list := Some 1\<rparr>))"
proof -
  define s1 where "s1 = upd_task 0 (\<lambda>_. empty_slot 0 None) ((spinlock_init task_table_lock s)\<lparr>task_free_list := None\<rparr>)"
  have s1: "length (task_table s1) = MAX_TASKS" "task_free_list s1 = None" using assms(1) by (simp_all add: s1_def spinlock_init_def)
  let ?s = "s\<lparr>locks := (locks s)(task_table_lock := 0), task_table := fresh_table, task_free_list := Some 1\<rparr>"
  have tt: "take 1 (task_table s1) = [empty_slot 0 None]"
    using assms(1) by (cases "task_table s") (simp_all add: s1_def upd_task_def spinlock_init_def MAX_TASKS_def)
  have "fold init_slot (rev [1..<MAX_TASKS]) s1 = ?s"
    by (subst init_loop [OF s1]) (simp_all only: tt, simp_all add: MAX_TASKS_def fresh_table_def s1_def upd_task_def spinlock_init_def)
  moreover have con: "console_ok ?s" using assms(2) by (simp add: console_ok_def uart_live_def)
  ultimately show ?thesis
    unfolding task_table_init_def Let_def s1_def [symmetric] by (simp add: kprintf_ok) blast
qed

lemma task_table_init_spec:
  assumes "length (task_table s) = MAX_TASKS" "console_ok s"
  shows "\<exists>s'. task_table_init s = Some s' \<and>
    quiet (s\<lparr>locks := (locks s)(task_table_lock := 0), task_table := fresh_table, task_free_list := Some 1\<rparr>) s'"
  using task_table_init_says [OF assms] by (elim exE) (simp only: option.inject ex_simps quiet_say simp_thms)

lemma fresh_tlist:
  assumes "1 \<le> n" "n \<le> MAX_TASKS"
  shows "tlist fresh_table (if n < MAX_TASKS then Some n else None) [n..<MAX_TASKS]"
  using assms(2)
proof (induction rule: inc_induct)
  case (step m)
  have "next_free (fresh_table ! m) = (if Suc m < MAX_TASKS then Some (Suc m) else None)"
    using step(1,2) assms(1) by (simp add: fresh_table_simps empty_slot_def next_slot_def)
  then show ?case using step(2,3) by (simp add: upt_conv_Cons)
qed simp

lemma fresh_tasks_ok:
  assumes "task_table s = fresh_table" "task_free_list s = Some 1" "locks s task_table_lock = 0"
    "current_task s = None" "idle_task s = None" "console_ok s"
  shows "tasks_ok {} s"
proof -
  have at: "i < MAX_TASKS \<Longrightarrow> tsk s i = empty_slot i (if i = 0 then None else next_slot i)" for i
    using assms(1) by (simp add: fresh_table_simps)
  have "table_inv {} [1..<MAX_TASKS] s"
    unfolding table_inv_def
  proof (intro conjI allI impI)
    show "tlist (task_table s) (task_free_list s) [1..<MAX_TASKS]"
      using fresh_tlist [of 1] assms(1,2) by (simp add: MAX_TASKS_def)
  qed (use assms(1,3) at in \<open>auto simp: fresh_table_simps empty_slot_def\<close>)
  moreover have "run_inv s" by (rule run_invI) (use at assms(4,5) in \<open>auto simp: empty_slot_def\<close>)
  ultimately show ?thesis using assms(6) by (auto simp: tasks_ok_def)
qed

lemma task_table_init_ok:
  assumes "length (task_table s) = MAX_TASKS" "console_ok s" "current_task s = None" "idle_task s = None"
  shows "\<exists>s0. task_table_init s = Some s0 \<and> tasks_ok {} s0 \<and> current_task s0 = None"
proof -
  let ?s = "s\<lparr>locks := (locks s)(task_table_lock := 0), task_table := fresh_table, task_free_list := Some 1\<rparr>"
  obtain s0 where s0: "task_table_init s = Some s0" "quiet ?s s0" using task_table_init_spec [OF assms(1,2)] by blast
  have "tasks_ok {} ?s" by (rule fresh_tasks_ok) (use assms in \<open>simp_all add: console_ok_def uart_live_def\<close>)
  then have "tasks_ok {} s0" by (rule tasks_ok_quiet [OF s0(2)])
  moreover have "current_task s0 = None" using quiet_same_tasks [OF s0(2)] assms(3) by (simp add: same_tasks_def)
  ultimately show ?thesis using s0(1) by blast
qed

lemma ksteps_ok: "kstep\<^sup>*\<^sup>* s s' \<Longrightarrow> tasks_ok {} s \<Longrightarrow> tasks_ok {} s'"
  by (induction rule: rtranclp_induct) (auto intro: kstep_ok)

text \<open>The state a boot loader could leave, used by the witnesses below.\<close>

definition demo_kernel :: kernel_state where
  "demo_kernel = heap_state.extend demo_heap \<lparr>msr = (\<lambda>_. 0), lapic_base = 0, lapic_regs = (\<lambda>_. 0),
     task_table = replicate MAX_TASKS (empty_slot 0 None), task_free_list = None, current_task = None, idle_task = None,
     g_ticks = 0, cpu = \<lparr>rsp = 0, rbx = 0, rbp = 0, r12 = 0, r13 = 0, r14 = 0, r15 = 0, rip = 0\<rparr>,
     syscall_entry_return = 0x1000, task_entry_trampoline = 0x2000\<rparr>"

lemma demo_kernel_fields:
  "length (task_table demo_kernel) = MAX_TASKS" "current_task demo_kernel = None" "idle_task demo_kernel = None"
  "locks demo_kernel = (\<lambda>_. 0)" "console_ok demo_kernel" "g_ticks demo_kernel = 0"
  by (simp_all add: demo_kernel_def demo_heap_def kheap_init_def demo_frames_def demo_pmm_def demo_idt_def demo_gdt_def demo_machine_def
      heap_state.defs frame_state.defs pmm_state.defs idt_state.defs gdt_state.defs machine.defs console_ok_def uart_live_def
      LSR_TX_EMPTY_def) auto

section \<open>Preemption\<close>

lemma cpu_ops_fields [simp]:
  "task_table (set_cpu f s) = task_table s" "current_task (set_cpu f s) = current_task s" "g_ticks (set_cpu f s) = g_ticks s"
  "idle_task (set_cpu f s) = idle_task s" "idle_task (push v s) = idle_task s" "g_ticks (push v s) = g_ticks s"
  "task_table (snd (pop s)) = task_table s" "current_task (snd (pop s)) = current_task s"
  "idle_task (snd (pop s)) = idle_task s" "g_ticks (snd (pop s)) = g_ticks s"
  by (simp_all add: set_cpu_def push_def pop_def hwrite64_def Let_def)

lemma context_switch_fields [simp]:
  "current_task (context_switch old new s) = current_task s" "idle_task (context_switch old new s) = idle_task s"
  "g_ticks (context_switch old new s) = g_ticks s"
  "state (tsk (context_switch old new s) j) = state (tsk s j)"
  by (cases old; simp add: context_switch_def Let_def split_def upd_task_def nth_upd)+

lemma switch_to_fields [simp]:
  "current_task (scheduler_switch_to old new s) = current_task s" "idle_task (scheduler_switch_to old new s) = idle_task s"
  "g_ticks (scheduler_switch_to old new s) = g_ticks s"
  "state (tsk (scheduler_switch_to old new s) j) = state (tsk s j)"
  by (simp_all add: scheduler_switch_to_def vmm_switch_address_space_def tss_set_rsp0_def Let_def split: option.split)

lemma timer_tick_spec:
  assumes ok: "tasks_ok {} s"
  defines "due \<equiv> (g_ticks s + 1) mod TIME_SLICE_TICKS = 0"
  shows "\<exists>s'. timer_tick_handler s = Some s' \<and> g_ticks s' = g_ticks s + 1 \<and> idle_task s' = idle_task s \<and>
    current_task s' = (if due then map_option (pick s) (current_task s) else current_task s) \<and>
    (\<forall>j < MAX_TASKS. state (tsk s' j) =
       (if due \<and> (\<exists>c. current_task s = Some c \<and> pick s c \<noteq> c)
        then if current_task s' = Some j then TASK_RUNNING
             else if current_task s = Some j \<and> state (tsk s j) = TASK_RUNNING then TASK_RUNNABLE else state (tsk s j)
        else state (tsk s j)))"
proof -
  define s1 where "s1 = pic_send_eoi 0 (s\<lparr>g_ticks := g_ticks s + 1\<rparr>)"
  have same: "same_tasks s s1" unfolding s1_def by (rule tick_same)
  have t1: "task_table s1 = task_table s" "current_task s1 = current_task s" "idle_task s1 = idle_task s" "locks s1 = locks s"
    using same by (simp_all add: same_tasks_def)
  have g: "g_ticks s1 = g_ticks s + 1" by (simp add: s1_def pic_send_eoi_def outb_def Let_def)
  have pk: "pick s1 = pick s" unfolding pick_def [abs_def] t1 ..
  note T = timer_tick_handler_def [of s, unfolded Let_def s1_def [symmetric] t1(2) g]
  show ?thesis
  proof (cases "due \<and> current_task s \<noteq> None")
    case False
    then have "timer_tick_handler s = Some s1" unfolding T due_def by auto
    then show ?thesis using False t1 g by (intro exI [of _ s1]) auto
  next
    case True
    then obtain c where c: "current_task s = Some c" and due: "due" by auto
    have cm: "c < MAX_TASKS" using run_invD(2) [OF tasks_okD(3) [OF ok] c] by blast
    have n: "pick s c < MAX_TASKS" using pick_used(1) [OF ok c] .
    have lk: "locks s1 task_table_lock = 0" using tasks_okD(2) [OF ok] t1(4) by simp
    note P = pick_next_pick [OF lk cm, unfolded pk]
    show ?thesis
    proof (cases "pick s c = c")
      case True
      then have "timer_tick_handler s = Some s1" using due c P unfolding T due_def by simp
      then show ?thesis using True c due t1 g by (intro exI [of _ s1]) auto
    next
      case False
      let ?s = "upd_task (pick s c) (state_update (\<lambda>_. TASK_RUNNING))
            (if state (tsk s c) = TASK_RUNNING then upd_task c (state_update (\<lambda>_. TASK_RUNNABLE)) s1 else s1)
          \<lparr>current_task := Some (pick s c)\<rparr>"
      have "timer_tick_handler s = Some (scheduler_switch_to (Some c) (pick s c) ?s)"
        using due c P False lk t1(1) unfolding T due_def
        by (simp add: task_table_lock_acquire_def task_table_lock_release_def upd_task_def split: if_splits)
      then show ?thesis
        using False c due t1 g n cm tasks_okD(1) [OF ok]
        by (intro exI [of _ "scheduler_switch_to (Some c) (pick s c) ?s"]) (auto simp: upd_task_def nth_upd)
    qed
  qed
qed

definition turns :: "nat \<Rightarrow> nat \<Rightarrow> nat" where
  "turns c j = (j + MAX_TASKS - c) mod MAX_TASKS"

lemma turns_simps:
  assumes "c < MAX_TASKS" "j < MAX_TASKS"
  shows "turns c j < MAX_TASKS" "turns c j = 0 \<longleftrightarrow> c = j" "(c + turns c j) mod MAX_TASKS = j"
proof -
  show "turns c j < MAX_TASKS" by (simp add: turns_def MAX_TASKS_def)
  show "(c + turns c j) mod MAX_TASKS = j" using assms by (simp add: turns_def mod_add_right_eq)
  show "turns c j = 0 \<longleftrightarrow> c = j"
    using assms by (cases "c \<le> j") (auto simp: turns_def le_mod_geq)
qed

lemma turns_advance:
  assumes "c < MAX_TASKS" "j < MAX_TASKS" "k \<le> turns c j"
  shows "turns ((c + k) mod MAX_TASKS) j = turns c j - k"
proof -
  define d where "d = turns c j"
  have d: "(c + d) mod MAX_TASKS = j" "d < MAX_TASKS" using turns_simps [OF assms(1,2)] by (simp_all add: d_def)
  define t where "t = (c + k) mod MAX_TASKS"
  have t: "t < MAX_TASKS" by (simp add: t_def MAX_TASKS_def)
  obtain e where "d = k + e" using assms(3) le_Suc_ex unfolding d_def by blast
  then have "(t + (d - k)) mod MAX_TASKS = j" using d(1) unfolding t_def by (simp add: mod_add_left_eq add.assoc)
  moreover have "turns t ((t + e) mod MAX_TASKS) = e" if "e < MAX_TASKS" for e
    using t that by (cases "t + e < MAX_TASKS") (auto simp: turns_def le_mod_geq)
  ultimately have "turns t j = d - k" using d(2) by (metis less_imp_diff_less)
  then show ?thesis by (simp add: t_def d_def)
qed

lemma pick_advances:
  assumes "c < MAX_TASKS" "j < MAX_TASKS" "c \<noteq> j" "state (tsk s j) = TASK_RUNNABLE"
  shows "turns (pick s c) j < turns c j"
proof -
  let ?R = "\<lambda>i. state (tsk s i) = TASK_RUNNABLE"
  define d where "d = turns c j"
  have d: "(c + d) mod MAX_TASKS = j" "d < MAX_TASKS" "d \<noteq> 0"
    using turns_simps [OF assms(1,2)] assms(3) by (simp_all add: d_def)
  have len: "length (rr_order c) = MAX_TASKS" by (simp add: rr_order_def del: upt_Suc)
  have at: "rr_order c ! i = (c + Suc i) mod MAX_TASKS" if "i < MAX_TASKS" for i
    using that by (simp add: rr_order_def del: upt_Suc)
  have "j \<in> set (rr_order c)" using at [of "d - 1"] d len by (metis One_nat_def Suc_pred diff_less gr0I less_imp_diff_less nth_mem)
  then obtain t where f: "find ?R (rr_order c) = Some t" using assms(4) by (cases "find ?R (rr_order c)") (auto simp: find_None_iff)
  then obtain i where i: "i < MAX_TASKS" "t = rr_order c ! i" "\<And>k. k < i \<Longrightarrow> \<not> ?R (rr_order c ! k)"
    unfolding find_Some_iff len by auto
  have "\<not> d - 1 < i" using i(3) [of "d - 1"] at [of "d - 1"] d assms(4) by auto
  then have "Suc i \<le> d" using d(3) by simp
  moreover have "pick s c = (c + Suc i) mod MAX_TASKS" using f i(2) at [OF i(1)] by (simp add: pick_def)
  ultimately show ?thesis using turns_advance [OF assms(1,2), of "Suc i"] d(3) by (simp add: d_def)
qed

lemma slice_ends: "\<exists>m. 1 \<le> m \<and> m \<le> 20 \<and> (g + of_nat m) mod TIME_SLICE_TICKS = 0"
proof (cases "unat g + (20 - unat g mod 20) < 2 ^ 64")
  case True
  let ?m = "20 - unat g mod 20"
  have "unat (g + of_nat m) = unat g + m" if "unat g + m < 2 ^ 64" for m
    using that by (simp add: unat_word_ariths unat_of_nat)
  then have "unat (g + of_nat ?m) = unat g + ?m" using True .
  moreover have "(unat g + ?m) mod 20 = 0" by presburger
  ultimately have "unat ((g + of_nat ?m) mod 20) = 0" by (simp add: unat_mod)
  then show ?thesis by (intro exI [of _ ?m]) (simp add: TIME_SLICE_TICKS_def unat_eq_0)
next
  case False
  define m where "m = 2 ^ 64 - unat g"
  have g: "unat g < 2 ^ 64" by (rule unat_lt_u64)
  then have m: "unat g + m = 2 ^ 64" by (simp add: m_def)
  then have "(of_nat (unat g + m) :: u64) = of_nat (2 ^ 64)" by (rule arg_cong)
  then have "g + of_nat m = 0" by simp
  moreover have "1 \<le> m" "m \<le> 20" using False g m by linarith+
  ultimately show ?thesis by (intro exI [of _ m]) simp
qed

text \<open>User programs compute between timer interrupts. This changes neither the task table nor the tick counter.\<close>

definition computes :: "'a kernel_state_scheme \<Rightarrow> 'a kernel_state_scheme \<Rightarrow> bool" where
  "computes s s' \<longleftrightarrow> same_tasks s s' \<and> g_ticks s' = g_ticks s"

primrec ticks :: "(nat \<Rightarrow> 'a kernel_state_scheme \<Rightarrow> 'a kernel_state_scheme) \<Rightarrow> nat \<Rightarrow> 'a kernel_state_scheme \<Rightarrow>
    'a kernel_state_scheme option" where
  "ticks u 0 s = Some s"
| "ticks u (Suc n) s = do { s \<leftarrow> timer_tick_handler s; ticks (\<lambda>k. u (Suc k)) n (u 0 s) }"

lemma tick_turn:
  fixes s s2 :: "'a kernel_state_scheme"
  assumes u: "computes (the (timer_tick_handler s)) s2" and ok: "tasks_ok {} s" and c: "current_task s = Some c" "c \<noteq> j"
    and j: "j < MAX_TASKS" "state (tsk s j) = TASK_RUNNABLE"
  defines "due \<equiv> (g_ticks s + 1) mod TIME_SLICE_TICKS = 0"
  shows "timer_tick_handler s \<noteq> None" "tasks_ok {} s2" "g_ticks s2 = g_ticks s + 1"
    "\<not> due \<Longrightarrow> current_task s2 = Some c \<and> state (tsk s2 j) = TASK_RUNNABLE"
    "due \<Longrightarrow> current_task s2 = Some (pick s c) \<and> (pick s c \<noteq> j \<longrightarrow> state (tsk s2 j) = TASK_RUNNABLE)"
proof -
  define P where "P i s1 \<longleftrightarrow> state (tsk s1 i) =
       (if due \<and> (\<exists>c. current_task s = Some c \<and> pick s c \<noteq> c)
        then if current_task s1 = Some i then TASK_RUNNING
             else if current_task s = Some i \<and> state (tsk s i) = TASK_RUNNING then TASK_RUNNABLE else state (tsk s i)
        else state (tsk s i))" for i and s1 :: "'a kernel_state_scheme"
  obtain s1 where s1: "timer_tick_handler s = Some s1" "g_ticks s1 = g_ticks s + 1"
    and cur: "current_task s1 = (if due then map_option (pick s) (current_task s) else current_task s)"
    and all: "\<forall>i < MAX_TASKS. P i s1"
    using timer_tick_spec [OF ok] unfolding due_def [symmetric] P_def by blast
  have P: "P j s1" using all j(1) by blast
  have same: "same_tasks s1 s2" "g_ticks s2 = g_ticks s1" using u s1(1) by (simp_all add: computes_def)
  show "timer_tick_handler s \<noteq> None" "g_ticks s2 = g_ticks s + 1" using s1 same(2) by simp_all
  show "tasks_ok {} s2" using timer_tick_ok [OF ok s1(1)] same(1) by (simp add: same_tasks_ok)
  have t2: "task_table s2 = task_table s1" "current_task s2 = current_task s1" using same(1) by (simp_all add: same_tasks_def)
  show "current_task s2 = Some c \<and> state (tsk s2 j) = TASK_RUNNABLE" if "\<not> due"
    using that cur P j(2) t2 c(1) by (simp add: P_def)
  show "current_task s2 = Some (pick s c) \<and> (pick s c \<noteq> j \<longrightarrow> state (tsk s2 j) = TASK_RUNNABLE)" if due
    using that cur P j(2) t2 c by (simp add: P_def split: if_splits)
qed

lemma turn_comes:
  assumes "\<forall>k s. computes s (u k s)" "tasks_ok {} s" "current_task s = Some c" "j < MAX_TASKS"
    "c \<noteq> j \<longrightarrow> state (tsk s j) = TASK_RUNNABLE"
    "1 \<le> m" "(g_ticks s + of_nat m) mod TIME_SLICE_TICKS = 0"
  shows "\<exists>n s'. n \<le> m + 20 * (turns c j - 1) \<and> ticks u n s = Some s' \<and> current_task s' = Some j"
  using assms
proof (induction "turns c j" arbitrary: c m s u rule: less_induct)
  case less
  note outer = less.hyps
  from less.prems show ?case
  proof (induction m arbitrary: s u)
    case (Suc m)
    have c: "c < MAX_TASKS" using run_invD(2) [OF tasks_okD(3) [OF Suc.prems(2)] Suc.prems(3)] by blast
    show ?case
    proof (cases "c = j")
      case True
      then show ?thesis using Suc.prems(3) by (intro exI [of _ 0]) simp
    next
      case False
      define s2 where "s2 = u 0 (the (timer_tick_handler s))"
      have u0: "computes (the (timer_tick_handler s)) s2" unfolding s2_def using Suc.prems(1) by blast
      note T = tick_turn [OF u0 Suc.prems(2,3) False Suc.prems(4) Suc.prems(5) [rule_format, OF False]]
      have u': "\<forall>k s. computes s (u (Suc k) s)" using Suc.prems(1) by blast
      have step: "ticks u (Suc n) s = ticks (\<lambda>k. u (Suc k)) n s2" for n using T(1) by (auto simp: s2_def)
      show ?thesis
      proof (cases "(g_ticks s + 1) mod TIME_SLICE_TICKS = 0")
        case True
        let ?t = "pick s c"
        have adv: "turns ?t j < turns c j" by (rule pick_advances [OF c Suc.prems(4) False Suc.prems(5) [rule_format, OF False]])
        obtain m' where m': "1 \<le> m'" "m' \<le> 20" "(g_ticks s2 + of_nat m') mod TIME_SLICE_TICKS = 0" using slice_ends [of "g_ticks s2"] by (elim exE conjE)
        have cur: "current_task s2 = Some ?t" and st: "?t \<noteq> j \<longrightarrow> state (tsk s2 j) = TASK_RUNNABLE" using T(5) [OF True] by blast+
        show ?thesis
        proof (cases "?t = j")
          case True
          then show ?thesis using step [of 0] cur by (intro exI [of _ 1] exI [of _ s2]) simp
        next
          case tj: False
          obtain n s' where n: "n \<le> m' + 20 * (turns ?t j - 1)" "ticks (\<lambda>k. u (Suc k)) n s2 = Some s'" "current_task s' = Some j"
            using outer [OF adv u' T(2) cur Suc.prems(4) st m'(1,3)] by (elim exE conjE)
          have "?t < MAX_TASKS" by (rule pick_used(1) [OF Suc.prems(2,3)])
          then have "turns ?t j \<noteq> 0" using turns_simps(2) [OF _ Suc.prems(4)] tj by blast
          then have "Suc n \<le> Suc m + 20 * (turns c j - 1)" using n(1) m'(2) adv by simp
          then show ?thesis using step [of n] n(2,3) by (intro exI [of _ "Suc n"] exI [of _ s']) simp
        qed
      next
        case nd: False
        have m: "1 \<le> m" using Suc.prems(7) nd by (cases m) auto
        have g: "(g_ticks s2 + of_nat m) mod TIME_SLICE_TICKS = 0" using Suc.prems(7) T(3) by (simp add: ac_simps)
        have cur: "current_task s2 = Some c" and st: "c \<noteq> j \<longrightarrow> state (tsk s2 j) = TASK_RUNNABLE" using T(4) [OF nd] by blast+
        obtain n s' where "n \<le> m + 20 * (turns c j - 1)" "ticks (\<lambda>k. u (Suc k)) n s2 = Some s'" "current_task s' = Some j"
          using Suc.IH [OF u' T(2) cur Suc.prems(4) st m g] by (elim exE conjE)
        then show ?thesis using step [of n] by (intro exI [of _ "Suc n"] exI [of _ s']) simp
      qed
    qed
  qed simp
qed

section \<open>Properties\<close>

text \<open>Claim C5. After \<open>task_table_init\<close>, whatever sequence of timer interrupts, system calls, resumed system
  calls, task creations and first entries follows: at most the current task is marked running; the current task is in
  use; the free list is a chain without repetition of exactly the unused slots other than slot 0; slot 0 is never handed
  out; every task's identity is its slot; and the table lock is free between steps.\<close>

theorem kernel_invariant:
  assumes "length (task_table s) = MAX_TASKS" "console_ok s" "current_task s = None" "idle_task s = None"
  shows "\<exists>s0. task_table_init s = Some s0 \<and>
    (\<forall>s'. kstep\<^sup>*\<^sup>* s0 s' \<longrightarrow>
       (\<forall>i < MAX_TASKS. state (tsk s' i) = TASK_RUNNING \<longrightarrow> current_task s' = Some i) \<and>
       (\<forall>i. current_task s' = Some i \<longrightarrow> i < MAX_TASKS \<and> state (tsk s' i) \<noteq> TASK_UNUSED) \<and>
       (\<exists>xs. tlist (task_table s') (task_free_list s') xs \<and> distinct xs \<and>
          set xs = {i. 0 < i \<and> i < MAX_TASKS \<and> state (tsk s' i) = TASK_UNUSED}) \<and>
       state (tsk s' 0) = TASK_UNUSED \<and> (\<forall>i < MAX_TASKS. task_id (tsk s' i) = of_nat i) \<and>
       locks s' task_table_lock = 0)"
proof -
  obtain s0 where s0: "task_table_init s = Some s0" "tasks_ok {} s0" using task_table_init_ok [OF assms] by blast
  have "(\<forall>i < MAX_TASKS. state (tsk s' i) = TASK_RUNNING \<longrightarrow> current_task s' = Some i) \<and>
       (\<forall>i. current_task s' = Some i \<longrightarrow> i < MAX_TASKS \<and> state (tsk s' i) \<noteq> TASK_UNUSED) \<and>
       (\<exists>xs. tlist (task_table s') (task_free_list s') xs \<and> distinct xs \<and>
          set xs = {i. 0 < i \<and> i < MAX_TASKS \<and> state (tsk s' i) = TASK_UNUSED}) \<and>
       state (tsk s' 0) = TASK_UNUSED \<and> (\<forall>i < MAX_TASKS. task_id (tsk s' i) = of_nat i) \<and>
       locks s' task_table_lock = 0" if steps: "kstep\<^sup>*\<^sup>* s0 s'" for s'
  proof -
    have ok: "tasks_ok {} s'" by (rule ksteps_ok [OF steps s0(2)])
    then obtain xs where xs: "table_inv {} xs s'" by (auto simp: tasks_ok_def)
    have "set xs = {i. 0 < i \<and> i < MAX_TASKS \<and> state (tsk s' i) = TASK_UNUSED}"
      using table_invD(5,8) [OF xs] by auto
    then show ?thesis
      using table_invD(3,4) [OF xs] tasks_okD(2,6,7) [OF ok] run_invD(1,2) [OF tasks_okD(3) [OF ok]] by blast
  qed
  then show ?thesis using s0(1) by blast
qed

theorem kernel_invariant_witness:
  "\<exists>s0 s1. task_table_init demo_kernel = Some s0 \<and> timer_tick_handler s0 = Some s1 \<and> state (tsk s1 0) = TASK_UNUSED \<and>
     (\<exists>xs. tlist (task_table s1) (task_free_list s1) xs \<and> set xs = {i. 0 < i \<and> i < MAX_TASKS \<and> state (tsk s1 i) = TASK_UNUSED})"
proof -
  obtain s0 where s0: "task_table_init demo_kernel = Some s0" "tasks_ok {} s0"
    using task_table_init_ok [of demo_kernel] by (auto simp: demo_kernel_fields)
  obtain s1 where s1: "timer_tick_handler s0 = Some s1" using timer_tick_spec [OF s0(2)] by blast
  then have "kstep\<^sup>*\<^sup>* s0 s1" by (blast intro: kstep.tick)
  moreover obtain s0' where "task_table_init demo_kernel = Some s0'"
    and I: "\<And>s'. kstep\<^sup>*\<^sup>* s0' s' \<Longrightarrow> state (tsk s' 0) = TASK_UNUSED \<and> (\<exists>xs. tlist (task_table s') (task_free_list s') xs \<and>
      set xs = {i. 0 < i \<and> i < MAX_TASKS \<and> state (tsk s' i) = TASK_UNUSED})"
    using kernel_invariant [OF demo_kernel_fields(1,5,2,3)] by meson
  moreover have "s0' = s0" using s0(1) calculation(2) by simp
  ultimately show ?thesis using s0(1) s1 by blast
qed

text \<open>Claim C8. Every runnable task gets the processor: while user programs only compute, at most 63 time
  slices of 20 timer interrupts pass, also across the wrap-around of the tick counter, until the timer handler has made
  the task current. All of these interrupts return.\<close>

theorem round_robin_fair:
  assumes "tasks_ok {} s" "current_task s = Some c" "j < MAX_TASKS" "state (tsk s j) = TASK_RUNNABLE"
    "\<forall>k s. computes s (u k s)"
  shows "\<exists>n s'. n \<le> 20 * (MAX_TASKS - 1) \<and> ticks u n s = Some s' \<and> current_task s' = Some j"
proof -
  obtain m where m: "1 \<le> m" "m \<le> 20" "(g_ticks s + of_nat m) mod TIME_SLICE_TICKS = 0"
    using slice_ends [of "g_ticks s"] by (elim exE conjE)
  have c: "c < MAX_TASKS" using run_invD(2) [OF tasks_okD(3) [OF assms(1)] assms(2)] by blast
  have "c \<noteq> j \<longrightarrow> state (tsk s j) = TASK_RUNNABLE" using assms(4) by blast
  from turn_comes [OF assms(5,1,2,3) this m(1,3)]
  obtain n s' where n: "n \<le> m + 20 * (turns c j - 1)" "ticks u n s = Some s'" "current_task s' = Some j"
    by (elim exE conjE)
  have "turns c j < MAX_TASKS" by (rule turns_simps(1) [OF c assms(3)])
  then have "n \<le> 20 * (MAX_TASKS - 1)" using n(1) m(2) by (simp add: MAX_TASKS_def)
  then show ?thesis using n by blast
qed

definition demo_tasks :: kernel_state where
  "demo_tasks = demo_kernel\<lparr>task_table := fresh_table
       [1 := (empty_slot 1 None)\<lparr>state := TASK_RUNNING\<rparr>, 2 := (empty_slot 2 None)\<lparr>state := TASK_RUNNABLE\<rparr>],
     task_free_list := Some 3, current_task := Some 1\<rparr>"

lemma demo_tasks_at:
  "i < MAX_TASKS \<Longrightarrow> tsk demo_tasks i = (if i = 1 then (empty_slot 1 None)\<lparr>state := TASK_RUNNING\<rparr> else
     if i = 2 then (empty_slot 2 None)\<lparr>state := TASK_RUNNABLE\<rparr> else empty_slot i (if i = 0 then None else next_slot i))"
  by (simp add: demo_tasks_def nth_upd fresh_table_simps)

lemma demo_tasks_fields:
  "length (task_table demo_tasks) = MAX_TASKS" "task_free_list demo_tasks = Some 3" "current_task demo_tasks = Some 1"
  "idle_task demo_tasks = None" "locks demo_tasks = (\<lambda>_. 0)" "console_ok demo_tasks"
  by (simp_all add: demo_tasks_def fresh_table_simps demo_kernel_fields)

lemma demo_tasks_ok: "tasks_ok {} demo_tasks"
proof -
  have "tlist fresh_table (Some 3) [3..<MAX_TASKS]" using fresh_tlist [of 3] by (simp add: MAX_TASKS_def)
  then have "tlist (task_table demo_tasks) (Some 3) [3..<MAX_TASKS]"
    by (simp add: demo_tasks_def)
  then have "table_inv {} [3..<MAX_TASKS] demo_tasks"
    unfolding table_inv_def
    by (intro conjI allI impI) (auto simp: demo_tasks_at demo_tasks_fields empty_slot_def split: if_splits)
  moreover have "run_inv demo_tasks"
    by (rule run_invI) (auto simp: demo_tasks_at demo_tasks_fields empty_slot_def MAX_TASKS_def split: if_splits)
  moreover have "console_ok demo_tasks" by (rule demo_tasks_fields)
  ultimately show ?thesis by (auto simp: tasks_ok_def)
qed

theorem round_robin_fair_witness:
  "\<exists>n s'. n \<le> 20 * (MAX_TASKS - 1) \<and> ticks (\<lambda>_ s. s) n demo_tasks = Some s' \<and> current_task s' = Some 2"
proof -
  have "current_task demo_tasks = Some 1" "2 < MAX_TASKS" by (simp_all add: demo_tasks_def MAX_TASKS_def)
  moreover from this have "state (tsk demo_tasks 2) = TASK_RUNNABLE" by (simp add: demo_tasks_at)
  ultimately show ?thesis
    using round_robin_fair [OF demo_tasks_ok, of 1 2 "\<lambda>_ s. s"] by (simp add: computes_def)
qed

text \<open>Claim C34. With the table lock free, \<open>scheduler_pick_next\<close> returns, restores the interrupt flag
  and the lock, and chooses the first runnable task in cyclic order after the current one, the current one itself last;
  if no task is runnable it chooses the idle task if there is one, and otherwise the current task.\<close>

theorem pick_next_round_robin:
  assumes "locks s task_table_lock = 0" "c < MAX_TASKS"
  shows "\<exists>t. scheduler_pick_next (Some c) s = Some (Some t, s) \<and>
    ((\<exists>k. 1 \<le> k \<and> k \<le> MAX_TASKS \<and> t = (c + k) mod MAX_TASKS \<and> state (tsk s t) = TASK_RUNNABLE \<and>
        (\<forall>k'. 1 \<le> k' \<and> k' < k \<longrightarrow> state (tsk s ((c + k') mod MAX_TASKS)) \<noteq> TASK_RUNNABLE)) \<or>
     (\<forall>i < MAX_TASKS. state (tsk s i) \<noteq> TASK_RUNNABLE) \<and> t = (case idle_task s of Some i \<Rightarrow> i | None \<Rightarrow> c))"
proof -
  let ?R = "\<lambda>i. state (tsk s i) = TASK_RUNNABLE"
  have len: "length (rr_order c) = MAX_TASKS" by (simp add: rr_order_def del: upt_Suc)
  have at: "rr_order c ! i = (c + Suc i) mod MAX_TASKS" if "i < MAX_TASKS" for i
    using that by (simp add: rr_order_def del: upt_Suc)
  have all: "i \<in> set (rr_order c)" if i: "i < MAX_TASKS" for i
  proof (cases "c = i")
    case True
    then show ?thesis using self_in_order [OF assms(2)] by simp
  next
    case False
    note T = turns_simps [OF assms(2) i]
    then have "rr_order c ! (turns c i - 1) = i" using False at [of "turns c i - 1"] by simp
    then show ?thesis using T(1) len nth_mem [of "turns c i - 1" "rr_order c"] by simp
  qed
  show ?thesis
  proof (cases "find ?R (rr_order c)")
    case None
    then have "pick s c = (case idle_task s of Some i \<Rightarrow> i | None \<Rightarrow> c)" by (simp add: pick_def)
    moreover have "\<forall>i < MAX_TASKS. \<not> ?R i" using None all by (auto simp: find_None_iff)
    ultimately show ?thesis using pick_next_pick [OF assms] by blast
  next
    case (Some t)
    then obtain i where i: "i < MAX_TASKS" "t = rr_order c ! i" "?R t" "\<And>k. k < i \<Longrightarrow> \<not> ?R (rr_order c ! k)"
      unfolding find_Some_iff len by auto
    have "\<not> ?R ((c + k') mod MAX_TASKS)" if "1 \<le> k'" "k' < Suc i" for k'
      using i(4) [of "k' - 1"] at [of "k' - 1"] that i(1) by simp
    moreover have "pick s c = t" using Some by (simp add: pick_def)
    ultimately show ?thesis
      using pick_next_pick [OF assms] i(1,3) i(2)[unfolded at [OF i(1)]]
      by (intro exI [of _ t] conjI disjI1 exI [of _ "Suc i"]) auto
  qed
qed

theorem pick_next_round_robin_witness: "\<exists>s. scheduler_pick_next (Some 1) demo_tasks = Some (Some 2, s)"
proof -
  have R: "i < MAX_TASKS \<Longrightarrow> state (tsk demo_tasks i) = TASK_RUNNABLE \<longleftrightarrow> i = 2" for i
    by (simp add: demo_tasks_at empty_slot_def)
  have "(1 + k) mod MAX_TASKS < MAX_TASKS" for k by (simp add: MAX_TASKS_def)
  then show ?thesis
    using pick_next_round_robin [of demo_tasks 1] R [of 2]
    by (auto simp: demo_tasks_fields MAX_TASKS_def R dest: spec [of _ 2])
qed

end
