(* ===== verification/Switch.thy ===== *)
theory Switch
  imports Kernel
begin

text \<open>What a context switch saves and loads (\<open>save_context\<close>, \<open>frame_regs\<close>), and the frames from which a new task is
first entered.\<close>

section \<open>What a context switch saves and loads\<close>

definition save_context :: "nat option \<Rightarrow> 'a kernel_state_scheme \<Rightarrow> 'a kernel_state_scheme" where
  "save_context old s = (case old of None \<Rightarrow> s | Some old \<Rightarrow>
     let s1 = foldl (\<lambda>t v. push v t) s [rbx (cpu s), rbp (cpu s), r12 (cpu s), r13 (cpu s), r14 (cpu s), r15 (cpu s)]
     in upd_task old (context_rsp_update (\<lambda>_. rsp (cpu s1))) s1)"

definition frame_regs :: "'a machine_scheme \<Rightarrow> u64 \<Rightarrow> cpu_regs" where
  "frame_regs s sp = (let f = (\<lambda>i. hread64 s (sp + 8 * i)) in
     \<lparr>rsp = sp + 56, rbx = f 5, rbp = f 4, r12 = f 3, r13 = f 2, r14 = f 1, r15 = f 0, rip = f 6\<rparr>)"

lemma cpu_push: "cpu (push v s) = (cpu s)\<lparr>rsp := rsp (cpu s) - 8\<rparr>"
  by (simp add: push_def set_cpu_def hwrite64_def Let_def)

lemma pop_def': "pop s = (hread64 s (rsp (cpu s)), s\<lparr>cpu := (cpu s)\<lparr>rsp := rsp (cpu s) + 8\<rparr>\<rparr>)"
  by (simp add: pop_def set_cpu_def)

lemma hread64_cpu [simp]: "hread64 (s\<lparr>cpu := c\<rparr>) a = hread64 s a" "hread64 (s\<lparr>task_table := ts\<rparr>) a = hread64 s a"
  by (simp_all add: hread64_def virt_to_phys_def)

lemma context_switch_loads:
  "context_switch old new s = (let s1 = save_context old s in s1\<lparr>cpu := frame_regs s1 (context_rsp (tsk s1 new))\<rparr>)"
proof -
  define s1 where "s1 = save_context old s"
  have "context_switch old new s = (let s = set_cpu (rsp_update (\<lambda>_. context_rsp (tsk s1 new))) s1;
          (v, s) = pop s; s = set_cpu (r15_update (\<lambda>_. v)) s;
          (v, s) = pop s; s = set_cpu (r14_update (\<lambda>_. v)) s;
          (v, s) = pop s; s = set_cpu (r13_update (\<lambda>_. v)) s;
          (v, s) = pop s; s = set_cpu (r12_update (\<lambda>_. v)) s;
          (v, s) = pop s; s = set_cpu (rbp_update (\<lambda>_. v)) s;
          (v, s) = pop s; s = set_cpu (rbx_update (\<lambda>_. v)) s;
          (v, s) = pop s
      in set_cpu (rip_update (\<lambda>_. v)) s)"
    by (cases old) (simp_all add: context_switch_def s1_def save_context_def Let_def cpu_push)
  also have "\<dots> = s1\<lparr>cpu := frame_regs s1 (context_rsp (tsk s1 new))\<rparr>"
    by (simp add: set_cpu_def pop_def' frame_regs_def Let_def add.assoc)
  finally show ?thesis by (simp add: s1_def Let_def)
qed

lemma dvd8_add: "8 dvd unat a \<Longrightarrow> 8 dvd unat b \<Longrightarrow> 8 dvd unat (a + b :: u64)"
  by (simp add: unat_word_ariths dvd_mod)

definition word_aligned :: "'a machine_scheme \<Rightarrow> u64 \<Rightarrow> bool" where
  "word_aligned s a \<longleftrightarrow> 8 dvd unat (virt_to_phys s a)"

lemma word_aligned_add: "word_aligned s a \<Longrightarrow> 8 dvd unat b \<Longrightarrow> word_aligned s (a + b)"
  using dvd8_add [of "virt_to_phys s a" b] by (simp add: word_aligned_def virt_to_phys_def algebra_simps)

lemma word_aligned_step:
  "word_aligned s a \<Longrightarrow> word_aligned s (a - 8)" "word_aligned s a \<Longrightarrow> word_aligned s (a - 16)" "word_aligned s a \<Longrightarrow> word_aligned s (a - 24)"
  "word_aligned s a \<Longrightarrow> word_aligned s (a - 32)" "word_aligned s a \<Longrightarrow> word_aligned s (a - 40)" "word_aligned s a \<Longrightarrow> word_aligned s (a - 48)"
  using word_aligned_add [of s a "- 8"] word_aligned_add [of s a "- 16"] word_aligned_add [of s a "- 24"]
    word_aligned_add [of s a "- 32"] word_aligned_add [of s a "- 40"] word_aligned_add [of s a "- 48"] by simp_all

lemma word_aligned_update [simp]:
  "word_aligned (s\<lparr>mem := m\<rparr>) a = word_aligned s a" "word_aligned (hwrite64 b v s) a = word_aligned s a"
  "word_aligned (push v s') a = word_aligned s' a" "word_aligned (upd_task i f s') a = word_aligned s' a"
  by (simp_all add: word_aligned_def virt_to_phys_def hwrite64_def push_def set_cpu_def upd_task_def Let_def)

lemma hread64_hwrite64:
  assumes "word_aligned s a" "word_aligned s b"
  shows "hread64 (hwrite64 a v s) b = (if b = a then v else hread64 s b)"
proof (cases "b = a")
  case False
  then have "virt_to_phys s a \<noteq> virt_to_phys s b" by (simp add: virt_to_phys_def)
  then show ?thesis
    using False read64_write64_other [of "virt_to_phys s a" "virt_to_phys s b"] assms
    by (simp add: hread64_def hwrite64_def word_aligned_def) (simp add: virt_to_phys_def)
qed (simp add: hread64_def hwrite64_def, simp add: virt_to_phys_def)

lemma hread64_push:
  assumes "word_aligned s (rsp (cpu s))" "word_aligned s b"
  shows "hread64 (push v s) b = (if b = rsp (cpu s) - 8 then v else hread64 s b)"
  using hread64_hwrite64 [OF word_aligned_step(1) [OF assms(1)] assms(2)]
  by (simp add: push_def set_cpu_def Let_def) (simp add: hread64_def hwrite64_def virt_to_phys_def)

lemma hread64_upd_task [simp]: "hread64 (upd_task i f s) a = hread64 s a"
  by (simp add: upd_task_def)

lemma save_reads:
  assumes al: "word_aligned s (rsp (cpu s))" "word_aligned s b"
  shows "hread64 (save_context (Some a) s) b =
    (if b = rsp (cpu s) - 8 then rbx (cpu s) else if b = rsp (cpu s) - 16 then rbp (cpu s)
     else if b = rsp (cpu s) - 24 then r12 (cpu s) else if b = rsp (cpu s) - 32 then r13 (cpu s)
     else if b = rsp (cpu s) - 40 then r14 (cpu s) else if b = rsp (cpu s) - 48 then r15 (cpu s) else hread64 s b)"
  using al by (simp add: save_context_def Let_def hread64_push cpu_push word_aligned_step)

lemma save_frame:
  assumes "word_aligned s (rsp (cpu s))" "a < length (task_table s)"
  shows "context_rsp (tsk (save_context (Some a) s) a) = rsp (cpu s) - 48"
    "j \<noteq> a \<Longrightarrow> tsk (save_context (Some a) s) j = tsk s j"
    "frame_regs (save_context (Some a) s) (rsp (cpu s) - 48) = (cpu s)\<lparr>rsp := rsp (cpu s) + 8, rip := hread64 s (rsp (cpu s))\<rparr>"
proof -
  show "context_rsp (tsk (save_context (Some a) s) a) = rsp (cpu s) - 48"
    "j \<noteq> a \<Longrightarrow> tsk (save_context (Some a) s) j = tsk s j"
    using assms(2) by (simp_all add: save_context_def Let_def cpu_push)
  show "frame_regs (save_context (Some a) s) (rsp (cpu s) - 48) = (cpu s)\<lparr>rsp := rsp (cpu s) + 8, rip := hread64 s (rsp (cpu s))\<rparr>"
    using assms(1) by (simp add: frame_regs_def Let_def save_reads word_aligned_step)
qed

section \<open>The frame of a task that has not run yet\<close>

lemma write_words_fields [simp]:
  "word_aligned (write_words a vs s) b = word_aligned s b"
  by (induction vs arbitrary: a s) (auto simp: hwrite64_def word_aligned_def virt_to_phys_def)

lemma write_words_mem: "\<exists>m. write_words a vs s = s\<lparr>mem := m\<rparr>"
proof (induction vs arbitrary: a s)
  case (Cons v vs)
  then obtain m where "write_words (a + 8) vs (hwrite64 a v s) = (hwrite64 a v s)\<lparr>mem := m\<rparr>" by blast
  then show ?case by (simp add: hwrite64_def) blast
next
  case Nil
  show ?case by (rule exI [of _ "mem s"]) simp
qed

lemma push_switch_frame_mem: "push_switch_frame sp ret arg s = (sp', s') \<Longrightarrow> \<exists>m. s' = s\<lparr>mem := m\<rparr>"
  using write_words_mem [of "sp - 8 - 48" "[0, 0, 0, arg, 0, 0]" "hwrite64 (sp - 8) ret s"]
  by (auto simp: push_switch_frame_def Let_def hwrite64_def simp del: write_words.simps)

lemma push_switch_frame_spec:
  assumes "word_aligned s sp" "push_switch_frame sp ret arg s = (sp', s')"
  shows "sp' = sp - 56"
    "frame_regs s' sp' = \<lparr>rsp = sp, rbx = 0, rbp = 0, r12 = arg, r13 = 0, r14 = 0, r15 = 0, rip = ret\<rparr>"
    "word_aligned s b \<Longrightarrow> b \<notin> {sp - 56, sp - 48, sp - 40, sp - 32, sp - 24, sp - 16, sp - 8} \<Longrightarrow> hread64 s' b = hread64 s b"
proof -
  have al: "word_aligned s (sp - 56)" using word_aligned_add [of s sp "- 56"] assms(1) by simp
  note A = word_aligned_step [OF assms(1)] al
  show sp': "sp' = sp - 56" using assms(2) by (auto simp: push_switch_frame_def Let_def)
  have s': "s' = write_words (sp - 56) [0, 0, 0, arg, 0, 0] (hwrite64 (sp - 8) ret s)"
    using assms(2) by (auto simp: push_switch_frame_def Let_def)
  have R: "hread64 s' b = (if b = sp - 16 then 0 else if b = sp - 24 then 0 else if b = sp - 32 then arg else
      if b = sp - 40 then 0 else if b = sp - 48 then 0 else if b = sp - 56 then 0 else if b = sp - 8 then ret else hread64 s b)"
    if "word_aligned s b" for b
    using that A by (simp add: s' hread64_hwrite64)
  show "frame_regs s' sp' = \<lparr>rsp = sp, rbx = 0, rbp = 0, r12 = arg, r13 = 0, r14 = 0, r15 = 0, rip = ret\<rparr>"
    using A by (simp add: frame_regs_def Let_def sp' R)
  show "hread64 s' b = hread64 s b" if "word_aligned s b" "b \<notin> {sp - 56, sp - 48, sp - 40, sp - 32, sp - 24, sp - 16, sp - 8}"
    using R [OF that(1)] that(2) by simp
qed

lemma slot_alloc_some:
  assumes "tasks_ok {} s" "task_free_list s = Some t"
  shows "task_slot_alloc s = Some (Some t, upd_task t (next_free_update (\<lambda>_. None)) (s\<lparr>task_free_list := next_free (tsk s t)\<rparr>))"
    "0 < t" "t < MAX_TASKS" "t < length (task_table s)" "state (tsk s t) = TASK_UNUSED"
proof -
  obtain xs where xs: "table_inv {} xs s" using assms(1) by (auto simp: tasks_ok_def)
  note I = table_invD [OF xs]
  obtain ys where "xs = t # ys" using I(3) assms(2) by (cases xs) auto
  then show "0 < t" "t < MAX_TASKS" "state (tsk s t) = TASK_UNUSED" using I(5) I(8) [of t] by auto
  then show "t < length (task_table s)" using I(1) by simp
  show "task_slot_alloc s = Some (Some t, upd_task t (next_free_update (\<lambda>_. None)) (s\<lparr>task_free_list := next_free (tsk s t)\<rparr>))"
    using I(2) assms(2) by (simp add: task_slot_alloc_def Let_def upd_task_def)
qed

lemma same_frames:
  assumes "pages s' = pages s" "page_free_list s' = page_free_list s" "locks s' = locks s"
  shows "frames_inv s' = frames_inv s" "free_frames s' = free_frames s"
  using assms by (simp_all add: frames_inv_def free_frames_def)

lemma kstack_alloc_some:
  assumes "frames_inv s" "free_frames s \<noteq> {}"
  obtains pp s' where "alloc_post 1 s pp s'" "quiet s s'" "task_kstack_alloc t s = Some (True, upd_task t (\<lambda>x. x\<lparr>kstack := Some (phys_to_virt s (page2pa pp)),
      kstack_top := Some (phys_to_virt s (page2pa pp) + 4096)\<rparr>) s')"
proof -
  obtain pp s' where pp: "page_alloc 1 s = Some (Some pp, s')" "alloc_post 1 s pp s'" using page_alloc_pop [OF assms] by blast
  note q = page_alloc_quiet [OF pp(1)]
  then have "g_hhdm_offset s' = g_hhdm_offset s" by (auto simp: quiet_iff)
  then show thesis using that [OF pp(2) q] pp(1) by (simp add: task_kstack_alloc_def Let_def phys_to_virt_def)
qed

lemma kstack_top_aligned:
  assumes "frames_inv s" "pp \<in> free_frames s"
  shows "word_aligned s (phys_to_virt s (page2pa pp) + 4096)"
proof -
  have "pp < 2 ^ 40" using free_frames_bound [OF assms(2)] assms(1) by (simp add: frames_inv_def)
  then have "page_aligned (page2pa pp)" by (rule page_aligned_page2pa)
  then have "8 dvd unat (page2pa pp)" unfolding page_aligned_def by (rule dvd_trans [rotated]) simp
  then have "word_aligned s (phys_to_virt s (page2pa pp))" by (simp add: word_aligned_def)
  then show ?thesis by (rule word_aligned_add) simp
qed

section \<open>Properties\<close>

text \<open>Claim C18. A context switch away from a task is undone by any later switch back to it: if
  the seven words of its saved frame and its saved stack pointer are still there, the task continues with the registers it
  had, as if its call of \<open>context_switch\<close> had returned. The later switch may leave from any other task, whose own saved
  frame lies elsewhere.\<close>

theorem context_switch_resumes:
  assumes "word_aligned s (rsp (cpu s))" "a < length (task_table s)" "a \<noteq> b"
    and "context_rsp (tsk s2 a) = context_rsp (tsk (context_switch (Some a) b s) a)"
    and "frame_regs s2 (context_rsp (tsk s2 a)) = frame_regs (context_switch (Some a) b s) (context_rsp (tsk s2 a))"
    and "y < length (task_table s2)" "y \<noteq> a" "word_aligned s2 (rsp (cpu s2))" "g_hhdm_offset s2 = g_hhdm_offset s"
    and "\<forall>i < 6. \<forall>j < 7. rsp (cpu s2) - 8 - 8 * of_nat i \<noteq> context_rsp (tsk s2 a) + 8 * of_nat j"
  shows "cpu (context_switch (Some y) a s2) = (cpu s)\<lparr>rsp := rsp (cpu s) + 8, rip := hread64 s (rsp (cpu s))\<rparr>"
proof -
  define sp where "sp = rsp (cpu s) - 48"
  note F = save_frame [OF assms(1,2)]
  have at: "context_rsp (tsk s2 a) = sp" using F(1) assms(4) by (simp add: context_switch_loads Let_def sp_def)
  have f2: "frame_regs s2 sp = (cpu s)\<lparr>rsp := rsp (cpu s) + 8, rip := hread64 s (rsp (cpu s))\<rparr>"
    using assms(5) F(3) unfolding at by (simp add: context_switch_loads Let_def frame_regs_def sp_def)
  have A: "word_aligned s2 sp"
    using word_aligned_step(6) [OF assms(1)] assms(9) by (simp add: word_aligned_def virt_to_phys_def sp_def)
  have ne: "sp + 8 * of_nat j \<notin> {rsp (cpu s2) - 8, rsp (cpu s2) - 16, rsp (cpu s2) - 24, rsp (cpu s2) - 32, rsp (cpu s2) - 40, rsp (cpu s2) - 48}"
    if "j < 7" for j
  proof -
    have "rsp (cpu s2) - 8 - 8 * of_nat i \<noteq> sp + 8 * of_nat j" if "i < 6" for i
      using assms(10) \<open>j < 7\<close> that unfolding at by blast
    from this [of 0] this [of 1] this [of 2] this [of 3] this [of 4] this [of 5] show ?thesis by auto
  qed
  have keep: "hread64 (save_context (Some y) s2) (sp + 8 * of_nat j) = hread64 s2 (sp + 8 * of_nat j)" if "j < 7" for j
  proof -
    have "word_aligned s2 (sp + 8 * of_nat j)"
      using word_aligned_add [OF A, of "8 * of_nat j"] that by (simp add: unat_mult_lem [THEN iffD1] unat_of_nat)
    then show ?thesis using save_reads [OF assms(8)] ne [OF that] by simp
  qed
  have "frame_regs (save_context (Some y) s2) sp = frame_regs s2 sp"
    using keep [of 0] keep [of 1] keep [of 2] keep [of 3] keep [of 4] keep [of 5] keep [of 6]
    by (simp add: frame_regs_def Let_def)
  moreover have "tsk (save_context (Some y) s2) a = tsk s2 a" using save_frame(2) [OF assms(8,6)] assms(7) by simp
  ultimately show ?thesis using f2 at by (simp add: context_switch_loads Let_def)
qed

definition demo_switch :: kernel_state where
  "demo_switch = demo_tasks\<lparr>cpu := \<lparr>rsp = 0xFFFF800000003000, rbx = 7, rbp = 8, r12 = 9, r13 = 10, r14 = 11, r15 = 12, rip = 13\<rparr>\<rparr>"

lemma demo_switch_fields:
  "task_table demo_switch = task_table demo_tasks" "g_hhdm_offset demo_switch = 0xFFFF800000000000"
  "cpu demo_switch = \<lparr>rsp = 0xFFFF800000003000, rbx = 7, rbp = 8, r12 = 9, r13 = 10, r14 = 11, r15 = 12, rip = 13\<rparr>"
  by (simp_all add: demo_switch_def demo_tasks_def demo_kernel_def demo_heap_def kheap_init_def demo_frames_def demo_pmm_def
      demo_idt_def demo_gdt_def demo_machine_def heap_state.defs frame_state.defs pmm_state.defs idt_state.defs gdt_state.defs machine.defs)

lemma save_fields [simp]:
  "g_hhdm_offset (save_context old s) = g_hhdm_offset s" "length (task_table (save_context old s)) = length (task_table s)"
  by (cases old; simp add: save_context_def Let_def upd_task_def push_def set_cpu_def hwrite64_def)+

theorem context_switch_resumes_witness:
  "cpu (context_switch (Some 2) 1 (context_switch (Some 1) 2 demo_switch)) =
     \<lparr>rsp = 0xFFFF800000003008, rbx = 7, rbp = 8, r12 = 9, r13 = 10, r14 = 11, r15 = 12, rip = hread64 demo_switch 0xFFFF800000003000\<rparr>"
proof -
  let ?s = "demo_switch"
  let ?s2 = "context_switch (Some 1) 2 demo_switch"
  have al: "word_aligned ?s (rsp (cpu ?s))" by (simp add: word_aligned_def virt_to_phys_def demo_switch_fields)
  have len: "length (task_table ?s) = 64" using demo_tasks_fields(1) by (simp add: demo_switch_fields MAX_TASKS_def)
  have one: "1 < length (task_table ?s)" by (simp add: len)
  note F = save_frame [OF al one]
  have "context_rsp (tsk demo_tasks 2) = 0" by (simp add: demo_tasks_at MAX_TASKS_def empty_slot_def)
  then have rsp2: "rsp (cpu ?s2) = 56"
    using F(2) [of 2] by (simp add: context_switch_loads Let_def frame_regs_def demo_switch_fields)
  have sp: "context_rsp (tsk ?s2 1) = 0xFFFF800000002FD0"
    using F(1) by (simp add: context_switch_loads Let_def demo_switch_fields)
  have ne: "rsp (cpu ?s2) - 8 - 8 * of_nat i \<noteq> context_rsp (tsk ?s2 1) + 8 * of_nat j" if "i < 6" "j < 7" for i j
  proof -
    have "i \<in> {0, 1, 2, 3, 4, 5}" "j \<in> {0, 1, 2, 3, 4, 5, 6}" using that by auto
    then show ?thesis unfolding rsp2 sp by auto
  qed
  have h2: "g_hhdm_offset ?s2 = 0xFFFF800000000000" and len2: "length (task_table ?s2) = 64"
    using len by (simp_all add: context_switch_loads Let_def demo_switch_fields)
  have al2: "word_aligned ?s2 (rsp (cpu ?s2))" unfolding rsp2 word_aligned_def virt_to_phys_def h2 by simp
  have "cpu (context_switch (Some 2) 1 ?s2) = (cpu ?s)\<lparr>rsp := rsp (cpu ?s) + 8, rip := hread64 ?s (rsp (cpu ?s))\<rparr>"
    by (rule context_switch_resumes [OF al one _ refl refl _ _ al2]) (use ne len2 h2 in \<open>simp_all add: demo_switch_fields\<close>)
  then show ?thesis by (simp add: demo_switch_fields)
qed

lemma frame_regs_quiet_table: "frame_regs (upd_task i f s) sp = frame_regs s sp" "frame_regs (say t s) sp = frame_regs s sp"
  by (simp_all add: frame_regs_def Let_def) (simp add: say_def hread64_def virt_to_phys_def)

lemma task_create_kernel_spec:
  assumes ok: "tasks_ok {} s" and fr: "frames_inv s" "free_frames s \<noteq> {}" and t: "task_free_list s = Some t"
  obtains pp s' where "task_create_kernel entry s = Some (Some t, s')" "pp \<in> free_frames s"
    "free_frames s' = free_frames s - {pp}" "frames_inv s'" "0 < t" "state (tsk s t) = TASK_UNUSED"
    "state (tsk s' t) = TASK_RUNNABLE" "pml4 (tsk s' t) = Some (get_current_pml4 s)"
    "kstack_top (tsk s' t) = Some (phys_to_virt s (page2pa pp) + 4096)" "\<And>i. i \<noteq> t \<Longrightarrow> tsk s' i = tsk s i"
    "frame_regs s' (context_rsp (tsk s' t)) = \<lparr>rsp = phys_to_virt s (page2pa pp) + 4096, rbx = 0, rbp = 0, r12 = entry,
       r13 = 0, r14 = 0, r15 = 0, rip = task_entry_trampoline s\<rparr>" "g_hhdm_offset s' = g_hhdm_offset s"
proof -
  note A = slot_alloc_some [OF ok t]
  define s1 where "s1 = upd_task t (next_free_update (\<lambda>_. None)) (s\<lparr>task_free_list := next_free (tsk s t)\<rparr>)"
  have s1: "pages s1 = pages s" "page_free_list s1 = page_free_list s" "locks s1 = locks s" "g_hhdm_offset s1 = g_hhdm_offset s"
    "task_entry_trampoline s1 = task_entry_trampoline s" "cr3 s1 = cr3 s" "length (task_table s1) = length (task_table s)"
    "\<And>i. i \<noteq> t \<Longrightarrow> tsk s1 i = tsk s i" "console_ok s1"
    using tasks_okD(4) [OF ok] by (simp_all add: s1_def upd_task_def)
  have fr1: "frames_inv s1" "free_frames s1 \<noteq> {}" using same_frames [OF s1(1-3)] fr by simp_all
obtain pp s2 where pp: "alloc_post 1 s1 pp s2" and q: "quiet s1 s2" and k: "task_kstack_alloc t s1 =
      Some (True, upd_task t (\<lambda>x. x\<lparr>kstack := Some (phys_to_virt s1 (page2pa pp)), kstack_top := Some (phys_to_virt s1 (page2pa pp) + 4096)\<rparr>) s2)"
    using kstack_alloc_some [OF fr1] by blast
  have ppf: "pp \<in> free_frames s1" and fr2: "frames_inv s2" "free_frames s2 = free_frames s1 - {pp}" using pp unfolding alloc_post_def by blast+
  have base: "phys_to_virt s1 (page2pa pp) = phys_to_virt s (page2pa pp)" by (simp add: phys_to_virt_def s1(4))
  define top where "top = phys_to_virt s (page2pa pp) + 4096"
  define s3 where "s3 = upd_task t (\<lambda>x. x\<lparr>pml4 := Some (get_current_pml4 s), state := TASK_RUNNABLE, parent_id := - 1, exit_code := 0\<rparr>)
     (upd_task t (\<lambda>x. x\<lparr>kstack := Some (phys_to_virt s (page2pa pp)), kstack_top := Some top\<rparr>) s2)"
  have tl: "t < length (task_table s2)" using A(4) s1(7) quiet_same_tasks [OF q] by (simp add: same_tasks_def)
  have s2: "g_hhdm_offset s2 = g_hhdm_offset s" "task_entry_trampoline s2 = task_entry_trampoline s" "cr3 s2 = cr3 s"
    "console_ok s2" "\<And>i. i \<noteq> t \<Longrightarrow> tsk s2 i = tsk s i" "task_table s2 = task_table s1"
    using q s1 quiet_same_tasks [OF q] by (auto simp: quiet_iff same_tasks_def)
  have s3: "kstack_top (tsk s3 t) = Some top" "state (tsk s3 t) = TASK_RUNNABLE" "pml4 (tsk s3 t) = Some (get_current_pml4 s)"
    "\<And>i. i \<noteq> t \<Longrightarrow> tsk s3 i = tsk s i" "task_entry_trampoline s3 = task_entry_trampoline s" "console_ok s3" "t < length (task_table s3)"
    "pages s3 = pages s2" "page_free_list s3 = page_free_list s2" "locks s3 = locks s2" "g_hhdm_offset s3 = g_hhdm_offset s"
    using tl s2 by (simp_all add: s3_def) (simp_all add: upd_task_def s2)
  have al: "word_aligned s3 top"
    using kstack_top_aligned [OF fr1(1) ppf] s1(4) s3(11) unfolding base top_def by (simp add: word_aligned_def virt_to_phys_def)
  obtain sp s4 where p: "push_switch_frame top (task_entry_trampoline s3) entry s3 = (sp, s4)" by fastforce
  note P = push_switch_frame_spec [OF al p]
  define s5 where "s5 = upd_task t (context_rsp_update (\<lambda>_. sp)) s4"
  have init: "task_stack_init t entry s3 = Some s5" using s3(1) p by (simp add: task_stack_init_def s5_def)
  obtain m where m: "s4 = s3\<lparr>mem := m\<rparr>" using push_switch_frame_mem [OF p] by blast
  have t4: "task_table s4 = task_table s3" "console_ok s4" "pages s4 = pages s3" "page_free_list s4 = page_free_list s3" "locks s4 = locks s3"
    using s3(6) by (simp_all add: m console_ok_def uart_live_def)
  have s5: "tsk s5 t = (tsk s3 t)\<lparr>context_rsp := sp\<rparr>" "\<And>i. i \<noteq> t \<Longrightarrow> tsk s5 i = tsk s i" "console_ok s5"
    using t4 s3 by (simp_all add: s5_def)
  define msg where "msg = kmsg (''task_create_kernel: task_id=%ld kstack_top=%lx state=RUNNABLE'' @ [CHR 0x0A])
                           [W (task_id (tsk s5 t)), W (the (kstack_top (tsk s5 t)))]"
  have cur: "get_current_pml4 (upd_task t (\<lambda>x. x\<lparr>kstack := Some (phys_to_virt s (page2pa pp)), kstack_top := Some top\<rparr>) s2) = get_current_pml4 s"
    by (simp add: get_current_pml4_def phys_to_virt_def upd_task_def s2)
  have run: "task_create_kernel entry s = Some (Some t, say msg s5)"
    using A(1) k init kprintf_ok [OF s5(3)] cur
    by (simp add: task_create_kernel_def s1_def [symmetric] base top_def [symmetric] s3_def [symmetric] msg_def Let_def)
  have fr': "frames_inv (say msg s5)" "free_frames (say msg s5) = free_frames s - {pp}"
    using same_frames [of s2 "say msg s5"] same_frames [OF s1(1-3)] fr2 t4(3-5) s3(8-10) by (simp_all add: s5_def say_def upd_task_def)
  have regs: "frame_regs (say msg s5) sp = \<lparr>rsp = top, rbx = 0, rbp = 0, r12 = entry, r13 = 0, r14 = 0, r15 = 0, rip = task_entry_trampoline s\<rparr>"
    using P(2) s3(5) by (simp add: frame_regs_quiet_table s5_def)
  have tt: "task_table (say msg s5) = task_table s5" "g_hhdm_offset s5 = g_hhdm_offset s"
    by (simp_all add: say_def s5_def upd_task_def m s3(11))
  show thesis
    by (rule that [OF run]) (use fr' A(2,5) ppf same_frames(2) [OF s1(1-3)] s5 s3(1-3) regs in \<open>simp_all add: tt top_def\<close>)
qed

text \<open>Claim C35. With a free slot and a free frame, \<open>task_create_kernel\<close> returns a task in a formerly
  unused slot, with a kernel stack in a formerly free frame, and changes no other task. The first switch into it, from
  boot code, loads its address space and kernel stack and enters \<open>task_entry_trampoline\<close> with the entry point in
  \<open>r12\<close> and an empty stack.\<close>

theorem kernel_task_starts:
  assumes "tasks_ok {} s" "frames_inv s" "free_frames s \<noteq> {}" "task_free_list s \<noteq> None"
  shows "\<exists>t s' pp. task_create_kernel entry s = Some (Some t, s') \<and> pp \<in> free_frames s \<and>
    free_frames s' = free_frames s - {pp} \<and> frames_inv s' \<and> tasks_ok {} s' \<and> 0 < t \<and>
    state (tsk s t) = TASK_UNUSED \<and> state (tsk s' t) = TASK_RUNNABLE \<and> (\<forall>i. i \<noteq> t \<longrightarrow> tsk s' i = tsk s i) \<and>
    (let s2 = scheduler_switch_to None t s'; top = phys_to_virt s (page2pa pp) + 4096 in
      cr3 s2 = cr3 s AND 0x000FFFFFFFFFF000 \<and> rsp0 (kernel_tss s2) = top \<and>
      cpu s2 = \<lparr>rsp = top, rbx = 0, rbp = 0, r12 = entry, r13 = 0, r14 = 0, r15 = 0, rip = task_entry_trampoline s\<rparr>)"
proof -
  obtain t where t: "task_free_list s = Some t" using assms(4) by blast
  obtain pp s' where run: "task_create_kernel entry s = Some (Some t, s')" and pp: "pp \<in> free_frames s"
    "free_frames s' = free_frames s - {pp}" "frames_inv s'" "0 < t" "state (tsk s t) = TASK_UNUSED"
    and t': "state (tsk s' t) = TASK_RUNNABLE" "pml4 (tsk s' t) = Some (get_current_pml4 s)"
    "kstack_top (tsk s' t) = Some (phys_to_virt s (page2pa pp) + 4096)" and other: "\<And>i. i \<noteq> t \<Longrightarrow> tsk s' i = tsk s i"
    and regs: "frame_regs s' (context_rsp (tsk s' t)) = \<lparr>rsp = phys_to_virt s (page2pa pp) + 4096, rbx = 0, rbp = 0, r12 = entry,
       r13 = 0, r14 = 0, r15 = 0, rip = task_entry_trampoline s\<rparr>" and h: "g_hhdm_offset s' = g_hhdm_offset s"
    by (rule task_create_kernel_spec [OF assms(1-3) t, where entry = entry]) blast
  have fr: "frame_regs (s'\<lparr>cr3 := a, tlb_log := b, kernel_tss := c\<rparr>) sp = frame_regs s' sp" for a b c sp
    by (simp add: frame_regs_def Let_def hread64_def virt_to_phys_def)
  have cr: "virt_to_phys s' (get_current_pml4 s) = cr3 s AND 0x000FFFFFFFFFF000"
    by (simp add: get_current_pml4_def virt_to_phys_def phys_to_virt_def h Let_def)
  have "let s2 = scheduler_switch_to None t s'; top = phys_to_virt s (page2pa pp) + 4096 in
      cr3 s2 = cr3 s AND 0x000FFFFFFFFFF000 \<and> rsp0 (kernel_tss s2) = top \<and>
      cpu s2 = \<lparr>rsp = top, rbx = 0, rbp = 0, r12 = entry, r13 = 0, r14 = 0, r15 = 0, rip = task_entry_trampoline s\<rparr>"
    unfolding scheduler_switch_to_def vmm_switch_address_space_def tss_set_rsp0_def context_switch_loads save_context_def t'(2) option.case Let_def
    using regs t' cr by (simp add: fr)
  then show ?thesis using run pp t'(1) other task_create_kernel_ok [OF assms(1) run] by blast
qed

lemma demo_tasks_frames: "frames_inv demo_tasks" "free_frames demo_tasks \<noteq> {}" "task_free_list demo_tasks \<noteq> None"
proof -
  have "pages demo_tasks = pages demo_heap" "page_free_list demo_tasks = page_free_list demo_heap" "locks demo_tasks = locks demo_heap"
    by (simp_all add: demo_tasks_def demo_kernel_def heap_state.defs)
  then have f: "pages demo_tasks = pages demo_frames" "page_free_list demo_tasks = page_free_list demo_frames"
    "locks demo_tasks = locks demo_frames" by (simp_all add: demo_heap_fields)
  then have e: "free_frames demo_tasks = free_frames demo_frames" by (simp add: free_frames_def)
  then show "frames_inv demo_tasks" "free_frames demo_tasks \<noteq> {}"
    using demo_frames_inv f demo_free_frames by (simp_all add: frames_inv_def)
  show "task_free_list demo_tasks \<noteq> None" by (simp add: demo_tasks_fields)
qed

theorem kernel_task_starts_witness:
  "\<exists>t s'. task_create_kernel 0x4000 demo_tasks = Some (Some t, s') \<and> r12 (cpu (scheduler_switch_to None t s')) = 0x4000"
proof -
  obtain t s' pp where "task_create_kernel 0x4000 demo_tasks = Some (Some t, s')"
    "let s2 = scheduler_switch_to None t s'; top = phys_to_virt demo_tasks (page2pa pp) + 4096 in
      cpu s2 = \<lparr>rsp = top, rbx = 0, rbp = 0, r12 = 0x4000, r13 = 0, r14 = 0, r15 = 0, rip = task_entry_trampoline demo_tasks\<rparr>"
    using kernel_task_starts [OF demo_tasks_ok demo_tasks_frames, where entry = "0x4000"] unfolding Let_def by blast
  then show ?thesis by (simp add: Let_def)
qed

end
