(* ===== verification/CopyOk.thy ===== *)
theory CopyOk
  imports CopySpace
begin

text \<open>Correctness of \<open>vmm_copy_address_space\<close>: the addresses the four nested loops visit, an invariant of the pages
copied so far (\<open>copy_inv\<close>), and the copy of a whole user half (\<open>copied_space\<close>).\<close>

section \<open>The addresses the loops visit\<close>

definition va_of :: "nat \<Rightarrow> nat \<Rightarrow> nat \<Rightarrow> nat \<Rightarrow> u64" where
  "va_of i4 i3 i2 i1 = push_bit 39 (of_nat i4) OR push_bit 30 (of_nat i3) OR push_bit 21 (of_nat i2) OR push_bit 12 (of_nat i1)"

lemma bit_small: "i < 512 \<Longrightarrow> bit i n \<Longrightarrow> n < 9" for i :: nat
proof -
  assume i: "i < 512" and b: "bit i n"
  moreover have "i < 2 ^ 9" using i by simp
  ultimately show "n < 9" by (metis bit_take_bit_iff take_bit_nat_eq_self)
qed

lemma va_of_path:
  assumes "i4 < 512" "i3 < 512" "i2 < 512" "i1 < 512"
  shows "dir_path (va_of i4 i3 i2 i1) = [i4, i3, i2]" "leaf_index (va_of i4 i3 i2 i1) = i1"
    "unat (pml4_index (va_of i4 i3 i2 i1)) = i4"
proof -
  note b = bit_small [OF assms(1)] bit_small [OF assms(2)] bit_small [OF assms(3)] bit_small [OF assms(4)]
  have nb: "\<not> bit i (9 + n)" "\<not> bit i (18 + n)" "\<not> bit i (27 + n)" if "i < 512" for i n :: nat
    using bit_small [OF that, of "9 + n"] bit_small [OF that, of "18 + n"] bit_small [OF that, of "27 + n"] by auto
  note nb = nb [OF assms(2)] nb [OF assms(3)] nb [OF assms(4)]
  have "pml4_index (va_of i4 i3 i2 i1) = of_nat i4" "pdpt_index (va_of i4 i3 i2 i1) = of_nat i3"
    "pd_index (va_of i4 i3 i2 i1) = of_nat i2" "pt_index (va_of i4 i3 i2 i1) = of_nat i1"
    by (auto intro!: bit_word_eqI simp: bit_index va_of_def bit_simps nb dest: b)
  then show "dir_path (va_of i4 i3 i2 i1) = [i4, i3, i2]" "leaf_index (va_of i4 i3 i2 i1) = i1"
    "unat (pml4_index (va_of i4 i3 i2 i1)) = i4"
    using assms by (simp_all add: dir_path_def leaf_index_def unat_of_nat)
qed

section \<open>What a copied page is\<close>

definition user_frames_ok :: "u64 \<Rightarrow> 'a frame_state_scheme \<Rightarrow> bool" where
  "user_frames_ok P s \<longleftrightarrow> (\<forall>va. owned user_half va \<longrightarrow> present (pte_of (mem s) P va) \<longrightarrow>
     (\<exists>q < length (pages s). q \<notin> free_frames s \<and> pte_get_addr (pte_of (mem s) P va) = page2pa q))"

definition direct_mapped :: "'a frame_state_scheme \<Rightarrow> bool" where
  "direct_mapped s \<longleftrightarrow> (\<forall>q < length (pages s). kernel_range (phys_to_virt s (page2pa q)) 4096)"

text \<open>The copy of one page: the child has no entry where the parent has none, and otherwise an entry with the parent's low flag
  bits for a frame of its own that holds the parent's bytes.\<close>

definition page_copied :: "u64 \<Rightarrow> 'a frame_state_scheme \<Rightarrow> u64 \<Rightarrow> 'a frame_state_scheme \<Rightarrow> u64 \<Rightarrow> bool" where
  "page_copied P s0 C s va \<longleftrightarrow>
     (let e = pte_of (mem s0) P va in
      if \<not> present e then pte_of (mem s) C va = 0
      else \<exists>pp \<in> free_frames s0 - free_frames s. pte_of (mem s) C va = pte_make (page2pa pp) (e AND 0xFFF) \<and>
             page2pa pp \<notin> tables user_half (mem s) C \<and>
             (\<forall>i < 4096. mem s (page2pa pp + of_nat i) = mem s0 (pte_get_addr e + of_nat i)))"

text \<open>What the loops establish for each page: it is copied, or the frames are exhausted and it is missing.\<close>

definition page_handled :: "u64 \<Rightarrow> 'a frame_state_scheme \<Rightarrow> u64 \<Rightarrow> 'a frame_state_scheme \<Rightarrow> u64 \<Rightarrow> bool" where
  "page_handled P s0 C s va \<longleftrightarrow>
     (let e = pte_of (mem s0) P va in
      if \<not> present e then pte_of (mem s) C va = 0
      else (\<exists>pp \<in> free_frames s0 - free_frames s. pte_of (mem s) C va = pte_make (page2pa pp) (e AND 0xFFF) \<and>
              page2pa pp \<notin> tables user_half (mem s) C \<and>
              (\<forall>i < 4096. mem s (page2pa pp + of_nat i) = mem s0 (pte_get_addr e + of_nat i))) \<or>
           pte_of (mem s) C va = 0 \<and> free_frames s = {})"

lemma page_handled_iff: "page_handled P s0 C s va \<longleftrightarrow> page_copied P s0 C s va \<or>
    free_frames s = {} \<and> present (pte_of (mem s0) P va) \<and> pte_of (mem s) C va = 0"
  by (auto simp: page_handled_def page_copied_def Let_def)

lemma in_page_nth: "i < 4096 \<Longrightarrow> in_page t (t + of_nat i)"
  by (simp add: in_page_def unat_of_nat)

lemma frame_kept:
  assumes ok: "space_ok user_half C s" and frame: "mem_frame (tables user_half (mem s) C) s s'"
    and q: "q < length (pages s)" "q \<notin> free_frames s" "page2pa q \<notin> tables user_half (mem s) C" "i < 4096"
  shows "mem s' (page2pa q + of_nat i) = mem s (page2pa q + of_nat i)"
proof -
  note D = space_okD [OF ok]
  have b: "length (pages s) \<le> 2 ^ 40" using D(1) by (simp add: frames_inv_def)
  have q40: "q < 2 ^ 40" using q(1) b by simp
  have al: "page_aligned (page2pa q)" by (rule page_aligned_page2pa [OF q40])
  note x = in_page_nth [OF q(4), of "page2pa q"]
  have "\<not> in_page (page2pa f) (page2pa q + of_nat i)" if "f \<in> free_frames s" for f
    using in_page_disjoint [OF al page_aligned_page2pa [OF D(4) [OF that]]] x page2pa_inj [of q f] D(4) [OF that] q40 q(2) that by blast
  moreover have "\<not> in_page t (page2pa q + of_nat i)" if "t \<in> tables user_half (mem s) C" for t
    using in_page_disjoint [OF al tables_aligned [OF tree_okD(1) [OF D(2)] that]] x q(3) that by blast
  ultimately show ?thesis using frame unfolding mem_frame_def by blast
qed

lemma page_handled_keep:
  assumes pc: "page_handled P s0 C s va" and ok: "space_ok user_half C s" and frame: "mem_frame (tables user_half (mem s) C) s s'"
    and free: "free_frames s \<noteq> {}" and T: "tables user_half (mem s') C \<subseteq> tables user_half (mem s) C \<union> page2pa ` (free_frames s - free_frames s')"
    and pte: "pte_of (mem s') C va = pte_of (mem s) C va" and len: "free_frames s0 \<subseteq> {..<length (pages s)}"
  shows "page_handled P s0 C s' va"
proof (cases "present (pte_of (mem s0) P va)")
  case False
  then show ?thesis using pc pte by (simp add: page_handled_def)
next
  case True
  let ?e = "pte_of (mem s0) P va"
  obtain pp where pp: "pp \<in> free_frames s0 - free_frames s" "pte_of (mem s) C va = pte_make (page2pa pp) (?e AND 0xFFF)"
    "page2pa pp \<notin> tables user_half (mem s) C" "\<forall>i < 4096. mem s (page2pa pp + of_nat i) = mem s0 (pte_get_addr ?e + of_nat i)"
    using pc True free unfolding page_handled_def Let_def by metis
  note D = space_okD [OF ok]
  have pl: "pp < length (pages s)" "pp \<notin> free_frames s" using pp(1) len by auto
  have b: "length (pages s) \<le> 2 ^ 40" using D(1) by (simp add: frames_inv_def)
  have "page2pa f \<noteq> page2pa pp" if "f \<in> free_frames s" for f
    using page2pa_inj [OF D(4) [OF that], of pp] pl b that by auto
  then have "page2pa pp \<notin> page2pa ` (free_frames s - free_frames s')" by (metis DiffD1 imageE)
  then have "page2pa pp \<notin> tables user_half (mem s') C" using pp(3) T by blast
  moreover have "\<forall>i < 4096. mem s' (page2pa pp + of_nat i) = mem s0 (pte_get_addr ?e + of_nat i)"
    using frame_kept [OF ok frame pl pp(3)] pp(4) by simp
  moreover have "pp \<in> free_frames s0 - free_frames s'" using pp(1) frame unfolding mem_frame_def by blast
  ultimately show ?thesis using True pp(2) pte unfolding page_handled_def Let_def by metis
qed

section \<open>Copying one frame\<close>

lemma copy_frame:
  assumes dm: "direct_mapped s" and inv: "frames_inv s" and p: "p < length (pages s)" and q: "q < length (pages s)" "p \<noteq> q"
  shows "memcpy (phys_to_virt s (page2pa p)) (phys_to_virt s (page2pa q)) 4096 s =
    Some (phys_to_virt s (page2pa p), s\<lparr>mem := copy_block (mem s) (page2pa p) (page2pa q) 4096\<rparr>)"
proof -
  have b: "p < 2 ^ 40" "q < 2 ^ 40" using inv p q by (simp_all add: frames_inv_def)
  note al = page_aligned_page2pa [OF b(1)] page_aligned_page2pa [OF b(2)]
  have kr: "kernel_range (phys_to_virt s (page2pa p)) 4096" "kernel_range (phys_to_virt s (page2pa q)) 4096"
    using dm p q by (simp_all add: direct_mapped_def)
  have "phys_to_virt s (page2pa q) + of_nat j \<noteq> phys_to_virt s (page2pa p) + of_nat i" if "i < j" "j < 4096" for i j
  proof
    assume "phys_to_virt s (page2pa q) + of_nat j = phys_to_virt s (page2pa p) + of_nat i"
    then have "page2pa q + of_nat j = page2pa p + of_nat i" by (simp add: phys_to_virt_def algebra_simps)
    then have "in_page (page2pa q) (page2pa p + of_nat i)" using in_page_nth [of j "page2pa q"] that by simp
    then show False
      using in_page_disjoint [OF al(2,1)] in_page_nth [of i "page2pa p"] that page2pa_inj [OF b] q(2) by (metis less_trans)
  qed
  then show ?thesis using copy_up_kernel [OF kr, of s] by (simp add: memcpy_def)
qed

lemma copy_block_at: "i < 4096 \<Longrightarrow> copy_block m d p 4096 (d + of_nat i) = m (p + of_nat i)"
  by (simp add: copy_block_def unat_of_nat)

lemma copy_block_off: "\<not> in_page d x \<Longrightarrow> copy_block m d p 4096 x = m x"
  by (simp add: copy_block_def in_page_def)

lemma mem_frame_mono: "mem_frame {} s s' \<Longrightarrow> mem_frame T s s'"
  unfolding mem_frame_def by blast

lemma copied_frame_frame:
  assumes F: "mem_frame {} s s1" and pp: "pp \<in> free_frames s" "free_frames s1 = free_frames s - {pp}"
    and s2: "s2 = s1\<lparr>mem := m\<rparr>" and m: "\<And>x. \<not> in_page (page2pa pp) x \<Longrightarrow> m x = mem s x"
  shows "mem_frame {} s s2"
  unfolding mem_frame_def
proof (intro conjI allI impI)
  obtain m1 ps h where "s1 = s\<lparr>mem := m1, pages := ps, page_free_list := h\<rparr>" using F unfolding mem_frame_def by blast
  then show "\<exists>m ps h. s2 = s\<lparr>mem := m, pages := ps, page_free_list := h\<rparr>"
    unfolding s2 by (intro exI [of _ m] exI [of _ ps] exI [of _ h]) simp
  show "map pp_ref (pages s2) = map pp_ref (pages s)" using F unfolding mem_frame_def s2 by simp
  show "free_frames s2 \<subseteq> free_frames s" using pp(2) by (auto simp: s2)
  fix x assume "mem s2 x \<noteq> mem s x"
  then have "in_page (page2pa pp) x" using m [of x] by (auto simp: s2)
  then show "(\<exists>f \<in> free_frames s - free_frames s2. in_page (page2pa f) x) \<or> (\<exists>t \<in> {}. in_page t x)"
    using pp by (auto simp: s2)
qed

section \<open>The invariant of the loops\<close>

definition copy_base :: "u64 \<Rightarrow> u64 \<Rightarrow> 'a frame_state_scheme \<Rightarrow> bool" where
  "copy_base P C s0 \<longleftrightarrow> space_ok user_half P s0 \<and> tables user_half (mem s0) C = {C} \<and> C \<notin> tables user_half (mem s0) P \<and>
     page_aligned C \<and> user_frames_ok P s0 \<and> direct_mapped s0 \<and>
     (\<forall>va. owned user_half va \<longrightarrow> present (pte_of (mem s0) P va) \<longrightarrow> pte_get_addr (pte_of (mem s0) P va) \<noteq> C)"

definition copy_inv :: "u64 \<Rightarrow> u64 \<Rightarrow> 'a frame_state_scheme \<Rightarrow> u64 set \<Rightarrow> 'a frame_state_scheme \<Rightarrow> bool" where
  "copy_inv P C s0 D s \<longleftrightarrow> space_ok user_half C s \<and> mem_frame {C} s0 s \<and>
     tables user_half (mem s) C \<subseteq> {C} \<union> page2pa ` (free_frames s0 - free_frames s) \<and>
     (\<forall>va. owned user_half va \<longrightarrow> (if va \<in> D then page_handled P s0 C s va else pte_of (mem s) C va = 0)) \<and>
     (\<forall>va va'. owned user_half va \<longrightarrow> owned user_half va' \<longrightarrow> vpn va \<noteq> vpn va' \<longrightarrow>
        present (pte_of (mem s) C va) \<longrightarrow> present (pte_of (mem s) C va') \<longrightarrow>
        pte_get_addr (pte_of (mem s) C va) \<noteq> pte_get_addr (pte_of (mem s) C va')) \<and>
     same_root user_half C (mem s0) (mem s)"

lemma copy_invD:
  assumes "copy_inv P C s0 D s"
  shows "space_ok user_half C s" "mem_frame {C} s0 s"
    "tables user_half (mem s) C \<subseteq> {C} \<union> page2pa ` (free_frames s0 - free_frames s)"
    "\<And>va. owned user_half va \<Longrightarrow> va \<in> D \<Longrightarrow> page_handled P s0 C s va"
    "\<And>va. owned user_half va \<Longrightarrow> va \<notin> D \<Longrightarrow> pte_of (mem s) C va = 0"
    "\<And>va va'. owned user_half va \<Longrightarrow> owned user_half va' \<Longrightarrow> vpn va \<noteq> vpn va' \<Longrightarrow>
        present (pte_of (mem s) C va) \<Longrightarrow> present (pte_of (mem s) C va') \<Longrightarrow>
        pte_get_addr (pte_of (mem s) C va) \<noteq> pte_get_addr (pte_of (mem s) C va')"
    "same_root user_half C (mem s0) (mem s)"
  using assms unfolding copy_inv_def by metis+

lemma copy_baseD:
  assumes "copy_base P C s0"
  shows "space_ok user_half P s0" "tables user_half (mem s0) C = {C}" "C \<notin> tables user_half (mem s0) P" "page_aligned C"
    "user_frames_ok P s0" "direct_mapped s0"
    "\<And>va. owned user_half va \<Longrightarrow> present (pte_of (mem s0) P va) \<Longrightarrow> pte_get_addr (pte_of (mem s0) P va) \<noteq> C"
  using assms unfolding copy_base_def by blast+

text \<open>The parent stays as it was.\<close>

lemma parent_kept:
  assumes base: "copy_base P C s0" and frame: "mem_frame {C} s0 s" and inv: "frames_inv s"
  shows "space_ok user_half P s" "\<And>va. owned user_half va \<Longrightarrow> pte_of (mem s) P va = pte_of (mem s0) P va"
    "tables user_half (mem s) P = tables user_half (mem s0) P"
    "\<And>t j. t \<in> tables user_half (mem s0) P \<Longrightarrow> j < 512 \<Longrightarrow> ent (mem s) t j = ent (mem s0) t j"
proof -
  note B = copy_baseD [OF base]
  have disj: "{C} \<inter> tables user_half (mem s0) P = {}" using B(3) by blast
  have al: "\<And>t. t \<in> {C} \<Longrightarrow> page_aligned t" using B(4) by blast
  note S = space_frame [OF B(1) frame disj al inv]
  show "space_ok user_half P s" "tables user_half (mem s) P = tables user_half (mem s0) P"
    "\<And>va. owned user_half va \<Longrightarrow> pte_of (mem s) P va = pte_of (mem s0) P va"
    by (rule S; assumption)+
  note D = space_okD [OF B(1)]
  have root: "page_aligned P" using tree_okD(1) [OF D(2)] .
  have agree: "agree_on (tables user_half (mem s0) P) (mem s0) (mem s)"
    using D(3,4) page_aligned_page2pa tables_aligned [OF root] al by (intro mem_frame_agree [OF frame disj]) auto
  show "ent (mem s) t j = ent (mem s0) t j" if "t \<in> tables user_half (mem s0) P" "j < 512" for t j
    using agree_ent [OF agree that(1) tables_aligned [OF root that(1)] that(2)] .
qed

lemma parent_frame:
  assumes base: "copy_base P C s0" and frame: "mem_frame {C} s0 s" and va: "owned user_half va" "present (pte_of (mem s0) P va)"
  obtains q where "q < length (pages s)" "q \<notin> free_frames s" "pte_get_addr (pte_of (mem s0) P va) = page2pa q"
    "\<And>i. i < 4096 \<Longrightarrow> mem s (page2pa q + of_nat i) = mem s0 (page2pa q + of_nat i)"
proof -
  note B = copy_baseD [OF base]
  obtain q where q: "q < length (pages s0)" "q \<notin> free_frames s0" "pte_get_addr (pte_of (mem s0) P va) = page2pa q"
    using B(5) va unfolding user_frames_ok_def by blast
  note D = space_okD [OF B(1)]
  have q40: "q < 2 ^ 40" using q(1) D(1) by (simp add: frames_inv_def)
  have al: "page_aligned (page2pa q)" by (rule page_aligned_page2pa [OF q40])
  have "page2pa q \<noteq> C" using B(7) [OF va] q(3) by simp
  then have c: "\<not> in_page C x" if "in_page (page2pa q) x" for x using in_page_disjoint [OF al B(4)] that by blast
  have f: "\<not> in_page (page2pa f) x" if "f \<in> free_frames s0" "in_page (page2pa q) x" for f x
  proof -
    have "page2pa q \<noteq> page2pa f" using page2pa_inj [OF q40 D(4) [OF that(1)]] that(1) q(2) by blast
    then show ?thesis using in_page_disjoint [OF al page_aligned_page2pa [OF D(4) [OF that(1)]]] that(2) by blast
  qed
  have keep: "mem s (page2pa q + of_nat i) = mem s0 (page2pa q + of_nat i)" if "i < 4096" for i
    using c f in_page_nth [OF that, of "page2pa q"] frame unfolding mem_frame_def by blast
  have len: "length (pages s) = length (pages s0)" and sub: "free_frames s \<subseteq> free_frames s0"
    using frame mem_frame_same(6) [OF frame] by (simp_all add: mem_frame_def)
  have "q < length (pages s)" "q \<notin> free_frames s" using q(1,2) len sub by auto
  then show thesis using that q(3) keep by blast
qed

section \<open>One page\<close>

lemma leaf_addr:
  assumes "pp < 2 ^ 40"
  shows "pte_get_addr (pte_make (page2pa pp) (e AND 0xFFF)) = page2pa pp"
proof -
  have "unat (page2pa pp) < 2 ^ 52" using assms by (simp add: unat_page2pa)
  then have "pte_get_addr (page2pa pp) = page2pa pp"
    using pte_get_addr_frame page_aligned_page2pa [OF assms] by blast
  moreover have "(e AND 0xFFF) AND 0x000FFFFFFFFFF000 = (0 :: u64)" by (simp add: and.assoc)
  ultimately show ?thesis using pte_get_addr_make [of "e AND 0xFFF" "page2pa pp"] pte_get_addr_mask [of "page2pa pp"] by simp
qed

lemma leaf_present: "present e \<Longrightarrow> present (pte_make pa (e AND 0xFFF))"
  by (auto simp: flag_bits bit_pte_make bit_simps)

lemma child_entries:
  assumes I: "copy_inv P C s0 D s" and va: "owned user_half va" "present (pte_of (mem s) C va)"
  obtains pp where "pp \<in> free_frames s0 - free_frames s" "pte_get_addr (pte_of (mem s) C va) = page2pa pp"
proof -
  note J = copy_invD [OF I]
  have "va \<in> D" using J(5) [OF va(1)] va(2) by (metis not_present_0)
  then have "page_handled P s0 C s va" by (rule J(4) [OF va(1)])
  then obtain pp where pp: "pp \<in> free_frames s0 - free_frames s" "pte_of (mem s) C va = pte_make (page2pa pp) (pte_of (mem s0) P va AND 0xFFF)"
    using va(2) unfolding page_handled_def Let_def by (metis not_present_0)
  have "pp < length (pages s)" using free_frames_bound [of pp s0] pp(1) mem_frame_same(6) [OF J(2)] by simp
  then have "pp < 2 ^ 40" using space_okD(1) [OF J(1)] by (simp add: frames_inv_def)
  then have "pte_get_addr (pte_make (page2pa pp) (pte_of (mem s0) P va AND 0xFFF)) = page2pa pp" by (rule leaf_addr)
  then show thesis using that [OF pp(1)] pp(2) by simp
qed

definition copy_failed :: "u64 \<Rightarrow> 'a frame_state_scheme \<Rightarrow> u64 option \<times> 'a frame_state_scheme \<Rightarrow> bool" where
  "copy_failed C s0 r \<longleftrightarrow> fst r = None \<and> free_frames (snd r) = {} \<and> frames_inv (snd r) \<and> mem_frame {C} s0 (snd r)"

definition page_set :: "u64 \<Rightarrow> u64 set" where
  "page_set v = {va. vpn va = vpn v}"

lemma copy_step:
  assumes I: "copy_inv P C s0 D s" and free: "free_frames s \<noteq> {}"
    and frame: "mem_frame (tables user_half (mem s) C) s s'" and ok: "space_ok user_half C s'"
    and T: "tables user_half (mem s') C \<subseteq> tables user_half (mem s) C \<union> page2pa ` (free_frames s - free_frames s')"
    and pte: "\<And>va. owned user_half va \<Longrightarrow> vpn va \<noteq> vpn v \<Longrightarrow> pte_of (mem s') C va = pte_of (mem s) C va"
    and new: "\<And>va. owned user_half va \<Longrightarrow> vpn va = vpn v \<Longrightarrow> page_handled P s0 C s' va"
    and addr: "\<And>va. owned user_half va \<Longrightarrow> vpn va = vpn v \<Longrightarrow> present (pte_of (mem s') C va) \<Longrightarrow>
      \<exists>pp \<in> free_frames s. pte_get_addr (pte_of (mem s') C va) = page2pa pp"
    and root: "same_root user_half C (mem s) (mem s')"
  shows "copy_inv P C s0 (D \<union> page_set v) s'"
proof -
  note J = copy_invD [OF I]
  note K = space_okD [OF J(1)]
  have sub: "free_frames s \<subseteq> free_frames s0" "free_frames s' \<subseteq> free_frames s" using J(2) frame by (simp_all add: mem_frame_def)
  have frame': "mem_frame {C} s0 s'" by (rule mem_frame_trans [OF J(2) frame J(3)])
  have len: "free_frames s0 \<subseteq> {..<length (pages s)}" using free_frames_bound mem_frame_same(6) [OF J(2)] by force
  have "tables user_half (mem s') C \<subseteq> {C} \<union> page2pa ` (free_frames s0 - free_frames s')" using T J(3) sub by blast
  moreover have "if va \<in> D \<union> page_set v then page_handled P s0 C s' va else pte_of (mem s') C va = 0" if va: "owned user_half va" for va
  proof (cases "vpn va = vpn v")
    case True
    then show ?thesis using new [OF va] by (simp add: page_set_def)
  next
    case False
    then show ?thesis
      using J(4,5) [OF va] page_handled_keep [OF _ J(1) frame free T pte [OF va False] len] pte [OF va False] by (simp add: page_set_def)
  qed
  moreover have "pte_get_addr (pte_of (mem s') C va) \<noteq> pte_get_addr (pte_of (mem s') C va')"
    if va: "owned user_half va" "owned user_half va'" "vpn va \<noteq> vpn va'"
      and pr: "present (pte_of (mem s') C va)" "present (pte_of (mem s') C va')" for va va'
  proof -
    have fresh: "pte_get_addr (pte_of (mem s') C x) \<noteq> pte_get_addr (pte_of (mem s') C y)"
      if xy: "owned user_half x" "owned user_half y" "vpn x = vpn v" "vpn y \<noteq> vpn v"
        "present (pte_of (mem s') C x)" "present (pte_of (mem s') C y)" for x y
    proof -
      obtain pp where pp: "pp \<in> free_frames s" "pte_get_addr (pte_of (mem s') C x) = page2pa pp" using addr xy(1,3,5) by blast
      obtain pp' where pp': "pp' \<in> free_frames s0 - free_frames s" "pte_get_addr (pte_of (mem s) C y) = page2pa pp'"
        using child_entries [OF I xy(2)] xy(6) pte [OF xy(2,4)] by metis
      have "pp' < 2 ^ 40" using pp'(1) len K(1) by (auto simp: frames_inv_def)
      then have "page2pa pp \<noteq> page2pa pp'" using page2pa_inj [OF K(4) [OF pp(1)]] pp(1) pp'(1) by blast
      then show ?thesis using pp(2) pp'(2) pte [OF xy(2,4)] by simp
    qed
    consider "vpn va = vpn v" | "vpn va' = vpn v" | "vpn va \<noteq> vpn v" "vpn va' \<noteq> vpn v" by blast
    then show ?thesis
    proof cases
      case 1
      then show ?thesis using fresh [OF va(1,2) _ _ pr] va(3) by simp
    next
      case 2
      then show ?thesis using fresh [OF va(2,1) _ _ pr(2,1)] va(3) by metis
    next
      case 3
      then show ?thesis using J(6) [OF va] pr pte [OF va(1)] pte [OF va(2)] by simp
    qed
  qed
  moreover have "same_root user_half C (mem s0) (mem s')" using J(7) root by (simp add: same_root_def)
  ultimately show ?thesis using ok frame' unfolding copy_inv_def by blast
qed

lemma copy_inv_absent:
  assumes I: "copy_inv P C s0 D s" and E: "\<And>va. owned user_half va \<Longrightarrow> va \<in> E \<Longrightarrow> \<not> present (pte_of (mem s0) P va)"
  shows "copy_inv P C s0 (D \<union> E) s"
proof -
  note J = copy_invD [OF I]
  have "if va \<in> D \<union> E then page_handled P s0 C s va else pte_of (mem s) C va = 0" if va: "owned user_half va" for va
    using J(4,5) [OF va] E [OF va] by (cases "va \<in> D") (simp_all add: page_handled_def)
  then show ?thesis using I unfolding copy_inv_def by blast
qed

lemma root_kept:
  assumes ok: "space_ok I C s" and frame: "mem_frame {} s s'" and j: "j < 512"
  shows "ent (mem s') C j = ent (mem s) C j"
proof -
  note D = space_okD [OF ok]
  have root: "page_aligned C" by (rule tree_okD(1) [OF D(2)])
  have C: "C \<in> tables I (mem s) C" unfolding tables_def using path_ok_Nil tbl.simps(1) by blast
  have "agree_on (tables I (mem s) C) (mem s) (mem s')"
    using D(3,4) page_aligned_page2pa tables_aligned [OF root] by (intro mem_frame_agree [OF frame]) auto
  then show ?thesis using agree_ent C root j by blast
qed

lemma copy_mapped:
  assumes I: "copy_inv P C s0 D s" and pr: "present (pte_of (mem s0) P v)" and pp: "pp \<in> free_frames s"
    and F2: "mem_frame {} s s2" and ok2: "space_ok user_half C s2" and T2: "tables user_half (mem s2) C = tables user_half (mem s) C"
    and pte2: "\<And>va. owned user_half va \<Longrightarrow> pte_of (mem s2) C va = pte_of (mem s) C va" and free2: "free_frames s2 = free_frames s - {pp}"
    and data2: "\<And>i. i < 4096 \<Longrightarrow> mem s2 (page2pa pp + of_nat i) = mem s0 (pte_get_addr (pte_of (mem s0) P v) + of_nat i)"
    and ok3: "space_ok user_half C s3" and F3: "mem_frame (tables user_half (mem s2) C) s2 s3"
    and T3: "tables user_half (mem s3) C \<subseteq> tables user_half (mem s2) C \<union> page2pa ` (free_frames s2 - free_frames s3)"
    and old: "\<And>va. owned user_half va \<Longrightarrow> vpn va \<noteq> vpn v \<Longrightarrow> pte_of (mem s3) C va = pte_of (mem s2) C va"
    and here: "pte_of (mem s3) C v = pte_make (page2pa pp) (pte_of (mem s0) P v AND 0xFFF) \<or> pte_of (mem s3) C v = 0 \<and> free_frames s3 = {}"
    and root: "same_root user_half C (mem s2) (mem s3)"
  shows "copy_inv P C s0 (D \<union> page_set v) s3"
proof -
  note J = copy_invD [OF I]
  note K = space_okD [OF J(1)]
  have free: "free_frames s \<noteq> {}" using pp by blast
  have sub: "free_frames s3 \<subseteq> free_frames s2" using F3 by (simp add: mem_frame_def)
  have F: "mem_frame (tables user_half (mem s) C) s s3"
    by (rule mem_frame_trans [OF mem_frame_mono [OF F2] F3]) (use T2 in auto)
  have T: "tables user_half (mem s3) C \<subseteq> tables user_half (mem s) C \<union> page2pa ` (free_frames s - free_frames s3)"
    using T3 T2 free2 by auto
  have pl2: "pp < length (pages s2)" "pp \<notin> free_frames s2" "page2pa pp \<notin> tables user_half (mem s2) C"
    using free_frames_bound [OF pp] mem_frame_same(6) [OF F2] free2 K(3) [OF pp] T2 by simp_all
  have "page2pa f \<noteq> page2pa pp" if "f \<in> free_frames s2" for f
    using page2pa_inj [OF K(4) K(4) [OF pp], of f] that free2 by auto
  then have "page2pa pp \<notin> page2pa ` (free_frames s2 - free_frames s3)" by (metis DiffD1 imageE)
  then have ppt3: "page2pa pp \<notin> tables user_half (mem s3) C" using T3 pl2(3) by blast
  have data3: "\<forall>i < 4096. mem s3 (page2pa pp + of_nat i) = mem s0 (pte_get_addr (pte_of (mem s0) P v) + of_nat i)"
    using frame_kept [OF ok2 F3 pl2] data2 by simp
  have ppf: "pp \<in> free_frames s0 - free_frames s3" using pp J(2) sub free2 unfolding mem_frame_def by blast
  have here': "page_handled P s0 C s3 v"
    using here
  proof
    assume "pte_of (mem s3) C v = pte_make (page2pa pp) (pte_of (mem s0) P v AND 0xFFF)"
    then show ?thesis using pr ppf ppt3 data3 unfolding page_handled_def Let_def by (subst if_not_P) blast+
  qed (simp add: page_handled_def pr Let_def)
  show ?thesis
  proof (rule copy_step [OF I free F ok3 T])
    show "same_root user_half C (mem s) (mem s3)"
      using root root_kept [OF J(1) F2] by (simp add: same_root_def)
    fix va assume va: "owned user_half va"
    show "pte_of (mem s3) C va = pte_of (mem s) C va" if "vpn va \<noteq> vpn v"
      using old [OF va that] pte2 [OF va] by simp
    assume v: "vpn va = vpn v"
    note eq = vpn_pte_of [OF v]
    show "page_handled P s0 C s3 va" using here' unfolding page_handled_def eq .
    assume "present (pte_of (mem s3) C va)"
    then have "pte_of (mem s3) C va = pte_make (page2pa pp) (pte_of (mem s0) P v AND 0xFFF)"
      using here unfolding eq by (metis not_present_0)
    then show "\<exists>pp \<in> free_frames s. pte_get_addr (pte_of (mem s3) C va) = page2pa pp"
      using leaf_addr [OF K(4) [OF pp]] pp by (intro bexI [of _ pp]) simp_all
  qed
qed

lemma copy_page_step:
  assumes base: "copy_base P C s0" and I: "copy_inv P C s0 D s" and i: "i4 < 256" "i3 < 512" "i2 < 512" "i1 < 512"
    and t: "tbl (mem s0) P [i4, i3, i2] = Some t"
  shows "\<exists>r. copy_page (phys_to_virt s0 C) i4 i3 i2 (phys_to_virt s0 t) i1 s = Some r \<and>
    (case r of Next s' \<Rightarrow> copy_inv P C s0 (D \<union> page_set (va_of i4 i3 i2 i1)) s' | Ret x \<Rightarrow> copy_failed C s0 x)"
proof -
  define v where "v = va_of i4 i3 i2 i1"
  define e where "e = pte_of (mem s0) P v"
  note J = copy_invD [OF I] and B = copy_baseD [OF base]
  note K = space_okD [OF J(1)] and M = mem_frame_same [OF J(2)]
  have i4: "i4 < 512" using i(1) by simp
  note path = va_of_path [OF i4 i(2-4), folded v_def]
  have own: "owned user_half v" using path(3) i(1) by (simp add: owned_def user_half_def)
  have "path_ok user_half [i4, i3, i2]" using i i4 by (simp add: path_ok_def user_half_def)
  then have tin: "t \<in> tables user_half (mem s0) P" using t by (auto simp: tables_def)
  have "unat (of_nat i1 :: u16) = i1" using i(4) by (simp add: unat_of_nat)
  then have rd: "hread64 s (entry_ptr (phys_to_virt s0 t) (of_nat i1)) = e"
    using parent_kept(4) [OF base J(2) K(1) tin i(4)] t hread64_entry [of s t "of_nat i1"]
    by (simp add: M(1) e_def pte_of_def pte_at_def path)
  have unf: "copy_page (phys_to_virt s0 C) i4 i3 i2 (phys_to_virt s0 t) i1 s =
      (if \<not> present e then Some (Next s)
       else do { (new_pp, s) \<leftarrow> page_alloc 0 s;
                   case new_pp of
                     None \<Rightarrow> Some (Ret (None, s))
                   | Some new_pp \<Rightarrow>
                       do { (_, s) \<leftarrow> memcpy (phys_to_virt s (page2pa new_pp)) (phys_to_virt s (pte_get_addr e)) 4096 s;
                            s \<leftarrow> vmm_map (phys_to_virt s0 C) v (page2pa new_pp) (e AND 0xFFF) s;
                            Some (Next s) } })"
    unfolding copy_page_def rd Let_def v_def va_of_def ..
  have eq: "pte_of (mem s0) P va = e" "pte_of m C va = pte_of m C v" if "vpn va = vpn v" for va m
    using vpn_pte_of [OF that] by (simp_all add: e_def)
  show ?thesis
  proof (cases "present e")
    case False
    have "copy_inv P C s0 (D \<union> page_set v) s"
      using copy_inv_absent [OF I, of "page_set v"] eq(1) False by (simp add: page_set_def)
    then show ?thesis using False unf by (simp add: v_def)
  next
    case pr: True
    show ?thesis
    proof (cases "free_frames s = {}")
      case True
      then have "copy_failed C s0 (None, s)" using J(2) K(1) by (simp add: copy_failed_def)
      then show ?thesis using pr unf page_alloc_empty [OF K(1) True] by simp
    next
      case free: False
      obtain pp s1 where al: "page_alloc 0 s = Some (Some pp, s1)" "alloc_post 0 s pp s1" using page_alloc_pop [OF K(1) free] by blast
      have A: "pp \<in> free_frames s" "free_frames s1 = free_frames s - {pp}" "frames_inv s1" "mem s1 = mem s"
        using al(2) unfolding alloc_post_def by simp_all
      note F1 = alloc_mem_frame [OF al(2)]
      obtain q where q: "q < length (pages s)" "q \<notin> free_frames s" "pte_get_addr e = page2pa q"
        and qk: "\<And>i. i < 4096 \<Longrightarrow> mem s (page2pa q + of_nat i) = mem s0 (page2pa q + of_nat i)"
        using parent_frame [OF base J(2) own] pr unfolding e_def by metis
      have dm: "direct_mapped s1" using B(6) M mem_frame_same [OF F1] by (simp add: direct_mapped_def)
      have pl: "pp < length (pages s1)" "q < length (pages s1)" "pp \<noteq> q"
        using free_frames_bound [OF A(1)] q A(1) mem_frame_same(6) [OF F1] by auto
      define s2 where "s2 = s1\<lparr>mem := copy_block (mem s1) (page2pa pp) (page2pa q) 4096\<rparr>"
      have cp: "memcpy (phys_to_virt s1 (page2pa pp)) (phys_to_virt s1 (page2pa q)) 4096 s1 = Some (phys_to_virt s1 (page2pa pp), s2)"
        unfolding s2_def by (rule copy_frame [OF dm A(3) pl])
      have F2: "mem_frame {} s s2"
        by (rule copied_frame_frame [OF F1 A(1,2) s2_def]) (simp add: A(4) copy_block_off)
      have inv2: "frames_inv s2" using A(3) by (simp add: s2_def)
      note S2 = space_frame [OF J(1) F2 _ _ inv2]
      have ok2: "space_ok user_half C s2" and T2: "tables user_half (mem s2) C = tables user_half (mem s) C"
        and pte2: "\<And>va. owned user_half va \<Longrightarrow> pte_of (mem s2) C va = pte_of (mem s) C va"
        using S2 by simp_all
      have free2: "free_frames s2 = free_frames s - {pp}" using A(2) by (simp add: s2_def)
      have data2: "mem s2 (page2pa pp + of_nat i) = mem s0 (pte_get_addr e + of_nat i)" if "i < 4096" for i
        using copy_block_at [OF that, of "mem s1"] qk [OF that] q(3) A(4) by (simp add: s2_def)
      have run: "copy_page (phys_to_virt s0 C) i4 i3 i2 (phys_to_virt s0 t) i1 s =
          do { s \<leftarrow> vmm_map (phys_to_virt s2 C) v (page2pa pp) (e AND 0xFFF) s2; Some (Next s) }"
        using unf pr al(1) cp q(3) M(1) mem_frame_same(1) [OF F2] by simp
      have pp40: "pp < 2 ^ 40" by (rule K(4) [OF A(1)])
      have ppt: "page2pa pp \<notin> tables user_half (mem s) C" by (rule K(3) [OF A(1)])
      have fin: "copy_inv P C s0 (D \<union> page_set v) s3"
        if ok3: "space_ok user_half C s3" and F3: "mem_frame (tables user_half (mem s2) C) s2 s3"
          and T3: "tables user_half (mem s3) C \<subseteq> tables user_half (mem s2) C \<union> page2pa ` (free_frames s2 - free_frames s3)"
          and old: "\<And>va. owned user_half va \<Longrightarrow> vpn va \<noteq> vpn v \<Longrightarrow> pte_of (mem s3) C va = pte_of (mem s2) C va"
          and here: "pte_of (mem s3) C v = pte_make (page2pa pp) (e AND 0xFFF) \<or> pte_of (mem s3) C v = 0 \<and> free_frames s3 = {}"
          and rt: "same_root user_half C (mem s2) (mem s3)" for s3
        by (rule copy_mapped [OF I pr [unfolded e_def] A(1) F2 ok2 T2 pte2 free2 data2 [unfolded e_def] ok3 F3 T3 old here [unfolded e_def] rt])
      show ?thesis
      proof (rule vmm_map_cases [OF ok2 own, of "page2pa pp" "e AND 0xFFF"])
        fix s3
        assume m: "vmm_map (phys_to_virt s2 C) v (page2pa pp) (e AND 0xFFF) s2 = Some s3" "space_ok user_half C s3"
          "mem_frame (tables user_half (mem s2) C) s2 s3"
          "\<And>va'. owned user_half va' \<Longrightarrow> pte_of (mem s3) C va' = (if vpn va' = vpn v then pte_make (page2pa pp) (e AND 0xFFF) else pte_of (mem s2) C va')"
          "tables user_half (mem s3) C \<subseteq> tables user_half (mem s2) C \<union> page2pa ` (free_frames s2 - free_frames s3)"
          "same_root user_half C (mem s2) (mem s3)"
        have "copy_inv P C s0 (D \<union> page_set v) s3" by (rule fin [OF m(2,3,5) _ _ m(6)]) (use m(4) own in simp_all)
        then show ?thesis using run m(1) by (simp add: v_def)
      next
        fix s3
        assume m: "vmm_map (phys_to_virt s2 C) v (page2pa pp) (e AND 0xFFF) s2 = Some s3" "grows user_half C s2 s3"
          "free_frames s3 = {}" "\<not> present (pte_of (mem s2) C v)"
        have "pte_of (mem s) C v = 0"
          using m(4) pte2 [OF own] J(4,5) [OF own] free leaf_present [OF pr] unfolding page_handled_def Let_def e_def by metis
        then have z: "pte_of (mem s3) C v = 0" using grows_pte_of [OF m(2) own] pte2 [OF own] by simp
        have "copy_inv P C s0 (D \<union> page_set v) s3"
          by (rule fin) (use m(2,3) z grows_pte_of [OF m(2)] in \<open>simp_all add: grows_def\<close>)
        then show ?thesis using run m(1) by (simp add: v_def)
      qed
    qed
  qed
qed

section \<open>The nested loops\<close>

lemma foreach_collect:
  assumes "\<And>x D s. x \<in> set xs \<Longrightarrow> Inv D s \<Longrightarrow> \<exists>r. f x s = Some r \<and> (case r of Next s' \<Rightarrow> Inv (D \<union> G x) s' | Ret y \<Rightarrow> Q y)"
    and "Inv D s"
  shows "\<exists>r. foreach f xs s = Some r \<and> (case r of Next s' \<Rightarrow> Inv (D \<union> (\<Union>x \<in> set xs. G x)) s' | Ret y \<Rightarrow> Q y)"
  using assms
proof (induction xs arbitrary: D s)
  case (Cons x xs)
  obtain r where r: "f x s = Some r" "case r of Next s' \<Rightarrow> Inv (D \<union> G x) s' | Ret y \<Rightarrow> Q y"
    using Cons.prems(1) [of x D s] Cons.prems(2) by auto
  show ?case
  proof (cases r)
    case (Next s')
    then obtain r' where "foreach f xs s' = Some r'" "case r' of Next s' \<Rightarrow> Inv (D \<union> G x \<union> (\<Union>x \<in> set xs. G x)) s' | Ret y \<Rightarrow> Q y"
      using Cons.IH [of "D \<union> G x" s'] Cons.prems(1) r(2) by auto
    moreover have "D \<union> G x \<union> (\<Union>x \<in> set xs. G x) = D \<union> (\<Union>x \<in> set (x # xs). G x)" by auto
    ultimately show ?thesis using r(1) Next by (cases r') simp_all
  qed (use r in simp)
qed simp

definition below :: "nat list \<Rightarrow> u64 set" where
  "below p = {va. take (length p) (dir_path va) = p}"

lemma dir_path_bound: "j \<in> set (dir_path va) \<Longrightarrow> j < 512"
  by (auto simp: dir_path_def)

lemma below_union: "length p < 3 \<Longrightarrow> (\<Union>j \<in> set [0..<512]. below (p @ [j])) = below p"
proof
  assume p: "length p < 3"
  have "va \<in> below (p @ [dir_path va ! length p])" if "va \<in> below p" for va
    using p that by (simp add: below_def take_Suc_conv_app_nth)
  moreover have "dir_path va ! length p < 512" for va using p dir_path_bound [OF nth_mem, of "length p" va] by simp
  ultimately show "below p \<subseteq> (\<Union>j \<in> set [0..<512]. below (p @ [j]))" by fastforce
  show "(\<Union>j \<in> set [0..<512]. below (p @ [j])) \<subseteq> below p"
    using p by (auto simp: below_def take_Suc_conv_app_nth)
qed

lemma below_pages:
  assumes "i4 < 512" "i3 < 512" "i2 < 512"
  shows "(\<Union>i1 \<in> set [0..<512]. page_set (va_of i4 i3 i2 i1)) = below [i4, i3, i2]"
proof -
  have "va \<in> page_set (va_of i4 i3 i2 i1) \<longleftrightarrow> dir_path va = [i4, i3, i2] \<and> leaf_index va = i1" if "i1 < 512" for va i1
    using same_page_iff [of va "va_of i4 i3 i2 i1"] va_of_path [OF assms that] by (simp add: page_set_def)
  moreover have "va \<in> below [i4, i3, i2] \<longleftrightarrow> dir_path va = [i4, i3, i2]" for va by (simp add: below_def)
  ultimately show ?thesis using leaf_index_bound by fastforce
qed

definition copy_post :: "u64 \<Rightarrow> u64 \<Rightarrow> 'a frame_state_scheme \<Rightarrow> u64 set \<Rightarrow> ('a frame_state_scheme, u64 option \<times> 'a frame_state_scheme) flow \<Rightarrow> bool" where
  "copy_post P C s0 D r \<longleftrightarrow> (case r of Next s' \<Rightarrow> copy_inv P C s0 D s' | Ret x \<Rightarrow> copy_failed C s0 x)"

lemma level_step:
  assumes base: "copy_base P C s0" and I: "copy_inv P C s0 D s" and t: "tbl (mem s0) P p = Some t" and p: "path_ok user_half (p @ [j])"
    and sub: "\<And>t'. tbl (mem s0) P (p @ [j]) = Some t' \<Longrightarrow>
      \<exists>r. foreach (g (phys_to_virt s0 t')) [0..<512] s = Some r \<and> copy_post P C s0 (D \<union> below (p @ [j])) r"
  shows "\<exists>r. (let e = hread64 s (entry_ptr (phys_to_virt s0 t) (of_nat j)) in if \<not> present e then Some (Next s)
      else foreach (g (phys_to_virt s (pte_get_addr e))) [0..<512] s) = Some r \<and> copy_post P C s0 (D \<union> below (p @ [j])) r"
proof -
  note J = copy_invD [OF I]
  note M = mem_frame_same [OF J(2)]
  have p': "path_ok user_half p" "length p \<le> 2" "j < 512" using path_ok_butlast [OF p] by auto
  have tin: "t \<in> tables user_half (mem s0) P" using t p'(1) by (auto simp: tables_def)
  have "unat (of_nat j :: u16) = j" using p'(3) by (simp add: unat_of_nat)
  then have rd: "hread64 s (entry_ptr (phys_to_virt s0 t) (of_nat j)) = ent (mem s0) t j"
    using parent_kept(4) [OF base J(2) space_okD(1) [OF J(1)] tin p'(3)] hread64_entry [of s t "of_nat j"] by (simp add: M(1))
  show ?thesis
  proof (cases "present (ent (mem s0) t j)")
    case True
    then show ?thesis using sub [of "pte_get_addr (ent (mem s0) t j)"] t by (simp add: rd tbl_snoc M(1))
  next
    case False
    have "\<not> present (pte_of (mem s0) P va)" if "va \<in> below (p @ [j])" for va
    proof -
      have "dir_path va = (p @ [j]) @ drop (Suc (length p)) (dir_path va)"
        using that append_take_drop_id [of "Suc (length p)" "dir_path va"] by (simp add: below_def)
      moreover have "tbl (mem s0) P (p @ [j]) = None" using t False by (simp add: tbl_snoc)
      ultimately have "tbl (mem s0) P (dir_path va) = None" using tbl_prefix_None by metis
      then show ?thesis by (simp add: pte_of_def pte_at_def)
    qed
    then have "copy_inv P C s0 (D \<union> below (p @ [j])) s" using copy_inv_absent [OF I] by blast
    then show ?thesis using False by (simp add: rd copy_post_def)
  qed
qed

lemma foreach_post:
  assumes "\<And>x D s. x \<in> set xs \<Longrightarrow> copy_inv P C s0 D s \<Longrightarrow> \<exists>r. f x s = Some r \<and> copy_post P C s0 (D \<union> G x) r"
    and "copy_inv P C s0 D s" "(\<Union>x \<in> set xs. G x) = E"
  shows "\<exists>r. foreach f xs s = Some r \<and> copy_post P C s0 (D \<union> E) r"
  using foreach_collect [where Inv = "copy_inv P C s0" and Q = "copy_failed C s0", of xs f G D s] assms
  unfolding copy_post_def by blast

lemma copy_pd_step:
  assumes base: "copy_base P C s0" and I: "copy_inv P C s0 D s" and i: "i4 < 256" "i3 < 512" "i2 < 512" and t: "tbl (mem s0) P [i4, i3] = Some pd"
  shows "\<exists>r. copy_pd (phys_to_virt s0 C) i4 i3 (phys_to_virt s0 pd) i2 s = Some r \<and> copy_post P C s0 (D \<union> below ([i4, i3] @ [i2])) r"
  unfolding copy_pd_def
proof (rule level_step [OF base I t])
  show "path_ok user_half ([i4, i3] @ [i2])" using i by (simp add: path_ok_def user_half_def)
  fix t' assume "tbl (mem s0) P ([i4, i3] @ [i2]) = Some t'"
  then have t': "tbl (mem s0) P [i4, i3, i2] = Some t'" by simp
  show "\<exists>r. foreach (copy_page (phys_to_virt s0 C) i4 i3 i2 (phys_to_virt s0 t')) [0..<512] s = Some r \<and>
      copy_post P C s0 (D \<union> below ([i4, i3] @ [i2])) r"
  proof (rule foreach_post [OF _ I])
    show "(\<Union>i1 \<in> set [0..<512]. page_set (va_of i4 i3 i2 i1)) = below ([i4, i3] @ [i2])" using below_pages i by simp
  qed (use copy_page_step [OF base _ i _ t', folded copy_post_def] in simp)
qed

lemma copy_pdpt_step:
  assumes base: "copy_base P C s0" and I: "copy_inv P C s0 D s" and i: "i4 < 256" "i3 < 512" and t: "tbl (mem s0) P [i4] = Some pdpt"
  shows "\<exists>r. copy_pdpt (phys_to_virt s0 C) i4 (phys_to_virt s0 pdpt) i3 s = Some r \<and> copy_post P C s0 (D \<union> below ([i4] @ [i3])) r"
  unfolding copy_pdpt_def
proof (rule level_step [OF base I t])
  show "path_ok user_half ([i4] @ [i3])" using i by (simp add: path_ok_def user_half_def)
  fix t' assume "tbl (mem s0) P ([i4] @ [i3]) = Some t'"
  then have t': "tbl (mem s0) P [i4, i3] = Some t'" by simp
  show "\<exists>r. foreach (copy_pd (phys_to_virt s0 C) i4 i3 (phys_to_virt s0 t')) [0..<512] s = Some r \<and>
      copy_post P C s0 (D \<union> below ([i4] @ [i3])) r"
  proof (rule foreach_post [OF _ I])
    show "(\<Union>i2 \<in> set [0..<512]. below ([i4, i3] @ [i2])) = below ([i4] @ [i3])" using below_union [of "[i4, i3]"] by simp
  qed (use copy_pd_step [OF base _ i _ t'] in simp)
qed

lemma copy_pml4_step:
  assumes base: "copy_base P C s0" and I: "copy_inv P C s0 D s" and i: "i4 < 256"
  shows "\<exists>r. copy_pml4 (phys_to_virt s0 C) (phys_to_virt s0 P) i4 s = Some r \<and> copy_post P C s0 (D \<union> below ([] @ [i4])) r"
  unfolding copy_pml4_def
proof (rule level_step [OF base I])
  show "tbl (mem s0) P [] = Some P" by simp
  show "path_ok user_half ([] @ [i4])" using i by (simp add: path_ok_def user_half_def)
  fix t' assume "tbl (mem s0) P ([] @ [i4]) = Some t'"
  then have t': "tbl (mem s0) P [i4] = Some t'" by simp
  show "\<exists>r. foreach (copy_pdpt (phys_to_virt s0 C) i4 (phys_to_virt s0 t')) [0..<512] s = Some r \<and>
      copy_post P C s0 (D \<union> below ([] @ [i4])) r"
  proof (rule foreach_post [OF _ I])
    show "(\<Union>i3 \<in> set [0..<512]. below ([i4] @ [i3])) = below ([] @ [i4])" using below_union [of "[i4]"] by simp
  qed (use copy_pdpt_step [OF base _ i _ t'] in simp)
qed

lemma user_below: "owned user_half va \<Longrightarrow> va \<in> (\<Union>i4 \<in> set [0..<KERNEL_PML4_START]. below ([] @ [i4]))"
  by (auto simp: below_def owned_def user_half_def dir_path_def KERNEL_PML4_START_def)

lemma copy_loops:
  assumes base: "copy_base P C s0" and I: "copy_inv P C s0 {} s0"
  shows "\<exists>r. foreach (copy_pml4 (phys_to_virt s0 C) (phys_to_virt s0 P)) [0..<KERNEL_PML4_START] s0 = Some r \<and>
    copy_post P C s0 {va. owned user_half va} r"
proof -
  let ?E = "\<Union>i4 \<in> set [0..<KERNEL_PML4_START]. below ([] @ [i4])"
  have "\<exists>r. foreach (copy_pml4 (phys_to_virt s0 C) (phys_to_virt s0 P)) [0..<KERNEL_PML4_START] s0 = Some r \<and>
      copy_post P C s0 ({} \<union> ?E) r"
    by (rule foreach_post [OF _ I refl]) (use copy_pml4_step [OF base] in \<open>simp add: KERNEL_PML4_START_def\<close>)
  moreover have "copy_inv P C s0 {va. owned user_half va} s" if "copy_inv P C s0 ({} \<union> ?E) s" for s
    using that user_below unfolding copy_inv_def by simp
  ultimately show ?thesis unfolding copy_post_def by (force split: flow.splits)
qed

section \<open>The whole copy\<close>

lemma data_kept:
  assumes inv: "frames_inv s" and frame: "mem_frame {} s s'" and q: "q < length (pages s)" "q \<notin> free_frames s" "i < 4096"
  shows "mem s' (page2pa q + of_nat i) = mem s (page2pa q + of_nat i)"
proof -
  have b: "g < 2 ^ 40" if "g < length (pages s)" for g using that inv by (simp add: frames_inv_def)
  have "\<not> in_page (page2pa f) (page2pa q + of_nat i)" if "f \<in> free_frames s" for f
  proof -
    have f: "f < 2 ^ 40" using b [OF free_frames_bound [OF that]] .
    have "page2pa q \<noteq> page2pa f" using page2pa_inj [OF b [OF q(1)] f] q(2) that by blast
    then show ?thesis
      using in_page_disjoint [OF page_aligned_page2pa [OF b [OF q(1)]] page_aligned_page2pa [OF f]] in_page_nth [OF q(3)] by blast
  qed
  then show ?thesis using frame unfolding mem_frame_def by blast
qed

lemma copy_start:
  assumes ok: "space_ok user_half P s" and data: "user_frames_ok P s" and dm: "direct_mapped s"
    and pp: "pp \<in> free_frames s" "free_frames s0 = free_frames s - {pp}" and C: "space_ok user_half (page2pa pp) s0"
    and F: "mem_frame {} s s0" and empty: "\<forall>va. owned user_half va \<longrightarrow> pte_of (mem s0) (page2pa pp) va = 0"
    and T: "tables user_half (mem s0) (page2pa pp) = {page2pa pp}"
  shows "copy_base P (page2pa pp) s0" "copy_inv P (page2pa pp) s0 {} s0"
    "\<And>va. owned user_half va \<Longrightarrow> pte_of (mem s0) P va = pte_of (mem s) P va"
proof -
  note D = space_okD [OF ok]
  note S = space_frame [OF ok F _ _ space_okD(1) [OF C], simplified]
  show pte: "\<And>va. owned user_half va \<Longrightarrow> pte_of (mem s0) P va = pte_of (mem s) P va" by (rule S(2))
  have pp40: "pp < 2 ^ 40" by (rule D(4) [OF pp(1)])
  have q: "\<exists>q < length (pages s). q \<notin> free_frames s \<and> pte_get_addr (pte_of (mem s0) P va) = page2pa q"
    if "owned user_half va" "present (pte_of (mem s0) P va)" for va
    using data that pte [OF that(1)] unfolding user_frames_ok_def by simp
  have "pte_get_addr (pte_of (mem s0) P va) \<noteq> page2pa pp" if va: "owned user_half va" "present (pte_of (mem s0) P va)" for va
  proof -
    obtain q where "q < length (pages s)" "q \<notin> free_frames s" "pte_get_addr (pte_of (mem s0) P va) = page2pa q" using q [OF va] by blast
    moreover from this have "q < 2 ^ 40" using D(1) by (simp add: frames_inv_def)
    ultimately show ?thesis using page2pa_inj [OF _ pp40, of q] pp(1) by auto
  qed
  moreover have "user_frames_ok P s0"
    unfolding user_frames_ok_def using q pp(2) mem_frame_same(6) [OF F] by fastforce
  moreover have "direct_mapped s0" using dm mem_frame_same [OF F] by (simp add: direct_mapped_def)
  ultimately show "copy_base P (page2pa pp) s0"
    unfolding copy_base_def using S(1,3) T D(3) [OF pp(1)] page_aligned_page2pa [OF pp40] by simp
  show "copy_inv P (page2pa pp) s0 {} s0"
    unfolding copy_inv_def using C T empty by (simp add: same_root_def)
qed

lemma page_handled_from:
  assumes pc: "page_handled P s0 C s' va" and va: "owned user_half va" and e: "pte_of (mem s0) P va = pte_of (mem s) P va"
    and inv: "frames_inv s" and data: "user_frames_ok P s" and F: "mem_frame {} s s0"
  shows "page_handled P s C s' va"
proof (cases "present (pte_of (mem s) P va)")
  case False
  then show ?thesis using pc e by (simp add: page_handled_def)
next
  case True
  let ?e = "pte_of (mem s) P va"
  obtain q where q: "q < length (pages s)" "q \<notin> free_frames s" "pte_get_addr ?e = page2pa q"
    using data va True unfolding user_frames_ok_def by blast
  have same: "mem s0 (pte_get_addr ?e + of_nat i) = mem s (pte_get_addr ?e + of_nat i)" if "i < 4096" for i
    unfolding q(3) by (rule data_kept [OF inv F q(1,2) that])
  have sub: "free_frames s0 \<subseteq> free_frames s" using F by (simp add: mem_frame_def)
  show ?thesis
    using pc True sub same unfolding page_handled_def e Let_def by (simp cong: conj_cong) blast
qed

definition copied_space :: "u64 \<Rightarrow> 'a frame_state_scheme \<Rightarrow> u64 \<Rightarrow> 'a frame_state_scheme \<Rightarrow> bool" where
  "copied_space P s C s' \<longleftrightarrow> space_ok user_half C s' \<and>
         (\<forall>j \<in> kernel_half. ent (mem s') C j = ent (mem s) P j) \<and>
         (\<forall>va. owned user_half va \<longrightarrow> page_handled P s C s' va) \<and>
         (\<forall>va va'. owned user_half va \<longrightarrow> owned user_half va' \<longrightarrow> vpn va \<noteq> vpn va' \<longrightarrow>
            present (pte_of (mem s') C va) \<longrightarrow> present (pte_of (mem s') C va') \<longrightarrow>
            pte_get_addr (pte_of (mem s') C va) \<noteq> pte_get_addr (pte_of (mem s') C va'))"

lemma copy_outcome:
  assumes "space_ok user_half P s" "user_frames_ok P s" "direct_mapped s"
  shows "\<exists>r s'. vmm_copy_address_space (phys_to_virt s P) s = Some (r, s') \<and> frames_inv s' \<and> mem_frame {} s s' \<and>
    (\<forall>va. owned user_half va \<longrightarrow> pte_of (mem s') P va = pte_of (mem s) P va) \<and>
    (case r of None \<Rightarrow> free_frames s' = {}
     | Some child \<Rightarrow> \<exists>C. child = phys_to_virt s C \<and> copied_space P s C s')"
proof (cases "free_frames s = {}")
  case True
  then have "vmm_copy_address_space (phys_to_virt s P) s = Some (None, s)"
    using page_alloc_empty [OF space_okD(1) [OF assms(1)] True] by (simp add: vmm_copy_address_space_def)
  then show ?thesis using True space_okD(1) [OF assms(1)] by simp
next
  case False
  note D = space_okD [OF assms(1)]
  have "P \<in> tables user_half (mem s) P" unfolding tables_def using path_ok_Nil tbl.simps(1) by blast
  then have nf: "\<And>f. f \<in> free_frames s \<Longrightarrow> page2pa f \<noteq> P" using D(3) by blast
  show ?thesis
  proof (rule fresh_root [OF D(1) False tree_okD(1) [OF D(2)] nf])
    fix pp s1 s0
    define C where "C = page2pa pp"
    assume r: "page_alloc 1 s = Some (Some pp, s1)" "phys_to_virt s1 = phys_to_virt s"
        "copy_entries (phys_to_virt s (page2pa pp)) (phys_to_virt s P) [KERNEL_PML4_START..<512] s1 = s0"
      and p: "pp \<in> free_frames s" "free_frames s0 = free_frames s - {pp}" "space_ok user_half (page2pa pp) s0" "mem_frame {} s s0"
        "\<And>va. owned user_half va \<Longrightarrow> pte_of (mem s0) (page2pa pp) va = 0"
        "tables user_half (mem s0) (page2pa pp) = {page2pa pp}"
        "\<And>j. j \<in> kernel_half \<Longrightarrow> ent (mem s0) (page2pa pp) j = ent (mem s) P j"
    have empty: "\<forall>va. owned user_half va \<longrightarrow> pte_of (mem s0) (page2pa pp) va = 0" using p(5) by blast
    note S = copy_start [OF assms p(1-4) empty p(6), folded C_def]
    have M: "phys_to_virt s0 = phys_to_virt s" using mem_frame_same(1) [OF p(4)] .
    obtain x where x: "foreach (copy_pml4 (phys_to_virt s C) (phys_to_virt s P)) [0..<KERNEL_PML4_START] s0 = Some x"
      "copy_post P C s0 {va. owned user_half va} x" using copy_loops [OF S(1,2)] unfolding M by blast
    have run: "vmm_copy_address_space (phys_to_virt s P) s = (case x of Ret y \<Rightarrow> Some y | Next s' \<Rightarrow> Some (Some (phys_to_virt s C), s'))"
      using r x(1) by (cases x) (simp_all add: vmm_copy_address_space_def C_def)
    have frame: "mem_frame {} s s'" and par: "\<And>va. owned user_half va \<Longrightarrow> pte_of (mem s') P va = pte_of (mem s) P va"
      if "mem_frame {C} s0 s'" "frames_inv s'" for s'
      using mem_frame_trans [OF p(4) that(1)] p(1,2) parent_kept(2) [OF S(1) that] S(3) by (auto simp: C_def)
    show ?thesis
    proof (cases x)
      case (Ret y)
      then show ?thesis
        using run x(2) frame par by (cases y) (auto simp: copy_post_def copy_failed_def)
    next
      case (Next s')
      then have I: "copy_inv P C s0 {va. owned user_half va} s'" using x(2) by (simp add: copy_post_def)
      note J = copy_invD [OF I]
      note inv = space_okD(1) [OF J(1)]
      have "ent (mem s') C j = ent (mem s) P j" if "j \<in> kernel_half" for j
        using J(7) p(7) [OF that] that by (auto simp: same_root_def kernel_half_def user_half_def C_def)
      moreover have "page_handled P s C s' va" if va: "owned user_half va" for va
        using page_handled_from [OF J(4) [OF va] va S(3) [OF va] D(1) assms(2) p(4)] va by simp
      ultimately show ?thesis
        using run Next J(1,6) inv frame [OF J(2) inv] par [OF J(2) inv]
        by (intro exI [of _ "Some (phys_to_virt s C)"] exI [of _ s']) (simp add: copied_space_def, blast)
    qed
  qed
qed

text \<open>Claim C10. For a parent whose user half is a proper tree and maps only allocated frames,
  \<open>vmm_copy_address_space\<close> always returns, writes only frames that were free, and leaves the parent and every allocated
  frame as they were. It fails only when the frames have run out. Otherwise the child shares the parent's kernel half,
  and for every user address its entry is absent exactly where the parent's is, or points to a frame of its own, with the
  parent's low flag bits and the parent's 4096 bytes; no two pages share a frame. The one exception is a page whose
  tables could not be allocated: it is missing in the child, although the call succeeds, and then no frame is left.\<close>

theorem vmm_copy_correct:
  assumes "space_ok user_half P s" "user_frames_ok P s" "direct_mapped s"
  shows "\<exists>r s'. vmm_copy_address_space (phys_to_virt s P) s = Some (r, s') \<and> frames_inv s' \<and> mem_frame {} s s' \<and>
    (\<forall>va. owned user_half va \<longrightarrow> pte_of (mem s') P va = pte_of (mem s) P va) \<and>
    (case r of None \<Rightarrow> free_frames s' = {}
     | Some child \<Rightarrow> \<exists>C. child = phys_to_virt s C \<and> space_ok user_half C s' \<and>
         (\<forall>j \<in> kernel_half. ent (mem s') C j = ent (mem s) P j) \<and>
         (\<forall>va. owned user_half va \<longrightarrow> page_copied P s C s' va \<or>
            free_frames s' = {} \<and> present (pte_of (mem s) P va) \<and> pte_of (mem s') C va = 0) \<and>
         (\<forall>va va'. owned user_half va \<longrightarrow> owned user_half va' \<longrightarrow> vpn va \<noteq> vpn va' \<longrightarrow>
            present (pte_of (mem s') C va) \<longrightarrow> present (pte_of (mem s') C va') \<longrightarrow>
            pte_get_addr (pte_of (mem s') C va) \<noteq> pte_get_addr (pte_of (mem s') C va')))"
  using copy_outcome [OF assms] unfolding copied_space_def page_handled_iff .

lemma demo_direct:
  assumes "length (pages s) \<le> 1024" "g_hhdm_offset s = 0xFFFF800000000000"
  shows "direct_mapped s"
  unfolding direct_mapped_def
proof (intro allI impI)
  fix q assume q: "q < length (pages s)"
  then have p: "unat (page2pa q) = q * 4096" using assms(1) by (simp add: unat_page2pa)
  have "unat (page2pa q + 0xFFFF800000000000) = q * 4096 + 0xFFFF800000000000"
    using p q assms(1) by (subst unat_add_lem [THEN iffD1]) auto
  then show "kernel_range (phys_to_virt s (page2pa q)) 4096"
    using assms q by (simp add: phys_to_virt_def kernel_range_def add.commute)
qed

lemma demo_parent:
  obtains s where "vmm_map (phys_to_virt demo_frames 0) 0x400000 (page2pa 6) 7 demo_frames = Some s" "space_ok user_half 0 s"
    "user_frames_ok 0 s" "direct_mapped s" "pte_of (mem s) 0 0x400000 = pte_make (page2pa 6) 7" "phys_to_virt s = phys_to_virt demo_frames"
proof -
  have own: "owned user_half 0x400000" by (simp add: owned_def user_half_def unat_index)
  obtain s where s: "vmm_map (phys_to_virt demo_frames 0) 0x400000 (page2pa 6) 7 demo_frames = Some s" "space_ok user_half 0 s"
    "mem_frame (tables user_half (mem demo_frames) 0) demo_frames s"
    "\<And>w. owned user_half w \<Longrightarrow> pte_of (mem s) 0 w = (if vpn w = vpn 0x400000 then pte_make (page2pa 6) 7 else pte_of (mem demo_frames) 0 w)"
    by (rule vmm_map_enough [OF demo_space(1) own, of "page2pa 6" 7]) (simp add: demo_room, blast)
  note M = mem_frame_same [OF s(3)]
  have six: "pte_get_addr (pte_make (page2pa 6) 7) = page2pa 6" using leaf_addr [of 6 7] by simp
  have "free_frames s \<subseteq> {1, 2, 3, 4, 5}" using s(3) unfolding mem_frame_def demo_free_frames by blast
  then have n6: "6 \<notin> free_frames s" by auto
  have l6: "6 < length (pages s)" using M(6) by (simp add: demo_frames_fields)
  have "user_frames_ok 0 s"
    unfolding user_frames_ok_def
  proof (intro allI impI)
    fix va assume va: "owned user_half va" "present (pte_of (mem s) 0 va)"
    then have "pte_of (mem s) 0 va = pte_make (page2pa 6) 7"
      using s(4) [OF va(1)] demo_space(3) [OF va(1)] by (simp split: if_splits)
    then show "\<exists>q < length (pages s). q \<notin> free_frames s \<and> pte_get_addr (pte_of (mem s) 0 va) = page2pa q"
      using n6 l6 six by (intro exI [of _ 6]) simp
  qed
  moreover have "direct_mapped s" using M(5,6) by (intro demo_direct) (simp_all add: demo_frames_fields)
  ultimately show thesis using that [of s] s(1,2) s(4) [OF own] M(1) by simp
qed

theorem vmm_copy_correct_witness:
  "\<exists>s r s'. vmm_map (phys_to_virt demo_frames 0) 0x400000 (page2pa 6) 7 demo_frames = Some s \<and>
     vmm_copy_address_space (phys_to_virt demo_frames 0) s = Some (r, s') \<and> frames_inv s' \<and>
     pte_of (mem s') 0 0x400000 = pte_make (page2pa 6) 7"
proof -
  obtain s where s: "vmm_map (phys_to_virt demo_frames 0) 0x400000 (page2pa 6) 7 demo_frames = Some s" "space_ok user_half 0 s"
    "user_frames_ok 0 s" "direct_mapped s" "pte_of (mem s) 0 0x400000 = pte_make (page2pa 6) 7" "phys_to_virt s = phys_to_virt demo_frames"
    by (rule demo_parent)
  have own: "owned user_half 0x400000" by (simp add: owned_def user_half_def unat_index)
  obtain r s' where "vmm_copy_address_space (phys_to_virt s 0) s = Some (r, s')" "frames_inv s'"
    "\<forall>va. owned user_half va \<longrightarrow> pte_of (mem s') 0 va = pte_of (mem s) 0 va"
    using vmm_copy_correct [OF s(2-4)] by (elim exE conjE)
  then show ?thesis using s(1,5,6) own by auto
qed

end
