(* ===== verification/Fork.thy ===== *)
theory Fork
  imports Switch CopyOk
begin

text \<open>\<open>fork\<close>: the copy of the user registers on the kernel stack of the child, and the composition of slot, stack and
address space allocation in \<open>task_fork\<close>.\<close>

section \<open>Words on a page\<close>

lemma page_word: "virt_to_phys s (phys_to_virt s f + 8 * of_nat j) = slot f j"
  by (simp add: virt_to_phys_def phys_to_virt_def slot_def)

lemma hread64_page: "hread64 s (phys_to_virt s f + 8 * of_nat j) = ent (mem s) f j"
  by (simp add: hread64_def page_word ent_def)

lemma write_words_page:
  assumes f: "page_aligned f" and "j + length vs \<le> 512"
  shows "\<exists>m. write_words (phys_to_virt s f + 8 * of_nat j) vs s = s\<lparr>mem := m\<rparr> \<and> (\<forall>x. \<not> in_page f x \<longrightarrow> m x = mem s x) \<and>
    (\<forall>k < 512. ent m f k = (if j \<le> k \<and> k < j + length vs then vs ! (k - j) else ent (mem s) f k))"
  using assms(2)
proof (induction vs arbitrary: j s)
  case Nil
  show ?case by (rule exI [of _ "mem s"]) auto
next
  case (Cons v vs)
  define m1 where "m1 = write64 (mem s) (slot f j) v"
  have one: "hwrite64 (phys_to_virt s f + 8 * of_nat j) v s = s\<lparr>mem := m1\<rparr>" by (simp add: hwrite64_def page_word m1_def)
  obtain m where m: "write_words (phys_to_virt (s\<lparr>mem := m1\<rparr>) f + 8 * of_nat (Suc j)) vs (s\<lparr>mem := m1\<rparr>) = (s\<lparr>mem := m1\<rparr>)\<lparr>mem := m\<rparr>"
    "\<forall>x. \<not> in_page f x \<longrightarrow> m x = m1 x"
    "\<forall>k < 512. ent m f k = (if Suc j \<le> k \<and> k < Suc j + length vs then vs ! (k - Suc j) else ent m1 f k)"
    using Cons.IH [of "Suc j" "s\<lparr>mem := m1\<rparr>"] Cons.prems by auto
  have e1: "ent m1 f k = (if k = j then v else ent (mem s) f k)" if "k < 512" for k
    using ent_write64 [OF f f] that Cons.prems by (auto simp: m1_def)
  have x1: "\<not> in_page f x \<Longrightarrow> m1 x = mem s x" for x
    using write64_other [OF f] Cons.prems by (simp add: m1_def)
  have "write_words (phys_to_virt s f + 8 * of_nat j) (v # vs) s = s\<lparr>mem := m\<rparr>"
  proof -
    have a: "phys_to_virt s f + 8 * of_nat j + 8 = phys_to_virt (s\<lparr>mem := m1\<rparr>) f + 8 * of_nat (Suc j)"
      by (simp add: algebra_simps)
    show ?thesis unfolding write_words.simps one a using m(1) by simp
  qed
  moreover have "ent m f k = (if j \<le> k \<and> k < j + length (v # vs) then (v # vs) ! (k - j) else ent (mem s) f k)" if k: "k < 512" for k
  proof (cases "k = j")
    case True
    then show ?thesis using m(3) e1 k by simp
  next
    case False
    then have "Suc j \<le> k \<longleftrightarrow> j \<le> k" "j \<le> k \<Longrightarrow> k - j = Suc (k - Suc j)" by auto
    then show ?thesis using m(3) e1 [OF k] k False by auto
  qed
  ultimately show ?case using m(2) x1 by (intro exI [of _ m]) simp
qed

lemma hwrite64_page:
  assumes "page_aligned f" "j < 512"
  shows "\<exists>m. hwrite64 (phys_to_virt s f + 8 * of_nat j) v s = s\<lparr>mem := m\<rparr> \<and> (\<forall>x. \<not> in_page f x \<longrightarrow> m x = mem s x) \<and>
    (\<forall>k < 512. ent m f k = (if k = j then v else ent (mem s) f k))"
proof -
  obtain m where m: "write_words (phys_to_virt s f + 8 * of_nat j) [v] s = s\<lparr>mem := m\<rparr>" "\<forall>x. \<not> in_page f x \<longrightarrow> m x = mem s x"
    "\<forall>k < 512. ent m f k = (if j \<le> k \<and> k < j + length [v] then [v] ! (k - j) else ent (mem s) f k)"
    using write_words_page [OF assms(1), of j "[v]" s] assms(2) by auto
  have "ent m f k = (if k = j then v else ent (mem s) f k)" if "k < 512" for k
    using m(3) that by (cases "k = j") auto
  then show ?thesis using m(1,2) by (intro exI [of _ m]) simp
qed

lemma switch_frame_page:
  assumes f: "page_aligned f" and j: "7 \<le> j" "j < 512" and p: "push_switch_frame (phys_to_virt s f + 8 * of_nat j) ret arg s = (sp, s')"
  obtains m where "s' = s\<lparr>mem := m\<rparr>" "\<And>x. \<not> in_page f x \<Longrightarrow> m x = mem s x" "\<And>k. j \<le> k \<Longrightarrow> k < 512 \<Longrightarrow> ent m f k = ent (mem s) f k"
    "sp = phys_to_virt s f + 8 * of_nat (j - 7)"
proof -
  have a: "phys_to_virt s f + 8 * of_nat j - 8 = phys_to_virt s f + 8 * of_nat (j - 1)"
    "phys_to_virt s f + 8 * of_nat (j - 1) - 48 = phys_to_virt s f + 8 * of_nat (j - 7)"
    using j by (simp_all add: of_nat_diff algebra_simps)
  obtain m1 where m1: "hwrite64 (phys_to_virt s f + 8 * of_nat (j - 1)) ret s = s\<lparr>mem := m1\<rparr>"
    "\<forall>x. \<not> in_page f x \<longrightarrow> m1 x = mem s x" "\<forall>k < 512. ent m1 f k = (if k = j - 1 then ret else ent (mem s) f k)"
    using hwrite64_page [OF f, of "j - 1" s ret] j by (metis less_imp_diff_less)
  define vs where "vs = [0, 0, 0, arg, 0, 0]"
  have "j - 7 + length vs \<le> 512" using j by (simp add: vs_def)
  from write_words_page [OF f this, of "s\<lparr>mem := m1\<rparr>"]
  obtain m where m: "write_words (phys_to_virt s f + 8 * of_nat (j - 7)) vs (s\<lparr>mem := m1\<rparr>) = s\<lparr>mem := m\<rparr>"
    "\<forall>x. \<not> in_page f x \<longrightarrow> m x = m1 x"
    "\<forall>k < 512. ent m f k = (if j - 7 \<le> k \<and> k < j - 7 + length vs then vs ! (k - (j - 7)) else ent m1 f k)"
    by (simp only: phys_to_virt_update) auto
  have "s' = s\<lparr>mem := m\<rparr>" "sp = phys_to_virt s f + 8 * of_nat (j - 7)"
    using p m(1) m1(1) unfolding push_switch_frame_def Let_def a vs_def [symmetric] by auto
  moreover have "ent m f k = ent (mem s) f k" if "j \<le> k" "k < 512" for k using m(3) m1(3) that j by (auto simp: vs_def)
  ultimately show thesis using that m(2) m1(2) by simp
qed

section \<open>What the memory properties depend on\<close>

definition same_mem :: "'a frame_state_scheme \<Rightarrow> 'a frame_state_scheme \<Rightarrow> bool" where
  "same_mem s s' \<longleftrightarrow> mem s' = mem s \<and> pages s' = pages s \<and> page_free_list s' = page_free_list s \<and> locks s' = locks s \<and>
     g_hhdm_offset s' = g_hhdm_offset s"

lemma same_mem_cong:
  assumes "same_mem s s'"
  shows "mem s' = mem s" "free_frames s' = free_frames s" "frames_inv s' = frames_inv s" "space_ok I r s' = space_ok I r s"
    "user_frames_ok P s' = user_frames_ok P s" "direct_mapped s' = direct_mapped s" "phys_to_virt s' = phys_to_virt s"
    "pages s' = pages s" "virt_to_phys s' = virt_to_phys s" "hread64 s' = hread64 s"
    "page_handled P s' C x = page_handled P s C x" "page_handled P x C s' = page_handled P x C s"
proof -
  have m: "mem s' = mem s" and p: "pages s' = pages s" and ff: "free_frames s' = free_frames s" and inv: "frames_inv s' = frames_inv s"
    and v: "phys_to_virt s' = phys_to_virt s" "virt_to_phys s' = virt_to_phys s"
    using assms by (simp_all add: same_mem_def free_frames_def frames_inv_def phys_to_virt_def virt_to_phys_def fun_eq_iff)
  show "mem s' = mem s" "pages s' = pages s" "free_frames s' = free_frames s" "frames_inv s' = frames_inv s"
    "phys_to_virt s' = phys_to_virt s" "virt_to_phys s' = virt_to_phys s" by (rule m p ff inv v)+
  show "space_ok I r s' = space_ok I r s" "user_frames_ok P s' = user_frames_ok P s" "direct_mapped s' = direct_mapped s"
    "hread64 s' = hread64 s" "page_handled P s' C x = page_handled P s C x" "page_handled P x C s' = page_handled P x C s"
    by (simp_all add: space_ok_def user_frames_ok_def direct_mapped_def page_handled_def hread64_def fun_eq_iff m p ff inv v)
qed

lemma same_mem_upd [simp]: "same_mem s (upd_task i f s)" "same_mem s (s\<lparr>task_free_list := h\<rparr>)" "same_mem s (say t s)"
  by (simp_all add: same_mem_def upd_task_def say_def)

lemma same_mem_trans [trans]: "same_mem s t \<Longrightarrow> same_mem t u \<Longrightarrow> same_mem s u"
  by (simp add: same_mem_def)

section \<open>The registers of the child\<close>

lemma fork_frame:
  assumes f: "page_aligned f" and sp: "sp0 = phys_to_virt s f + 4096 - SIZEOF_REGS" and ws: "length ws = 20"
    and p: "push_switch_frame sp0 ret sp0 (hwrite64 sp0 0 (write_words sp0 ws s)) = (sp, s')"
  obtains m where "s' = s\<lparr>mem := m\<rparr>" "\<And>x. \<not> in_page f x \<Longrightarrow> m x = mem s x" "read_words s' sp0 20 = 0 # tl ws"
    "frame_regs s' sp = \<lparr>rsp = sp0, rbx = 0, rbp = 0, r12 = sp0, r13 = 0, r14 = 0, r15 = 0, rip = ret\<rparr>"
proof -
  have sp0: "sp0 = phys_to_virt s f + 8 * of_nat 492" by (simp add: sp SIZEOF_REGS_def)
  have v: "phys_to_virt (s\<lparr>mem := m\<rparr>) f = phys_to_virt s f" for m by simp
  have l: "492 + length ws \<le> 512" using ws by simp
  obtain m1 where m1: "write_words sp0 ws s = s\<lparr>mem := m1\<rparr>" "\<forall>x. \<not> in_page f x \<longrightarrow> m1 x = mem s x"
    "\<forall>k < 512. ent m1 f k = (if 492 \<le> k \<and> k < 492 + length ws then ws ! (k - 492) else ent (mem s) f k)"
    using write_words_page [OF f l, of s] unfolding sp0 by blast
  obtain m2 where m2: "hwrite64 sp0 0 (s\<lparr>mem := m1\<rparr>) = (s\<lparr>mem := m1\<rparr>)\<lparr>mem := m2\<rparr>" "\<forall>x. \<not> in_page f x \<longrightarrow> m2 x = m1 x"
    "\<forall>k < 512. ent m2 f k = (if k = 492 then 0 else ent m1 f k)"
    using hwrite64_page [OF f, of 492 "s\<lparr>mem := m1\<rparr>" 0] unfolding sp0 v by auto
  define s2 where "s2 = s\<lparr>mem := m2\<rparr>"
  have p2: "push_switch_frame (phys_to_virt s2 f + 8 * of_nat 492) ret sp0 s2 = (sp, s')"
    using p m1(1) m2(1) by (simp add: s2_def sp0)
  obtain m where m: "s' = s2\<lparr>mem := m\<rparr>" "\<And>x. \<not> in_page f x \<Longrightarrow> m x = mem s2 x" "\<And>k. 492 \<le> k \<Longrightarrow> k < 512 \<Longrightarrow> ent m f k = ent (mem s2) f k"
    by (rule switch_frame_page [OF f _ _ p2]) auto
  have "hread64 s' (sp0 + 8 * of_nat i) = (0 # tl ws) ! i" if i: "i < 20" for i
  proof -
    have a: "sp0 + 8 * of_nat i = phys_to_virt s' f + 8 * of_nat (492 + i)" by (simp add: sp0 m(1) s2_def algebra_simps)
    have "hread64 s' (sp0 + 8 * of_nat i) = ent (mem s') f (492 + i)" unfolding a by (rule hread64_page)
    also have "\<dots> = ent m2 f (492 + i)" using i m(3) by (simp add: m(1) s2_def)
    also have "\<dots> = (0 # tl ws) ! i" using m2(3) m1(3) i ws by (cases i) (auto simp: nth_tl)
    finally show ?thesis .
  qed
  then have "read_words s' sp0 20 = 0 # tl ws"
    unfolding read_words_def using ws by (intro nth_equalityI) simp_all
  moreover have "word_aligned s2 sp0"
  proof -
    have "8 dvd unat (slot f 492)" using slot_dvd [OF f, of 492] by simp
    then show ?thesis using page_word [of s2 f 492] by (simp add: word_aligned_def sp0 s2_def)
  qed
  then have "frame_regs s' sp = \<lparr>rsp = sp0, rbx = 0, rbp = 0, r12 = sp0, r13 = 0, r14 = 0, r15 = 0, rip = ret\<rparr>"
    using push_switch_frame_spec(2) [OF _ p2 [folded sp0]] by (simp add: s2_def sp0)
  ultimately show thesis
    using that [of m] m(1,2) m1(2) m2(2) by (simp add: s2_def)
qed

section \<open>What survives the rest of the call\<close>

lemma words_kept:
  assumes inv: "frames_inv s" and F: "mem_frame {} s s'" and q: "q < length (pages s)" "q \<notin> free_frames s" and k: "k + n \<le> 512"
  shows "read_words s' (phys_to_virt s (page2pa q) + 8 * of_nat k) n = read_words s (phys_to_virt s (page2pa q) + 8 * of_nat k) n"
proof -
  have al: "page_aligned (page2pa q)" using q(1) inv by (intro page_aligned_page2pa) (simp add: frames_inv_def)
  have v: "phys_to_virt s (page2pa q) = phys_to_virt s' (page2pa q)" using F by simp
  have m: "mem s' x = mem s x" if "in_page (page2pa q) x" for x
  proof -
    have "unat (x - page2pa q) < 4096" using that by (simp add: in_page_def)
    then show ?thesis using data_kept [OF inv F q, of "unat (x - page2pa q)"] by simp
  qed
  have a: "a + 8 * of_nat k + 8 * of_nat i = a + 8 * of_nat (k + i)" for a :: u64 and i by (simp add: algebra_simps)
  have "hread64 s' (phys_to_virt s (page2pa q) + 8 * of_nat k + 8 * of_nat i) = hread64 s (phys_to_virt s (page2pa q) + 8 * of_nat k + 8 * of_nat i)"
    if "i < n" for i
    using ent_cong [OF al _ m, of "k + i"] that k unfolding a hread64_page unfolding v hread64_page by simp
  then show ?thesis by (simp add: read_words_def)
qed

lemma copy_survives:
  assumes ok: "space_ok user_half C s2" and pc: "\<forall>va. owned user_half va \<longrightarrow> page_handled P s1 C s2 va"
    and F: "mem_frame {} s1 s2" and al: "alloc_post 1 s2 pp s3" and m: "\<And>x. \<not> in_page (page2pa pp) x \<Longrightarrow> m x = mem s3 x"
    and s4: "s4 = s3\<lparr>mem := m\<rparr>"
  shows "space_ok user_half C s4" "mem_frame {} s1 s4" "\<And>j. j < 512 \<Longrightarrow> ent (mem s4) C j = ent (mem s2) C j"
    "\<And>va. owned user_half va \<Longrightarrow> page_handled P s1 C s4 va"
    "\<And>va. owned user_half va \<Longrightarrow> present (pte_of (mem s4) C va) = present (pte_of (mem s1) P va)"
proof -
  have A: "pp \<in> free_frames s2" "free_frames s3 = free_frames s2 - {pp}" "frames_inv s3" "mem s3 = zero_page (page2pa pp) (mem s2)"
    using al by (simp_all add: alloc_post_def ALLOC_ZERO_def)
  have "m x = mem s2 x" if "\<not> in_page (page2pa pp) x" for x using m [OF that] that by (simp add: A(4) zero_page_def)
  note F4 = copied_frame_frame [OF alloc_mem_frame [OF al] A(1,2) s4 this]
  have inv4: "frames_inv s4" using A(3) by (simp add: s4 frames_inv_def)
  note S = space_frame [OF ok F4 _ _ inv4, simplified]
  show "space_ok user_half C s4" by (rule S(1))
  show "mem_frame {} s1 s4" by (rule mem_frame_trans [OF F F4 empty_subsetI])
  show "ent (mem s4) C j = ent (mem s2) C j" if "j < 512" for j by (rule root_kept [OF ok F4 that])
  have fl: "free_frames s1 \<subseteq> {..<length (pages s2)}" using free_frames_bound [of _ s1] mem_frame_same(6) [OF F] by auto
  have ne: "free_frames s2 \<noteq> {}" using A(1) by blast
  fix va assume va: "owned user_half va"
  have T: "tables user_half (mem s4) C \<subseteq> tables user_half (mem s2) C \<union> page2pa ` (free_frames s2 - free_frames s4)" using S(3) by simp
  show "page_handled P s1 C s4 va"
    by (rule page_handled_keep [OF pc [rule_format, OF va] ok mem_frame_mono [OF F4] ne T S(2) [OF va] fl])
  have "present (pte_of (mem s2) C va) = present (pte_of (mem s1) P va)"
    using pc [rule_format, OF va] ne unfolding page_handled_def Let_def
    by (cases "present (pte_of (mem s1) P va)") (auto simp: leaf_present)
  then show "present (pte_of (mem s4) C va) = present (pte_of (mem s1) P va)" using S(2) [OF va] by simp
qed

section \<open>The system call\<close>

definition fork_done :: "nat \<Rightarrow> nat \<Rightarrow> u64 \<Rightarrow> u64 \<Rightarrow> 'a kernel_state_scheme \<Rightarrow> 'a kernel_state_scheme \<Rightarrow> bool" where
  "fork_done p t P regs s s' \<longleftrightarrow> state (tsk s' t) = TASK_RUNNABLE \<and> parent_id (tsk s' t) = task_id (tsk s p) \<and>
     (\<exists>C. pml4 (tsk s' t) = Some (phys_to_virt s C) \<and> space_ok user_half C s' \<and>
        (\<forall>j \<in> kernel_half. ent (mem s') C j = ent (mem s) P j) \<and>
        (\<forall>va. owned user_half va \<longrightarrow> page_copied P s C s' va \<and> present (pte_of (mem s') C va) = present (pte_of (mem s) P va))) \<and>
     (\<exists>f \<in> free_frames s - free_frames s'.
        let top = phys_to_virt s (page2pa f) + 4096; child_regs = top - SIZEOF_REGS in
        kstack_top (tsk s' t) = Some top \<and>
        read_words s' child_regs 20 = 0 # tl (read_words s regs 20) \<and>
        frame_regs s' (context_rsp (tsk s' t)) =
          \<lparr>rsp = child_regs, rbx = 0, rbp = 0, r12 = child_regs, r13 = 0, r14 = 0, r15 = 0, rip = syscall_entry_return s\<rparr>)"

lemma upd_task_at: "i < length (task_table s) \<Longrightarrow> tsk (upd_task i f s) j = (if j = i then f (tsk s i) else tsk s j)"
  by (simp add: upd_task_def nth_upd)

lemma task_fork_child:
  assumes slot: "task_slot_alloc s = Some (Some t, s1)" and tl: "t < length (task_table s1)" "p \<noteq> t" and con: "console_ok s1"
    and pm: "pml4 (tsk s1 p) = Some a" and cp: "vmm_copy_address_space a s1 = Some (Some c, s2)"
    and fr: "frames_inv s2" "free_frames s2 \<noteq> {}"
  obtains f s3 m s' where "task_fork p regs s = Some (Some t, s')" "alloc_post 1 s2 f s3"
    "\<And>x. \<not> in_page (page2pa f) x \<Longrightarrow> m x = mem s3 x" "same_mem (s3\<lparr>mem := m\<rparr>) s'" "\<And>i. i \<noteq> t \<Longrightarrow> tsk s' i = tsk s1 i"
    "state (tsk s' t) = TASK_RUNNABLE" "parent_id (tsk s' t) = task_id (tsk s1 p)" "pml4 (tsk s' t) = Some c"
    "kstack_top (tsk s' t) = Some (phys_to_virt s2 (page2pa f) + 4096)" "task_id (tsk s' t) = task_id (tsk s1 t)"
    "read_words s' (phys_to_virt s2 (page2pa f) + 4096 - SIZEOF_REGS) 20 = 0 # tl (read_words s3 regs 20)"
    "frame_regs s' (context_rsp (tsk s' t)) = \<lparr>rsp = phys_to_virt s2 (page2pa f) + 4096 - SIZEOF_REGS, rbx = 0, rbp = 0,
       r12 = phys_to_virt s2 (page2pa f) + 4096 - SIZEOF_REGS, r13 = 0, r14 = 0, r15 = 0, rip = syscall_entry_return s1\<rparr>"
proof -
  obtain f s3 where al: "alloc_post 1 s2 f s3" and q: "quiet s2 s3" and k: "task_kstack_alloc t s2 =
      Some (True, upd_task t (\<lambda>x. x\<lparr>kstack := Some (phys_to_virt s2 (page2pa f)), kstack_top := Some (phys_to_virt s2 (page2pa f) + 4096)\<rparr>) s3)"
    using kstack_alloc_some [OF fr] by blast
  have ff: "f \<in> free_frames s2" using al by (simp add: alloc_post_def)
  have pal: "page_aligned (page2pa f)"
    using free_frames_bound [OF ff] fr(1) by (intro page_aligned_page2pa) (simp add: frames_inv_def)
  note Q = quiet_trans [OF vmm_copy_address_space_quiet [OF cp] q]
  have t3: "task_table s3 = task_table s1" "console_ok s3"
    using quiet_same_tasks [OF Q] con by (simp_all add: same_tasks_def)
  have r3: "syscall_entry_return s3 = syscall_entry_return s1" using Q by (auto simp: quiet_iff)
  have v3: "phys_to_virt s3 = phys_to_virt s2" using q by (auto simp: quiet_iff phys_to_virt_def fun_eq_iff)
  define kt where "kt = phys_to_virt s2 (page2pa f) + 4096"
  define s4 where "s4 = upd_task t (\<lambda>x. x\<lparr>pml4 := Some c, parent_id := task_id (tsk s1 p), exit_code := 0\<rparr>)
     (upd_task t (\<lambda>x. x\<lparr>kstack := Some (phys_to_virt s2 (page2pa f)), kstack_top := Some kt\<rparr>) s3)"
  have s4: "same_mem s3 s4" "syscall_entry_return s4 = syscall_entry_return s1" "console_ok s4"
    "\<And>i. i \<noteq> t \<Longrightarrow> tsk s4 i = tsk s1 i" "kstack_top (tsk s4 t) = Some kt" "pml4 (tsk s4 t) = Some c"
    "parent_id (tsk s4 t) = task_id (tsk s1 p)" "task_id (tsk s4 t) = task_id (tsk s1 t)" "length (task_table s4) = length (task_table s1)"
    using t3 r3 tl by (simp_all add: s4_def upd_task_at) (simp_all add: same_mem_def upd_task_def)
  define ws where "ws = read_words s3 regs 20"
  have ws: "read_words s4 regs 20 = ws" "length ws = 20"
    using same_mem_cong(10) [OF s4(1)] by (simp_all add: ws_def read_words_def)
  define cr where "cr = kt - SIZEOF_REGS"
  have crf: "cr = phys_to_virt s4 (page2pa f) + 4096 - SIZEOF_REGS"
    using same_mem_cong(7) [OF s4(1)] v3 by (simp add: cr_def kt_def)
  define s5 where "s5 = hwrite64 cr 0 (write_words cr ws s4)"
  have ser: "syscall_entry_return s5 = syscall_entry_return s1" using s4(2) write_words_mem [of cr ws s4] by (auto simp: s5_def hwrite64_def)
  obtain sp s6 where p: "push_switch_frame cr (syscall_entry_return s1) cr s5 = (sp, s6)" by fastforce
  obtain m where m: "s6 = s4\<lparr>mem := m\<rparr>" "\<And>x. \<not> in_page (page2pa f) x \<Longrightarrow> m x = mem s4 x" "read_words s6 cr 20 = 0 # tl ws"
    "frame_regs s6 sp = \<lparr>rsp = cr, rbx = 0, rbp = 0, r12 = cr, r13 = 0, r14 = 0, r15 = 0, rip = syscall_entry_return s1\<rparr>"
    by (rule fork_frame [OF pal crf ws(2) p [unfolded s5_def]]) blast
  define s7 where "s7 = upd_task t (\<lambda>x. x\<lparr>context_rsp := sp, state := TASK_RUNNABLE\<rparr>) s6"
  have con7: "console_ok s7" using s4(3) quiet_fields(8) [OF quiet_mem [of s4 m]] by (simp add: s7_def m(1))
  define s' where "s' = say (kmsg (''task_fork: parent_id=%ld child_id=%ld parent_rip=%lx parent_rsp=%lx'' @ [CHR 0x0A])
                             [W (task_id (tsk s7 p)), W (task_id (tsk s7 t)),
                              W (hread64 s6 (regs + 120)), W (hread64 s6 (regs + 144))]) s7"
  have pid: "task_id (tsk (upd_task t g s3) p) = task_id (tsk s1 p)" for g using tl t3(1) by (simp add: upd_task_at)
  have run: "task_fork p regs s = Some (Some t, s')"
    using slot pm cp k s4(5) p kprintf_ok [OF con7]
    by (simp add: task_fork_def Let_def pid kt_def [symmetric] s4_def [symmetric] ws cr_def [symmetric] s5_def [symmetric] ser
        s7_def [symmetric] s'_def)
  have at: "tsk s' i = (if i = t then (tsk s4 t)\<lparr>context_rsp := sp, state := TASK_RUNNABLE\<rparr> else tsk s4 i)" for i
    using tl s4(9) by (simp add: s'_def say_def s7_def upd_task_at m(1))
  have same: "same_mem s6 s'" using same_mem_trans [of s6 s7 s'] by (simp add: s'_def s7_def)
  have "same_mem (s3\<lparr>mem := m\<rparr>) s6" using s4(1) by (simp add: same_mem_def m(1))
  then have same3: "same_mem (s3\<lparr>mem := m\<rparr>) s'" using same by (rule same_mem_trans)
  have "read_words s' cr 20 = 0 # tl ws" using m(3) same_mem_cong(10) [OF same] by (simp add: read_words_def)
  moreover have "frame_regs s' sp = frame_regs s6 sp" by (simp add: s'_def s7_def frame_regs_quiet_table)
  moreover have "m x = mem s3 x" if "\<not> in_page (page2pa f) x" for x using m(2) [OF that] same_mem_cong(1) [OF s4(1)] by simp
  ultimately show thesis
    using m(4) s4 at by (intro that [OF run al _ same3]) (simp_all add: cr_def kt_def ws_def)
qed

lemma copied_all:
  assumes "\<And>va. owned user_half va \<Longrightarrow> page_handled P s C s' va" "\<And>va. owned user_half va \<Longrightarrow> present (pte_of (mem s') C va) = present (pte_of (mem s) P va)"
  shows "\<forall>va. owned user_half va \<longrightarrow> page_copied P s C s' va \<and> present (pte_of (mem s') C va) = present (pte_of (mem s) P va)"
  using assms unfolding page_handled_iff by (metis not_present_0)

lemma fork_space:
  assumes sm: "same_mem s s1" and sm': "same_mem (s3\<lparr>mem := m\<rparr>) s'" and C: "copied_space P s1 C s2" and F: "mem_frame {} s1 s2"
    and al: "alloc_post 1 s2 f s3" and m: "\<And>x. \<not> in_page (page2pa f) x \<Longrightarrow> m x = mem s3 x"
  shows "space_ok user_half C s'" "\<forall>j \<in> kernel_half. ent (mem s') C j = ent (mem s) P j" "f \<in> free_frames s - free_frames s'"
    "\<forall>va. owned user_half va \<longrightarrow> page_copied P s C s' va \<and> present (pte_of (mem s') C va) = present (pte_of (mem s) P va)"
proof -
  note M = same_mem_cong [OF sm] and M' = same_mem_cong [OF sm'] and c = C [unfolded copied_space_def]
  have ok: "space_ok user_half C s2" and pc: "\<forall>va. owned user_half va \<longrightarrow> page_handled P s1 C s2 va" using c by blast+
  note S = copy_survives [OF ok pc F al m refl]
  show "space_ok user_half C s'" using S(1) by (simp add: M')
  show "\<forall>j \<in> kernel_half. ent (mem s') C j = ent (mem s) P j" using S(3) c by (auto simp: M' M kernel_half_def)
  have "free_frames s3 = free_frames s2 - {f}" "f \<in> free_frames s2" "free_frames s2 \<subseteq> free_frames s1"
    using al F by (simp_all add: alloc_post_def mem_frame_def)
  then show "f \<in> free_frames s - free_frames s'" by (auto simp: M M')
  show "\<forall>va. owned user_half va \<longrightarrow> page_copied P s C s' va \<and> present (pte_of (mem s') C va) = present (pte_of (mem s) P va)"
    by (rule copied_all) (use S(4,5) in \<open>simp_all add: M M'\<close>)
qed

lemma fork_words:
  assumes sm: "same_mem s s1" and ok: "space_ok user_half P s" and F: "mem_frame {} s1 s2" and al: "alloc_post 1 s2 f s3"
    and q: "q < length (pages s)" "q \<notin> free_frames s" "k + 20 \<le> 512" "regs = phys_to_virt s (page2pa q) + 8 * of_nat k"
  shows "read_words s3 regs 20 = read_words s regs 20"
proof -
  note M = same_mem_cong [OF sm]
  have "mem_frame {} s1 s3" by (rule mem_frame_trans [OF F alloc_mem_frame [OF al] empty_subsetI])
  then have "read_words s3 regs 20 = read_words s1 regs 20"
    using words_kept [of s1 s3 q k 20] q space_okD(1) [OF ok] by (simp add: M)
  then show ?thesis by (simp add: read_words_def M)
qed

lemma slot_free_run:
  assumes "locks s task_table_lock = 0" "t < length (task_table s)"
  obtains s' where "task_slot_free t s = Some s'" "same_mem s s'" "\<And>i. i \<noteq> t \<Longrightarrow> tsk s' i = tsk s i" "state (tsk s' t) = TASK_UNUSED"
proof -
  have "\<exists>s'. task_slot_free t s = Some s' \<and> same_mem s s' \<and> (\<forall>i. i \<noteq> t \<longrightarrow> tsk s' i = tsk s i) \<and> state (tsk s' t) = TASK_UNUSED"
    using assms by (simp add: task_slot_free_def Let_def same_mem_def upd_task_def nth_upd)
  then show thesis using that by blast
qed

definition fork_result :: "nat \<Rightarrow> nat \<Rightarrow> u64 \<Rightarrow> u64 \<Rightarrow> 'a kernel_state_scheme \<Rightarrow> nat option \<Rightarrow> 'a kernel_state_scheme \<Rightarrow> bool" where
  "fork_result p t P regs s r s' \<longleftrightarrow> (\<forall>i. i \<noteq> t \<longrightarrow> tsk s' i = tsk s i) \<and>
     (case r of None \<Rightarrow> state (tsk s' t) = TASK_UNUSED \<and> free_frames s' = {}
      | Some c \<Rightarrow> c = t \<and> task_id (tsk s' t) = of_nat t \<and> fork_done p t P regs s s')"

text \<open>Out of frames, the slot goes back.\<close>

lemma fork_gives_up:
  assumes "locks s2 task_table_lock = 0" "t < length (task_table s2)" "free_frames s2 = {}" "\<And>i. i \<noteq> t \<Longrightarrow> tsk s2 i = tsk s i"
    and run: "task_fork p regs s = do { s' \<leftarrow> task_slot_free t s2; Some (None, s') }"
  obtains s' where "task_fork p regs s = Some (None, s')" "fork_result p t P regs s None s'"
proof -
  obtain s' where "task_slot_free t s2 = Some s'" "same_mem s2 s'" "\<And>i. i \<noteq> t \<Longrightarrow> tsk s' i = tsk s2 i" "state (tsk s' t) = TASK_UNUSED"
    by (rule slot_free_run [OF assms(1,2)]) blast
  then show thesis using that [of s'] run assms(3,4) same_mem_cong(2) by (fastforce simp: fork_result_def)
qed

text \<open>With the address space copied and a frame left, the child is complete.\<close>

lemma fork_goes_on:
  assumes slot: "task_slot_alloc s = Some (Some t, s1)" and tl: "t < length (task_table s1)" "p \<noteq> t" and con: "console_ok s1"
    and s1: "\<And>i. i \<noteq> t \<Longrightarrow> tsk s1 i = tsk s i" "task_id (tsk s1 t) = of_nat t" "syscall_entry_return s1 = syscall_entry_return s" "same_mem s s1"
    and pm: "pml4 (tsk s1 p) = Some a" and cp: "vmm_copy_address_space a s1 = Some (Some (phys_to_virt s C), s2)" "frames_inv s2" "mem_frame {} s1 s2"
    and fr: "free_frames s2 \<noteq> {}" and C: "copied_space P s1 C s2" and ok: "space_ok user_half P s"
    and q: "q < length (pages s)" "q \<notin> free_frames s" "k + 20 \<le> 512" "regs = phys_to_virt s (page2pa q) + 8 * of_nat k"
  obtains s' where "task_fork p regs s = Some (Some t, s')" "fork_result p t P regs s (Some t) s'"
proof (rule task_fork_child [OF slot tl con pm cp(1,2) fr, of regs])
  note M = same_mem_cong [OF s1(4)]
  fix f s3 m s'
  assume run: "task_fork p regs s = Some (Some t, s')" and al: "alloc_post 1 s2 f s3"
    and m: "\<And>x. \<not> in_page (page2pa f) x \<Longrightarrow> m x = mem s3 x" and sm': "same_mem (s3\<lparr>mem := m\<rparr>) s'"
    and other: "\<And>i. i \<noteq> t \<Longrightarrow> tsk s' i = tsk s1 i"
    and ch: "state (tsk s' t) = TASK_RUNNABLE" "parent_id (tsk s' t) = task_id (tsk s1 p)" "pml4 (tsk s' t) = Some (phys_to_virt s C)"
      "kstack_top (tsk s' t) = Some (phys_to_virt s2 (page2pa f) + 4096)" "task_id (tsk s' t) = task_id (tsk s1 t)"
      "read_words s' (phys_to_virt s2 (page2pa f) + 4096 - SIZEOF_REGS) 20 = 0 # tl (read_words s3 regs 20)"
      "frame_regs s' (context_rsp (tsk s' t)) = \<lparr>rsp = phys_to_virt s2 (page2pa f) + 4096 - SIZEOF_REGS, rbx = 0, rbp = 0,
        r12 = phys_to_virt s2 (page2pa f) + 4096 - SIZEOF_REGS, r13 = 0, r14 = 0, r15 = 0, rip = syscall_entry_return s1\<rparr>"
  have "fork_done p t P regs s s'"
    using ch fork_space [OF s1(4) sm' C cp(3) al m] fork_words [OF s1(4) ok cp(3) al q]
    unfolding fork_done_def M(7) s1(3) s1(1) [OF tl(2)] mem_frame_same(1) [OF cp(3)]
    by (intro conjI bexI [of _ f] exI [of _ C]) (simp_all add: Let_def)
  then show thesis using that [OF run] other s1(1,2) ch(5) by (simp add: fork_result_def)
qed

lemma task_fork_run:
  assumes "tasks_ok {} s" "current_task s = Some p" "task_free_list s = Some t" "pml4 (tsk s p) = Some (phys_to_virt s P)"
    "space_ok user_half P s" "user_frames_ok P s" "direct_mapped s"
    "q < length (pages s)" "q \<notin> free_frames s" "k + 20 \<le> 512" "regs = phys_to_virt s (page2pa q) + 8 * of_nat k"
  obtains r s' where "task_fork p regs s = Some (r, s')" "fork_result p t P regs s r s'"
proof -
  note A = slot_alloc_some [OF assms(1,3)]
  define s1 where "s1 = upd_task t (next_free_update (\<lambda>_. None)) (s\<lparr>task_free_list := next_free (tsk s t)\<rparr>)"
  have slot: "task_slot_alloc s = Some (Some t, s1)" unfolding s1_def by (rule A(1))
  have sm: "same_mem s s1" by (simp add: s1_def same_mem_def upd_task_def)
  note M = same_mem_cong [OF sm]
  have pt: "p \<noteq> t" using run_invD(2) [OF tasks_okD(3) [OF assms(1)] assms(2)] A(5) by auto
  have s1: "t < length (task_table s1)" "console_ok s1" "tsk s1 p = tsk s p" "\<And>i. i \<noteq> t \<Longrightarrow> tsk s1 i = tsk s i"
    "task_id (tsk s1 t) = of_nat t" "locks s1 task_table_lock = 0" "syscall_entry_return s1 = syscall_entry_return s"
    using A(3,4) pt tasks_okD(2,4,6) [OF assms(1)] by (simp_all add: s1_def upd_task_at) (simp_all add: upd_task_def)
  have sp1: "space_ok user_half P s1" "user_frames_ok P s1" "direct_mapped s1" using assms(5-7) by (simp_all add: M)
  obtain r1 s2 where cp: "vmm_copy_address_space (phys_to_virt s P) s1 = Some (r1, s2)" "frames_inv s2" "mem_frame {} s1 s2"
    and res: "case r1 of None \<Rightarrow> free_frames s2 = {} | Some child \<Rightarrow> \<exists>C. child = phys_to_virt s1 C \<and> copied_space P s1 C s2"
    using copy_outcome [OF sp1] unfolding M(7) by blast
  have t2: "task_table s2 = task_table s1" "locks s2 = locks s1"
    using quiet_same_tasks [OF vmm_copy_address_space_quiet [OF cp(1)]] by (simp_all add: same_tasks_def)
  have pm: "pml4 (tsk s1 p) = Some (phys_to_virt s P)" using s1(3) assms(4) by simp
  show thesis
  proof (cases "free_frames s2 = {}")
    case True
    have "task_kstack_alloc t s2 = Some (False, s2)" using page_alloc_empty [OF cp(2) True] by (simp add: task_kstack_alloc_def)
    then have "task_fork p regs s = do { s' \<leftarrow> task_slot_free t s2; Some (None, s') }"
      using slot pm cp(1) by (cases r1) (simp_all add: task_fork_def)
    then show thesis using fork_gives_up [OF _ _ True, of t s p regs] s1(1,4,6) t2 that by metis
  next
    case False
    then obtain C where C: "r1 = Some (phys_to_virt s C)" "copied_space P s1 C s2" using res unfolding M(7) by (cases r1) auto
    show thesis
      by (rule fork_goes_on [OF slot s1(1) pt s1(2,4,5,7) sm pm cp(1) [unfolded C(1)] cp(2,3) False C(2) assms(5,8-11)]) (assumption, rule that)
  qed
qed

text \<open>Claim C1. Let the running task's user half be a proper tree of tables that maps allocated frames, and let
  its saved registers lie in an allocated frame. With a free slot, the fork system call always returns, and it changes no
  other task. It returns \<open>-1\<close> only when the frames have run out, and gives the slot back. Otherwise it returns the
  identifier of a new runnable task whose parent is the caller. The new task has its own copy of every user page of the
  parent, with the parent's kernel half; the saved registers on its kernel stack are the parent's with \<open>rax\<close>, the first word,
  zero; and the first switch to it continues at \<open>syscall_entry_return\<close> with the stack pointer at those registers.\<close>

theorem fork_correct:
  assumes "tasks_ok {} s" "current_task s = Some p" "task_free_list s = Some t" "pml4 (tsk s p) = Some (phys_to_virt s P)"
    "space_ok user_half P s" "user_frames_ok P s" "direct_mapped s"
    "q < length (pages s)" "q \<notin> free_frames s" "k + 20 \<le> 512" "regs = phys_to_virt s (page2pa q) + 8 * of_nat k"
  shows "\<exists>r s'. sys_fork regs s = Some (Returns r, s') \<and> tasks_ok {} s' \<and> (\<forall>i. i \<noteq> t \<longrightarrow> tsk s' i = tsk s i) \<and>
    (r = - 1 \<and> state (tsk s' t) = TASK_UNUSED \<and> free_frames s' = {} \<or> r = of_nat t \<and> fork_done p t P regs s s')"
proof -
  obtain r s' where "task_fork p regs s = Some (r, s')" "fork_result p t P regs s r s'" by (rule task_fork_run [OF assms])
  then show ?thesis using task_fork_ok [OF assms(1)] assms(2) by (auto simp: sys_fork_def fork_result_def split: option.splits)
qed

definition demo_fork :: kernel_state where
  "demo_fork = upd_task 1 (\<lambda>x. x\<lparr>pml4 := Some 0xFFFF800000000000\<rparr>) demo_tasks"

lemma demo_fork_mem:
  "mem demo_fork = mem demo_frames" "pages demo_fork = pages demo_frames" "page_free_list demo_fork = page_free_list demo_frames"
  "locks demo_fork = locks demo_frames" "g_hhdm_offset demo_fork = 0xFFFF800000000000" "free_frames demo_fork = free_frames demo_frames"
  "frames_inv demo_fork = frames_inv demo_frames"
proof -
  show *: "mem demo_fork = mem demo_frames" "pages demo_fork = pages demo_frames" "page_free_list demo_fork = page_free_list demo_frames"
    "locks demo_fork = locks demo_frames" "g_hhdm_offset demo_fork = 0xFFFF800000000000"
    by (simp_all add: demo_fork_def upd_task_def demo_tasks_def demo_kernel_def heap_state.defs demo_heap_fields)
      (simp add: demo_heap_def kheap_init_def demo_frames_def demo_pmm_def
      demo_idt_def demo_gdt_def demo_machine_def heap_state.defs frame_state.defs pmm_state.defs idt_state.defs gdt_state.defs machine.defs)
  show "free_frames demo_fork = free_frames demo_frames" "frames_inv demo_fork = frames_inv demo_frames"
    using * by (simp_all add: free_frames_def frames_inv_def)
qed

lemma demo_fork_ready:
  "tasks_ok {} demo_fork" "current_task demo_fork = Some 1" "task_free_list demo_fork = Some 3"
  "pml4 (tsk demo_fork 1) = Some (phys_to_virt demo_fork 0)"
  "space_ok user_half 0 demo_fork" "user_frames_ok 0 demo_fork" "direct_mapped demo_fork"
proof -
  have one: "state (tsk demo_tasks 1) = TASK_RUNNING" "1 < MAX_TASKS" by (simp_all add: demo_tasks_at MAX_TASKS_def)
  show "tasks_ok {} demo_fork"
    unfolding demo_fork_def by (rule tasks_ok_change [OF demo_tasks_ok]) (use one in \<open>simp_all add: link_safe_def demo_tasks_fields\<close>)
  show "current_task demo_fork = Some 1" "task_free_list demo_fork = Some 3" by (simp_all add: demo_fork_def demo_tasks_fields)
  have "1 < length (task_table demo_tasks)" using one by (simp add: demo_tasks_fields)
  then show "pml4 (tsk demo_fork 1) = Some (phys_to_virt demo_fork 0)"
    by (simp add: phys_to_virt_def demo_fork_mem(5)) (simp add: demo_fork_def upd_task_at)
  show "space_ok user_half 0 demo_fork" using demo_space(1) [of user_half] by (simp add: space_ok_def demo_fork_mem)
  show "user_frames_ok 0 demo_fork" using demo_space(3) [of user_half] by (simp add: user_frames_ok_def demo_fork_mem)
  show "direct_mapped demo_fork" by (intro demo_direct) (simp_all add: demo_fork_mem demo_frames_fields)
qed

theorem fork_correct_witness:
  "\<exists>r s'. sys_fork 0xFFFF800000006F60 demo_fork = Some (Returns r, s') \<and> tasks_ok {} s' \<and>
     (r = - 1 \<and> free_frames s' = {} \<or> r = 3 \<and> fork_done 1 3 0 0xFFFF800000006F60 demo_fork s')"
proof -
  have six: "6 < length (pages demo_fork)" "6 \<notin> free_frames demo_fork" by (simp_all add: demo_fork_mem demo_frames_fields demo_free_frames)
  have r: "0xFFFF800000006F60 = phys_to_virt demo_fork (page2pa 6) + 8 * of_nat 492"
    by (simp add: phys_to_virt_def demo_fork_mem page2pa_def PGSIZE_def)
  have k: "492 + 20 \<le> (512 :: nat)" by simp
  have t: "of_nat 3 = (3 :: u64)" by simp
  show ?thesis using fork_correct [OF demo_fork_ready six k r] unfolding t by blast
qed

end
