(* ===== verification/Process.thy ===== *)
theory Process
  imports Fork
begin

text \<open>Process life cycle: blocking and the choice of the next task seen from the blocked caller, \<open>sys_wait\<close> and
\<open>sys_exit\<close>. \<open>stuck\<close> characterises the calls of \<open>sys_wait\<close> that never return control.\<close>

section \<open>Blocking\<close>

definition blocked :: "nat \<Rightarrow> block_reason \<Rightarrow> u64 \<Rightarrow> u64 \<Rightarrow> u64 \<Rightarrow> 'a kernel_state_scheme \<Rightarrow> 'a kernel_state_scheme" where
  "blocked c reason peer buf n s =
     upd_task c (\<lambda>x. x\<lparr>state := TASK_BLOCKED, block_reason := reason, ipc_peer := peer, ipc_buf := buf, ipc_len := n\<rparr>) s"

lemma blocked_ok:
  assumes "tasks_ok {} s" "current_task s = Some c"
  shows "tasks_ok {} (blocked c reason peer buf n s)" "current_task (blocked c reason peer buf n s) = Some c"
    "idle_task (blocked c reason peer buf n s) = idle_task s"
    "tsk (blocked c reason peer buf n s) i = (if i = c then (tsk s c)\<lparr>state := TASK_BLOCKED, block_reason := reason, ipc_peer := peer, ipc_buf := buf, ipc_len := n\<rparr> else tsk s i)"
proof -
  have c: "c < MAX_TASKS" "state (tsk s c) \<noteq> TASK_UNUSED" using run_invD(2) [OF tasks_okD(3) [OF assms(1)] assms(2)] by blast+
  show "tasks_ok {} (blocked c reason peer buf n s)"
    unfolding blocked_def using c by (intro tasks_ok_change [OF assms(1)]) (simp_all add: link_safe_def)
  show "current_task (blocked c reason peer buf n s) = Some c" "idle_task (blocked c reason peer buf n s) = idle_task s"
    using assms(2) by (simp_all add: blocked_def)
  show "tsk (blocked c reason peer buf n s) i = (if i = c then (tsk s c)\<lparr>state := TASK_BLOCKED, block_reason := reason, ipc_peer := peer, ipc_buf := buf, ipc_len := n\<rparr> else tsk s i)"
    using c tasks_okD(1) [OF assms(1)] by (simp add: blocked_def upd_task_at)
qed

lemma block_spec:
  fixes reason :: block_reason and peer buf n :: u64
  assumes ok: "tasks_ok {} s" and c: "current_task s = Some c"
  defines "s1 \<equiv> blocked c reason peer buf n s"
  shows "task_block_and_switch reason peer buf n s = Some (if pick s1 c = c then (True, s1)
    else (False, scheduler_switch_to (Some c) (pick s1 c) (upd_task (pick s1 c) (state_update (\<lambda>_. TASK_RUNNING)) (s1\<lparr>current_task := Some (pick s1 c)\<rparr>))))"
proof -
  note lk = tasks_okD(2) [OF ok]
  have cm: "c < MAX_TASKS" using run_invD(2) [OF tasks_okD(3) [OF ok] c] by blast
  have lk1: "locks s1 task_table_lock = 0" using lk by (simp add: s1_def blocked_def)
  have acq: "spinlock_release task_table_lock (rflags s) (upd_task c (\<lambda>x. x\<lparr>state := TASK_BLOCKED, block_reason := reason, ipc_peer := peer, ipc_buf := buf, ipc_len := n\<rparr>)
      (s\<lparr>rflags := rflags s AND NOT IF_FLAG, locks := (locks s)(task_table_lock := 1)\<rparr>)) = s1"
    using lk by (simp add: s1_def blocked_def upd_task_def)
  show ?thesis
    using c lk acq pick_next_pick [OF lk1 cm] lk1
    by (simp add: task_block_and_switch_def Let_def del: spinlock_release_simp) (simp add: upd_task_def)
qed

lemma pick_self:
  assumes "c < MAX_TASKS" "state (tsk s c) \<noteq> TASK_RUNNABLE"
  shows "pick s c = c \<longleftrightarrow> (\<forall>i < MAX_TASKS. state (tsk s i) \<noteq> TASK_RUNNABLE) \<and> (\<forall>i. idle_task s = Some i \<longrightarrow> i = c)"
proof -
  have "set (rr_order c) = {..<MAX_TASKS}"
  proof
    show "{..<MAX_TASKS} \<subseteq> set (rr_order c)"
    proof
      fix i assume "i \<in> {..<MAX_TASKS}"
      then have i: "i < MAX_TASKS" by simp
      define k where "k = (if c < i then i - c else i + MAX_TASKS - c)"
      have "i = (c + k) mod MAX_TASKS"
      proof (cases "c < i")
        case False
        then have "c + k = i + MAX_TASKS" using assms(1) by (simp add: k_def)
        then show ?thesis using i by simp
      qed (use i in \<open>simp add: k_def\<close>)
      moreover have "k \<in> {1..<MAX_TASKS + 1}" using i assms(1) by (auto simp: k_def)
      ultimately show "i \<in> set (rr_order c)" unfolding rr_order_def set_map set_upt by (rule image_eqI)
    qed
  qed (rule set_rr_order)
  note order = this
  show ?thesis
  proof (cases "find (\<lambda>i. state (tsk s i) = TASK_RUNNABLE) (rr_order c)")
    case None
    then have "\<forall>i < MAX_TASKS. state (tsk s i) \<noteq> TASK_RUNNABLE" using order by (simp add: find_None_iff)
    then show ?thesis using None by (simp add: pick_def split: option.split)
  next
    case (Some t)
    then have "t \<in> set (rr_order c)" "state (tsk s t) = TASK_RUNNABLE" by (auto simp: find_Some_iff)
    then show ?thesis using Some order assms(2) by (auto simp: pick_def)
  qed
qed

section \<open>Waiting\<close>

definition stuck :: "u64 \<Rightarrow> 'a kernel_state_scheme \<Rightarrow> bool" where
  "stuck cid s \<longleftrightarrow> tasks_ok {} s \<and> (\<exists>c. current_task s = Some c \<and>
     (\<exists>i < MAX_TASKS. child_of cid c s i) \<and> (\<forall>i < MAX_TASKS. child_of cid c s i \<longrightarrow> state (tsk s i) \<noteq> TASK_DEAD) \<and>
     (\<forall>i < MAX_TASKS. i \<noteq> c \<longrightarrow> state (tsk s i) \<noteq> TASK_RUNNABLE) \<and> (\<forall>i. idle_task s = Some i \<longrightarrow> i = c))"

lemma find_upt: "find P [0..<n] = None \<longleftrightarrow> (\<forall>i < n. \<not> P i)" for P :: "nat \<Rightarrow> bool"
  by (auto simp: find_None_iff)

lemma stuck_step:
  assumes "stuck cid s"
  obtains s1 where "stuck cid s1" "\<And>again. wait_body again cid s = again cid s1"
proof -
  obtain c where ok: "tasks_ok {} s" and c: "current_task s = Some c" and ch: "\<exists>i < MAX_TASKS. child_of cid c s i"
    "\<forall>i < MAX_TASKS. child_of cid c s i \<longrightarrow> state (tsk s i) \<noteq> TASK_DEAD"
    and r: "\<forall>i < MAX_TASKS. i \<noteq> c \<longrightarrow> state (tsk s i) \<noteq> TASK_RUNNABLE" and idle: "\<forall>i. idle_task s = Some i \<longrightarrow> i = c"
    using assms unfolding stuck_def by blast
  have cm: "c < MAX_TASKS" "state (tsk s c) \<noteq> TASK_UNUSED" using run_invD(2) [OF tasks_okD(3) [OF ok] c] by blast+
  define s1 where "s1 = blocked c BLOCK_ON_WAIT cid 0 0 s"
  note B = blocked_ok [OF ok c, where reason = BLOCK_ON_WAIT and peer = cid and buf = 0 and n = 0, folded s1_def]
  have pc: "pick s1 c = c" using r idle cm(1) by (subst pick_self) (auto simp: B(3,4))
  have co: "child_of cid c s1 i = child_of cid c s i" for i using cm(2) by (auto simp: child_of_def B(4))
  have "\<exists>i < MAX_TASKS. child_of cid c s1 i" "\<forall>i < MAX_TASKS. child_of cid c s1 i \<longrightarrow> state (tsk s1 i) \<noteq> TASK_DEAD"
    "\<forall>i < MAX_TASKS. i \<noteq> c \<longrightarrow> state (tsk s1 i) \<noteq> TASK_RUNNABLE" "\<forall>i. idle_task s1 = Some i \<longrightarrow> i = c"
    using ch r idle by (simp_all add: co B(3,4))
  then have "stuck cid s1" unfolding stuck_def using B(1,2) by blast
  moreover have "wait_body again cid s = again cid s1" for again
  proof -
    have "find (\<lambda>i. child_of cid c s i \<and> state (tsk s i) = TASK_DEAD) [0..<MAX_TASKS] = None"
      "find (child_of cid c s) [0..<MAX_TASKS] \<noteq> None" using ch by (auto simp: find_upt)
    then show ?thesis
      using c block_spec [OF ok c, of BLOCK_ON_WAIT cid 0 0, folded s1_def] pc by (auto simp: wait_body_def)
  qed
  ultimately show thesis using that by blast
qed

lemma sys_wait_stuck:
  assumes "stuck cid s"
  shows "sys_wait cid s = None"
proof (rule ccontr)
  assume "sys_wait cid s \<noteq> None"
  then obtain y where y: "sys_wait cid s = Some y" by blast
  have lk: "locks s task_table_lock = 0" using assms tasks_okD(2) by (auto simp: stuck_def)
  have "\<not> stuck cid s"
    using y lk
  proof (induction rule: sys_wait_induct)
    case (step again cid s y)
    show ?case
    proof
      assume "stuck cid s"
      then obtain s1 where s1: "stuck cid s1" "wait_body again cid s = again cid s1" by (rule stuck_step) blast
      moreover have "locks s1 task_table_lock = 0" using s1(1) tasks_okD(2) by (auto simp: stuck_def)
      ultimately show False using step.IH [of cid s1 y] step.hyps(2) by simp
    qed
  qed
  then show False using assms by simp
qed

lemma destroy_run:
  assumes ok: "tasks_ok {} s" and t: "t < MAX_TASKS" "state (tsk s t) \<noteq> TASK_UNUSED"
  obtains s' where "task_destroy (Some t) s = Some s'" "state (tsk s' t) = TASK_UNUSED" "\<And>i. i \<noteq> t \<Longrightarrow> tsk s' i = tsk s i"
    "task_free_list s' = Some t" "current_task s' = current_task s" "console_ok s'" "task_id (tsk s' t) = task_id (tsk s t)"
    "same_mem s s'" "kstack (tsk s' t) = None"
proof -
  let ?s1 = "upd_task t (\<lambda>x. x\<lparr>pml4 := None, kstack := None, kstack_top := None, context_rsp := 0\<rparr>) s"
  have tl: "t < length (task_table s)" using tasks_okD(1) [OF ok] t(1) by simp
  let ?s2 = "upd_task t (\<lambda>x. x\<lparr>state := TASK_UNUSED, block_reason := BLOCK_NONE, parent_id := - 1, exit_code := 0, next_free := task_free_list s\<rparr>) ?s1\<lparr>task_free_list := Some t\<rparr>"
  have free: "task_slot_free t ?s1 = Some ?s2" using tasks_okD(2) [OF ok] by (simp add: task_slot_free_def Let_def upd_task_def)
  have con: "console_ok ?s2" using tasks_okD(4) [OF ok] by simp
  let ?s' = "say (kmsg (''task_destroy: task_id=%ld slot freed'' @ [CHR 0x0A]) [W (task_id (tsk ?s2 t))]) ?s2"
  have "task_destroy (Some t) s = Some ?s'"
    using t(2) free kprintf_ok [OF con, of "''task_destroy: task_id=%ld slot freed'' @ [CHR 0x0A]" "[W (task_id (tsk ?s2 t))]"]
    by (simp add: task_destroy_def)
  moreover have "console_ok ?s'" using con by simp
  moreover have "same_mem s ?s'" by (intro same_mem_trans [OF _ same_mem_upd(3)] same_mem_trans [OF _ same_mem_upd(2)] same_mem_trans [OF _ same_mem_upd(1)]) (simp add: same_mem_def)
  ultimately show thesis
    by (intro that [of ?s']) (use tl in \<open>simp_all add: upd_task_at\<close>, use tl in \<open>simp_all add: say_def upd_task_at\<close>)
qed

lemma reap_run:
  assumes ok: "tasks_ok {} s" and c: "current_task s = Some c"
    and t: "find (\<lambda>i. child_of cid c s i \<and> state (tsk s i) = TASK_DEAD) [0..<MAX_TASKS] = Some t"
  obtains s' where "sys_wait cid s = Some (Returns (of_nat t), s')" "state (tsk s' t) = TASK_UNUSED" "\<And>i. i \<noteq> t \<Longrightarrow> tsk s' i = tsk s i"
    "task_free_list s' = Some t" "current_task s' = Some c" "same_mem s s'" "kstack (tsk s' t) = None"
proof -
  have tm: "t < MAX_TASKS" "state (tsk s t) \<noteq> TASK_UNUSED" using t by (auto simp: find_Some_iff)
  obtain s1 where s1: "task_destroy (Some t) s = Some s1" "state (tsk s1 t) = TASK_UNUSED" "\<And>i. i \<noteq> t \<Longrightarrow> tsk s1 i = tsk s i"
    "task_free_list s1 = Some t" "current_task s1 = current_task s" "console_ok s1" "same_mem s s1" "kstack (tsk s1 t) = None"
    by (rule destroy_run [OF ok tm]) blast
  have id: "task_id (tsk s t) = of_nat t" by (rule tasks_okD(6) [OF ok tm(1)])
  let ?s' = "say (kmsg (''sys_wait: reaped child task_id=%ld exit_code=%ld'' @ [CHR 0x0A]) [W (of_nat t), W (exit_code (tsk s t))]) s1"
  have run: "sys_wait cid s = Some (Returns (of_nat t), ?s')"
    using c t s1(1) id kprintf_ok [OF s1(6), of "''sys_wait: reaped child task_id=%ld exit_code=%ld'' @ [CHR 0x0A]" "[W (of_nat t), W (exit_code (tsk s t))]"]
    by (simp add: sys_wait_body [OF tasks_okD(2) [OF ok]] wait_body_def)
  show thesis by (rule that [OF run _ _ _ _ same_mem_trans [OF s1(7) same_mem_upd(3)]]) (use s1 c in \<open>simp_all add: say_def\<close>)
qed

text \<open>Claim C12. \<open>sys_wait\<close> returns control exactly when it can: some matching child is dead, or there is no matching
  child, or another task is runnable, or there is an idle task to switch to. In every other state the system call runs
  its loop for ever, with interrupts off.\<close>

theorem wait_returns:
  assumes ok: "tasks_ok {} s" and c: "current_task s = Some c"
  shows "sys_wait cid s \<noteq> None \<longleftrightarrow>
    (\<exists>i < MAX_TASKS. child_of cid c s i \<and> state (tsk s i) = TASK_DEAD) \<or> (\<forall>i < MAX_TASKS. \<not> child_of cid c s i) \<or>
    (\<exists>i < MAX_TASKS. i \<noteq> c \<and> state (tsk s i) = TASK_RUNNABLE) \<or> (\<exists>i. idle_task s = Some i \<and> i \<noteq> c)"
    (is "?L \<longleftrightarrow> ?R")
proof
  assume ?L
  then have "\<not> stuck cid s" using sys_wait_stuck [of cid s] by auto
  then show ?R using ok c unfolding stuck_def by blast
next
  assume R: ?R
  have cm: "c < MAX_TASKS" using run_invD(2) [OF tasks_okD(3) [OF ok] c] by blast
  show ?L
  proof (cases "find (\<lambda>i. child_of cid c s i \<and> state (tsk s i) = TASK_DEAD) [0..<MAX_TASKS]")
    case (Some t)
    show ?thesis by (rule reap_run [OF ok c Some]) simp
  next
    case None
    define s1 where "s1 = blocked c BLOCK_ON_WAIT cid 0 0 s"
    note B = blocked_ok [OF ok c, where reason = BLOCK_ON_WAIT and peer = cid and buf = 0 and n = 0, folded s1_def]
    have "find (child_of cid c s) [0..<MAX_TASKS] = None \<or> pick s1 c \<noteq> c"
    proof (rule disjCI)
      assume "\<not> pick s1 c \<noteq> c"
      then have "(\<forall>i < MAX_TASKS. state (tsk s1 i) \<noteq> TASK_RUNNABLE) \<and> (\<forall>i. idle_task s1 = Some i \<longrightarrow> i = c)"
        using pick_self [OF cm, of s1] by (simp add: B(4))
      then have "\<forall>i < MAX_TASKS. i \<noteq> c \<longrightarrow> state (tsk s i) \<noteq> TASK_RUNNABLE" "\<forall>i. idle_task s = Some i \<longrightarrow> i = c"
        by (auto simp: B(3,4) split: if_splits)
      moreover have "\<forall>i < MAX_TASKS. child_of cid c s i \<longrightarrow> state (tsk s i) \<noteq> TASK_DEAD" using None by (simp add: find_upt)
      ultimately show "find (child_of cid c s) [0..<MAX_TASKS] = None" using R unfolding find_upt by blast
    qed
    then show ?thesis
    proof
      assume "find (child_of cid c s) [0..<MAX_TASKS] = None"
      then show ?thesis using None c by (simp add: sys_wait_body [OF tasks_okD(2) [OF ok]] wait_body_def)
    next
      assume "pick s1 c \<noteq> c"
      then have "\<exists>s2. task_block_and_switch BLOCK_ON_WAIT cid 0 0 s = Some (False, s2)"
        using block_spec [OF ok c, of BLOCK_ON_WAIT cid 0 0, folded s1_def] by simp
      then show ?thesis using None c by (auto simp: sys_wait_body [OF tasks_okD(2) [OF ok]] wait_body_def)
    qed
  qed
qed

text \<open>Claim C21. When a matching child is dead, \<open>sys_wait\<close> returns the identifier of the first one in the table,
  puts its slot at the head of the free list, forgets its kernel stack and changes no other task. It gives no frame back: the
  free frames are those from before.\<close>

theorem wait_reaps:
  assumes "tasks_ok {} s" "alive s" "current_task s = Some c" "i < MAX_TASKS" "child_of cid c s i" "state (tsk s i) = TASK_DEAD"
  shows "\<exists>t \<le> i. \<exists>s'. child_of cid c s t \<and> state (tsk s t) = TASK_DEAD \<and> (\<forall>j < t. \<not> (child_of cid c s j \<and> state (tsk s j) = TASK_DEAD)) \<and>
    sys_wait cid s = Some (Returns (of_nat t), s') \<and> tasks_ok {} s' \<and> state (tsk s' t) = TASK_UNUSED \<and>
    (\<forall>j. j \<noteq> t \<longrightarrow> tsk s' j = tsk s j) \<and> task_free_list s' = Some t \<and> current_task s' = Some c \<and>
    kstack (tsk s' t) = None \<and> free_frames s' = free_frames s"
proof -
  let ?P = "\<lambda>i. child_of cid c s i \<and> state (tsk s i) = TASK_DEAD"
  have "find ?P [0..<MAX_TASKS] \<noteq> None" using assms(4-6) by (auto simp: find_upt)
  then obtain t where t: "find ?P [0..<MAX_TASKS] = Some t" by blast
  then have P: "?P t" and first: "\<forall>j < t. \<not> ?P j" by (auto simp: find_Some_iff)
  have "t \<le> i" using first assms(5,6) by (meson not_le)
  moreover obtain s' where s': "sys_wait cid s = Some (Returns (of_nat t), s')" "state (tsk s' t) = TASK_UNUSED" "\<And>i. i \<noteq> t \<Longrightarrow> tsk s' i = tsk s i"
    "task_free_list s' = Some t" "current_task s' = Some c" "same_mem s s'" "kstack (tsk s' t) = None" by (rule reap_run [OF assms(1,3) t]) blast
  moreover have "tasks_ok {} s'" using sys_wait_ok [OF s'(1) assms(1,2)] by simp
  moreover have "free_frames s' = free_frames s" using same_mem_cong(2) [OF s'(6)] by simp
  ultimately show ?thesis using P first by blast
qed

section \<open>Exiting\<close>

lemma waits_for_unique:
  assumes "tasks_ok {} s" "waits_for c s p" "waits_for c s q" "p < MAX_TASKS" "q < MAX_TASKS"
  shows "p = q"
proof -
  have "(of_nat p :: u64) = of_nat q" using assms(2,3) tasks_okD(6) [OF assms(1,4)] tasks_okD(6) [OF assms(1,5)] by (simp add: waits_for_def)
  then have "unat (of_nat p :: u64) = unat (of_nat q :: u64)" by simp
  then show ?thesis using assms(4,5) by (simp add: unat_of_nat MAX_TASKS_def)
qed

lemma find_waiting:
  assumes ok: "tasks_ok {} s" and w: "\<And>i. waits_for c s2 i \<longleftrightarrow> i \<noteq> c \<and> waits_for c s i" and i: "i < MAX_TASKS"
  shows "find (waits_for c s2) [0..<task_table_size] = Some i \<longleftrightarrow> i \<noteq> c \<and> waits_for c s i"
proof (cases "find (waits_for c s2) [0..<task_table_size]")
  case None
  then have "\<forall>i < MAX_TASKS. \<not> waits_for c s2 i" by (simp add: task_table_size_def find_upt)
  then show ?thesis using None i w by auto
next
  case (Some t)
  then have "t < MAX_TASKS" "t \<noteq> c" "waits_for c s t" by (auto simp: task_table_size_def find_Some_iff w)
  then show ?thesis using Some waits_for_unique [OF ok _ _ i] by auto
qed

lemma exit_run:
  assumes ok: "tasks_ok {} s" and c: "current_task s = Some c"
  obtains s' where "sys_exit code s = Some (Exits, s')" "tasks_ok {} s'" "tsk s' c = (tsk s c)\<lparr>exit_code := code, state := TASK_DEAD\<rparr>"
    "\<And>p. p < MAX_TASKS \<Longrightarrow> p \<noteq> c \<Longrightarrow> tsk s' p = (if waits_for c s p then (tsk s p)\<lparr>state := TASK_RUNNABLE, block_reason := BLOCK_NONE\<rparr> else tsk s p)"
    "rflags s' AND IF_FLAG = IF_FLAG" "current_task s' = Some c"
proof -
  have cm: "c < MAX_TASKS" using run_invD(2) [OF tasks_okD(3) [OF ok] c] by blast
  let ?m = "kmsg ([CHR 0x0A] @ ''user program exited with code=%ld'' @ [CHR 0x0A]) [W code]"
  let ?d = "\<lambda>x. x\<lparr>exit_code := code, state := TASK_DEAD\<rparr>"
  define s1 where "s1 = upd_task c ?d (say ?m s)"
  have at1: "tsk s1 i = (if i = c then ?d (tsk s c) else tsk s i)" for i
    using cm tasks_okD(1) [OF ok] by (simp add: s1_def upd_task_at) (simp add: say_def)
  have lk: "locks s1 task_table_lock = 0" using tasks_okD(2) [OF ok] by (simp add: s1_def)
  obtain f s2 where L: "task_table_lock_acquire s1 = Some (f, s2)" using lk by (auto simp: task_table_lock_acquire_def)
  have t2: "task_table s2 = task_table s1" "current_task s2 = current_task s1" using acquire_upto_lock [OF L] by (simp_all add: upto_lock_def)
  have w2: "waits_for c s2 i \<longleftrightarrow> i \<noteq> c \<and> waits_for c s i" for i by (auto simp: waits_for_def t2 at1)
  define g where "g = find (waits_for c s2) [0..<task_table_size]"
  define s3 where "s3 = task_table_lock_release f (case g of None \<Rightarrow> s2 | Some t \<Rightarrow> task_wake t s2)"
  define s' where "s' = s3\<lparr>rflags := rflags s3 OR IF_FLAG\<rparr>"
  have cs: "current_task (say ?m s) = Some c" using c by (simp add: say_def)
  have run: "sys_exit code s = Some (Exits, s')"
    using kprintf_ok [OF tasks_okD(4) [OF ok], of "[CHR 0x0A] @ ''user program exited with code=%ld'' @ [CHR 0x0A]" "[W code]"] cs L [unfolded s1_def]
    by (simp add: sys_exit_def Let_def g_def [symmetric] s3_def [symmetric] s'_def [symmetric])
  have at': "tsk s' i = (if g = Some i then (tsk s1 i)\<lparr>state := TASK_RUNNABLE, block_reason := BLOCK_NONE\<rparr> else tsk s1 i)" if "i < MAX_TASKS" for i
  proof -
    have "i < length (task_table s2)" using that tasks_okD(1) [OF ok] by (simp add: t2 s1_def) (simp add: say_def)
    then show ?thesis
      by (cases g) (simp_all add: s'_def s3_def t2, auto simp: task_wake_def upd_task_def nth_upd t2)
  qed
  note gi = find_waiting [OF ok w2, folded g_def]
  have "current_task s' = Some c" using t2(2) c by (simp add: s'_def s3_def s1_def task_wake_def say_def split: option.split)
  then show thesis by (intro that [OF run sys_exit_ok [OF ok run]]) (use at' gi cm in \<open>simp_all add: at1 s'_def\<close>)
qed

text \<open>Claim C13. \<open>sys_exit\<close> always gets to its final loop, with interrupts enabled: the caller is dead and keeps its exit code,
  the one task that waits for this child is runnable again, and no other task changes.\<close>

theorem exit_notifies:
  assumes ok: "tasks_ok {} s" and c: "current_task s = Some c"
  shows "\<exists>s'. sys_exit code s = Some (Exits, s') \<and> tasks_ok {} s' \<and> tsk s' c = (tsk s c)\<lparr>exit_code := code, state := TASK_DEAD\<rparr> \<and>
    (\<forall>p < MAX_TASKS. p \<noteq> c \<longrightarrow> tsk s' p = (if waits_for c s p then (tsk s p)\<lparr>state := TASK_RUNNABLE, block_reason := BLOCK_NONE\<rparr> else tsk s p)) \<and>
    rflags s' AND IF_FLAG = IF_FLAG"
  by (rule exit_run [OF assms, of code]) blast

subsection \<open>Leaving the processor\<close>

lemma exit_tick:
  assumes ok: "tasks_ok {} s" and c: "current_task s = Some c" "state (tsk s c) = TASK_DEAD"
  obtains s' where "timer_isr s = Some s'" "tasks_ok {} s'" "g_ticks s' = g_ticks s + 1" "idle_task s' = idle_task s"
    "current_task s' = Some (if (g_ticks s + 1) mod TIME_SLICE_TICKS = 0 then pick s c else c)"
    "\<And>j. j < MAX_TASKS \<Longrightarrow> state (tsk s' j) =
       (if (g_ticks s + 1) mod TIME_SLICE_TICKS = 0 \<and> pick s c \<noteq> c \<and> j = pick s c then TASK_RUNNING else state (tsk s j))"
proof -
  define a where "a = s\<lparr>seg_data := 0x10\<rparr>"
  have a: "same_tasks s a" "task_table a = task_table s" "current_task a = Some c" "idle_task a = idle_task s" "g_ticks a = g_ticks s"
    using c by (simp_all add: a_def same_tasks_def console_ok_def uart_live_def)
  have ok': "tasks_ok {} a" by (rule tasks_ok_same [OF a(1) ok])
  have pk: "pick a = pick s" unfolding pick_def [abs_def] a(2,4) ..
  obtain s' where s': "timer_tick_handler a = Some s'" "g_ticks s' = g_ticks s + 1" "idle_task s' = idle_task s"
    "current_task s' = Some (if (g_ticks s + 1) mod TIME_SLICE_TICKS = 0 then pick s c else c)"
    "\<forall>j < MAX_TASKS. state (tsk s' j) = (if (g_ticks s + 1) mod TIME_SLICE_TICKS = 0 \<and> pick s c \<noteq> c
       then if current_task s' = Some j then TASK_RUNNING else if c = j \<and> state (tsk s j) = TASK_RUNNING then TASK_RUNNABLE else state (tsk s j)
       else state (tsk s j))"
    using timer_tick_spec [OF ok'] unfolding a pk by auto
  have "timer_isr s = Some s'" using s'(1) by (simp add: timer_isr_def a_def)
  then show thesis
    by (rule that [OF _ timer_tick_ok [OF ok' s'(1)] s'(2-4)]) (use s'(4,5) c(2) in auto)
qed

lemma pick_same:
  assumes "c < MAX_TASKS" "\<And>i. i < MAX_TASKS \<Longrightarrow> state (tsk s' i) = state (tsk s i)" "idle_task s' = idle_task s"
  shows "pick s' c = pick s c"
proof -
  have "find (\<lambda>i. state (tsk s' i) = TASK_RUNNABLE) (rr_order c) = find (\<lambda>i. state (tsk s i) = TASK_RUNNABLE) (rr_order c)"
    by (rule find_cong) (use assms(2) set_rr_order [of c] in auto)
  then show ?thesis unfolding pick_def assms(3) by simp
qed

lemma exit_loop_leaves:
  assumes "tasks_ok {} s" "current_task s = Some c" "state (tsk s c) = TASK_DEAD" "pick s c \<noteq> c"
    "1 \<le> m" "(g_ticks s + of_nat m) mod TIME_SLICE_TICKS = 0"
  shows "\<exists>s'. exit_loop s = Some s' \<and> current_task s' = Some (pick s c) \<and> state (tsk s' (pick s c)) = TASK_RUNNING \<and>
    state (tsk s' c) = TASK_DEAD"
  using assms
proof (induction m arbitrary: s)
  case (Suc m)
  have cm: "c < MAX_TASKS" using run_invD(2) [OF tasks_okD(3) [OF Suc.prems(1)] Suc.prems(2)] by blast
  note P = pick_used [OF Suc.prems(1,2)]
  obtain s' where s': "timer_isr s = Some s'" "tasks_ok {} s'" "g_ticks s' = g_ticks s + 1" "idle_task s' = idle_task s"
    "current_task s' = Some (if (g_ticks s + 1) mod TIME_SLICE_TICKS = 0 then pick s c else c)"
    "\<And>j. j < MAX_TASKS \<Longrightarrow> state (tsk s' j) =
       (if (g_ticks s + 1) mod TIME_SLICE_TICKS = 0 \<and> pick s c \<noteq> c \<and> j = pick s c then TASK_RUNNING else state (tsk s j))"
    by (rule exit_tick [OF Suc.prems(1-3)]) blast
  show ?case
  proof (cases "(g_ticks s + 1) mod TIME_SLICE_TICKS = 0")
    case True
    then have "exit_loop s = Some s'" using s'(1,5) Suc.prems(2,4) by (subst exit_loop.simps) simp
    then show ?thesis using True s'(5,6) P(1) cm Suc.prems(3,4) by simp
  next
    case False
    have eq: "pick s' c = pick s c" by (rule pick_same [OF cm]) (use s'(4,6) False in auto)
    have "m \<noteq> 0" using False Suc.prems(6) by (cases m) auto
    then have "\<exists>s''. exit_loop s' = Some s'' \<and> current_task s'' = Some (pick s' c) \<and> state (tsk s'' (pick s' c)) = TASK_RUNNING \<and> state (tsk s'' c) = TASK_DEAD"
      using s' False cm Suc.prems(3,4,6) eq by (intro Suc.IH) (simp_all add: ac_simps)
    moreover have "exit_loop s = exit_loop s'" using s'(1,5) Suc.prems(2) False by (subst exit_loop.simps) simp
    ultimately show ?thesis by (simp add: eq)
  qed
qed simp

definition nobody :: "nat \<Rightarrow> 'a kernel_state_scheme \<Rightarrow> bool" where
  "nobody c s \<longleftrightarrow> tasks_ok {} s \<and> current_task s = Some c \<and> state (tsk s c) = TASK_DEAD \<and> pick s c = c"

lemma nobody_tick:
  assumes "nobody c s"
  obtains s' where "timer_isr s = Some s'" "nobody c s'" "current_task s' = current_task s"
proof -
  have N: "tasks_ok {} s" "current_task s = Some c" "state (tsk s c) = TASK_DEAD" "pick s c = c" using assms by (simp_all add: nobody_def)
  have cm: "c < MAX_TASKS" using run_invD(2) [OF tasks_okD(3) [OF N(1)] N(2)] by blast
  obtain s' where s': "timer_isr s = Some s'" "tasks_ok {} s'" "idle_task s' = idle_task s" "current_task s' = Some c"
    "\<And>j. j < MAX_TASKS \<Longrightarrow> state (tsk s' j) = state (tsk s j)"
    by (rule exit_tick [OF N(1-3)]) (simp add: N(4) cong: if_cong)
  have "nobody c s'" using s' N pick_same [OF cm s'(5,3)] cm by (simp add: nobody_def)
  then show thesis using that [OF s'(1)] s'(4) N(2) by simp
qed

lemma exit_loop_stays:
  assumes "nobody c s"
  shows "exit_loop s = None"
proof (rule ccontr)
  assume "exit_loop s \<noteq> None"
  then obtain y where y: "exit_loop s = Some y" by blast
  have "\<not> nobody c s"
  proof (rule exit_loop.raw_induct [where P = "\<lambda>s y. \<not> nobody c s", OF _ y])
    fix again :: "'a kernel_state_scheme \<Rightarrow> 'a kernel_state_scheme option" and s y
    assume IH: "\<And>s y. again s = Some y \<Longrightarrow> \<not> nobody c s"
      and step: "Option.bind (timer_isr s) (\<lambda>s'. if current_task s' = current_task s then again s' else Some s') = Some y"
    show "\<not> nobody c s"
    proof
      assume "nobody c s"
      then obtain s' where "timer_isr s = Some s'" "nobody c s'" "current_task s' = current_task s" by (rule nobody_tick)
      then show False using step IH [of s' y] by simp
    qed
  qed
  then show False using assms by simp
qed

text \<open>Claim C14. What becomes of the processor after \<open>sys_exit\<close>: it waits in the halt loop for the timer. If
  another task is runnable then, or there is an idle task, the end of the time slice switches to such a task, which runs, and the
  exited task stays dead. Otherwise the loop never ends: the machine idles in the context of the dead task.\<close>

theorem exit_hands_over:
  assumes "tasks_ok {} s" "current_task s = Some c"
  shows "\<exists>s1. sys_exit code s = Some (Exits, s1) \<and>
    (if (\<exists>i < MAX_TASKS. state (tsk s1 i) = TASK_RUNNABLE) \<or> (\<exists>i. idle_task s1 = Some i \<and> i \<noteq> c)
     then \<exists>t s2. exit_loop s1 = Some s2 \<and> t \<noteq> c \<and> (state (tsk s1 t) = TASK_RUNNABLE \<or> idle_task s1 = Some t) \<and>
       current_task s2 = Some t \<and> state (tsk s2 t) = TASK_RUNNING \<and> state (tsk s2 c) = TASK_DEAD
     else exit_loop s1 = None)"
proof -
  obtain s1 where s1: "sys_exit code s = Some (Exits, s1)" "tasks_ok {} s1" "tsk s1 c = (tsk s c)\<lparr>exit_code := code, state := TASK_DEAD\<rparr>"
    "current_task s1 = Some c" by (rule exit_run [OF assms]) blast
  have cm: "c < MAX_TASKS" using run_invD(2) [OF tasks_okD(3) [OF assms(1)] assms(2)] by blast
  have dead: "state (tsk s1 c) = TASK_DEAD" using s1(3) by simp
  let ?next = "(\<exists>i < MAX_TASKS. state (tsk s1 i) = TASK_RUNNABLE) \<or> (\<exists>i. idle_task s1 = Some i \<and> i \<noteq> c)"
  have nr: "state (tsk s1 c) \<noteq> TASK_RUNNABLE" using dead by simp
  have self: "?next \<longleftrightarrow> pick s1 c \<noteq> c" unfolding pick_self [OF cm nr] by blast
  have stay: "exit_loop s1 = None" if "pick s1 c = c" by (rule exit_loop_stays) (use that s1(2,4) dead in \<open>simp add: nobody_def\<close>)
  have leave: "\<exists>t s2. exit_loop s1 = Some s2 \<and> t \<noteq> c \<and> (state (tsk s1 t) = TASK_RUNNABLE \<or> idle_task s1 = Some t) \<and>
       current_task s2 = Some t \<and> state (tsk s2 t) = TASK_RUNNING \<and> state (tsk s2 c) = TASK_DEAD" if ne: "pick s1 c \<noteq> c"
  proof -
    obtain m where m: "1 \<le> m" "(g_ticks s1 + of_nat m) mod TIME_SLICE_TICKS = 0" using slice_ends [of "g_ticks s1"] by (elim exE conjE)
    obtain s2 where "exit_loop s1 = Some s2" "current_task s2 = Some (pick s1 c)" "state (tsk s2 (pick s1 c)) = TASK_RUNNING" "state (tsk s2 c) = TASK_DEAD"
      using exit_loop_leaves [OF s1(2,4) dead ne m] by (elim exE conjE)
    moreover have "state (tsk s1 (pick s1 c)) = TASK_RUNNABLE \<or> idle_task s1 = Some (pick s1 c)" using pick_cases [OF refl, of s1 c] ne by auto
    ultimately show ?thesis using ne by (intro exI conjI)
  qed
  show ?thesis
  proof (intro exI conjI, rule s1(1))
    show "if ?next then \<exists>t s2. exit_loop s1 = Some s2 \<and> t \<noteq> c \<and> (state (tsk s1 t) = TASK_RUNNABLE \<or> idle_task s1 = Some t) \<and>
       current_task s2 = Some t \<and> state (tsk s2 t) = TASK_RUNNING \<and> state (tsk s2 c) = TASK_DEAD else exit_loop s1 = None"
      unfolding self using stay leave by (cases "pick s1 c = c") simp_all
  qed
qed

definition demo_family :: "task_state \<Rightarrow> kernel_state" where
  "demo_family st = upd_task 2 (\<lambda>x. x\<lparr>parent_id := 1, state := st\<rparr>) demo_tasks"

lemma demo_family_ok:
  assumes "st \<notin> {TASK_UNUSED, TASK_RUNNING}"
  shows "tasks_ok {} (demo_family st)" "current_task (demo_family st) = Some 1" "alive (demo_family st)"
    "tsk (demo_family st) 1 = (empty_slot 1 None)\<lparr>state := TASK_RUNNING\<rparr>"
    "tsk (demo_family st) 2 = (empty_slot 2 None)\<lparr>parent_id := 1, state := st\<rparr>"
    "\<And>i. i < MAX_TASKS \<Longrightarrow> i \<noteq> 1 \<Longrightarrow> i \<noteq> 2 \<Longrightarrow> state (tsk (demo_family st) i) = TASK_UNUSED"
    "idle_task (demo_family st) = None"
proof -
  have two: "tsk demo_tasks 2 = (empty_slot 2 None)\<lparr>state := TASK_RUNNABLE\<rparr>" "2 < MAX_TASKS" "1 < MAX_TASKS"
    by (simp_all add: demo_tasks_at MAX_TASKS_def)
  have at: "tsk (demo_family st) i = (if i = 2 then (tsk demo_tasks 2)\<lparr>parent_id := 1, state := st\<rparr> else tsk demo_tasks i)" for i
    using two demo_tasks_fields(1) by (simp add: demo_family_def upd_task_at)
  show one: "tsk (demo_family st) 1 = (empty_slot 1 None)\<lparr>state := TASK_RUNNING\<rparr>" using two by (simp add: at demo_tasks_at)
  show "tsk (demo_family st) 2 = (empty_slot 2 None)\<lparr>parent_id := 1, state := st\<rparr>" by (simp add: at two)
  show "state (tsk (demo_family st) i) = TASK_UNUSED" if "i < MAX_TASKS" "i \<noteq> 1" "i \<noteq> 2" for i
    using that by (simp add: at demo_tasks_at empty_slot_def)
  show cur: "current_task (demo_family st) = Some 1" "idle_task (demo_family st) = None" by (simp_all add: demo_family_def demo_tasks_fields)
  show "alive (demo_family st)" using one by (simp add: alive_def cur)
  obtain xs where xs: "table_inv {} xs demo_tasks" using demo_tasks_ok by (auto simp: tasks_ok_def)
  have "table_inv {} xs (demo_family st)"
    unfolding demo_family_def by (rule table_inv_upd [OF xs]) (use assms two xs table_invD(8) [OF xs, of 2] in \<open>auto simp: link_safe_def\<close>)
  moreover have "run_inv (demo_family st)"
    unfolding demo_family_def
    by (rule run_inv_upd [OF tasks_okD(3) [OF demo_tasks_ok]]) (use assms two demo_tasks_fields in auto)
  ultimately show "tasks_ok {} (demo_family st)" using demo_tasks_fields by (auto simp: tasks_ok_def demo_family_def)
qed

theorem wait_returns_witness:
  "sys_wait IPC_ANY_SENDER (demo_family TASK_BLOCKED) = None \<and> sys_wait IPC_ANY_SENDER (demo_family TASK_RUNNABLE) \<noteq> None"
proof -
  let ?s = "demo_family TASK_BLOCKED" and ?r = "demo_family TASK_RUNNABLE"
  have S: "TASK_BLOCKED \<notin> {TASK_UNUSED, TASK_RUNNING}" "TASK_RUNNABLE \<notin> {TASK_UNUSED, TASK_RUNNING}" by simp_all
  have two: "2 < MAX_TASKS" "(2 :: nat) \<noteq> 1" by (simp_all add: MAX_TASKS_def)
  have st: "state (tsk ?s i) \<notin> {TASK_DEAD, TASK_RUNNABLE}" if "i < MAX_TASKS" for i
  proof -
    consider "i = 1" | "i = 2" | "i \<noteq> 1" "i \<noteq> 2" by blast
    then show ?thesis using demo_family_ok(4,5) [OF S(1)] demo_family_ok(6) [OF S(1) that] by cases simp_all
  qed
  have child: "child_of IPC_ANY_SENDER 1 ?s 2"
    by (simp add: child_of_def demo_family_ok(4,5) [OF S(1)] del: One_nat_def) (simp add: empty_slot_def)
  have "sys_wait IPC_ANY_SENDER ?s = None"
  proof (rule ccontr)
    assume "sys_wait IPC_ANY_SENDER ?s \<noteq> None"
    then consider i where "i < MAX_TASKS" "state (tsk ?s i) = TASK_DEAD" | "\<forall>i < MAX_TASKS. \<not> child_of IPC_ANY_SENDER 1 ?s i"
      | i where "i < MAX_TASKS" "state (tsk ?s i) = TASK_RUNNABLE" | i where "idle_task ?s = Some i"
      unfolding wait_returns [OF demo_family_ok(1,2) [OF S(1)]] by blast
    then show False
      by cases (use st child two(1) demo_family_ok(7) [OF S(1)] in auto)
  qed
  moreover have "state (tsk ?r 2) = TASK_RUNNABLE" by (simp add: demo_family_ok(5) [OF S(2)])
  then have "sys_wait IPC_ANY_SENDER ?r \<noteq> None" unfolding wait_returns [OF demo_family_ok(1,2) [OF S(2)]] using two by blast
  ultimately show ?thesis ..
qed

theorem wait_reaps_witness: "\<exists>s'. sys_wait 2 (demo_family TASK_DEAD) = Some (Returns 2, s') \<and> task_free_list s' = Some 2"
proof -
  let ?s = "demo_family TASK_DEAD"
  have S: "TASK_DEAD \<notin> {TASK_UNUSED, TASK_RUNNING}" by simp
  note D = demo_family_ok [OF S]
  have two: "2 < MAX_TASKS" by (simp add: MAX_TASKS_def)
  have child: "child_of 2 1 ?s 2" by (simp add: child_of_def D(4,5) del: One_nat_def) (simp add: empty_slot_def)
  have dead: "state (tsk ?s 2) = TASK_DEAD" by (simp add: D(5))
  obtain t s' where t: "t \<le> 2" "child_of 2 1 ?s t" "state (tsk ?s t) = TASK_DEAD" "sys_wait 2 ?s = Some (Returns (of_nat t), s')" "task_free_list s' = Some t"
    using wait_reaps [OF D(1,3,2) two child dead] by (elim exE conjE)
  have "t = 2"
  proof (rule ccontr)
    assume "t \<noteq> 2"
    then have "t = 0 \<or> t = 1" using t(1) by auto
    then show False using t(3) D(4) D(6) [of 0] by (auto simp: MAX_TASKS_def)
  qed
  then show ?thesis using t(4,5) by simp
qed

text \<open>Task 1 exits while its parent, task 2, waits for it.\<close>

definition demo_wait :: kernel_state where
  "demo_wait = upd_task 1 (\<lambda>x. x\<lparr>parent_id := 2\<rparr>)
     (upd_task 2 (\<lambda>x. x\<lparr>state := TASK_BLOCKED, block_reason := BLOCK_ON_WAIT, ipc_peer := IPC_ANY_SENDER\<rparr>) demo_tasks)"

lemma demo_wait_ok:
  "tasks_ok {} demo_wait" "current_task demo_wait = Some 1" "waits_for 1 demo_wait 2" "idle_task demo_wait = None"
proof -
  have m: "1 < MAX_TASKS" "2 < MAX_TASKS" by (simp_all add: MAX_TASKS_def)
  have at: "tsk demo_wait 1 = (empty_slot 1 None)\<lparr>state := TASK_RUNNING, parent_id := 2\<rparr>"
    "tsk demo_wait 2 = (empty_slot 2 None)\<lparr>state := TASK_BLOCKED, block_reason := BLOCK_ON_WAIT, ipc_peer := IPC_ANY_SENDER\<rparr>"
    using m demo_tasks_fields(1) demo_tasks_at [of 1] demo_tasks_at [of 2] by (simp_all add: demo_wait_def upd_task_at)
  show "waits_for 1 demo_wait 2" by (simp add: waits_for_def at del: One_nat_def) (simp add: empty_slot_def)
  show "current_task demo_wait = Some 1" "idle_task demo_wait = None" by (simp_all add: demo_wait_def upd_task_def demo_tasks_fields)
  have one: "tasks_ok {} (upd_task 2 (\<lambda>x. x\<lparr>state := TASK_BLOCKED, block_reason := BLOCK_ON_WAIT, ipc_peer := IPC_ANY_SENDER\<rparr>) demo_tasks)" (is "tasks_ok {} ?a")
    by (rule tasks_ok_change [OF demo_tasks_ok m(2)]) (simp_all add: link_safe_def demo_tasks_fields demo_tasks_at m empty_slot_def)
  obtain xs where xs: "table_inv {} xs ?a" using one by (auto simp: tasks_ok_def)
  have a1: "tsk ?a 1 = (empty_slot 1 None)\<lparr>state := TASK_RUNNING\<rparr>" "current_task ?a = Some 1" "idle_task ?a = None"
    using m demo_tasks_fields demo_tasks_at [of 1] by (simp_all add: upd_task_at del: One_nat_def)
  have "table_inv {} xs demo_wait"
    unfolding demo_wait_def by (rule table_inv_upd [OF xs]) (use m a1 table_invD(8) [OF xs m(1)] in \<open>auto simp: link_safe_def simp del: One_nat_def\<close>)
  moreover have "run_inv demo_wait"
    unfolding demo_wait_def by (rule run_inv_upd [OF tasks_okD(3) [OF one]]) (use m a1 demo_tasks_fields(1) in \<open>auto simp del: One_nat_def\<close>)
  ultimately show "tasks_ok {} demo_wait" using tasks_okD(4) [OF one] by (auto simp: tasks_ok_def demo_wait_def)
qed

theorem exit_notifies_witness:
  "\<exists>s'. sys_exit 7 demo_wait = Some (Exits, s') \<and> state (tsk s' 1) = TASK_DEAD \<and> exit_code (tsk s' 1) = 7 \<and> state (tsk s' 2) = TASK_RUNNABLE"
proof -
  have "2 < MAX_TASKS" by (simp add: MAX_TASKS_def)
  then show ?thesis using exit_notifies [OF demo_wait_ok(1,2), of 7] demo_wait_ok(3) by (elim exE conjE) (intro exI conjI, assumption, simp_all)
qed

theorem exit_hands_over_witness:
  "\<exists>s1 s2. sys_exit 7 demo_tasks = Some (Exits, s1) \<and> exit_loop s1 = Some s2 \<and> current_task s2 \<noteq> Some 1"
proof -
  have "2 < MAX_TASKS" by (simp add: MAX_TASKS_def)
  obtain s1 where s1: "sys_exit 7 demo_tasks = Some (Exits, s1)" "\<And>p. p < MAX_TASKS \<Longrightarrow> p \<noteq> 1 \<Longrightarrow>
      tsk s1 p = (if waits_for 1 demo_tasks p then (tsk demo_tasks p)\<lparr>state := TASK_RUNNABLE, block_reason := BLOCK_NONE\<rparr> else tsk demo_tasks p)"
    by (rule exit_run [OF demo_tasks_ok demo_tasks_fields(3), of 7]) blast
  have "state (tsk s1 2) = TASK_RUNNABLE" using s1(2) [of 2] \<open>2 < MAX_TASKS\<close> by (simp add: demo_tasks_at)
  then show ?thesis
    using exit_hands_over [OF demo_tasks_ok demo_tasks_fields(3), of 7] s1(1) \<open>2 < MAX_TASKS\<close> by (auto split: if_splits)
qed

end
