(* ===== verification/UserMem.thy ===== *)
theory UserMem
  imports CopyOk Uaccess
begin

text \<open>User memory as the processor shows it to ring-3 code (\<open>user_byte\<close>): the frames that back it, and how a write through
the direct map changes it.\<close>

section \<open>User memory\<close>

text \<open>The byte a ring-3 program reads, and may write, at a user address.\<close>

definition user_byte :: "u64 \<Rightarrow> 'a frame_state_scheme \<Rightarrow> u64 \<Rightarrow> u8 option" where
  "user_byte root s va = (if unat va < 2 ^ 47 then map_option (mem s) (mmu_access True True (mem s) root va) else None)"

definition data_frame :: "u64 \<Rightarrow> u64 set \<Rightarrow> 'a frame_state_scheme \<Rightarrow> nat \<Rightarrow> bool" where
  "data_frame root X s q \<longleftrightarrow> q < length (pages s) \<and> q \<notin> free_frames s \<and> page2pa q \<notin> tables user_half (mem s) root \<and>
     (\<forall>x \<in> X. \<not> in_page (page2pa q) x)"

definition maps_ok :: "u64 \<Rightarrow> u64 set \<Rightarrow> 'a frame_state_scheme \<Rightarrow> bool" where
  "maps_ok root X s \<longleftrightarrow>
     (\<forall>va. owned user_half va \<longrightarrow> present (pte_of (mem s) root va) \<longrightarrow> grants True True (pte_of (mem s) root va) \<and>
        (\<exists>q. data_frame root X s q \<and> pte_get_addr (pte_of (mem s) root va) = page2pa q)) \<and>
     (\<forall>va va'. owned user_half va \<longrightarrow> owned user_half va' \<longrightarrow> present (pte_of (mem s) root va) \<longrightarrow> present (pte_of (mem s) root va') \<longrightarrow>
        pte_get_addr (pte_of (mem s) root va) = pte_get_addr (pte_of (mem s) root va') \<longrightarrow> vpn va = vpn va')"

lemma maps_okD:
  assumes "maps_ok root X s" "owned user_half va" "present (pte_of (mem s) root va)"
  shows "grants True True (pte_of (mem s) root va)" "\<exists>q. data_frame root X s q \<and> pte_get_addr (pte_of (mem s) root va) = page2pa q"
    "\<And>va'. owned user_half va' \<Longrightarrow> present (pte_of (mem s) root va') \<Longrightarrow>
       pte_get_addr (pte_of (mem s) root va) = pte_get_addr (pte_of (mem s) root va') \<Longrightarrow> vpn va = vpn va'"
  using assms unfolding maps_ok_def by blast+

lemma user_byte_pte:
  assumes "space_ok user_half root s" "unat va < 2 ^ 47"
  shows "user_byte root s va = (let e = pte_of (mem s) root va in
    if grants True True e then Some (mem s (pte_get_addr e + take_bit 12 va)) else None)"
  using assms mmu_access_pte_of [OF assms(1) page_of_low [OF assms(2)]] by (simp add: user_byte_def Let_def)

lemma user_byte_high: "\<not> unat va < 2 ^ 47 \<Longrightarrow> user_byte root s va = None"
  by (simp add: user_byte_def)

lemma data_step:
  assumes ok: "space_ok user_half root s" and F: "mem_frame (tables user_half (mem s) root) s s'"
    and T: "tables user_half (mem s') root \<subseteq> tables user_half (mem s) root \<union> page2pa ` (free_frames s - free_frames s')"
    and q: "data_frame root X s q"
  shows "data_frame root X s' q" "\<And>i. i < 4096 \<Longrightarrow> mem s' (page2pa q + of_nat i) = mem s (page2pa q + of_nat i)"
proof -
  have Q: "q < length (pages s)" "q \<notin> free_frames s" "page2pa q \<notin> tables user_half (mem s) root" using q by (simp_all add: data_frame_def)
  show "\<And>i. i < 4096 \<Longrightarrow> mem s' (page2pa q + of_nat i) = mem s (page2pa q + of_nat i)" by (rule frame_kept [OF ok F Q])
  note D = space_okD [OF ok]
  have b: "length (pages s) \<le> 2 ^ 40" using D(1) by (simp add: frames_inv_def)
  have "page2pa f \<noteq> page2pa q" if "f \<in> free_frames s" for f
    using page2pa_inj [OF D(4) [OF that], of q] Q b that by auto
  then have "page2pa q \<notin> page2pa ` (free_frames s - free_frames s')" by (metis DiffD1 imageE)
  moreover have "free_frames s' \<subseteq> free_frames s" "length (pages s') = length (pages s)"
    using F mem_frame_same(6) [OF F] by (simp_all add: mem_frame_def)
  ultimately show "data_frame root X s' q" using q T unfolding data_frame_def by auto
qed

lemma take_bit_12: "take_bit 12 (va :: u64) = of_nat (unat va mod 4096)"
proof -
  have "unat (take_bit 12 va) = unat va mod 4096" by (simp add: take_bit_eq_mod unat_mod)
  then have "of_nat (unat (take_bit 12 va)) = (of_nat (unat va mod 4096) :: u64)" by (simp only:)
  then show ?thesis by simp
qed

lemma user_byte_kept:
  assumes ok: "space_ok user_half root s" "space_ok user_half root s'" and m: "maps_ok root X s" and va: "unat va < 2 ^ 47"
    and e: "pte_of (mem s') root va = pte_of (mem s) root va"
    and keep: "\<And>q i. data_frame root X s q \<Longrightarrow> pte_get_addr (pte_of (mem s) root va) = page2pa q \<Longrightarrow> i < 4096 \<Longrightarrow>
      mem s' (page2pa q + of_nat i) = mem s (page2pa q + of_nat i)"
  shows "user_byte root s' va = user_byte root s va"
proof (cases "present (pte_of (mem s) root va)")
  case True
  obtain q where q: "data_frame root X s q" "pte_get_addr (pte_of (mem s) root va) = page2pa q"
    using maps_okD(2) [OF m page_of_low(1) [OF va] True] by blast
  then show ?thesis
    using keep [OF q, of "unat va mod 4096"] by (simp add: user_byte_pte [OF ok(1) va] user_byte_pte [OF ok(2) va] e Let_def take_bit_12)
next
  case False
  then show ?thesis by (simp add: user_byte_pte [OF ok(1) va] user_byte_pte [OF ok(2) va] e Let_def grants_def)
qed

lemma maps_same:
  assumes M: "maps_ok root X s" and e: "\<And>w. owned user_half w \<Longrightarrow> pte_of (mem s') root w = pte_of (mem s) root w"
    and D: "\<And>q. data_frame root X s q \<Longrightarrow> data_frame root X s' q"
  shows "maps_ok root X s'"
  unfolding maps_ok_def
proof (intro conjI allI impI)
  fix w assume w: "owned user_half w" "present (pte_of (mem s') root w)"
  note E = e [OF w(1)]
  show "grants True True (pte_of (mem s') root w)" using maps_okD [OF M w(1)] w(2) E by simp
  show "\<exists>q. data_frame root X s' q \<and> pte_get_addr (pte_of (mem s') root w) = page2pa q"
    using maps_okD(2) [OF M w(1)] w(2) D E by auto
  fix w' assume "owned user_half w'" "present (pte_of (mem s') root w')"
    "pte_get_addr (pte_of (mem s') root w) = pte_get_addr (pte_of (mem s') root w')"
  then show "vpn w = vpn w'" using maps_okD(3) [OF M w(1), of w'] w(2) E e [of w'] by simp
qed

definition only_at :: "u64 \<Rightarrow> u64 \<Rightarrow> 'a frame_state_scheme \<Rightarrow> nat \<Rightarrow> bool" where
  "only_at root va s q \<longleftrightarrow> (\<forall>w. owned user_half w \<longrightarrow> present (pte_of (mem s) root w) \<longrightarrow>
     pte_get_addr (pte_of (mem s) root w) = page2pa q \<longrightarrow> vpn w = vpn va)"

lemma vpn_low:
  assumes "unat v < 2 ^ 47" "unat w < 2 ^ 47"
  shows "vpn v = vpn w \<longleftrightarrow> unat v div 4096 = unat w div 4096"
proof -
  have "unat (vpn x) = unat x div 4096" if "unat x < 2 ^ 47" for x
  proof -
    have "unat (vpn x) = unat x div 4096 mod 2 ^ 36"
      by (simp add: vpn_def take_bit_eq_mod drop_bit_eq_div unat_mod unat_div)
    then show ?thesis using that by simp
  qed
  then show ?thesis using assms by (metis word_unat_eq_iff)
qed

lemma page_bounds:
  assumes v: "page_aligned v" "unat v < 2 ^ 47"
  shows "unat (v + 4096) = unat v + 4096" "unat w < 2 ^ 47 \<Longrightarrow> vpn w = vpn v \<Longrightarrow> unat w = unat v + unat w mod 4096"
proof -
  show "unat (v + 4096) = unat v + 4096" using v(2) by (subst unat_add_lem [THEN iffD1]) auto
  obtain k where k: "unat v = 4096 * k" using v(1) by (rule page_alignedE)
  show "unat w = unat v + unat w mod 4096" if "unat w < 2 ^ 47" "vpn w = vpn v"
    using vpn_low [OF that(1) v(2)] that(2) k div_mult_mod_eq [of "unat w" 4096] by simp
qed

lemma mem_frame_console: "mem_frame T s s' \<Longrightarrow> console_ok s' = console_ok s"
  unfolding mem_frame_def by (auto simp: console_ok_def uart_live_def)

lemma write_mem_frame:
  assumes "\<forall>x. \<not> in_page t x \<longrightarrow> m x = mem s x"
  shows "mem_frame {t} s (s\<lparr>mem := m\<rparr>)"
  unfolding mem_frame_def
proof (intro conjI allI impI)
  show "\<exists>m' ps h. s\<lparr>mem := m\<rparr> = s\<lparr>mem := m', pages := ps, page_free_list := h\<rparr>"
    by (intro exI [of _ m] exI [of _ "pages s"] exI [of _ "page_free_list s"]) simp
qed (use assms in auto)

lemma data_write:
  assumes ok: "space_ok user_half root s" and q: "data_frame root X s q"
    and m: "\<forall>x. \<not> in_page (page2pa q) x \<longrightarrow> m x = mem s x" and s': "s' = s\<lparr>mem := m\<rparr>"
  shows "space_ok user_half root s'" "mem_frame {page2pa q} s s'"
    "\<And>w. owned user_half w \<Longrightarrow> pte_of (mem s') root w = pte_of (mem s) root w"
    "tables user_half (mem s') root = tables user_half (mem s) root" "data_frame root Y s' = data_frame root Y s"
    "\<And>p. path_ok user_half p \<Longrightarrow> tbl (mem s') root p = tbl (mem s) root p"
proof -
  note D = space_okD [OF ok]
  have Q: "q < length (pages s)" "page2pa q \<notin> tables user_half (mem s) root" using q by (simp_all add: data_frame_def)
  have al: "page_aligned (page2pa q)" using Q(1) D(1) by (intro page_aligned_page2pa) (simp add: frames_inv_def)
  have root: "page_aligned root" using tree_okD(1) [OF D(2)] .
  show F: "mem_frame {page2pa q} s s'" unfolding s' by (rule write_mem_frame [OF m])
  have inv': "frames_inv s'" using D(1) by (simp add: s')
  have disj: "{page2pa q} \<inter> tables user_half (mem s) root = {}" using Q(2) by simp
  have "agree_on (tables user_half (mem s) root) (mem s) (mem s')"
    using D(3,4) page_aligned_page2pa tables_aligned [OF root] al by (intro mem_frame_agree [OF F disj]) auto
  then show "tbl (mem s') root p = tbl (mem s) root p" if "path_ok user_half p" for p using agree_tbl root that by blast
  show S: "space_ok user_half root s'" "\<And>w. owned user_half w \<Longrightarrow> pte_of (mem s') root w = pte_of (mem s) root w"
    "tables user_half (mem s') root = tables user_half (mem s) root"
    using space_frame [OF ok F disj _ inv'] al by blast+
  show "data_frame root Y s' = data_frame root Y s" by (simp add: data_frame_def fun_eq_iff S(3)) (simp add: s')
qed

lemma frame_write:
  assumes ok: "space_ok user_half root s" and M: "maps_ok root X s" and q: "data_frame root X s q" "only_at root va s q"
    and m: "\<forall>x. \<not> in_page (page2pa q) x \<longrightarrow> m x = mem s x" and s': "s' = s\<lparr>mem := m\<rparr>"
  shows "space_ok user_half root s'" "maps_ok root X s'" "mem_frame {page2pa q} s s'"
    "\<And>w. owned user_half w \<Longrightarrow> pte_of (mem s') root w = pte_of (mem s) root w"
    "tables user_half (mem s') root = tables user_half (mem s) root"
    "present (pte_of (mem s) root va) \<Longrightarrow> pte_get_addr (pte_of (mem s) root va) = page2pa q \<Longrightarrow> user_byte root s' =
      (\<lambda>w. if unat w < 2 ^ 47 \<and> vpn w = vpn va then Some (m (page2pa q + of_nat (unat w mod 4096))) else user_byte root s w)"
proof -
  have Q: "q < length (pages s)" "q \<notin> free_frames s" "page2pa q \<notin> tables user_half (mem s) root" using q by (simp_all add: data_frame_def)
  have al: "page_aligned (page2pa q)" using Q(1) space_okD(1) [OF ok] by (intro page_aligned_page2pa) (simp add: frames_inv_def)
  note W = data_write [OF ok q(1) m s']
  show S: "space_ok user_half root s'" "\<And>w. owned user_half w \<Longrightarrow> pte_of (mem s') root w = pte_of (mem s) root w" by (rule W; assumption)+
  show "mem_frame {page2pa q} s s'" "tables user_half (mem s') root = tables user_half (mem s) root" by (rule W)+
  show "maps_ok root X s'" by (rule maps_same [OF M S(2)]) (simp_all add: W(5))
  assume there: "present (pte_of (mem s) root va)" "pte_get_addr (pte_of (mem s) root va) = page2pa q"
  show "user_byte root s' = (\<lambda>w. if unat w < 2 ^ 47 \<and> vpn w = vpn va then Some (m (page2pa q + of_nat (unat w mod 4096))) else user_byte root s w)"
  proof
    fix w
    consider "\<not> unat w < 2 ^ 47" | "unat w < 2 ^ 47" "vpn w = vpn va" | "unat w < 2 ^ 47" "vpn w \<noteq> vpn va" "\<not> present (pte_of (mem s) root w)"
      | "unat w < 2 ^ 47" "vpn w \<noteq> vpn va" "present (pte_of (mem s) root w)" by blast
    then show "user_byte root s' w = (if unat w < 2 ^ 47 \<and> vpn w = vpn va then Some (m (page2pa q + of_nat (unat w mod 4096))) else user_byte root s w)"
    proof cases
      case 1
      then show ?thesis by (simp add: user_byte_high)
    next
      case 2
      note own = page_of_low(1) [OF 2(1)]
      have e: "pte_of (mem s) root w = pte_of (mem s) root va" using 2(2) by (rule vpn_pte_of)
      have "grants True True (pte_of (mem s) root w)" using maps_okD(1) [OF M own] there(1) e by simp
      then show ?thesis using 2 there(2) e by (simp add: user_byte_pte [OF S(1) 2(1)] S(2) [OF own] take_bit_12) (simp add: s')
    next
      case 3
      then show ?thesis
        using S(2) [OF page_of_low(1) [OF 3(1)]] by (simp add: user_byte_pte [OF S(1) 3(1)] user_byte_pte [OF ok 3(1)] Let_def grants_def)
    next
      case 4
      note own = page_of_low(1) [OF 4(1)]
      have "mem s' (page2pa q' + of_nat i) = mem s (page2pa q' + of_nat i)"
        if q': "data_frame root X s q'" "pte_get_addr (pte_of (mem s) root w) = page2pa q'" "i < 4096" for q' i
      proof -
        have "page2pa q' \<noteq> page2pa q" using q(2) 4(2,3) own q'(2) unfolding only_at_def by metis
        moreover have "page_aligned (page2pa q')"
          using q'(1) space_okD(1) [OF ok] by (intro page_aligned_page2pa) (simp add: data_frame_def frames_inv_def)
        ultimately show ?thesis using m in_page_disjoint [OF _ al] in_page_nth [OF q'(3)] by (simp add: s')
      qed
      then have "user_byte root s' w = user_byte root s w" by (rule user_byte_kept [OF ok S(1) M 4(1) S(2) [OF own]])
      then show ?thesis using 4(2) by simp
    qed
  qed
qed

end
