(* ===== verification/Ipc.thy ===== *)
theory Ipc
  imports Process UserMem
begin

text \<open>System calls that read and write user buffers: the console write and the message transfer of \<open>sys_send\<close> to a task
that waits in \<open>sys_recv\<close>.\<close>

section \<open>Reading and writing user buffers\<close>

text \<open>The byte a ring-3 program reads at a user address.\<close>

definition user_read :: "u64 \<Rightarrow> 'a machine_scheme \<Rightarrow> u64 \<Rightarrow> u8 option" where
  "user_read root s va = map_option (mem s) (mmu_access True False (mem s) root va)"

definition loaded_root :: "'a machine_scheme \<Rightarrow> u64" where
  "loaded_root s = cr3 s AND 0x000FFFFFFFFFF000"

lemma bytes_okD:
  assumes "uva_bytes_ok root uva n w m" "i < unat n"
  shows "unat (uva + of_nat i) = unat uva + i" "unat (uva + of_nat i) < 2 ^ 47" "mmu_access True w m root (uva + of_nat i) \<noteq> None"
proof -
  have b: "unat uva + i < 2 ^ 47" and "mmu_access True w m root (uva + of_nat i) \<noteq> None"
    using assms by (auto simp: uva_bytes_ok_def)
  then show "mmu_access True w m root (uva + of_nat i) \<noteq> None" by blast
  show "unat (uva + of_nat i) = unat uva + i" using b by (subst unat_add_lem [THEN iffD1]) (auto simp: unat_of_nat)
  then show "unat (uva + of_nat i) < 2 ^ 47" using b by simp
qed

lemma kernel_access:
  assumes "space_ok user_half root s" "unat va < 2 ^ 47" "mmu_access True w (mem s) root va \<noteq> None"
  shows "mmu_access False w (mem s) root va = mmu_access True w (mem s) root va"
  using assms mmu_access_pte_of [OF assms(1) page_of_low [OF assms(2)]]
  by (auto simp: Let_def grants_def split: if_splits)

lemma read_user_spec:
  assumes ok: "space_ok user_half (loaded_root s) s"
  shows "(\<And>i. i < n \<Longrightarrow> unat (src + of_nat i) < 2 ^ 47 \<and> mmu_access True False (mem s) (loaded_root s) (src + of_nat i) \<noteq> None) \<Longrightarrow>
    \<exists>bs. read_user n src s = Some bs \<and> length bs = n \<and> (\<forall>i < n. user_read (loaded_root s) s (src + of_nat i) = Some (bs ! i))"
proof (induction n arbitrary: src)
  case 0
  then show ?case by simp
next
  case (Suc n)
  have a: "unat src < 2 ^ 47" "mmu_access True False (mem s) (loaded_root s) src \<noteq> None" using Suc.prems [of 0] by simp_all
  then obtain p where p: "mmu_access True False (mem s) (loaded_root s) src = Some p" by blast
  have "vread8 s src = Some (mem s p)"
    using a(1) kernel_access [OF ok a] p by (simp add: vread8_def vresolve_def loaded_root_def)
  moreover have "\<exists>bs. read_user n (src + 1) s = Some bs \<and> length bs = n \<and> (\<forall>i < n. user_read (loaded_root s) s (src + 1 + of_nat i) = Some (bs ! i))"
    using Suc.prems [of "Suc i" for i] by (intro Suc.IH) (simp add: add.assoc)
  then obtain bs where "read_user n (src + 1) s = Some bs" "length bs = n" "\<forall>i < n. user_read (loaded_root s) s (src + 1 + of_nat i) = Some (bs ! i)" by blast
  moreover have "user_read (loaded_root s) s (src + of_nat i) = Some ((mem s p # bs) ! i)" if "i < Suc n" for i
    using calculation(4) p that by (cases i) (simp_all add: user_read_def add.assoc)
  ultimately show ?case by simp
qed

lemma vwrite8_user:
  assumes ok: "space_ok user_half T s" "loaded_root s = T" and M: "maps_ok T X s" and dst: "unat dst < 2 ^ 47" "mmu_access True True (mem s) T dst \<noteq> None"
  obtains m where "vwrite8 dst b s = Some (s\<lparr>mem := m\<rparr>)" "space_ok user_half T (s\<lparr>mem := m\<rparr>)" "maps_ok T X (s\<lparr>mem := m\<rparr>)"
    "user_byte T (s\<lparr>mem := m\<rparr>) = (user_byte T s)(dst := Some b)"
    "\<And>w. unat w < 2 ^ 47 \<Longrightarrow> mmu_access True True m T w = mmu_access True True (mem s) T w"
proof -
  note own = page_of_low [OF dst(1)]
  let ?e = "pte_of (mem s) T dst"
  have g: "grants True True ?e" using dst(2) mmu_access_pte_of [OF ok(1) own, of True True] by (auto simp: Let_def split: if_splits)
  then have p: "present ?e" by (simp add: grants_def)
  obtain q where q: "data_frame T X s q" "pte_get_addr ?e = page2pa q" using maps_okD(2) [OF M own(1) p] by blast
  have only: "only_at T dst s q" unfolding only_at_def using maps_okD(3) [OF M own(1) p] q(2) by metis
  let ?pa = "page2pa q + of_nat (unat dst mod 4096)"
  define m where "m = (mem s)(?pa := b)"
  have "mmu_access False True (mem s) T dst = Some ?pa"
    using kernel_access [OF ok(1) dst] mmu_access_pte_of [OF ok(1) own, of True True] g q(2) by (simp add: Let_def take_bit_12)
  then have run: "vwrite8 dst b s = Some (s\<lparr>mem := m\<rparr>)"
    using dst(1) ok(2) by (simp add: vwrite8_def vresolve_def loaded_root_def m_def)
  have off: "\<forall>x. \<not> in_page (page2pa q) x \<longrightarrow> m x = mem s x" using in_page_nth [of "unat dst mod 4096" "page2pa q"] by (auto simp: m_def)
  note S = frame_write [OF ok(1) M q(1) only off refl]
  have "user_byte T (s\<lparr>mem := m\<rparr>) = (user_byte T s)(dst := Some b)"
    unfolding S(6) [OF p q(2)]
  proof
    fix w
    show "(if unat w < 2 ^ 47 \<and> vpn w = vpn dst then Some (m (page2pa q + of_nat (unat w mod 4096))) else user_byte T s w) =
      ((user_byte T s)(dst := Some b)) w"
    proof (cases "unat w < 2 ^ 47 \<and> vpn w = vpn dst")
      case True
      have e: "pte_of (mem s) T w = ?e" using True by (intro vpn_pte_of) simp
      have ub: "user_byte T s w = Some (mem s (page2pa q + of_nat (unat w mod 4096)))"
        using g q(2) True by (simp add: user_byte_pte [OF ok(1)] e Let_def take_bit_12)
      have "page2pa q + of_nat (unat w mod 4096) = ?pa \<longleftrightarrow> w = dst"
      proof
        assume "page2pa q + of_nat (unat w mod 4096) = ?pa"
        then have "unat (of_nat (unat w mod 4096) :: u64) = unat (of_nat (unat dst mod 4096) :: u64)" by simp
        then have "unat w mod 4096 = unat dst mod 4096" by (simp add: unat_of_nat)
        moreover have "unat w div 4096 = unat dst div 4096" using vpn_low [OF _ dst(1)] True by blast
        ultimately have "unat w = unat dst" by (metis div_mult_mod_eq)
        then show "w = dst" by (simp only: word_unat_eq_iff)
      qed simp
      then show ?thesis using True ub by (simp add: m_def)
    qed (use dst(1) in auto)
  qed
  moreover have "mmu_access True True m T w = mmu_access True True (mem s) T w" if "unat w < 2 ^ 47" for w
    using mmu_access_pte_of [OF S(1) page_of_low [OF that]] mmu_access_pte_of [OF ok(1) page_of_low [OF that]] S(4) [OF page_of_low(1) [OF that]] by simp
  ultimately show thesis using that [OF run S(1,2)] by blast
qed

lemma write_user_spec:
  "space_ok user_half T s \<Longrightarrow> loaded_root s = T \<Longrightarrow> maps_ok T X s \<Longrightarrow>
   (\<And>i. i < length bs \<Longrightarrow> unat (dst + of_nat i) = unat dst + i \<and> unat (dst + of_nat i) < 2 ^ 47 \<and> mmu_access True True (mem s) T (dst + of_nat i) \<noteq> None) \<Longrightarrow>
   \<exists>m. write_user dst bs s = Some (s\<lparr>mem := m\<rparr>) \<and> space_ok user_half T (s\<lparr>mem := m\<rparr>) \<and> maps_ok T X (s\<lparr>mem := m\<rparr>) \<and>
     user_byte T (s\<lparr>mem := m\<rparr>) = (\<lambda>w. if unat dst \<le> unat w \<and> unat w < unat dst + length bs then Some (bs ! (unat w - unat dst)) else user_byte T s w)"
proof (induction bs arbitrary: dst s)
  case Nil
  then show ?case by (intro exI [of _ "mem s"]) (auto simp: fun_eq_iff)
next
  case (Cons b bs)
  have d: "unat dst < 2 ^ 47" "mmu_access True True (mem s) T dst \<noteq> None" using Cons.prems(4) [of 0] by simp_all
  obtain m where m: "vwrite8 dst b s = Some (s\<lparr>mem := m\<rparr>)" "space_ok user_half T (s\<lparr>mem := m\<rparr>)" "maps_ok T X (s\<lparr>mem := m\<rparr>)"
    "user_byte T (s\<lparr>mem := m\<rparr>) = (user_byte T s)(dst := Some b)"
    "\<And>w. unat w < 2 ^ 47 \<Longrightarrow> mmu_access True True m T w = mmu_access True True (mem s) T w"
    by (rule vwrite8_user [OF Cons.prems(1-3) d, of b]) blast
  have root: "loaded_root (s\<lparr>mem := m\<rparr>) = T" using Cons.prems(2) by (simp add: loaded_root_def)
  have d1: "unat (dst + 1) = unat dst + 1" using d(1) by (subst unat_add_lem [THEN iffD1]) auto
  have nx: "unat (dst + 1 + of_nat i) = unat (dst + 1) + i \<and> unat (dst + 1 + of_nat i) < 2 ^ 47 \<and>
      mmu_access True True (mem (s\<lparr>mem := m\<rparr>)) T (dst + 1 + of_nat i) \<noteq> None" if "i < length bs" for i
    using Cons.prems(4) [of "Suc i"] that m(5) [of "dst + 1 + of_nat i"] by (simp add: add.assoc d1)
  obtain m2 where m2: "write_user (dst + 1) bs (s\<lparr>mem := m\<rparr>) = Some (s\<lparr>mem := m2\<rparr>)" "space_ok user_half T (s\<lparr>mem := m2\<rparr>)" "maps_ok T X (s\<lparr>mem := m2\<rparr>)"
    "user_byte T (s\<lparr>mem := m2\<rparr>) = (\<lambda>w. if unat (dst + 1) \<le> unat w \<and> unat w < unat (dst + 1) + length bs
       then Some (bs ! (unat w - unat (dst + 1))) else user_byte T (s\<lparr>mem := m\<rparr>) w)"
    using Cons.IH [OF m(2) root m(3) nx] by auto
  have "user_byte T (s\<lparr>mem := m2\<rparr>) w = (if unat dst \<le> unat w \<and> unat w < unat dst + length (b # bs) then Some ((b # bs) ! (unat w - unat dst)) else user_byte T s w)" for w
  proof (cases "w = dst")
    case True
    then show ?thesis by (simp add: m2(4) m(4) d1)
  next
    case False
    then have "unat w \<noteq> unat dst" by (simp only: word_unat_eq_iff not_False_eq_True)
    then show ?thesis using False by (auto simp: m2(4) m(4) d1 nth_Cons' not_le)
  qed
  then show ?case using m(1) m2(1-3) by (intro exI [of _ m2]) (simp add: fun_eq_iff)
qed

section \<open>Sending to a waiting task\<close>

lemma lock_cong:
  assumes L: "task_table_lock_acquire s = Some (f, s1)"
  shows "mem s1 = mem s" "phys_to_virt s1 = phys_to_virt s" "virt_to_phys s1 = virt_to_phys s" "cr3 s1 = cr3 s" "loaded_root s1 = loaded_root s"
    "space_ok I r s1 = space_ok I r s" "maps_ok r X s1 = maps_ok r X s" "task_table s1 = task_table s" "user_read r s1 = user_read r s"
    "user_byte r s1 = user_byte r s"
proof -
  have s1: "s1 = s\<lparr>rflags := rflags s AND NOT IF_FLAG, locks := (locks s)(task_table_lock := 1)\<rparr>"
    using L by (cases "locks s task_table_lock = 0") (auto simp: task_table_lock_acquire_def)
  show "mem s1 = mem s" "phys_to_virt s1 = phys_to_virt s" "virt_to_phys s1 = virt_to_phys s" "cr3 s1 = cr3 s" "loaded_root s1 = loaded_root s"
    "task_table s1 = task_table s" "user_read r s1 = user_read r s" "user_byte r s1 = user_byte r s"
    by (simp_all add: s1 phys_to_virt_def virt_to_phys_def loaded_root_def fun_eq_iff user_read_def user_byte_def)
  have "frames_inv s1 = frames_inv s" by (simp add: s1 frames_inv_def free_frames_def)
  then show "space_ok I r s1 = space_ok I r s" "maps_ok r X s1 = maps_ok r X s"
    by (simp_all add: space_ok_def maps_ok_def data_frame_def s1 free_frames_def)
qed

lemma switch_cong:
  "mem (vmm_switch_address_space p s) = mem s" "space_ok I r (vmm_switch_address_space p s) = space_ok I r s"
  "maps_ok r X (vmm_switch_address_space p s) = maps_ok r X s" "user_byte r (vmm_switch_address_space p s) = user_byte r s"
  "task_table (vmm_switch_address_space p s) = task_table s"
  "loaded_root (vmm_switch_address_space p s) = virt_to_phys s p AND 0x000FFFFFFFFFF000"
  by (simp_all add: vmm_switch_address_space_def Let_def space_ok_def maps_ok_def data_frame_def frames_inv_def free_frames_def
      user_byte_def fun_eq_iff loaded_root_def)

lemma find_by_id:
  assumes ok: "tasks_ok {} s" and t: "t < MAX_TASKS" "state (tsk s t) \<noteq> TASK_UNUSED"
  shows "task_find_by_id (of_nat t) s = Some (Some t, s)"
proof -
  let ?P = "\<lambda>i. state (tsk s i) \<noteq> TASK_UNUSED \<and> task_id (tsk s i) = of_nat t"
  have one: "i = t" if "i < MAX_TASKS" "?P i" for i
  proof -
    have "unat (of_nat i :: u64) = unat (of_nat t :: u64)" using that tasks_okD(6) [OF ok that(1)] by simp
    then show ?thesis using that(1) t(1) by (simp add: unat_of_nat MAX_TASKS_def)
  qed
  have "find ?P [0..<MAX_TASKS] \<noteq> None" using t tasks_okD(6) [OF ok t(1)] by (auto simp: find_upt)
  then obtain i where i: "find ?P [0..<MAX_TASKS] = Some i" by blast
  then have "i < MAX_TASKS" "?P i" by (auto simp: find_Some_iff)
  then have "i = t" by (rule one)
  then show ?thesis using find_by_id_spec [OF tasks_okD(2) [OF ok]] i by simp
qed

text \<open>The branch of \<open>sys_send\<close> for a waiting receiver: the bytes go from the sender's space to the receiver's.\<close>

lemma send_now_run:
  assumes L: "task_table_lock_acquire s = Some (f, s1)" and tt: "t < length (task_table s)"
    and S: "loaded_root s = Q" "space_ok user_half Q s" and T: "pml4 (tsk s t) = Some (phys_to_virt s T)" "T AND 0x000FFFFFFFFFF000 = T" "space_ok user_half T s" "maps_ok T {} s"
    and len: "len = (if n < ipc_len (tsk s t) then n else ipc_len (tsk s t))" and dst: "dst = ipc_buf (tsk s t)"
    and ok: "uva_bytes_ok Q buf len False (mem s)" "uva_bytes_ok T dst len True (mem s)"
  obtains m s' where "send_now t buf n f s1 = Some (Returns len, s')" "mem s' = m" "loaded_root s' = Q"
    "tsk s' t = (tsk s t)\<lparr>state := TASK_RUNNABLE, block_reason := BLOCK_NONE\<rparr>" "\<And>i. i \<noteq> t \<Longrightarrow> tsk s' i = tsk s i"
    "\<And>i. i < unat len \<Longrightarrow> user_byte T s' (dst + of_nat i) = user_read Q s (buf + of_nat i)"
    "\<And>w. \<not> (unat dst \<le> unat w \<and> unat w < unat dst + unat len) \<Longrightarrow> user_byte T s' w = user_byte T s w"
proof -
  note C = lock_cong [OF L]
  have t1: "tsk s1 i = tsk s i" for i by (simp add: C(8))
  have chk: "uva_check_task t dst len True s1 = Some (True, s1)"
    using check_range_spec [of T s1 dst len True] T(1,3) ok(2) by (simp add: uva_check_task_def t1 C(1,2,6))
  obtain bs where bs: "read_user (unat len) buf s1 = Some bs" "length bs = unat len" "\<forall>i < unat len. user_read Q s (buf + of_nat i) = Some (bs ! i)"
    using read_user_spec [of s1 "unat len" buf] S bytes_okD(2,3) [OF ok(1)] by (auto simp: C)
  define s2 where "s2 = vmm_switch_address_space (phys_to_virt s T) s1"
  have s2: "s2 = s1\<lparr>cr3 := T, tlb_log := tlb_log s1 @ [Cr3_load T]\<rparr>"
    using C(3) by (simp add: s2_def vmm_switch_address_space_def Let_def)
  note C2 = switch_cong [where p = "phys_to_virt s T" and s = s1, folded s2_def]
  have two: "space_ok user_half T s2" "loaded_root s2 = T" "maps_ok T {} s2" "mem s2 = mem s" "user_byte T s2 = user_byte T s"
    using T(2-4) by (simp_all add: C C2)
  have acc: "unat (dst + of_nat i) = unat dst + i \<and> unat (dst + of_nat i) < 2 ^ 47 \<and> mmu_access True True (mem s2) T (dst + of_nat i) \<noteq> None"
    if "i < length bs" for i using bytes_okD [OF ok(2)] that bs(2) two(4) by simp
  obtain m where m: "write_user dst bs s2 = Some (s2\<lparr>mem := m\<rparr>)"
    "user_byte T (s2\<lparr>mem := m\<rparr>) = (\<lambda>w. if unat dst \<le> unat w \<and> unat w < unat dst + length bs then Some (bs ! (unat w - unat dst)) else user_byte T s2 w)"
    using write_user_spec [OF two(1-3) acc] by blast
  define s3 where "s3 = vmm_switch_address_space (get_current_pml4 s1) (s2\<lparr>mem := m\<rparr>)"
  define s' where "s' = task_table_lock_release f (task_wake t s3)"
  have cl: "(if n < ipc_len (tsk s1 t) then n else ipc_len (tsk s1 t)) = len" by (simp only: len t1)
  have d1: "ipc_buf (tsk s t) = dst" and d2: "ipc_buf (tsk s2 t) = dst" using C2(5) by (simp_all add: dst t1)
  have run: "send_now t buf n f s1 = Some (Returns len, s')"
    unfolding send_now_def Let_def cl
    using chk bs(1) T(1) m(1) d1 d2 by (simp add: t1 s2_def [symmetric] s3_def [symmetric] s'_def [symmetric])
  have s3: "mem s3 = m" "task_table s3 = task_table s" "cr3 s3 = Q"
    using S(1) C(4,5) by (simp_all add: s3_def vmm_switch_address_space_def Let_def s2 C(8) get_current_pml4_def)
      (simp add: virt_to_phys_def phys_to_virt_def loaded_root_def)
  have "Q AND 0x000FFFFFFFFFF000 = Q" using S(1) by (auto simp: loaded_root_def and.assoc)
  then have s': "mem s' = m" "loaded_root s' = Q" "task_table s' = task_table (task_wake t s3)"
    using s3(1,3) by (simp_all add: s'_def loaded_root_def task_table_lock_release_def task_wake_def upd_task_def)
  have ub: "user_byte T s' = user_byte T (s2\<lparr>mem := m\<rparr>)" by (rule ext) (simp add: user_byte_def s'(1))
  show thesis
  proof (rule that [OF run s'(1,2)])
    show "tsk s' t = (tsk s t)\<lparr>state := TASK_RUNNABLE, block_reason := BLOCK_NONE\<rparr>" "\<And>i. i \<noteq> t \<Longrightarrow> tsk s' i = tsk s i"
      using tt s3(2) by (simp_all add: s'(3) task_wake_def upd_task_def)
    show "user_byte T s' (dst + of_nat i) = user_read Q s (buf + of_nat i)" if "i < unat len" for i
      using bs(2,3) bytes_okD(1) [OF ok(2) that] that by (simp add: ub m(2))
    show "user_byte T s' w = user_byte T s w" if "\<not> (unat dst \<le> unat w \<and> unat w < unat dst + unat len)" for w
      using that bs(2) two(5) by (auto simp: ub m(2))
  qed
qed

text \<open>Claim C6. A message to a task that waits in \<open>sys_recv\<close> for this sender or for anyone is delivered at once:
  \<open>sys_send\<close> returns the smaller of the two lengths (at most 256), the receiver's buffer then holds exactly the sender's
  bytes, no other byte of the receiver's user memory changes, the receiver is runnable, no other task changes, and the
  sender's address space is loaded again. The receiver's \<open>ipc_len\<close> stays what it asked for, not what it got.\<close>

theorem send_delivers:
  assumes "tasks_ok {} s" "current_task s = Some c" "t < MAX_TASKS" "can_receive c s t"
    "pml4 (tsk s c) = Some (phys_to_virt s Q)" "loaded_root s = Q" "space_ok user_half Q s"
    "pml4 (tsk s t) = Some (phys_to_virt s T)" "T AND 0x000FFFFFFFFFF000 = T" "space_ok user_half T s" "maps_ok T {} s"
    "uva_bytes_ok Q buf (min n 256) False (mem s)"
    "uva_bytes_ok T (ipc_buf (tsk s t)) (min (min n 256) (ipc_len (tsk s t))) True (mem s)"
  shows "let len = min (min n 256) (ipc_len (tsk s t)); dst = ipc_buf (tsk s t) in
    \<exists>s'. sys_send (of_nat t) buf n s = Some (Returns len, s') \<and> tasks_ok {} s' \<and> loaded_root s' = Q \<and>
      tsk s' t = (tsk s t)\<lparr>state := TASK_RUNNABLE, block_reason := BLOCK_NONE\<rparr> \<and> (\<forall>i. i \<noteq> t \<longrightarrow> tsk s' i = tsk s i) \<and>
      (\<forall>i < unat len. user_byte T s' (dst + of_nat i) = user_read Q s (buf + of_nat i)) \<and>
      (\<forall>w. \<not> (unat dst \<le> unat w \<and> unat w < unat dst + unat len) \<longrightarrow> user_byte T s' w = user_byte T s w)"
proof -
  let ?n = "min n 256"
  define len dst where "len = min ?n (ipc_len (tsk s t))" and "dst = ipc_buf (tsk s t)"
  have n: "(if n > 256 then 256 else n) = ?n" by (auto simp: min_def)
  have len: "len = (if ?n < ipc_len (tsk s t) then ?n else ipc_len (tsk s t))" by (auto simp: len_def min_def)
  note lk = tasks_okD(2) [OF assms(1)]
  obtain f s1 where L: "task_table_lock_acquire s = Some (f, s1)" using lk by (auto simp: task_table_lock_acquire_def)
  have tt: "t < length (task_table s)" using assms(3) tasks_okD(1) [OF assms(1)] by simp
  have sub: "uva_bytes_ok Q buf len False (mem s)"
    using assms(12) unfolding uva_bytes_ok_def len_def by (auto simp: min_def word_le_nat_alt split: if_splits)
  obtain m s' where run: "send_now t buf ?n f s1 = Some (Returns len, s')" and
    s': "loaded_root s' = Q" "tsk s' t = (tsk s t)\<lparr>state := TASK_RUNNABLE, block_reason := BLOCK_NONE\<rparr>" "\<And>i. i \<noteq> t \<Longrightarrow> tsk s' i = tsk s i"
    "\<And>i. i < unat len \<Longrightarrow> user_byte T s' (dst + of_nat i) = user_read Q s (buf + of_nat i)"
    "\<And>w. \<not> (unat dst \<le> unat w \<and> unat w < unat dst + unat len) \<Longrightarrow> user_byte T s' w = user_byte T s w"
    by (rule send_now_run [OF L tt assms(6,7,8-11) len dst_def sub assms(13) [folded len_def dst_def]]) blast
  have used: "state (tsk s t) = TASK_BLOCKED" using assms(4) by (simp add: can_receive_def)
  have find: "task_find_by_id (of_nat t) s = Some (Some t, s)"
    using find_by_id [OF assms(1,3)] used by simp
  have chk: "uva_check_task c buf ?n False s = Some (True, s)"
    using check_range_spec [OF assms(7), of buf ?n False] assms(5,12) by (simp add: uva_check_task_def)
  have "can_receive c s1 t" using assms(4) by (simp add: can_receive_def lock_cong(8) [OF L])
  then have send: "sys_send (of_nat t) buf n s = Some (Returns len, s')"
    using assms(2) chk find L run by (simp add: sys_send_def n Let_def)
  show ?thesis
    unfolding Let_def len_def [symmetric] dst_def [symmetric]
    using send sys_send_ok [OF assms(1) send] s' by blast
qed

text \<open>Two tasks in one address space, with one user page in frame 6: task 1 runs, task 2 waits in \<open>sys_recv\<close>.\<close>

definition demo_ipc :: kernel_state where
  "demo_ipc = upd_task 2 (\<lambda>x. x\<lparr>pml4 := Some 0xFFFF800000000000, state := TASK_BLOCKED, block_reason := BLOCK_ON_RECV,
     ipc_peer := IPC_ANY_SENDER, ipc_buf := 0x400010, ipc_len := 8\<rparr>) demo_fork"

lemma demo_ipc_mem:
  "mem demo_ipc = mem demo_frames" "pages demo_ipc = pages demo_frames" "g_hhdm_offset demo_ipc = 0xFFFF800000000000"
  "free_frames demo_ipc = {1, 2, 3, 4, 5}" "frames_inv demo_ipc" "cr3 demo_ipc = 0"
proof -
  show "mem demo_ipc = mem demo_frames" "pages demo_ipc = pages demo_frames" "g_hhdm_offset demo_ipc = 0xFFFF800000000000"
    using demo_fork_mem by (simp_all add: demo_ipc_def upd_task_def)
  show "free_frames demo_ipc = {1, 2, 3, 4, 5}" "frames_inv demo_ipc"
    using demo_fork_mem demo_free_frames demo_frames_inv by (simp_all add: demo_ipc_def same_mem_cong(2,3) [OF same_mem_upd(1)])
  show "cr3 demo_ipc = 0" by (simp add: demo_ipc_def demo_fork_def upd_task_def demo_tasks_def demo_kernel_def heap_state.defs demo_heap_fields)
qed

lemma demo_ipc_tasks:
  "tasks_ok {} demo_ipc" "current_task demo_ipc = Some 1" "pml4 (tsk demo_ipc 1) = Some 0xFFFF800000000000"
  "tsk demo_ipc 2 = (empty_slot 2 None)\<lparr>pml4 := Some 0xFFFF800000000000, state := TASK_BLOCKED, block_reason := BLOCK_ON_RECV,
     ipc_peer := IPC_ANY_SENDER, ipc_buf := 0x400010, ipc_len := 8\<rparr>"
proof -
  have m: "1 < MAX_TASKS" "2 < MAX_TASKS" by (simp_all add: MAX_TASKS_def)
  have len: "length (task_table demo_fork) = MAX_TASKS" using tasks_okD(1) [OF demo_fork_ready(1)] .
  have two: "tsk demo_fork 2 = (empty_slot 2 None)\<lparr>state := TASK_RUNNABLE\<rparr>"
    using m demo_tasks_fields(1) by (simp add: demo_fork_def upd_task_at demo_tasks_at)
  show "tsk demo_ipc 2 = (empty_slot 2 None)\<lparr>pml4 := Some 0xFFFF800000000000, state := TASK_BLOCKED, block_reason := BLOCK_ON_RECV,
     ipc_peer := IPC_ANY_SENDER, ipc_buf := 0x400010, ipc_len := 8\<rparr>" using m len two by (simp add: demo_ipc_def upd_task_at)
  show "tasks_ok {} demo_ipc" unfolding demo_ipc_def
    by (rule tasks_ok_change [OF demo_fork_ready(1) m(2)]) (use two in \<open>simp_all add: link_safe_def\<close>)
  show "current_task demo_ipc = Some 1" using demo_fork_ready(2) by (simp add: demo_ipc_def)
  have "pml4 (tsk demo_fork 1) = Some 0xFFFF800000000000" using demo_fork_ready(4) by (simp add: phys_to_virt_def demo_fork_mem)
  then show "pml4 (tsk demo_ipc 1) = Some 0xFFFF800000000000" using m len by (simp add: demo_ipc_def upd_task_at)
qed

lemma demo_ipc_space: "space_ok user_half 0 demo_ipc"
  using demo_space(1) [of user_half] by (simp add: space_ok_def demo_ipc_mem demo_free_frames)

lemma demo_ipc_page:
  obtains s where "vmm_map (phys_to_virt demo_ipc 0) 0x400000 (page2pa 6) 7 demo_ipc = Some s" "quiet demo_ipc s"
    "space_ok user_half 0 s" "maps_ok 0 {} s" "\<And>va. vpn va = vpn 0x400000 \<Longrightarrow> pte_of (mem s) 0 va = pte_make (page2pa 6) 7"
proof -
  note ok = demo_ipc_space
  have own: "owned user_half 0x400000" by (rule page_of_low(1)) simp
  obtain s where s: "vmm_map (phys_to_virt demo_ipc 0) 0x400000 (page2pa 6) 7 demo_ipc = Some s" "space_ok user_half 0 s"
    "mem_frame (tables user_half (mem demo_ipc) 0) demo_ipc s"
    "\<And>w. owned user_half w \<Longrightarrow> pte_of (mem s) 0 w = (if vpn w = vpn 0x400000 then pte_make (page2pa 6) 7 else pte_of (mem demo_ipc) 0 w)"
    "tables user_half (mem s) 0 \<subseteq> tables user_half (mem demo_ipc) 0 \<union> page2pa ` (free_frames demo_ipc - free_frames s)"
    by (rule vmm_map_enough [OF ok own, of "page2pa 6" 7]) (simp add: demo_ipc_mem, blast)
  have "tables user_half (mem demo_ipc) 0 = {0}" unfolding demo_ipc_mem(1) by (rule demo_space(2))
  then have six: "data_frame 0 {} demo_ipc 6"
    by (simp add: data_frame_def demo_ipc_mem(2,4) demo_frames_fields(1) page2pa_def PGSIZE_def)
  have "data_frame 0 {} s 6" by (rule data_step(1) [OF ok s(3,5) six])
  moreover have e: "pte_of (mem s) 0 w = (if vpn w = vpn 0x400000 then pte_make (page2pa 6) 7 else 0)" if "owned user_half w" for w
    using s(4) [OF that] demo_space(3) [OF that] by (simp add: demo_ipc_mem)
  moreover have "pte_get_addr (pte_make (page2pa 6) 7) = page2pa 6" using leaf_addr [of 6 7] by simp
  moreover have "grants True True (pte_make (page2pa 6) 7)" by (simp add: grants_def flag_bits bit_pte_make)
  ultimately have "maps_ok 0 {} s" unfolding maps_ok_def by (auto split: if_splits)
  moreover have "pte_of (mem s) 0 va = pte_make (page2pa 6) 7" if "vpn va = vpn 0x400000" for va
    using e [of va] that vpn_owned [OF that, of user_half] own by simp
  ultimately show thesis using that [OF s(1) vmm_map_quiet [OF s(1)] s(2)] by blast
qed

lemma demo_page_bytes:
  assumes ok: "space_ok user_half 0 s" and e: "\<And>va. vpn va = vpn 0x400000 \<Longrightarrow> pte_of (mem s) 0 va = pte_make (page2pa 6) 7"
    and n: "off + unat n \<le> 4096"
  shows "uva_bytes_ok 0 (0x400000 + of_nat off) n w (mem s)"
  unfolding uva_bytes_ok_def
proof (intro allI impI)
  fix i assume i: "i < unat n"
  have u: "unat (0x400000 + of_nat k :: u64) = 0x400000 + k" if "k < 4096" for k
    using that by (subst unat_add_lem [THEN iffD1]) (auto simp: unat_of_nat)
  have k: "off + i < 4096" "off < 4096" using i n by simp_all
  have g: "grants True w (pte_make (page2pa 6) 7)" by (simp add: grants_def flag_bits bit_pte_make)
  have "vpn (0x400000 + of_nat (off + i)) = vpn 0x400000" by (rule same_page_vpn) (use u [OF k(1)] k in \<open>auto simp: page_aligned_def\<close>)
  then have "mmu_access True w (mem s) 0 (0x400000 + of_nat (off + i)) \<noteq> None"
    using mmu_access_pte_of [OF ok page_of_low, of "0x400000 + of_nat (off + i)" True w] u [OF k(1)] k g e by simp
  then show "unat (0x400000 + of_nat off :: u64) + i < 2 ^ 47 \<and> mmu_access True w (mem s) 0 (0x400000 + of_nat off + of_nat i) \<noteq> None"
    using u [OF k(2)] k by (simp add: add.assoc)
qed

theorem send_delivers_witness:
  "\<exists>s s'. vmm_map (phys_to_virt demo_ipc 0) 0x400000 (page2pa 6) 7 demo_ipc = Some s \<and>
     sys_send 2 0x400000 4 s = Some (Returns 4, s') \<and> state (tsk s' 2) = TASK_RUNNABLE \<and>
     user_byte 0 s' 0x400010 = user_read 0 s 0x400000"
proof -
  obtain s where s: "vmm_map (phys_to_virt demo_ipc 0) 0x400000 (page2pa 6) 7 demo_ipc = Some s" "quiet demo_ipc s" "space_ok user_half 0 s" "maps_ok 0 {} s"
    "\<And>va. vpn va = vpn 0x400000 \<Longrightarrow> pte_of (mem s) 0 va = pte_make (page2pa 6) 7" by (rule demo_ipc_page) blast
  have st: "task_table s = task_table demo_ipc" "current_task s = Some 1" "cr3 s = 0" "g_hhdm_offset s = 0xFFFF800000000000" "tasks_ok {} s"
    using quiet_same_tasks [OF s(2)] quiet_fields [OF s(2)] demo_ipc_tasks(1,2) demo_ipc_mem tasks_ok_quiet [OF s(2)] by (simp_all add: same_tasks_def)
  have pv: "phys_to_virt s 0 = 0xFFFF800000000000" by (simp add: phys_to_virt_def st)
  have b: "uva_bytes_ok 0 0x400000 (min 4 256) False (mem s)" "uva_bytes_ok 0 0x400010 (min (min 4 256) 8) True (mem s)"
    using demo_page_bytes [OF s(3,5), of 0 "min 4 256" False] demo_page_bytes [OF s(3,5), of 16 "min (min 4 256) 8" True] by simp_all
  have t: "tsk s 2 = tsk demo_ipc 2" "tsk s 1 = tsk demo_ipc 1" by (simp_all add: st)
  have r: "can_receive 1 s 2" "2 < MAX_TASKS" "pml4 (tsk s 1) = Some (phys_to_virt s 0)" "pml4 (tsk s 2) = Some (phys_to_virt s 0)" "loaded_root s = 0"
    by (simp_all add: can_receive_def t demo_ipc_tasks(3,4) pv loaded_root_def st(3) MAX_TASKS_def del: One_nat_def)
  have z: "(0 :: u64) AND 0x000FFFFFFFFFF000 = 0" by simp
  have ib: "ipc_buf (tsk s 2) = 0x400010" "ipc_len (tsk s 2) = 8" by (simp_all add: t demo_ipc_tasks)
  have four: "of_nat 2 = (2 :: u64)" "min (min 4 256) 8 = (4 :: u64)" "0 < unat (4 :: u64)" by simp_all
  note D = send_delivers [OF st(5,2) r(2,1,3,5) s(3) r(4) z s(3,4) b(1), unfolded ib, OF b(2), unfolded Let_def four]
  obtain s' where s': "sys_send 2 0x400000 4 s = Some (Returns 4, s')" "tsk s' 2 = (tsk s 2)\<lparr>state := TASK_RUNNABLE, block_reason := BLOCK_NONE\<rparr>"
    and bytes: "\<forall>i < unat (4 :: u64). user_byte 0 s' (0x400010 + of_nat i) = user_read 0 s (0x400000 + of_nat i)"
    using D by (elim exE conjE)
  have "user_byte 0 s' (0x400010 + of_nat 0) = user_read 0 s (0x400000 + of_nat 0)" using bytes four(3) by blast
  then have "user_byte 0 s' 0x400010 = user_read 0 s 0x400000" by simp
  moreover have "state (tsk s' 2) = TASK_RUNNABLE" by (simp add: s'(2))
  ultimately show ?thesis using s(1) s'(1) by blast
qed

section \<open>Bad and good user pointers\<close>

text \<open>Claim C37. A system call that takes a user buffer (\<open>sys_write\<close>, \<open>sys_send\<close>, \<open>sys_recv\<close>) returns \<open>-1\<close>
  with a message and no other effect, whenever some byte of the buffer, cut to 255 or 256 bytes, is not one that ring 3 may
  read, or write for \<open>sys_recv\<close>.\<close>

theorem bad_pointers_rejected:
  assumes "console_ok s" "current_task s = Some c" "pml4 (tsk s c) = Some (phys_to_virt s Q)" "space_ok user_half Q s"
  shows "(\<not> uva_bytes_ok Q buf (min n 255) False (mem s) \<longrightarrow> (\<exists>t. sys_write buf n s = Some (Returns (- 1), say t s))) \<and>
    (\<not> uva_bytes_ok Q buf (min n 256) False (mem s) \<longrightarrow> (\<exists>t. sys_send tid buf n s = Some (Returns (- 1), say t s))) \<and>
    (\<not> uva_bytes_ok Q buf (min n 256) True (mem s) \<longrightarrow> (\<exists>t. sys_recv tid buf n s = Some (Returns (- 1), say t s)))"
proof -
  have k: "(if n > k then k else n) = min n k" for k :: u64 by (auto simp: min_def)
  have chk: "uva_check_task c buf len w s = Some (uva_bytes_ok Q buf len w (mem s), s)" for len w
    using check_range_spec [OF assms(4)] assms(3) by (simp add: uva_check_task_def)
  note P = kprintf_ok [OF assms(1)] and some = assms(2) chk
  show ?thesis
  proof (intro conjI impI)
    assume "\<not> uva_bytes_ok Q buf (min n 255) False (mem s)"
    then show "\<exists>t. sys_write buf n s = Some (Returns (- 1), say t s)" using some by (simp add: sys_write_def k P) blast
  next
    assume "\<not> uva_bytes_ok Q buf (min n 256) False (mem s)"
    then show "\<exists>t. sys_send tid buf n s = Some (Returns (- 1), say t s)" using some by (simp add: sys_send_def k P Let_def) blast
  next
    assume "\<not> uva_bytes_ok Q buf (min n 256) True (mem s)"
    then show "\<exists>t. sys_recv tid buf n s = Some (Returns (- 1), say t s)" using some by (simp add: sys_recv_def k P Let_def) blast
  qed
qed

text \<open>Claim C38. With a readable buffer, \<open>sys_write\<close> prints exactly the user's bytes, at most 255 of them and up to
  the first zero, and returns how many it took.\<close>

theorem write_prints:
  assumes "console_ok s" "current_task s = Some c" "pml4 (tsk s c) = Some (phys_to_virt s Q)" "loaded_root s = Q" "space_ok user_half Q s"
    "uva_bytes_ok Q buf (min n 255) False (mem s)"
  shows "\<exists>bs. map Some bs = map (\<lambda>i. user_read Q s (buf + of_nat i)) [0..<unat (min n 255)] \<and>
    sys_write buf n s = Some (Returns (min n 255), say (kmsg ''%s'' [S (cstr bs)]) s)"
proof -
  have k: "(if n > 255 then 255 else n) = min n 255" by (auto simp: min_def)
  have chk: "uva_check_task c buf (min n 255) False s = Some (True, s)"
    using check_range_spec [OF assms(5)] assms(3,6) by (simp add: uva_check_task_def)
  obtain bs where bs: "read_user (unat (min n 255)) buf s = Some bs" "length bs = unat (min n 255)"
    "\<forall>i < unat (min n 255). user_read Q s (buf + of_nat i) = Some (bs ! i)"
    using read_user_spec [of s "unat (min n 255)" buf] assms(4,5) bytes_okD(2,3) [OF assms(6)] by auto
  have "map Some bs = map (\<lambda>i. user_read Q s (buf + of_nat i)) [0..<unat (min n 255)]"
    using bs(2,3) by (intro nth_equalityI) simp_all
  moreover have "sys_write buf n s = Some (Returns (min n 255), say (kmsg ''%s'' [S (cstr bs)]) s)"
    using assms(2) chk bs(1) kprintf_ok [OF assms(1), of "''%s''" "[S (cstr bs)]"] by (simp add: sys_write_def k)
  ultimately show ?thesis by blast
qed

theorem bad_pointers_rejected_witness: "\<exists>t. sys_write 0xFFFF800000000000 16 demo_ipc = Some (Returns (- 1), say t demo_ipc)"
proof -
  have c: "console_ok demo_ipc" by (rule tasks_okD(4) [OF demo_ipc_tasks(1)])
  have p: "pml4 (tsk demo_ipc 1) = Some (phys_to_virt demo_ipc 0)" by (simp add: demo_ipc_tasks(3) phys_to_virt_def demo_ipc_mem(3) del: One_nat_def)
  have "\<not> (unat (0xFFFF800000000000 :: u64) + 0 < 2 ^ 47)" by simp
  moreover have "0 < unat (min 16 255 :: u64)" by simp
  ultimately have "\<not> uva_bytes_ok 0 0xFFFF800000000000 (min 16 255) False (mem demo_ipc)" unfolding uva_bytes_ok_def by blast
  then show ?thesis using bad_pointers_rejected [OF c demo_ipc_tasks(2) p demo_ipc_space] by blast
qed

theorem write_prints_witness:
  "\<exists>s bs. vmm_map (phys_to_virt demo_ipc 0) 0x400000 (page2pa 6) 7 demo_ipc = Some s \<and>
     sys_write 0x400000 4 s = Some (Returns 4, say (kmsg ''%s'' [S (cstr bs)]) s)"
proof -
  obtain s where s: "vmm_map (phys_to_virt demo_ipc 0) 0x400000 (page2pa 6) 7 demo_ipc = Some s" "quiet demo_ipc s" "space_ok user_half 0 s" "maps_ok 0 {} s"
    "\<And>va. vpn va = vpn 0x400000 \<Longrightarrow> pte_of (mem s) 0 va = pte_make (page2pa 6) 7" by (rule demo_ipc_page) blast
  have st: "task_table s = task_table demo_ipc" "current_task s = Some 1" "cr3 s = 0" "g_hhdm_offset s = 0xFFFF800000000000" "console_ok s"
    using quiet_same_tasks [OF s(2)] quiet_fields [OF s(2)] demo_ipc_tasks(2) demo_ipc_mem tasks_okD(4) [OF demo_ipc_tasks(1)] by (simp_all add: same_tasks_def)
  have p: "pml4 (tsk s 1) = Some (phys_to_virt s 0)" "loaded_root s = 0"
    by (simp_all add: st(1,3,4) demo_ipc_tasks(3) phys_to_virt_def loaded_root_def del: One_nat_def)
  have b: "uva_bytes_ok 0 0x400000 (min 4 255) False (mem s)" using demo_page_bytes [OF s(3,5), of 0 "min 4 255" False] by simp
  show ?thesis using write_prints [OF st(5,2) p s(3) b] s(1) by auto
qed

end
