(* ===== verification/Usermode.thy ===== *)
theory Usermode
  imports Ipc
begin

text \<open>\<open>usermode.c\<close> and \<open>syscall_entry.S\<close>: entering ring 3 with a built interrupt frame, and the stubs that save and restore
the registers around a system call. \<open>ready_entry\<close> describes a task whose first switch enters ring 3.\<close>

section \<open>Interrupt returns\<close>

text \<open>\<open>iretq\<close> pops the five words of an interrupt frame and continues at its instruction pointer on its stack. The stack segment is
  part of the frame only.\<close>

definition iretq :: "'a kernel_state_scheme \<Rightarrow> interrupt_frame \<times> 'a kernel_state_scheme" where
  "iretq s =
     (let (ip, s) = pop s; (cs, s) = pop s; (fl, s) = pop s; (sp, s) = pop s; (ss, s) = pop s;
          s = set_cpu (\<lambda>c. c\<lparr>rip := ip, rsp := sp\<rparr>) s
      in (\<lparr>if_ip = ip, if_cs = cs, if_flags = fl, if_sp = sp, if_ss = ss\<rparr>, s\<lparr>seg_cs := ucast cs, rflags := fl\<rparr>))"

definition push_all :: "u64 list \<Rightarrow> 'a kernel_state_scheme \<Rightarrow> 'a kernel_state_scheme" where
  "push_all vs s = foldl (\<lambda>t v. push v t) s vs"

section \<open>Entering ring 3 (usermode.c)\<close>

definition enter_usermode :: "u64 \<Rightarrow> u64 \<Rightarrow> 'a kernel_state_scheme \<Rightarrow> interrupt_frame \<times> 'a kernel_state_scheme" where
  "enter_usermode entry user_stack_top s =
     (let user_ss = USER_DS; user_cs = USER_CS; user_rflags = 0x2;
          s = s\<lparr>seg_data := ucast user_ss\<rparr>
      in iretq (push_all [user_ss, user_stack_top, user_rflags, user_cs, entry] s))"

section \<open>The system call stubs (syscall\_entry.S, syscall.h)\<close>

record syscall_regs =
  sr_rax :: u64
  sr_rbx :: u64
  sr_rcx :: u64
  sr_rdx :: u64
  sr_rsi :: u64
  sr_rdi :: u64
  sr_rbp :: u64
  sr_r8 :: u64
  sr_r9 :: u64
  sr_r10 :: u64
  sr_r11 :: u64
  sr_r12 :: u64
  sr_r13 :: u64
  sr_r14 :: u64
  sr_r15 :: u64
  sr_rip :: u64
  sr_cs :: u64
  sr_rflags :: u64
  sr_rsp :: u64
  sr_user_ss :: u64

text \<open>A ring-3 \<open>int 0x80\<close>: the processor takes the stack of the TSS, pushes the interrupt frame and, for an interrupt gate,
  clears the interrupt flag.\<close>

definition int80 :: "syscall_regs \<Rightarrow> 'a kernel_state_scheme \<Rightarrow> 'a kernel_state_scheme" where
  "int80 u s =
     (let s = set_cpu (rsp_update (\<lambda>_. rsp0 (kernel_tss s))) s;
          s = push_all [sr_user_ss u, sr_rsp u, sr_rflags u, sr_cs u, sr_rip u] s
      in s\<lparr>seg_cs := 0x08, rflags := sr_rflags u AND NOT IF_FLAG\<rparr>)"

definition syscall_entry_asm :: "syscall_regs \<Rightarrow> 'a kernel_state_scheme \<Rightarrow> (sys_out \<times> 'a kernel_state_scheme) option" where
  "syscall_entry_asm u s =
     (let s = push_all [sr_r15 u, sr_r14 u, sr_r13 u, sr_r12 u, sr_r11 u, sr_r10 u, sr_r9 u, sr_r8 u, sr_rbp u, sr_rdi u, sr_rsi u,
                        sr_rdx u, sr_rcx u, sr_rbx u, sr_rax u] s;
          s = s\<lparr>seg_data := 0x10\<rparr>
      in syscall_dispatch (rsp (cpu s)) s)"

definition syscall_return_asm :: "'a kernel_state_scheme \<Rightarrow> syscall_regs \<times> 'a kernel_state_scheme" where
  "syscall_return_asm s =
     (let s = s\<lparr>seg_data := ucast USER_DS\<rparr>;
          (v_rax, s) = pop s; (v_rbx, s) = pop s; (v_rcx, s) = pop s; (v_rdx, s) = pop s; (v_rsi, s) = pop s;
          (v_rdi, s) = pop s; (v_rbp, s) = pop s; (v_r8, s) = pop s; (v_r9, s) = pop s; (v_r10, s) = pop s;
          (v_r11, s) = pop s; (v_r12, s) = pop s; (v_r13, s) = pop s; (v_r14, s) = pop s; (v_r15, s) = pop s;
          (f, s) = iretq s
      in (\<lparr>sr_rax = v_rax, sr_rbx = v_rbx, sr_rcx = v_rcx, sr_rdx = v_rdx, sr_rsi = v_rsi, sr_rdi = v_rdi, sr_rbp = v_rbp, sr_r8 = v_r8,
           sr_r9 = v_r9, sr_r10 = v_r10, sr_r11 = v_r11, sr_r12 = v_r12, sr_r13 = v_r13, sr_r14 = v_r14, sr_r15 = v_r15, sr_rip = if_ip f,
           sr_cs = if_cs f, sr_rflags = if_flags f, sr_rsp = if_sp f, sr_user_ss = if_ss f\<rparr>, s))"

section \<open>Pushing and popping\<close>

lemma push_all_simps [simp]: "push_all [] s = s" "push_all (v # vs) s = push_all vs (push v s)"
  by (simp_all add: push_all_def)

lemma push_all_snoc: "push_all (vs @ [v]) s = push v (push_all vs s)"
  by (simp add: push_all_def)

lemma push_state: "\<exists>m. push v s = s\<lparr>mem := m, cpu := (cpu s)\<lparr>rsp := rsp (cpu s) - 8\<rparr>\<rparr>"
proof -
  have "push v s = s\<lparr>mem := write64 (mem s) (virt_to_phys s (rsp (cpu s) - 8)) v, cpu := (cpu s)\<lparr>rsp := rsp (cpu s) - 8\<rparr>\<rparr>"
    by (simp add: push_def set_cpu_def hwrite64_def Let_def virt_to_phys_def)
  then show ?thesis by blast
qed

lemma push_all_state: "\<exists>m. push_all vs s = s\<lparr>mem := m, cpu := (cpu s)\<lparr>rsp := rsp (cpu s) - 8 * of_nat (length vs)\<rparr>\<rparr>"
proof (induction vs rule: rev_induct)
  case Nil
  show ?case by (rule exI [of _ "mem s"]) simp
next
  case (snoc v vs)
  then obtain m where m: "push_all vs s = s\<lparr>mem := m, cpu := (cpu s)\<lparr>rsp := rsp (cpu s) - 8 * of_nat (length vs)\<rparr>\<rparr>" by blast
  obtain m' where "push v (push_all vs s) = (push_all vs s)\<lparr>mem := m', cpu := (cpu (push_all vs s))\<lparr>rsp := rsp (cpu (push_all vs s)) - 8\<rparr>\<rparr>"
    using push_state by blast
  then show ?case by (auto simp: push_all_snoc m algebra_simps)
qed

lemma read_words_Suc: "read_words s a (Suc n) = hread64 s a # read_words s (a + 8) n"
  unfolding read_words_def upt_conv_Cons [OF zero_less_Suc] map_Suc_upt [symmetric] by (simp add: algebra_simps)

lemma read_words_push:
  assumes "word_aligned s (rsp (cpu s))" "n < 2 ^ 60"
  shows "read_words (push v s) (rsp (cpu s)) n = read_words s (rsp (cpu s)) n"
proof -
  have "hread64 (push v s) (rsp (cpu s) + 8 * of_nat i) = hread64 s (rsp (cpu s) + 8 * of_nat i)" if "i < n" for i
  proof -
    have "unat (8 * of_nat (Suc i) :: u64) = 8 * Suc i" using that assms(2) by (simp only: unat_word_ariths unat_of_nat) simp
    then have "8 * of_nat (Suc i) \<noteq> (0 :: u64)" by (metis mult_is_0 nat.distinct(1) numeral_neq_zero unat_0)
    then have "rsp (cpu s) + 8 * of_nat i \<noteq> rsp (cpu s) - 8" by (simp add: algebra_simps add_eq_0_iff)
    moreover have "word_aligned s (rsp (cpu s) + 8 * of_nat i)"
    proof (rule word_aligned_add [OF assms(1)])
      have "unat (8 * of_nat i :: u64) = 8 * i" using that assms(2) by (simp add: unat_word_ariths unat_of_nat)
      then show "8 dvd unat (8 * of_nat i :: u64)" by simp
    qed
    ultimately show ?thesis using hread64_push [OF assms(1)] by simp
  qed
  then show ?thesis by (simp add: read_words_def)
qed

lemma read_pushed:
  assumes "word_aligned s (rsp (cpu s))" "length vs < 2 ^ 60"
  shows "word_aligned s (rsp (cpu (push_all vs s))) \<and> read_words (push_all vs s) (rsp (cpu (push_all vs s))) (length vs) = rev vs"
  using assms(2)
proof (induction vs rule: rev_induct)
  case Nil
  then show ?case using assms(1) by (simp add: read_words_def)
next
  case (snoc v vs)
  let ?s = "push_all vs s"
  have IH: "word_aligned s (rsp (cpu ?s))" "read_words ?s (rsp (cpu ?s)) (length vs) = rev vs" using snoc by simp_all
  have al: "word_aligned ?s a = word_aligned s a" for a
    using push_all_state [of vs s] by (auto simp: word_aligned_def virt_to_phys_def)
  have a: "word_aligned ?s (rsp (cpu ?s))" using IH(1) al by simp
  have "hread64 (push v ?s) (rsp (cpu ?s) - 8) = v" using hread64_push [OF a word_aligned_step(1) [OF a]] by simp
  moreover have "read_words (push v ?s) (rsp (cpu ?s)) (length vs) = rev vs" using read_words_push [OF a] snoc.prems IH(2) by simp
  ultimately show ?case using word_aligned_step(1) [OF IH(1)] by (simp add: push_all_snoc cpu_push read_words_Suc)
qed

definition regs_of :: "u64 list \<Rightarrow> syscall_regs" where
  "regs_of ws = \<lparr>sr_rax = ws ! 0, sr_rbx = ws ! 1, sr_rcx = ws ! 2, sr_rdx = ws ! 3, sr_rsi = ws ! 4, sr_rdi = ws ! 5, sr_rbp = ws ! 6,
     sr_r8 = ws ! 7, sr_r9 = ws ! 8, sr_r10 = ws ! 9, sr_r11 = ws ! 10, sr_r12 = ws ! 11, sr_r13 = ws ! 12, sr_r14 = ws ! 13,
     sr_r15 = ws ! 14, sr_rip = ws ! 15, sr_cs = ws ! 16, sr_rflags = ws ! 17, sr_rsp = ws ! 18, sr_user_ss = ws ! 19\<rparr>"

lemma hread64_fields [simp]: "hread64 (s\<lparr>seg_data := d\<rparr>) a = hread64 s a" "hread64 (s\<lparr>seg_cs := c\<rparr>) a = hread64 s a"
  "hread64 (s\<lparr>rflags := f\<rparr>) a = hread64 s a"
  by (simp_all add: hread64_def virt_to_phys_def)

lemma iretq_spec:
  "iretq s = (let w = (\<lambda>i. hread64 s (rsp (cpu s) + 8 * i)) in
     (\<lparr>if_ip = w 0, if_cs = w 1, if_flags = w 2, if_sp = w 3, if_ss = w 4\<rparr>,
      s\<lparr>cpu := (cpu s)\<lparr>rip := w 0, rsp := w 3\<rparr>, seg_cs := ucast (w 1), rflags := w 2\<rparr>))"
  by (simp add: iretq_def pop_def' set_cpu_def Let_def add.assoc)

lemma syscall_return_spec:
  "syscall_return_asm s = (let u = regs_of (read_words s (rsp (cpu s)) 20) in
     (u, s\<lparr>seg_data := ucast USER_DS, cpu := (cpu s)\<lparr>rip := sr_rip u, rsp := sr_rsp u\<rparr>, seg_cs := ucast (sr_cs u), rflags := sr_rflags u\<rparr>))"
  by (simp add: syscall_return_asm_def iretq_spec pop_def' Let_def regs_of_def read_words_def add.assoc)

section \<open>Ring 3\<close>

text \<open>\<open>enter_usermode\<close> leaves the kernel for ring 3: execution goes on at the entry point with the user
  stack, the user code and data selectors, whose requested privilege level is 3, and with interrupts disabled, since
  \<open>0x2\<close> does not contain the interrupt flag.\<close>

theorem enter_usermode_enters:
  assumes "word_aligned s (rsp (cpu s))"
  shows "\<exists>s'. enter_usermode entry user_stack_top s =
      (\<lparr>if_ip = entry, if_cs = USER_CS, if_flags = 0x2, if_sp = user_stack_top, if_ss = USER_DS\<rparr>, s') \<and>
    rip (cpu s') = entry \<and> rsp (cpu s') = user_stack_top \<and> seg_cs s' = 0x23 \<and> seg_data s' = 0x1B \<and>
    seg_cs s' AND 3 = 3 \<and> rflags s' AND IF_FLAG = 0"
proof -
  let ?vs = "[USER_DS, user_stack_top, 0x2, USER_CS, entry]" and ?s = "s\<lparr>seg_data := ucast USER_DS\<rparr>"
  have al: "word_aligned ?s (rsp (cpu ?s))" using assms by (simp add: word_aligned_def virt_to_phys_def)
  define p where "p = push_all ?vs ?s"
  have "read_words p (rsp (cpu p)) (length ?vs) = rev ?vs" unfolding p_def by (rule read_pushed [OF al, THEN conjunct2]) simp
  then have w: "hread64 p (rsp (cpu p)) = entry" "hread64 p (rsp (cpu p) + 8) = USER_CS" "hread64 p (rsp (cpu p) + 16) = 0x2"
    "hread64 p (rsp (cpu p) + 24) = user_stack_top" "hread64 p (rsp (cpu p) + 32) = USER_DS"
    by (simp_all add: read_words_def)
  have "enter_usermode entry user_stack_top s = iretq p" by (simp add: enter_usermode_def p_def)
  moreover have "seg_data p = ucast USER_DS" using push_all_state [of ?vs ?s] by (auto simp: p_def)
  ultimately show ?thesis by (simp add: iretq_spec w Let_def USER_CS_def USER_DS_def IF_FLAG_def)
qed

section \<open>A whole system call\<close>

lemma push_all_page:
  assumes t: "page_aligned t" and r: "rsp (cpu s) = phys_to_virt s t + 4096" and "length vs \<le> 512"
  shows "\<not> in_page t x \<longrightarrow> mem (push_all vs s) x = mem s x"
  using assms(3)
proof (induction vs rule: rev_induct)
  case Nil
  then show ?case by simp
next
  case (snoc v vs)
  let ?s = "push_all vs s" and ?j = "511 - length vs"
  have st: "rsp (cpu ?s) = phys_to_virt s t + 4096 - 8 * of_nat (length vs)" "virt_to_phys ?s = virt_to_phys s"
    using push_all_state [of vs s] r by (auto simp: virt_to_phys_def fun_eq_iff)
  have "virt_to_phys s (rsp (cpu ?s) - 8) = slot t ?j"
    using snoc.prems by (simp add: st(1) virt_to_phys_def phys_to_virt_def slot_def of_nat_diff algebra_simps)
  then have "mem (push v ?s) = write64 (mem ?s) (slot t ?j) v"
    by (simp add: push_def set_cpu_def hwrite64_def Let_def st(2) [symmetric]) (simp add: virt_to_phys_def)
  then show ?case using snoc write64_other [OF t, of ?j] by (simp add: push_all_snoc)
qed

definition regs_words :: "syscall_regs \<Rightarrow> u64 list" where
  "regs_words u = [sr_rax u, sr_rbx u, sr_rcx u, sr_rdx u, sr_rsi u, sr_rdi u, sr_rbp u, sr_r8 u, sr_r9 u, sr_r10 u, sr_r11 u, sr_r12 u, sr_r13 u,
     sr_r14 u, sr_r15 u, sr_rip u, sr_cs u, sr_rflags u, sr_rsp u, sr_user_ss u]"

lemma regs_of_words: "regs_of (v # tl (regs_words u)) = u\<lparr>sr_rax := v\<rparr>" "length (regs_words u) = 20"
  by (simp_all add: regs_of_def regs_words_def)

lemma sys_write_run:
  assumes "console_ok s" "current_task s = Some c" "pml4 (tsk s c) = Some (phys_to_virt s Q)" "loaded_root s = Q" "space_ok user_half Q s"
  obtains v t where "sys_write buf n s = Some (Returns v, say t s)" "v = - 1 \<or> v = min n 255"
proof -
  have k: "(if n > 255 then 255 else n) = min n 255" by (auto simp: min_def)
  define b where "b = uva_bytes_ok Q buf (min n 255) False (mem s)"
  have chk: "uva_check_task c buf (min n 255) False s = Some (b, s)"
    using check_range_spec [OF assms(5)] assms(3) by (simp add: uva_check_task_def b_def)
  show thesis
  proof (cases b)
    case False
    then show thesis using that assms(2) chk by (simp add: sys_write_def k kprintf_ok [OF assms(1)])
  next
    case True
    then have "uva_bytes_ok Q buf (min n 255) False (mem s)" by (simp add: b_def)
    then obtain bs where "read_user (unat (min n 255)) buf s = Some bs"
      using read_user_spec [of s "unat (min n 255)" buf] assms(4,5) bytes_okD(2,3) by blast
    then show thesis using that True assms(2) chk by (simp add: sys_write_def k kprintf_ok [OF assms(1)])
  qed
qed

lemma push_all_append: "push_all (vs @ ws) s = push_all ws (push_all vs s)"
  by (simp add: push_all_def)

lemma push_all_segs: "push_all vs (s\<lparr>seg_cs := c, rflags := f\<rparr>) = (push_all vs s)\<lparr>seg_cs := c, rflags := f\<rparr>"
proof (induction vs rule: rev_induct)
  case Nil
  then show ?case by simp
next
  case (snoc v vs)
  have "push v (t\<lparr>seg_cs := c, rflags := f\<rparr>) = (push v t)\<lparr>seg_cs := c, rflags := f\<rparr>" for t :: "'a kernel_state_scheme"
    by (rule kernel_state.equality) (simp_all add: push_def set_cpu_def hwrite64_def Let_def virt_to_phys_def)
  then show ?case using snoc by (simp add: push_all_snoc)
qed

lemma page_word_aligned:
  assumes "page_aligned t" "8 dvd unat b"
  shows "word_aligned s (phys_to_virt s t + b)"
proof (rule word_aligned_add [OF _ assms(2)])
  have "8 dvd unat t" using assms(1) unfolding page_aligned_def by (rule dvd_trans [rotated]) simp
  then show "word_aligned s (phys_to_virt s t)" by (simp add: word_aligned_def)
qed

lemma trap_block:
  assumes q: "page_aligned (page2pa q)" and r: "rsp0 (kernel_tss s) = phys_to_virt s (page2pa q) + 4096"
  obtains m where "syscall_entry_asm u (int80 u s) = syscall_dispatch (phys_to_virt s (page2pa q) + 4096 - 160)
      (s\<lparr>mem := m, cpu := (cpu s)\<lparr>rsp := phys_to_virt s (page2pa q) + 4096 - 160\<rparr>, seg_cs := 0x08, rflags := sr_rflags u AND NOT IF_FLAG, seg_data := 0x10\<rparr>)"
    "\<forall>x. \<not> in_page (page2pa q) x \<longrightarrow> m x = mem s x"
    "read_words (s\<lparr>mem := m\<rparr>) (phys_to_virt s (page2pa q) + 4096 - 160) 20 = regs_words u"
proof -
  let ?a = "phys_to_virt s (page2pa q) + 4096" and ?vs = "rev (regs_words u)"
  define s0 where "s0 = s\<lparr>cpu := (cpu s)\<lparr>rsp := ?a\<rparr>\<rparr>"
  have s0: "rsp (cpu s0) = phys_to_virt s0 (page2pa q) + 4096" "mem s0 = mem s" by (simp_all add: s0_def phys_to_virt_def)
  have "word_aligned s ?a" by (rule page_word_aligned [OF q]) simp
  then have al: "word_aligned s0 (rsp (cpu s0))" by (simp add: s0_def word_aligned_def virt_to_phys_def)
  obtain m where m: "push_all ?vs s0 = s0\<lparr>mem := m, cpu := (cpu s0)\<lparr>rsp := rsp (cpu s0) - 8 * of_nat (length ?vs)\<rparr>\<rparr>"
    using push_all_state by blast
  have m': "push_all ?vs s0 = s\<lparr>mem := m, cpu := (cpu s)\<lparr>rsp := ?a - 160\<rparr>\<rparr>"
    unfolding m by (rule kernel_state.equality) (simp_all add: s0_def regs_of_words(2))
  have "syscall_entry_asm u (int80 u s) = syscall_dispatch (?a - 160)
      (s\<lparr>mem := m, cpu := (cpu s)\<lparr>rsp := ?a - 160\<rparr>, seg_cs := 0x08, rflags := sr_rflags u AND NOT IF_FLAG, seg_data := 0x10\<rparr>)"
  proof -
    have split: "?vs = [sr_user_ss u, sr_rsp u, sr_rflags u, sr_cs u, sr_rip u] @
      [sr_r15 u, sr_r14 u, sr_r13 u, sr_r12 u, sr_r11 u, sr_r10 u, sr_r9 u, sr_r8 u, sr_rbp u, sr_rdi u, sr_rsi u, sr_rdx u, sr_rcx u, sr_rbx u, sr_rax u]"
      (is "_ = ?hw @ ?sw") by (simp add: regs_words_def)
    have "push_all ?sw (int80 u s) = (push_all ?vs s0)\<lparr>seg_cs := 0x08, rflags := sr_rflags u AND NOT IF_FLAG\<rparr>"
      unfolding split push_all_append int80_def Let_def set_cpu_def r s0_def push_all_segs ..
    then show ?thesis by (simp add: syscall_entry_asm_def Let_def m' del: push_all_simps)
  qed
  moreover have "\<not> in_page (page2pa q) x \<longrightarrow> m x = mem s x" for x
    using push_all_page [OF q s0(1), of ?vs x] s0(2) by (simp add: m' regs_of_words(2))
  moreover have "read_words (s\<lparr>mem := m\<rparr>) (?a - 160) 20 = regs_words u"
  proof -
    have "read_words (push_all ?vs s0) (rsp (cpu (push_all ?vs s0))) (length ?vs) = rev ?vs" by (rule read_pushed [OF al, THEN conjunct2]) (simp add: regs_of_words(2))
    then show ?thesis by (simp add: m' regs_of_words(2) read_words_def hread64_def virt_to_phys_def del: upt_rec_numeral)
  qed
  ultimately show thesis using that by blast
qed

lemma read_words_fields:
  "g_hhdm_offset s' = g_hhdm_offset s \<Longrightarrow> mem s' = mem s \<Longrightarrow> read_words s' a n = read_words s a n"
  by (simp add: read_words_def hread64_def virt_to_phys_def)

lemma read_words_nth: "i < n \<Longrightarrow> read_words s a n ! i = hread64 s (a + 8 * of_nat i)"
  by (simp add: read_words_def)

lemma first_word:
  assumes al: "word_aligned s a" and n: "n < 2 ^ 60"
  shows "read_words (hwrite64 a v s) a (Suc n) = v # tl (read_words s a (Suc n))"
proof -
  have "hread64 (hwrite64 a v s) (a + 8 + 8 * of_nat i) = hread64 s (a + 8 + 8 * of_nat i)" if "i < n" for i
  proof -
    have e: "a + 8 + 8 * of_nat i = a + of_nat (8 * Suc i)" by (simp add: algebra_simps)
    have o: "unat (of_nat (8 * Suc i) :: u64) = 8 * Suc i" using that n by (simp only: unat_of_nat) simp
    then have "word_aligned s (a + of_nat (8 * Suc i))" by (intro word_aligned_add [OF al]) simp
    moreover have "of_nat (8 * Suc i) \<noteq> (0 :: u64)" using o by (metis mult_is_0 nat.distinct(1) numeral_neq_zero unat_0)
    ultimately show ?thesis unfolding e using hread64_hwrite64 [OF al] by simp
  qed
  then have "read_words (hwrite64 a v s) (a + 8) n = read_words s (a + 8) n" by (simp add: read_words_def)
  then show ?thesis using hread64_hwrite64 [OF al al] by (simp add: read_words_Suc)
qed

text \<open>Claim C20. The two assembly stubs and the dispatcher agree on the layout of \<open>struct syscall_regs\<close>. When a
  ring-3 program, whose kernel stack is a page of its own, makes the write system call, the call returns, and the
  program continues after its \<open>int 0x80\<close> with its own stack, flags, segments and registers, except \<open>rax\<close>, which holds
  the result: the number of bytes taken, or \<open>-1\<close>.\<close>

theorem syscall_preserves_registers:
  assumes "console_ok s" "current_task s = Some c" "pml4 (tsk s c) = Some (phys_to_virt s Q)" "loaded_root s = Q" "space_ok user_half Q s"
    "data_frame Q {} s q" "rsp0 (kernel_tss s) = phys_to_virt s (page2pa q) + 4096" "sr_rax u = SYS_WRITE"
  shows "\<exists>v s1 s2. syscall_entry_asm u (int80 u s) = Some (Returns v, s1) \<and> (v = - 1 \<or> v = min (sr_rsi u) 255) \<and>
    syscall_return_asm s1 = (u\<lparr>sr_rax := v\<rparr>, s2) \<and>
    rip (cpu s2) = sr_rip u \<and> rsp (cpu s2) = sr_rsp u \<and> rflags s2 = sr_rflags u \<and> seg_cs s2 = ucast (sr_cs u) \<and> seg_data s2 = 0x1B"
proof -
  have q40: "q < 2 ^ 40" using assms(5,6) by (simp add: space_ok_def data_frame_def frames_inv_def)
  note al = page_aligned_page2pa [OF q40]
  let ?r = "phys_to_virt s (page2pa q) + 4096 - 160"
  obtain m where m: "syscall_entry_asm u (int80 u s) = syscall_dispatch ?r
      (s\<lparr>mem := m, cpu := (cpu s)\<lparr>rsp := ?r\<rparr>, seg_cs := 0x08, rflags := sr_rflags u AND NOT IF_FLAG, seg_data := 0x10\<rparr>)"
    "\<forall>x. \<not> in_page (page2pa q) x \<longrightarrow> m x = mem s x" "read_words (s\<lparr>mem := m\<rparr>) ?r 20 = regs_words u"
    by (rule trap_block [OF al assms(7)]) blast
  define s0 where "s0 = s\<lparr>mem := m, cpu := (cpu s)\<lparr>rsp := ?r\<rparr>, seg_cs := 0x08, rflags := sr_rflags u AND NOT IF_FLAG, seg_data := 0x10\<rparr>"
  have W: "space_ok user_half Q (s\<lparr>mem := m\<rparr>)" by (rule data_write(1) [OF assms(5,6) m(2) refl])
  have s0: "console_ok s0" "current_task s0 = Some c" "pml4 (tsk s0 c) = Some (phys_to_virt s0 Q)" "loaded_root s0 = Q" "space_ok user_half Q s0"
    "rsp (cpu s0) = ?r"
    using assms(1-4) W by (simp_all add: s0_def loaded_root_def phys_to_virt_def console_ok_def uart_live_def)
      (simp add: space_ok_def frames_inv_def free_frames_def)
  have ws: "read_words s0 ?r 20 = regs_words u" using m(3) by (subst read_words_fields [of _ "s\<lparr>mem := m\<rparr>"]) (simp_all add: s0_def)
  have args: "hread64 s0 ?r = SYS_WRITE" "hread64 s0 (?r + 32) = sr_rsi u"
    using read_words_nth [of 0 20 s0 ?r] read_words_nth [of 4 20 s0 ?r] ws assms(8) by (simp_all add: regs_words_def)
  obtain v t where v: "sys_write (hread64 s0 (?r + 40)) (sr_rsi u) s0 = Some (Returns v, say t s0)" "v = - 1 \<or> v = min (sr_rsi u) 255"
    by (rule sys_write_run [OF s0(1-5)]) blast
  define s1 where "s1 = hwrite64 ?r v (say t s0)"
  have run: "syscall_entry_asm u (int80 u s) = Some (Returns v, s1)"
    unfolding m(1) s0_def [symmetric] using v(1) args by (simp add: syscall_dispatch_def Let_def finish_def s1_def)
  have "word_aligned s0 ?r" using page_word_aligned [OF al, of 3936 s] by (simp add: s0_def word_aligned_def virt_to_phys_def add_diff_eq [symmetric])
  then have "read_words s1 ?r (Suc 19) = v # tl (read_words s0 ?r (Suc 19))"
    unfolding s1_def using first_word [of "say t s0" ?r 19 v] read_words_fields [of "say t s0" s0 ?r 20] by (simp add: word_aligned_def virt_to_phys_def)
  then have "regs_of (read_words s1 ?r 20) = u\<lparr>sr_rax := v\<rparr>" using ws regs_of_words(1) by simp
  moreover have "rsp (cpu s1) = ?r" by (simp add: s1_def hwrite64_def say_def s0(6))
  ultimately have "syscall_return_asm s1 = (u\<lparr>sr_rax := v\<rparr>, s1\<lparr>seg_data := ucast USER_DS,
      cpu := (cpu s1)\<lparr>rip := sr_rip u, rsp := sr_rsp u\<rparr>, seg_cs := ucast (sr_cs u), rflags := sr_rflags u\<rparr>)"
    by (simp add: syscall_return_spec Let_def)
  then show ?thesis using run v(2) by (simp add: USER_DS_def)
qed

text \<open>A task on the kernel stack in frame 6.\<close>

definition demo_user :: kernel_state where
  "demo_user = demo_ipc\<lparr>kernel_tss := (kernel_tss demo_ipc)\<lparr>rsp0 := 0xFFFF800000007000\<rparr>, cpu := (cpu demo_ipc)\<lparr>rsp := 0xFFFF800000006FF0\<rparr>\<rparr>"

lemma demo_user_ready:
  "console_ok demo_user" "current_task demo_user = Some 1" "pml4 (tsk demo_user 1) = Some (phys_to_virt demo_user 0)" "loaded_root demo_user = 0"
  "space_ok user_half 0 demo_user" "data_frame 0 {} demo_user 6" "rsp0 (kernel_tss demo_user) = phys_to_virt demo_user (page2pa 6) + 4096"
  "word_aligned demo_user (rsp (cpu demo_user))"
proof -
  note M = demo_ipc_mem
  show "console_ok demo_user" using tasks_okD(4) [OF demo_ipc_tasks(1)] by (simp add: demo_user_def console_ok_def uart_live_def)
  show "current_task demo_user = Some 1" "pml4 (tsk demo_user 1) = Some (phys_to_virt demo_user 0)" "loaded_root demo_user = 0"
    using demo_ipc_tasks(2,3) M(3,6) by (simp_all add: demo_user_def phys_to_virt_def loaded_root_def del: One_nat_def)
  have F: "free_frames demo_user = {1, 2, 3, 4, 5}" "mem demo_user = mem demo_frames" "pages demo_user = pages demo_frames"
    using M(1,2,4) by (simp_all add: demo_user_def free_frames_def)
  show "space_ok user_half 0 demo_user"
    using demo_ipc_space by (simp add: demo_user_def space_ok_def frames_inv_def free_frames_def)
  show "data_frame 0 {} demo_user 6" by (simp add: data_frame_def F demo_space(2) page2pa_def PGSIZE_def) (simp add: demo_frames_fields)
  show "rsp0 (kernel_tss demo_user) = phys_to_virt demo_user (page2pa 6) + 4096"
    by (simp add: demo_user_def phys_to_virt_def M(3) page2pa_def PGSIZE_def)
  show "word_aligned demo_user (rsp (cpu demo_user))" by (simp add: demo_user_def word_aligned_def virt_to_phys_def M(3))
qed

theorem enter_usermode_enters_witness:
  "\<exists>s'. enter_usermode 0x401000 0x6000000 demo_user =
      (\<lparr>if_ip = 0x401000, if_cs = USER_CS, if_flags = 0x2, if_sp = 0x6000000, if_ss = USER_DS\<rparr>, s') \<and> rip (cpu s') = 0x401000"
  using enter_usermode_enters [OF demo_user_ready(8), of "0x401000" "0x6000000"] by blast

theorem syscall_preserves_registers_witness:
  "\<exists>v s1 s2. syscall_entry_asm (regs_of (replicate 20 0)) (int80 (regs_of (replicate 20 0)) demo_user) = Some (Returns v, s1) \<and>
     syscall_return_asm s1 = ((regs_of (replicate 20 0))\<lparr>sr_rax := v\<rparr>, s2)"
proof -
  have "sr_rax (regs_of (replicate 20 0)) = SYS_WRITE" by (simp add: regs_of_def SYS_WRITE_def)
  then show ?thesis using syscall_preserves_registers [OF demo_user_ready(1-7), of "regs_of (replicate 20 0)"] by blast
qed

section \<open>The first run of a user task\<close>

lemma fold_zero_bytes: "fold (\<lambda>i s. hwrite8 (a + of_nat i) 0 s) [k..<k + n] s = zero_bytes n (a + of_nat k) s"
proof (induction n arbitrary: k s)
  case (Suc n)
  have "[k..<k + Suc n] = k # [Suc k..<Suc k + n]" by (simp add: upt_conv_Cons)
  then show ?case by (simp only: fold.simps comp_apply Suc zero_bytes.simps) (simp add: ac_simps del: upt_Suc)
qed simp

lemma read64_zero: "(\<And>i. i < 8 \<Longrightarrow> m (a + of_nat i) = 0) \<Longrightarrow> read64 m a = 0"
  by (rule bit_eqI) (simp add: bit_load_bytes)

lemma zeroed_word:
  assumes "j < n" and "8 * n < 2 ^ 64"
  shows "hread64 (zero_bytes (8 * n) a s) (a + 8 * of_nat j) = 0"
proof -
  have "unat (of_nat (8 * j + i) :: u64) < 8 * n" if "i < 8" for i
    using that assms by (simp add: unat_of_nat del: of_nat_add of_nat_mult)
  then show ?thesis
    unfolding hread64_def zero_bytes_mem [OF assms(2)]
    by (intro read64_zero) (simp add: virt_to_phys_def algebra_simps)
qed

lemma user_regs_mem: "\<exists>m. user_regs a entry stk s = s\<lparr>mem := m\<rparr>"
proof -
  have "fold (\<lambda>i s. hwrite8 (a + of_nat i) 0 s) [0..<unat SIZEOF_REGS] s = zero_bytes 160 a s"
    using fold_zero_bytes [of a 0 160 s] by (simp add: SIZEOF_REGS_def)
  then show ?thesis by (auto simp: user_regs_def zero_bytes_mem hwrite64_def Let_def)
qed

lemma unat_small_multiple: "j < 20 \<Longrightarrow> unat (8 * of_nat j :: u64) = 8 * j"
  by (simp add: unat_mult_lem [THEN iffD1] unat_of_nat)

lemma word_multiple: "j < 20 \<Longrightarrow> k < 20 \<Longrightarrow> 8 * of_nat j = (8 * of_nat k :: u64) \<longleftrightarrow> j = k"
  using unat_small_multiple [of j] unat_small_multiple [of k] by (metis mult_cancel1 zero_neq_numeral)

lemma user_regs_read:
  assumes al: "word_aligned s a"
  shows "regs_of (read_words (user_regs a entry stk s) a 20) =
    (regs_of (replicate 20 0))\<lparr>sr_rip := entry, sr_cs := USER_CS, sr_rflags := 0x202, sr_rsp := stk, sr_user_ss := USER_DS\<rparr>"
proof -
  define z where "z = zero_bytes (8 * 20) a s"
  have "fold (\<lambda>i s. hwrite8 (a + of_nat i) 0 s) [0..<unat SIZEOF_REGS] s = z"
    using fold_zero_bytes [of a 0 160 s] by (simp add: SIZEOF_REGS_def z_def)
  then have u: "user_regs a entry stk s =
      hwrite64 (a + 152) USER_DS (hwrite64 (a + 144) stk (hwrite64 (a + 136) 0x202 (hwrite64 (a + 128) USER_CS (hwrite64 (a + 120) entry z))))"
    by (simp add: user_regs_def Let_def)
  have "word_aligned z b = word_aligned s b" for b by (simp add: z_def zero_bytes_mem)
  then have W: "word_aligned z (a + 120)" "word_aligned z (a + 128)" "word_aligned z (a + 136)" "word_aligned z (a + 144)" "word_aligned z (a + 152)"
    "word_aligned z (a + 8 * of_nat j)" if "j < 20" for j
    using word_aligned_add [OF al, of "8 * of_nat j"] word_aligned_add [OF al, of 120] word_aligned_add [OF al, of 128] word_aligned_add [OF al, of 136]
      word_aligned_add [OF al, of 144] word_aligned_add [OF al, of 152] that by (simp_all add: unat_mult_lem [THEN iffD1] unat_of_nat)
  have R: "read_words (user_regs a entry stk s) a 20 ! j =
      (if j = 15 then entry else if j = 16 then USER_CS else if j = 17 then 0x202 else if j = 18 then stk else if j = 19 then USER_DS else 0)"
    if "j < 20" for j
  proof -
    note E = word_multiple [OF that]
    have "8 * of_nat j = (120 :: u64) \<longleftrightarrow> j = 15" "8 * of_nat j = (128 :: u64) \<longleftrightarrow> j = 16" "8 * of_nat j = (136 :: u64) \<longleftrightarrow> j = 17"
      "8 * of_nat j = (144 :: u64) \<longleftrightarrow> j = 18" "8 * of_nat j = (152 :: u64) \<longleftrightarrow> j = 19"
      using E [of 15] E [of 16] E [of 17] E [of 18] E [of 19] by simp_all
    moreover have "hread64 z (a + 8 * of_nat j) = 0" unfolding z_def by (rule zeroed_word [OF that]) simp
    ultimately show ?thesis unfolding u using W [OF that] by (simp add: hread64_hwrite64 read_words_nth [OF that])
  qed
  show ?thesis by (simp add: regs_of_def R)
qed

lemma regs_below_frame: "j < 20 \<Longrightarrow> a + 8 * of_nat j \<notin> {a - 56, a - 48, a - 40, a - 32, a - 24, a - 16, a - 8 :: u64}"
proof -
  assume j: "j < 20"
  have "8 * of_nat j \<noteq> - (of_nat k :: u64)" if "0 < k" "k < 1000" for k
  proof
    assume "8 * of_nat j = - (of_nat k :: u64)"
    then have "of_nat (8 * j + k) = (0 :: u64)" by simp
    moreover have "unat (of_nat (8 * j + k) :: u64) = 8 * j + k" using j that by (simp add: unat_of_nat del: of_nat_add of_nat_mult)
    ultimately show False using that(1) by simp
  qed
  from this [of 8] this [of 16] this [of 24] this [of 32] this [of 40] this [of 48] this [of 56] show ?thesis
    unfolding diff_conv_add_uminus by simp
qed

text \<open>The registers a program starts with, and a task whose kernel stack holds them below a frame for its first switch.\<close>

definition user_start :: "u64 \<Rightarrow> u64 \<Rightarrow> syscall_regs" where
  "user_start entry stk = (regs_of (replicate 20 0))\<lparr>sr_rip := entry, sr_cs := USER_CS, sr_rflags := 0x202, sr_rsp := stk, sr_user_ss := USER_DS\<rparr>"

definition ready_entry :: "nat \<Rightarrow> u64 \<Rightarrow> u64 \<Rightarrow> syscall_regs \<Rightarrow> u64 \<Rightarrow> 'a kernel_state_scheme \<Rightarrow> bool" where
  "ready_entry t root kst u ret s \<longleftrightarrow> pml4 (tsk s t) = Some root \<and> kstack_top (tsk s t) = Some kst \<and> context_rsp (tsk s t) = kst - 216 \<and>
     frame_regs s (kst - 216) = \<lparr>rsp = kst - 160, rbx = 0, rbp = 0, r12 = kst - 160, r13 = 0, r14 = 0, r15 = 0, rip = ret\<rparr> \<and>
     regs_of (read_words s (kst - 160) 20) = u"

lemma ready_entry_cong:
  "task_table s' = task_table s \<Longrightarrow> mem s' = mem s \<Longrightarrow> g_hhdm_offset s' = g_hhdm_offset s \<Longrightarrow> ready_entry t root kst u ret s' = ready_entry t root kst u ret s"
  by (simp add: ready_entry_def frame_regs_def read_words_def hread64_def virt_to_phys_def Let_def)

lemma prepare_ready:
  assumes t: "t < length (task_table s)" "pml4 (tsk s t) = Some root" "kstack_top (tsk s t) = Some kst" and al: "word_aligned s kst"
  obtains s' where "task_prepare_user_entry t entry stk s = Some s'" "ready_entry t root kst (user_start entry stk) (syscall_entry_return s) s'"
    "state (tsk s' t) = TASK_RUNNABLE" "\<And>i. i \<noteq> t \<Longrightarrow> tsk s' i = tsk s i" "g_hhdm_offset s' = g_hhdm_offset s"
proof -
  let ?a = "kst - 160"
  obtain m1 where m1: "user_regs ?a entry stk s = s\<lparr>mem := m1\<rparr>" using user_regs_mem by blast
  have al0: "word_aligned s ?a" using word_aligned_add [OF al, of "- 160"] by simp
  then have al1: "word_aligned (s\<lparr>mem := m1\<rparr>) ?a" by simp
  obtain sp s2 where p: "push_switch_frame ?a (syscall_entry_return s) ?a (s\<lparr>mem := m1\<rparr>) = (sp, s2)" by fastforce
  note P = push_switch_frame_spec [OF al1 p]
  obtain m where m: "s2 = s\<lparr>mem := m\<rparr>" using push_switch_frame_mem [OF p] by auto
  have W: "word_aligned (s\<lparr>mem := m1\<rparr>) (?a + 8 * of_nat j)" if "j < 20" for j
    using word_aligned_add [OF al0, of "8 * of_nat j"] by (simp add: unat_small_multiple [OF that])
  have "read_words s2 ?a 20 = read_words (s\<lparr>mem := m1\<rparr>) ?a 20"
    by (rule nth_equalityI) (simp_all add: read_words_nth P(3) [OF W regs_below_frame] read_words_def del: insert_iff)
  then have regs: "regs_of (read_words s2 ?a 20) = user_start entry stk"
    using user_regs_read [OF al0, of entry stk] by (simp add: m1 user_start_def)
  define s' where "s' = upd_task t (\<lambda>x. x\<lparr>context_rsp := sp, state := TASK_RUNNABLE\<rparr>) s2"
  have "task_prepare_user_entry t entry stk s = Some s'" using p t(3) by (simp add: task_prepare_user_entry_def SIZEOF_REGS_def m1 s'_def Let_def)
  moreover have "frame_regs s' x = frame_regs s2 x" "read_words s' x n = read_words s2 x n" for x n
    by (simp_all add: s'_def frame_regs_quiet_table read_words_def)
  ultimately show thesis
    using that [of s'] t P(1,2) regs by (simp add: ready_entry_def s'_def m) (simp add: upd_task_def)
qed

lemma ready_switch:
  assumes R: "ready_entry t root kst u ret s"
  defines "s2 \<equiv> scheduler_switch_to None t s"
  shows "cr3 s2 = virt_to_phys s root" "rsp0 (kernel_tss s2) = kst" "rip (cpu s2) = ret" "mem s2 = mem s"
    "syscall_return_asm s2 = (u, s2\<lparr>seg_data := ucast USER_DS, cpu := (cpu s2)\<lparr>rip := sr_rip u, rsp := sr_rsp u\<rparr>,
       seg_cs := ucast (sr_cs u), rflags := sr_rflags u\<rparr>)"
proof -
  note D = R [unfolded ready_entry_def]
  have t: "pml4 (tsk s t) = Some root" "kstack_top (tsk s t) = Some kst" "context_rsp (tsk s t) = kst - 216" using D by simp_all
  have s2: "cr3 s2 = virt_to_phys s root" "rsp0 (kernel_tss s2) = kst" "rip (cpu s2) = ret" "rsp (cpu s2) = kst - 160" "mem s2 = mem s"
     "g_hhdm_offset s2 = g_hhdm_offset s"
    unfolding s2_def scheduler_switch_to_def vmm_switch_address_space_def tss_set_rsp0_def context_switch_loads save_context_def t(1) option.case Let_def
    using D by (simp_all add: frame_regs_def hread64_def virt_to_phys_def Let_def)
  then show "cr3 s2 = virt_to_phys s root" "rsp0 (kernel_tss s2) = kst" "rip (cpu s2) = ret" "mem s2 = mem s" by simp_all
  have "read_words s2 (kst - 160) 20 = read_words s (kst - 160) 20" using s2(5,6) by (simp add: read_words_def hread64_def virt_to_phys_def)
  then have "regs_of (read_words s2 (rsp (cpu s2)) 20) = u" using D s2(4) by simp
  then show "syscall_return_asm s2 = (u, s2\<lparr>seg_data := ucast USER_DS, cpu := (cpu s2)\<lparr>rip := sr_rip u, rsp := sr_rsp u\<rparr>,
       seg_cs := ucast (sr_cs u), rflags := sr_rflags u\<rparr>)"
    by (simp add: syscall_return_spec Let_def)
qed

text \<open>Claim C19. A task prepared by \<open>task_prepare_user_entry\<close> starts in ring 3: the first switch into it loads its address space and
  kernel stack and returns into the system call exit path, which pops a register set whose general registers are zero and
  continues at the entry point, on the user stack, with the user selectors and interrupts enabled. No other task is
  touched.\<close>

theorem user_task_starts:
  assumes "t < length (task_table s)" "kstack_top (tsk s t) = Some kst" "word_aligned s kst" "pml4 (tsk s t) = Some root"
  shows "\<exists>s'. task_prepare_user_entry t entry stk s = Some s' \<and> state (tsk s' t) = TASK_RUNNABLE \<and> (\<forall>i. i \<noteq> t \<longrightarrow> tsk s' i = tsk s i) \<and>
    (let s2 = scheduler_switch_to None t s'; (u, s3) = syscall_return_asm s2 in
      cr3 s2 = virt_to_phys s root \<and> rsp0 (kernel_tss s2) = kst \<and> rip (cpu s2) = syscall_entry_return s \<and>
      u = (regs_of (replicate 20 0))\<lparr>sr_rip := entry, sr_cs := USER_CS, sr_rflags := 0x202, sr_rsp := stk, sr_user_ss := USER_DS\<rparr> \<and>
      rip (cpu s3) = entry \<and> rsp (cpu s3) = stk \<and> seg_cs s3 = 0x23 \<and> rflags s3 AND IF_FLAG \<noteq> 0)"
proof -
  obtain s' where s': "task_prepare_user_entry t entry stk s = Some s'" "ready_entry t root kst (user_start entry stk) (syscall_entry_return s) s'"
    "state (tsk s' t) = TASK_RUNNABLE" "\<And>i. i \<noteq> t \<Longrightarrow> tsk s' i = tsk s i" "g_hhdm_offset s' = g_hhdm_offset s"
    by (rule prepare_ready [OF assms(1,4,2,3), where entry = entry and stk = stk]) blast
  note R = ready_switch [OF s'(2)]
  have "virt_to_phys s' root = virt_to_phys s root" using s'(5) by (simp add: virt_to_phys_def)
  then show ?thesis using s'(1,3,4) R(1-3) by (simp add: R(5) Let_def) (simp add: user_start_def USER_CS_def IF_FLAG_def)
qed

definition demo_entry :: kernel_state where
  "demo_entry = upd_task 3 (\<lambda>x. x\<lparr>pml4 := Some 0xFFFF800000000000, kstack_top := Some 0xFFFF800000007000\<rparr>) demo_user"

theorem user_task_starts_witness:
  "\<exists>s'. task_prepare_user_entry 3 0x401000 0x6000000 demo_entry = Some s' \<and>
     (let s2 = scheduler_switch_to None 3 s'; (u, s3) = syscall_return_asm s2 in cr3 s2 = 0 \<and> sr_rip u = 0x401000 \<and> rsp (cpu s3) = 0x6000000)"
proof -
  have len: "length (task_table demo_user) = MAX_TASKS"
    using demo_fork_ready by (simp add: demo_user_def demo_ipc_def demo_fork_def demo_tasks_fields)
  have h: "g_hhdm_offset demo_entry = 0xFFFF800000000000" by (simp add: demo_entry_def upd_task_def demo_user_def demo_ipc_mem(3))
  have t: "3 < length (task_table demo_entry)" "kstack_top (tsk demo_entry 3) = Some 0xFFFF800000007000" "pml4 (tsk demo_entry 3) = Some 0xFFFF800000000000"
    using len by (simp_all add: demo_entry_def MAX_TASKS_def)
  have al: "word_aligned demo_entry 0xFFFF800000007000" by (simp add: word_aligned_def virt_to_phys_def h)
  have z: "virt_to_phys demo_entry 0xFFFF800000000000 = 0" by (simp add: virt_to_phys_def h)
  show ?thesis
    by (rule ex_forward [OF user_task_starts [OF t(1,2) al t(3), of "0x401000" "0x6000000"]]) (auto simp: Let_def z split: prod.splits)
qed

end
