(* ===== verification/FrameUse.thy ===== *)
theory FrameUse
  imports UserMem
begin

text \<open>How many frames each memory operation may take: \<open>uses k s s'\<close> bounds the loss of free frames by \<open>k\<close>, and the bounds
add up along calls and loops.\<close>

section \<open>How many frames a call takes\<close>

text \<open>\<open>uses k s s'\<close>: with a working console the step keeps the allocator well formed and takes at most \<open>k\<close> frames off the free set.\<close>

definition uses :: "nat \<Rightarrow> 'a frame_state_scheme \<Rightarrow> 'a frame_state_scheme \<Rightarrow> bool" where
  "uses k s s' \<longleftrightarrow> (frames_inv s \<and> console_ok s \<longrightarrow> frames_inv s' \<and> console_ok s' \<and> card (free_frames s) \<le> card (free_frames s') + k)"

lemma uses_trans: "uses j s t \<Longrightarrow> uses k t u \<Longrightarrow> uses (j + k) s u"
  by (auto simp: uses_def)

lemma uses_mono: "uses j s t \<Longrightarrow> j \<le> k \<Longrightarrow> uses k s t"
  by (auto simp: uses_def)

lemma uses_mem [simp]: "uses k s (s\<lparr>mem := m\<rparr>)" "uses k s s" "uses k s (hwrite64 a v s)"
  by (simp_all add: uses_def hwrite64_def console_ok_def uart_live_def)

lemma page_alloc_uses: "page_alloc fl s = Some (r, s') \<Longrightarrow> uses 1 s s'"
proof -
  assume run: "page_alloc fl s = Some (r, s')"
  have "frames_inv s' \<and> console_ok s' = console_ok s \<and> card (free_frames s) \<le> card (free_frames s') + 1" if inv: "frames_inv s"
  proof (cases "free_frames s = {}")
    case True
    then show ?thesis using run page_alloc_empty [OF inv True] inv by simp
  next
    case False
    then obtain pp where al: "alloc_post fl s pp s'" using page_alloc_pop [OF inv False, of fl] run by (metis option.inject prod.inject)
    then have "frames_inv s'" "free_frames s' = free_frames s - {pp}" by (simp_all add: alloc_post_def)
    then show ?thesis using mem_frame_console [OF alloc_mem_frame [OF al]] by (simp add: card_Diff_singleton_if) linarith
  qed
  then show ?thesis by (auto simp: uses_def)
qed

lemma uses_then_mem: "uses k s t \<Longrightarrow> uses k s (t\<lparr>mem := m\<rparr>)" "uses k s t \<Longrightarrow> uses k s (hwrite64 a v t)"
  using uses_trans [of k s t 0] by auto

lemma walk_level_uses: "walk_level t i c s = Some (r, s') \<Longrightarrow> uses 1 s s'"
  by (auto simp: walk_level_def Let_def uses_then_mem split: option.splits if_splits bind_splits dest!: page_alloc_uses)

lemma vmm_walk_uses: "vmm_walk p va c s = Some (r, s') \<Longrightarrow> uses 3 s s'"
  by (auto simp: vmm_walk_def uses_def split: option.splits bind_splits dest!: walk_level_uses)

lemma vmm_map_uses: "vmm_map p va pa fl s = Some s' \<Longrightarrow> uses 3 s s'"
  by (auto simp: vmm_map_def uses_then_mem split: option.splits bind_splits dest!: vmm_walk_uses)

lemma copy_up_uses: "copy_up n d a s = Some s' \<Longrightarrow> uses 0 s s'"
proof (induction n arbitrary: d a s)
  case (Suc n)
  then obtain m where "uses 0 (s\<lparr>mem := m\<rparr>) s'" by (auto simp: vwrite8_def hwrite8_def split: bind_splits)
  then show ?case using uses_trans [OF uses_mem(1) [of 0]] by force
qed simp

lemma memcpy_uses: "memcpy d a n s = Some (r, s') \<Longrightarrow> uses 0 s s'"
  by (auto simp: memcpy_def split: bind_splits dest!: copy_up_uses)

lemma kprintf_uses: "kprintf fmt args s = Some s' \<Longrightarrow> uses 0 s s'"
  by (auto simp: uses_def kprintf_console)

definition flow_uses :: "nat \<Rightarrow> ('a frame_state_scheme, 'r \<times> 'a frame_state_scheme) flow option \<Rightarrow> 'a frame_state_scheme \<Rightarrow> bool" where
  "flow_uses k x s \<longleftrightarrow> (\<forall>s'. x = Some (Next s') \<longrightarrow> uses k s s') \<and> (\<forall>r s'. x = Some (Ret (r, s')) \<longrightarrow> uses k s s')"

lemma flow_usesD: "flow_uses k x s \<Longrightarrow> x = Some (Next s') \<Longrightarrow> uses k s s'" "flow_uses k x s \<Longrightarrow> x = Some (Ret (r, s')) \<Longrightarrow> uses k s s'"
  by (auto simp: flow_uses_def)

lemma foreach_uses: "(\<And>x s. flow_uses k (f x s) s) \<Longrightarrow> flow_uses (length xs * k) (foreach f xs s) s"
proof (induction xs arbitrary: s)
  case Nil
  show ?case by (simp add: flow_uses_def)
next
  case (Cons x xs)
  have one: "flow_uses k (f x s) s" and rest: "\<And>s'. flow_uses (length xs * k) (foreach f xs s') s'" using Cons by blast+
  show ?case
  proof (cases "f x s")
    case None
    then show ?thesis by (simp add: flow_uses_def)
  next
    case (Some y)
    show ?thesis
    proof (cases y)
      case (Next s1)
      then have "uses k s s1" using flow_usesD(1) [OF one] Some by simp
      then show ?thesis using rest [of s1] Some Next by (auto simp: flow_uses_def dest: uses_trans)
    next
      case (Ret z)
      then show ?thesis using flow_usesD(2) [OF one] Some by (cases z) (auto simp: flow_uses_def intro: uses_mono)
    qed
  qed
qed

end
