(* ===== verification/Elf.thy ===== *)
theory Elf
  imports FrameUse
begin

text \<open>\<open>elf.h\<close> and \<open>elf.c\<close>: the ELF headers read from the image through the direct map, and the loader, one definition per
nested loop. \<open>load_segment\<close> and \<open>load_image\<close> are the abstract loader: what user memory holds after the segments are
loaded. \<open>loader_inv\<close> is the invariant of the page loop; \<open>elf_image_ok\<close> says what a well-formed image is.\<close>

section \<open>Headers\<close>

definition hread :: "nat \<Rightarrow> 'a machine_scheme \<Rightarrow> u64 \<Rightarrow> u64" where
  "hread n s a = load_bytes n (mem s) (virt_to_phys s a)"

record elf64_ehdr =
  e_ident :: "u8 list"
  e_type :: u16
  e_machine :: u16
  e_version :: u32
  e_entry :: u64
  e_phoff :: u64
  e_shoff :: u64
  e_flags :: u32
  e_ehsize :: u16
  e_phentsize :: u16
  e_phnum :: u16
  e_shentsize :: u16
  e_shnum :: u16
  e_shstrndx :: u16

definition ehdr_at :: "'a machine_scheme \<Rightarrow> u64 \<Rightarrow> elf64_ehdr" where
  "ehdr_at s a = \<lparr>e_ident = map (\<lambda>i. ucast (hread 1 s (a + of_nat i))) [0..<16],
     e_type = ucast (hread 2 s (a + 16)), e_machine = ucast (hread 2 s (a + 18)), e_version = ucast (hread 4 s (a + 20)),
     e_entry = hread 8 s (a + 24), e_phoff = hread 8 s (a + 32), e_shoff = hread 8 s (a + 40), e_flags = ucast (hread 4 s (a + 48)),
     e_ehsize = ucast (hread 2 s (a + 52)), e_phentsize = ucast (hread 2 s (a + 54)), e_phnum = ucast (hread 2 s (a + 56)),
     e_shentsize = ucast (hread 2 s (a + 58)), e_shnum = ucast (hread 2 s (a + 60)), e_shstrndx = ucast (hread 2 s (a + 62))\<rparr>"

record elf64_phdr =
  p_type :: u32
  p_flags :: u32
  p_offset :: u64
  p_vaddr :: u64
  p_paddr :: u64
  p_filesz :: u64
  p_memsz :: u64
  p_align :: u64

definition phdr_at :: "'a machine_scheme \<Rightarrow> u64 \<Rightarrow> elf64_phdr" where
  "phdr_at s a = \<lparr>p_type = ucast (hread 4 s a), p_flags = ucast (hread 4 s (a + 4)), p_offset = hread 8 s (a + 8),
     p_vaddr = hread 8 s (a + 16), p_paddr = hread 8 s (a + 24), p_filesz = hread 8 s (a + 32), p_memsz = hread 8 s (a + 40),
     p_align = hread 8 s (a + 48)\<rparr>"

definition SIZEOF_PHDR :: u64 where "SIZEOF_PHDR = 56"

definition ELF_MAGIC :: u32 where "ELF_MAGIC = 0x464C457F"

definition PT_LOAD :: u32 where "PT_LOAD = 1"

definition elf_rounddown :: "u64 \<Rightarrow> u64 \<Rightarrow> u64" where
  "elf_rounddown v align = v AND NOT (align - 1)"

definition elf_roundup :: "u64 \<Rightarrow> u64 \<Rightarrow> u64" where
  "elf_roundup v align = (v + align - 1) AND NOT (align - 1)"

section \<open>Loading\<close>

text \<open>The frame for one page: the frame already mapped at \<open>va\<close>, or a fresh zeroed one; \<open>None\<close> when there is none.\<close>

definition elf_page_frame :: "u64 \<Rightarrow> u64 \<Rightarrow> 'a frame_state_scheme \<Rightarrow> (u64 option \<times> 'a frame_state_scheme) option" where
  "elf_page_frame pml4 va s =
     do { (existing, s) \<leftarrow> vmm_walk pml4 va False s;
          if (case existing of None \<Rightarrow> True | Some e \<Rightarrow> \<not> present (hread64 s e))
          then do { (pp, s) \<leftarrow> page_alloc 1 s;
                    case pp of
                      None \<Rightarrow> do { s \<leftarrow> kprintf (''elf_load: out of memory'' @ [CHR 0x0A]) [] s; Some (None, s) }
                    | Some pp \<Rightarrow> do { s \<leftarrow> vmm_map pml4 va (page2pa pp) (1 OR 2 OR 4) s; Some (Some (page2pa pp), s) } }
          else Some (Some (pte_get_addr (hread64 s (the existing))), s) }"

definition elf_load_page :: "u64 \<Rightarrow> u64 \<Rightarrow> u64 \<Rightarrow> u64 \<Rightarrow> u64 \<Rightarrow> u64 \<Rightarrow> 'a frame_state_scheme
    \<Rightarrow> ('a frame_state_scheme, u64 option \<times> 'a frame_state_scheme) flow option" where
  "elf_load_page pml4 base seg file_start file_end va s =
     do { (phys, s) \<leftarrow> elf_page_frame pml4 va s;
          case phys of None \<Rightarrow> Some (Ret (None, s)) | Some phys \<Rightarrow>
            let page_hhdm = phys_to_virt s phys;
                page_end = va + 4096;
                copy_lo = (if file_start > va then file_start else va);
                copy_hi = (if file_end < page_end then file_end else page_end)
            in if copy_lo < copy_hi
               then do { let src = base + p_offset (phdr_at s seg) + (copy_lo - p_vaddr (phdr_at s seg));
                             dst = page_hhdm + (copy_lo - va)
                         in do { (_, s) \<leftarrow> memcpy dst src (copy_hi - copy_lo) s; Some (Next s) } }
               else Some (Next s) }"

definition elf_load_segment :: "u64 \<Rightarrow> u64 \<Rightarrow> u64 \<Rightarrow> 'a frame_state_scheme
    \<Rightarrow> ('a frame_state_scheme, u64 option \<times> 'a frame_state_scheme) flow option" where
  "elf_load_segment pml4 base seg s =
     (let ph = phdr_at s seg in
      if p_type ph \<noteq> PT_LOAD then Some (Next s)
      else for_pages (elf_load_page pml4 base seg (p_vaddr ph) (p_vaddr ph + p_filesz ph))
             (elf_rounddown (p_vaddr ph) 4096) (elf_roundup (p_vaddr ph + p_memsz ph) 4096) s)"

lemma unat_lt_u16: "unat (a :: u16) < 2 ^ 16"
  using unsigned_less [of a] by simp

text \<open>The loop over the program headers reads their number again before every iteration, as the code does.\<close>

function elf_load_segments :: "u64 \<Rightarrow> u64 \<Rightarrow> u64 \<Rightarrow> u16 \<Rightarrow> 'a frame_state_scheme
    \<Rightarrow> ('a frame_state_scheme, u64 option \<times> 'a frame_state_scheme) flow option" where
  "elf_load_segments pml4 base ph i s =
     (if i < e_phnum (ehdr_at s base)
      then (case elf_load_segment pml4 base (ph + SIZEOF_PHDR * ucast i) s of
              None \<Rightarrow> None
            | Some (Ret r) \<Rightarrow> Some (Ret r)
            | Some (Next s') \<Rightarrow> elf_load_segments pml4 base ph (i + 1) s')
      else Some (Next s))"
  by pat_completeness auto

termination
proof (relation "measure (\<lambda>(_, _, _, i, _). 2 ^ 16 - unat i)", simp)
  fix i :: u16 and pml4 base ph :: u64 and s s' :: "'a frame_state_scheme"
  assume i: "i < e_phnum (ehdr_at s base)"
  then have "unat i < 2 ^ 16 - 1"
    using unat_lt_u16 [of "e_phnum (ehdr_at s base)"] by (simp add: word_less_nat_alt)
  moreover from this have "unat (i + 1) = Suc (unat i)" by (simp add: unat_word_ariths)
  ultimately show "((pml4, base, ph, i + 1, s'), pml4, base, ph, i, s) \<in> measure (\<lambda>(_, _, _, i, _). 2 ^ 16 - unat i)"
    by simp
qed

definition elf_load :: "u64 \<Rightarrow> u64 \<Rightarrow> 'a frame_state_scheme \<Rightarrow> (u64 option \<times> 'a frame_state_scheme) option" where
  "elf_load pml4 elf_image s =
     (let eh = ehdr_at s elf_image in
      if ucast (hread 4 s elf_image) \<noteq> ELF_MAGIC
      then do { s \<leftarrow> kprintf (''elf_load: bad magic'' @ [CHR 0x0A]) [] s; Some (None, s) }
      else if e_ident eh ! 4 \<noteq> 2
      then do { s \<leftarrow> kprintf (''elf_load: not 64-bit'' @ [CHR 0x0A]) [] s; Some (None, s) }
      else do { x \<leftarrow> elf_load_segments pml4 elf_image (elf_image + e_phoff eh) 0 s;
                case x of Ret r \<Rightarrow> Some r
                | Next s \<Rightarrow> Some (Some (e_entry (ehdr_at s elf_image)), s) })"

declare elf_load_segments.simps [simp del]

section \<open>The invariant of the loader\<close>

definition loader_base :: "u64 \<Rightarrow> u64 set \<Rightarrow> 'a frame_state_scheme \<Rightarrow> 'a frame_state_scheme \<Rightarrow> bool" where
  "loader_base root X s0 s \<longleftrightarrow> space_ok user_half root s \<and> direct_mapped s \<and> console_ok s \<and> g_hhdm_offset s = g_hhdm_offset s0 \<and>
     (\<forall>x \<in> X. mem s x = mem s0 x \<and> (\<forall>f \<in> free_frames s. \<not> in_page (page2pa f) x) \<and>
        (\<forall>t \<in> tables user_half (mem s) root. \<not> in_page t x))"

definition loader_inv :: "u64 \<Rightarrow> u64 set \<Rightarrow> 'a frame_state_scheme \<Rightarrow> 'a frame_state_scheme \<Rightarrow> bool" where
  "loader_inv root X s0 s \<longleftrightarrow> loader_base root X s0 s \<and> maps_ok root X s"

lemma loader_baseD:
  assumes "loader_base root X s0 s"
  shows "space_ok user_half root s" "direct_mapped s" "console_ok s" "g_hhdm_offset s = g_hhdm_offset s0"
    "\<And>x. x \<in> X \<Longrightarrow> mem s x = mem s0 x" "\<And>x f. x \<in> X \<Longrightarrow> f \<in> free_frames s \<Longrightarrow> \<not> in_page (page2pa f) x"
    "\<And>x t. x \<in> X \<Longrightarrow> t \<in> tables user_half (mem s) root \<Longrightarrow> \<not> in_page t x"
  using assms by (auto simp: loader_base_def)

lemma loader_base_mono: "loader_base root X s0 s \<Longrightarrow> Y \<subseteq> X \<Longrightarrow> loader_base root Y s0 s"
  by (auto simp: loader_base_def)

lemma base_step:
  assumes B: "loader_base root X s0 s" and F: "mem_frame (tables user_half (mem s) root) s s'" and ok: "space_ok user_half root s'"
    and T: "tables user_half (mem s') root \<subseteq> tables user_half (mem s) root \<union> page2pa ` (free_frames s - free_frames s')"
  shows "loader_base root X s0 s'"
proof -
  note D = loader_baseD [OF B]
  have "mem s' x = mem s0 x" if "x \<in> X" for x
  proof -
    have "mem s' x = mem s x"
      using F D(6,7) [OF that] unfolding mem_frame_def by blast
    then show ?thesis using D(5) [OF that] by simp
  qed
  moreover have "\<not> in_page (page2pa f) x" if "x \<in> X" "f \<in> free_frames s'" for x f
    using F D(6) [OF that(1)] that(2) unfolding mem_frame_def by blast
  moreover have "\<not> in_page t x" if "x \<in> X" "t \<in> tables user_half (mem s') root" for x t
  proof -
    note X = that(1) and t = that(2)
    consider "t \<in> tables user_half (mem s) root" | f where "t = page2pa f" "f \<in> free_frames s" using T t by blast
    then show ?thesis using D(6,7) [OF X] by cases simp_all
  qed
  ultimately show ?thesis
    unfolding loader_base_def using ok D(2,3,4) mem_frame_same [OF F] mem_frame_console [OF F] by (simp add: direct_mapped_def)
qed

lemma inv_step:
  assumes I: "loader_inv root X s0 s" and F: "mem_frame (tables user_half (mem s) root) s s'" and ok: "space_ok user_half root s'"
    and T: "tables user_half (mem s') root \<subseteq> tables user_half (mem s) root \<union> page2pa ` (free_frames s - free_frames s')"
    and e: "\<And>va. owned user_half va \<Longrightarrow> pte_of (mem s') root va = pte_of (mem s) root va"
  shows "loader_inv root X s0 s'" "user_byte root s' = user_byte root s"
proof -
  have B: "loader_base root X s0 s" and M: "maps_ok root X s" using I by (simp_all add: loader_inv_def)
  note ok0 = loader_baseD(1) [OF B] and D = data_step [OF loader_baseD(1) [OF B] F T]
  have "maps_ok root X s'" by (rule maps_same [OF M e D(1)])
  then show "loader_inv root X s0 s'" using base_step [OF B F ok T] by (simp add: loader_inv_def)
  have "user_byte root s' va = user_byte root s va" for va
  proof (cases "unat va < 2 ^ 47")
    case True
    show ?thesis by (rule user_byte_kept [OF ok0 ok M True e [OF page_of_low(1) [OF True]] D(2)])
  qed (simp add: user_byte_high)
  then show "user_byte root s' = user_byte root s" by blast
qed

lemma map_step:
  assumes I: "loader_inv root X s0 s" and F: "mem_frame (tables user_half (mem s) root) s s'" and ok: "space_ok user_half root s'"
    and T: "tables user_half (mem s') root \<subseteq> tables user_half (mem s) root \<union> page2pa ` (free_frames s - free_frames s')"
    and e: "\<And>w. owned user_half w \<Longrightarrow> pte_of (mem s') root w = (if vpn w = vpn va then pte_make (page2pa pp) 7 else pte_of (mem s) root w)"
    and pp: "data_frame root X s pp" "pp < 2 ^ 40" and zero: "\<forall>i < 4096. mem s (page2pa pp + of_nat i) = 0"
    and fresh: "\<forall>w. owned user_half w \<longrightarrow> present (pte_of (mem s) root w) \<longrightarrow> pte_get_addr (pte_of (mem s) root w) \<noteq> page2pa pp"
  shows "loader_inv root X s0 s'" "user_byte root s' = (\<lambda>w. if unat w < 2 ^ 47 \<and> vpn w = vpn va then Some 0 else user_byte root s w)"
proof -
  have B: "loader_base root X s0 s" and M: "maps_ok root X s" using I by (simp_all add: loader_inv_def)
  note ok0 = loader_baseD(1) [OF B] and D = data_step [OF loader_baseD(1) [OF B] F T]
  have a: "pte_get_addr (pte_make (page2pa pp) 7) = page2pa pp" using leaf_addr [OF pp(2), of 7] by simp
  have g: "grants True True (pte_make (page2pa pp) 7)" by (simp add: grants_def flag_bits bit_pte_make)
  have "maps_ok root X s'"
    unfolding maps_ok_def
  proof (intro conjI allI impI)
    fix w assume w: "owned user_half w" "present (pte_of (mem s') root w)"
    show "grants True True (pte_of (mem s') root w)" using g maps_okD(1) [OF M w(1)] w(2) by (auto simp: e [OF w(1)] split: if_splits)
    show "\<exists>q. data_frame root X s' q \<and> pte_get_addr (pte_of (mem s') root w) = page2pa q"
    proof (cases "vpn w = vpn va")
      case True
      then show ?thesis using D(1) [OF pp(1)] a by (auto simp: e [OF w(1)])
    next
      case False
      then show ?thesis using maps_okD(2) [OF M w(1)] w(2) D(1) by (auto simp: e [OF w(1)])
    qed
    fix w' assume w': "owned user_half w'" "present (pte_of (mem s') root w')"
      and eq: "pte_get_addr (pte_of (mem s') root w) = pte_get_addr (pte_of (mem s') root w')"
    show "vpn w = vpn w'"
    proof (rule ccontr)
      assume "vpn w \<noteq> vpn w'"
      then show False
        using w w' eq a fresh maps_okD(3) [OF M w(1) _ w'(1)] by (auto simp: e [OF w(1)] e [OF w'(1)] split: if_splits)
    qed
  qed
  then show "loader_inv root X s0 s'" using base_step [OF B F ok T] by (simp add: loader_inv_def)
  show "user_byte root s' = (\<lambda>w. if unat w < 2 ^ 47 \<and> vpn w = vpn va then Some 0 else user_byte root s w)"
  proof
    fix w
    show "user_byte root s' w = (if unat w < 2 ^ 47 \<and> vpn w = vpn va then Some 0 else user_byte root s w)"
    proof (cases "unat w < 2 ^ 47")
      case True
      note own = page_of_low(1) [OF True]
      show ?thesis
      proof (cases "vpn w = vpn va")
        case same: True
        have "mem s' (page2pa pp + of_nat (unat w mod 4096)) = 0" using D(2) [OF pp(1)] zero by simp
        then show ?thesis using same True g by (simp add: user_byte_pte [OF ok True] e [OF own] a take_bit_12)
      next
        case False
        then have "pte_of (mem s') root w = pte_of (mem s) root w" using e [OF own] by simp
        then show ?thesis using False user_byte_kept [OF ok0 ok M True _ D(2)] by simp
      qed
    qed (simp add: user_byte_high)
  qed
qed

section \<open>One page\<close>

lemma walk_entry:
  assumes "space_ok user_half root s" "owned user_half va"
  shows "\<exists>r. vmm_walk (phys_to_virt s root) va False s = Some (r, s) \<and>
    (case r of None \<Rightarrow> \<not> present (pte_of (mem s) root va) | Some a \<Rightarrow> hread64 s a = pte_of (mem s) root va)"
proof (rule vmm_walk_step [OF assms(1) assms(2) [unfolded owned_def], of False])
  fix t s1
  assume "vmm_walk (phys_to_virt s root) va False s = Some (Some (entry_ptr (phys_to_virt s1 t) (pt_index va)), s1)"
    "tbl (mem s1) root (dir_path va) = Some t" "False \<or> s1 = s"
  then show ?thesis by (auto simp: pte_of_def pte_at_def leaf_index_def)
next
  fix s1
  assume "vmm_walk (phys_to_virt s root) va False s = Some (None, s1)" "tbl (mem s1) root (dir_path va) = None" "False \<or> s1 = s"
  then show ?thesis by (auto simp: pte_of_def pte_at_def)
qed

definition page_there :: "u64 \<Rightarrow> u64 \<Rightarrow> 'a frame_state_scheme \<Rightarrow> nat \<Rightarrow> 'a frame_state_scheme \<Rightarrow> bool" where
  "page_there root va s q s' \<longleftrightarrow> present (pte_of (mem s') root va) \<and> pte_get_addr (pte_of (mem s') root va) = page2pa q \<and>
     user_byte root s' = (\<lambda>w. if unat w < 2 ^ 47 \<and> vpn w = vpn va \<and> user_byte root s w = None then Some 0 else user_byte root s w)"

lemma fresh_frame:
  assumes I: "loader_inv root X s0 s" and al: "alloc_post 1 s pp s1"
  shows "loader_inv root X s0 s1" "user_byte root s1 = user_byte root s" "data_frame root X s1 pp" "pp < 2 ^ 40"
    "\<forall>i < 4096. mem s1 (page2pa pp + of_nat i) = 0" "mem_frame {} s s1"
    "\<forall>w. owned user_half w \<longrightarrow> present (pte_of (mem s1) root w) \<longrightarrow> pte_get_addr (pte_of (mem s1) root w) \<noteq> page2pa pp"
    "\<And>w. owned user_half w \<Longrightarrow> pte_of (mem s1) root w = pte_of (mem s) root w"
proof -
  have B: "loader_base root X s0 s" and M: "maps_ok root X s" using I by (simp_all add: loader_inv_def)
  have A: "pp \<in> free_frames s" "free_frames s1 = free_frames s - {pp}" "frames_inv s1" "mem s1 = zero_page (page2pa pp) (mem s)"
    using al by (simp_all add: alloc_post_def ALLOC_ZERO_def)
  note ok = loader_baseD(1) [OF B]
  note D = space_okD [OF ok]
  show F: "mem_frame {} s s1" by (rule alloc_mem_frame [OF al])
  note S = space_frame [OF ok F _ _ A(3), simplified]
  show e: "\<And>w. owned user_half w \<Longrightarrow> pte_of (mem s1) root w = pte_of (mem s) root w" by (rule S(2))
  have T: "tables user_half (mem s1) root \<subseteq> tables user_half (mem s) root \<union> page2pa ` (free_frames s - free_frames s1)" using S(3) by simp
  show "loader_inv root X s0 s1" "user_byte root s1 = user_byte root s" 
    using inv_step [OF I mem_frame_mono [OF F] S(1) T e] by blast+
  show pp: "pp < 2 ^ 40" by (rule D(4) [OF A(1)])
  show "\<forall>i < 4096. mem s1 (page2pa pp + of_nat i) = 0" by (simp add: A(4) zero_page_def in_page_nth)
  show "data_frame root X s1 pp"
    unfolding data_frame_def using free_frames_bound [OF A(1)] mem_frame_same(6) [OF F] A(2) D(3) [OF A(1)] S(3) loader_baseD(6) [OF B _ A(1)]
    by simp
  show "\<forall>w. owned user_half w \<longrightarrow> present (pte_of (mem s1) root w) \<longrightarrow> pte_get_addr (pte_of (mem s1) root w) \<noteq> page2pa pp"
  proof (intro allI impI)
    fix w assume w: "owned user_half w" "present (pte_of (mem s1) root w)"
    then obtain q where q: "data_frame root X s q" "pte_get_addr (pte_of (mem s1) root w) = page2pa q"
      using maps_okD(2) [OF M w(1)] e [OF w(1)] by auto
    then have "q < 2 ^ 40" "q \<notin> free_frames s" using D(1) by (simp_all add: data_frame_def frames_inv_def)
    then show "pte_get_addr (pte_of (mem s1) root w) \<noteq> page2pa pp" using page2pa_inj [OF _ pp] A(1) q(2) by auto
  qed
qed

lemma map_fresh:
  assumes I: "loader_inv root X s0 s" and al: "alloc_post 1 s pp s1" and va: "unat va < 2 ^ 47" and absent: "\<not> present (pte_of (mem s) root va)"
  obtains s' where "vmm_map (phys_to_virt s root) va (page2pa pp) 7 s1 = Some s'" "loader_inv root X s0 s'" "data_frame root X s' pp"
    "only_at root va s' pp" "free_frames s' \<subseteq> free_frames s" "free_frames s' = {} \<or> page_there root va s pp s'"
proof -
  note N = fresh_frame [OF I al] and own = page_of_low(1) [OF va]
  have ok1: "space_ok user_half root s1" using N(1) loader_baseD(1) by (auto simp: loader_inv_def)
  have v: "phys_to_virt s = phys_to_virt s1" using N(6) by simp
  have sub1: "free_frames s1 \<subseteq> free_frames s" using N(6) by (simp add: mem_frame_def)
  show thesis
  proof (rule vmm_map_cases [OF ok1 own, of "page2pa pp" 7])
    fix s'
    assume run: "vmm_map (phys_to_virt s1 root) va (page2pa pp) 7 s1 = Some s'" and ok': "space_ok user_half root s'"
      and F: "mem_frame (tables user_half (mem s1) root) s1 s'"
      and e: "\<And>w. owned user_half w \<Longrightarrow> pte_of (mem s') root w = (if vpn w = vpn va then pte_make (page2pa pp) 7 else pte_of (mem s1) root w)"
      and T: "tables user_half (mem s') root \<subseteq> tables user_half (mem s1) root \<union> page2pa ` (free_frames s1 - free_frames s')"
    note S = map_step [OF N(1) F ok' T e N(3,4,5,7)]
    have only: "only_at root va s' pp" unfolding only_at_def using N(7) e by auto
    have a: "pte_get_addr (pte_make (page2pa pp) 7) = page2pa pp" "present (pte_make (page2pa pp) 7)"
      using leaf_addr [OF N(4), of 7] by (simp_all add: flag_bits bit_pte_make)
    have ok: "space_ok user_half root s" using I loader_baseD(1) by (auto simp: loader_inv_def)
    have "user_byte root s w = None" if "unat w < 2 ^ 47" "vpn w = vpn va" for w
      using absent vpn_pte_of [OF that(2)] by (simp add: user_byte_pte [OF ok that(1)] Let_def grants_def)
    then have "page_there root va s pp s'" using S(2) a e [OF own] by (auto simp: page_there_def N(2) fun_eq_iff)
    moreover have "free_frames s' \<subseteq> free_frames s" using F sub1 by (auto simp: mem_frame_def)
    ultimately show thesis
      using that [OF run [folded v] S(1) data_step(1) [OF ok1 F T N(3)] only] by blast
  next
    fix s'
    assume run: "vmm_map (phys_to_virt s1 root) va (page2pa pp) 7 s1 = Some s'" and g: "grows user_half root s1 s'" and none: "free_frames s' = {}"
    have ok': "space_ok user_half root s'" and F: "mem_frame (tables user_half (mem s1) root) s1 s'"
      and T: "tables user_half (mem s') root \<subseteq> tables user_half (mem s1) root \<union> page2pa ` (free_frames s1 - free_frames s')"
      using g by (simp_all add: grows_def)
    have e: "\<And>w. owned user_half w \<Longrightarrow> pte_of (mem s') root w = pte_of (mem s1) root w" by (rule grows_pte_of [OF g])
    have "only_at root va s' pp" unfolding only_at_def using N(7) e by auto
    then show thesis
      using that [OF run [folded v] inv_step(1) [OF N(1) F ok' T e] data_step(1) [OF ok1 F T N(3)]] none by blast
  qed
qed

lemma loader_inv_say: "loader_inv root X s0 (say t s) = loader_inv root X s0 s"
  by (simp add: loader_inv_def loader_base_def maps_ok_def data_frame_def space_ok_def direct_mapped_def phys_to_virt_def)

lemma user_flags: "1 OR 2 OR 4 = (7 :: u64)"
  by simp

lemma page_frame_step:
  assumes I: "loader_inv root X s0 s" and va: "unat va < 2 ^ 47"
  obtains (oom) s' where "elf_page_frame (phys_to_virt s root) va s = Some (None, s')" "loader_inv root X s0 s'" "free_frames s' = {}"
  | (frame) q s' where "elf_page_frame (phys_to_virt s root) va s = Some (Some (page2pa q), s')" "loader_inv root X s0 s'"
      "data_frame root X s' q" "only_at root va s' q" "free_frames s' \<subseteq> free_frames s" "free_frames s' = {} \<or> page_there root va s q s'"
proof -
  have B: "loader_base root X s0 s" and M: "maps_ok root X s" using I by (simp_all add: loader_inv_def)
  note ok = loader_baseD(1) [OF B] and own = page_of_low(1) [OF va]
  obtain r where r: "vmm_walk (phys_to_virt s root) va False s = Some (r, s)"
    "case r of None \<Rightarrow> \<not> present (pte_of (mem s) root va) | Some a \<Rightarrow> hread64 s a = pte_of (mem s) root va"
    using walk_entry [OF ok own] by blast
  show thesis
  proof (cases "present (pte_of (mem s) root va)")
    case True
    then obtain a where a: "r = Some a" "hread64 s a = pte_of (mem s) root va" using r(2) by (cases r) auto
    obtain q where q: "data_frame root X s q" "pte_get_addr (pte_of (mem s) root va) = page2pa q" using maps_okD(2) [OF M own True] by blast
    have run: "elf_page_frame (phys_to_virt s root) va s = Some (Some (page2pa q), s)"
      using r(1) a True q(2) by (simp add: elf_page_frame_def)
    have "only_at root va s q" unfolding only_at_def using maps_okD(3) [OF M own True] q(2) by metis
    moreover have "user_byte root s w \<noteq> None" if "unat w < 2 ^ 47" "vpn w = vpn va" for w
      using maps_okD(1) [OF M own True] vpn_pte_of [OF that(2)] by (simp add: user_byte_pte [OF ok that(1)] Let_def)
    then have "page_there root va s q s" using True q(2) by (auto simp: page_there_def fun_eq_iff)
    ultimately show thesis by (intro frame [OF run I q(1)]) simp_all
  next
    case False
    have walk: "elf_page_frame (phys_to_virt s root) va s = do { (pp, s1) \<leftarrow> page_alloc 1 s;
        case pp of None \<Rightarrow> do { s' \<leftarrow> kprintf (''elf_load: out of memory'' @ [CHR 0x0A]) [] s1; Some (None, s') }
        | Some pp \<Rightarrow> do { s' \<leftarrow> vmm_map (phys_to_virt s root) va (page2pa pp) 7 s1; Some (Some (page2pa pp), s') } }"
      using r False unfolding elf_page_frame_def user_flags by (cases r) simp_all
    show thesis
    proof (cases "free_frames s = {}")
      case True
      define s' where "s' = say (kmsg (''elf_load: out of memory'' @ [CHR 0x0A]) []) s"
      have "elf_page_frame (phys_to_virt s root) va s = Some (None, s')"
        using kprintf_ok [OF loader_baseD(3) [OF B], of "''elf_load: out of memory'' @ [CHR 0x0A]" "[]"]
        by (simp add: walk page_alloc_empty [OF space_okD(1) [OF ok] True] s'_def)
      then show thesis by (rule oom) (use True I in \<open>simp_all add: s'_def loader_inv_say\<close>)
    next
      case free: False
      obtain pp s1 where al: "page_alloc 1 s = Some (Some pp, s1)" "alloc_post 1 s pp s1" using page_alloc_pop [OF space_okD(1) [OF ok] free] by blast
      show thesis
      proof (rule map_fresh [OF I al(2) va False])
        fix s'
        assume m: "vmm_map (phys_to_virt s root) va (page2pa pp) 7 s1 = Some s'"
          and s': "loader_inv root X s0 s'" "data_frame root X s' pp" "only_at root va s' pp" "free_frames s' \<subseteq> free_frames s"
            "free_frames s' = {} \<or> page_there root va s pp s'"
        show thesis using al(1) m by (intro frame [OF _ s']) (simp add: walk)
      qed
    qed
  qed
qed

lemma unat_diff_small:
  assumes "i < 4096" "j < 4096"
  shows "unat (of_nat i - of_nat j :: u64) = (if j \<le> i then i - j else i + 2 ^ 64 - j)"
proof -
  have u: "unat (of_nat i :: u64) = i" "unat (of_nat j :: u64) = j" using assms by (simp_all add: unat_of_nat)
  show ?thesis using unat_sub_if' [of "of_nat i :: u64" "of_nat j"] unfolding u by simp
qed

lemma copy_block_page:
  assumes len: "off + n \<le> 4096"
  shows "i < 4096 \<Longrightarrow> copy_block m (t + of_nat off) p n (t + of_nat i) =
      (if off \<le> i \<and> i < off + n then m (p + of_nat (i - off)) else m (t + of_nat i))"
    "\<not> in_page t x \<Longrightarrow> copy_block m (t + of_nat off) p n x = m x"
proof -
  assume i: "i < 4096"
  show "copy_block m (t + of_nat off) p n (t + of_nat i) =
      (if off \<le> i \<and> i < off + n then m (p + of_nat (i - off)) else m (t + of_nat i))"
  proof (cases "n = 0")
    case False
    then show ?thesis using unat_diff_small [OF i, of off] len i by (auto simp: copy_block_def of_nat_diff)
  qed (auto simp: copy_block_def)
next
  assume x: "\<not> in_page t x"
  have "\<not> unat (x - (t + of_nat off)) < n"
  proof
    assume j: "unat (x - (t + of_nat off)) < n"
    have "x = t + of_nat (off + unat (x - (t + of_nat off)))" by simp
    then have "in_page t x" using in_page_nth [of "off + unat (x - (t + of_nat off))" t] j len by simp
    then show False using x by simp
  qed
  then show "copy_block m (t + of_nat off) p n x = m x" by (simp add: copy_block_def)
qed

lemma page_copy_step:
  assumes I: "loader_inv root X s0 s" and q: "data_frame root X s q" "only_at root va s q" and len: "off + n \<le> 4096"
    and s': "s' = s\<lparr>mem := copy_block (mem s) (page2pa q + of_nat off) p n\<rparr>"
  shows "loader_inv root X s0 s'" "free_frames s' = free_frames s"
    "present (pte_of (mem s) root va) \<Longrightarrow> pte_get_addr (pte_of (mem s) root va) = page2pa q \<Longrightarrow> user_byte root s' =
      (\<lambda>w. if unat w < 2 ^ 47 \<and> vpn w = vpn va \<and> off \<le> unat w mod 4096 \<and> unat w mod 4096 < off + n
        then Some (mem s (p + of_nat (unat w mod 4096 - off))) else user_byte root s w)"
proof -
  have B: "loader_base root X s0 s" and M: "maps_ok root X s" using I by (simp_all add: loader_inv_def)
  note ok = loader_baseD(1) [OF B]
  have off: "\<forall>x. \<not> in_page (page2pa q) x \<longrightarrow> copy_block (mem s) (page2pa q + of_nat off) p n x = mem s x"
    using copy_block_page(2) [OF len] by blast
  note S = frame_write [OF ok M q off s']
  show ff: "free_frames s' = free_frames s" by (simp add: s')
  have "loader_base root X s0 s'"
    unfolding loader_base_def S(5) ff
  proof (intro conjI ballI)
    note D = loader_baseD [OF B]
    show "space_ok user_half root s'" by (rule S(1))
    show "direct_mapped s'" "g_hhdm_offset s' = g_hhdm_offset s0" using D(2,4) mem_frame_same [OF S(3)] by (simp_all add: direct_mapped_def)
    show "console_ok s'" using D(3) mem_frame_console [OF S(3)] by simp
    fix x assume x: "x \<in> X"
    have "\<not> in_page (page2pa q) x" using q(1) x by (simp add: data_frame_def)
    then show "mem s' x = mem s0 x" using off D(5) [OF x] by (simp add: s')
    show "\<not> in_page (page2pa f) x" if "f \<in> free_frames s" for f by (rule D(6) [OF x that])
    show "\<not> in_page t x" if "t \<in> tables user_half (mem s) root" for t by (rule D(7) [OF x that])
  qed
  then show "loader_inv root X s0 s'" using S(2) by (simp add: loader_inv_def)
  assume there: "present (pte_of (mem s) root va)" "pte_get_addr (pte_of (mem s) root va) = page2pa q"
  have own: "owned user_half va" if "unat w < 2 ^ 47" "vpn w = vpn va" for w
    using page_of_low(1) [OF that(1)] vpn_owned [OF that(2)] by simp
  have "user_byte root s w = Some (mem s (page2pa q + of_nat (unat w mod 4096)))" if w: "unat w < 2 ^ 47" "vpn w = vpn va" for w
    using maps_okD(1) [OF M own [OF w] there(1)] there(2) vpn_pte_of [OF w(2)] by (simp add: user_byte_pte [OF ok w(1)] take_bit_12)
  then show "user_byte root s' = (\<lambda>w. if unat w < 2 ^ 47 \<and> vpn w = vpn va \<and> off \<le> unat w mod 4096 \<and> unat w mod 4096 < off + n
        then Some (mem s (p + of_nat (unat w mod 4096 - off))) else user_byte root s w)"
    unfolding S(6) [OF there] by (auto simp: fun_eq_iff copy_block_page(1) [OF len])
qed

section \<open>What loading a page does\<close>

definition image_addrs :: "'a machine_scheme \<Rightarrow> u64 \<Rightarrow> nat \<Rightarrow> u64 set" where
  "image_addrs s base n = (\<lambda>i. virt_to_phys s base + of_nat i) ` {..<n}"

lemma image_addr_in: "image_addrs s base n \<subseteq> X \<Longrightarrow> i < n \<Longrightarrow> virt_to_phys s base + of_nat i \<in> X"
  by (auto simp: image_addrs_def)

definition segment_ok :: "nat \<Rightarrow> elf64_phdr \<Rightarrow> bool" where
  "segment_ok n ph \<longleftrightarrow> unat (p_vaddr ph) + unat (p_memsz ph) \<le> 2 ^ 47 \<and> unat (p_filesz ph) \<le> unat (p_memsz ph) \<and>
     unat (p_offset ph) + unat (p_filesz ph) \<le> n"

definition load_cell :: "'a machine_scheme \<Rightarrow> u64 \<Rightarrow> elf64_phdr \<Rightarrow> u64 \<Rightarrow> u8 option \<Rightarrow> u8 option" where
  "load_cell s0 base ph w x =
     Some (if p_vaddr ph \<le> w \<and> w < p_vaddr ph + p_filesz ph
           then mem s0 (virt_to_phys s0 (base + p_offset ph + (w - p_vaddr ph)))
           else case x of None \<Rightarrow> 0 | Some b \<Rightarrow> b)"

lemma load_cell_idem [simp]: "load_cell s0 base ph w (load_cell s0 base ph w x) = load_cell s0 base ph w x"
  by (simp add: load_cell_def)

lemma kernel_range_sub:
  assumes "kernel_range a m" "i + n \<le> m" "0 < n"
  shows "kernel_range (a + of_nat i) n"
  using assms kernel_range_nth [OF assms(1), of i] by (simp add: kernel_range_def)

lemma page_copy_run:
  assumes B: "loader_base root X s0 s" and q: "data_frame root X s q" and X: "image_addrs s0 base N \<subseteq> X" and kr: "kernel_range base N"
    and len: "off + n \<le> 4096" "0 < n" and src: "k + n \<le> N"
  shows "memcpy (phys_to_virt s (page2pa q) + of_nat off) (base + of_nat k) (of_nat n) s =
    Some (phys_to_virt s (page2pa q) + of_nat off, s\<lparr>mem := copy_block (mem s) (page2pa q + of_nat off) (virt_to_phys s0 base + of_nat k) n\<rparr>)"
proof -
  note D = loader_baseD [OF B]
  have h: "virt_to_phys s = virt_to_phys s0" using D(4) by (simp add: virt_to_phys_def fun_eq_iff)
  have "kernel_range (phys_to_virt s (page2pa q)) 4096" using D(2) q by (simp add: direct_mapped_def data_frame_def)
  then have d: "kernel_range (phys_to_virt s (page2pa q) + of_nat off) n" using len by (intro kernel_range_sub)
  have p: "kernel_range (base + of_nat k) n" using kr src len by (intro kernel_range_sub)
  have ne: "base + of_nat k + of_nat j \<noteq> phys_to_virt s (page2pa q) + of_nat off + of_nat i" if ij: "i < j" "j < n" for i j
  proof
    assume "base + of_nat k + of_nat j = phys_to_virt s (page2pa q) + of_nat off + of_nat i"
    then have "virt_to_phys s (base + of_nat (k + j)) = virt_to_phys s (phys_to_virt s (page2pa q) + of_nat (off + i))"
      by (simp add: add.assoc)
    then have eq: "virt_to_phys s0 base + of_nat (k + j) = page2pa q + of_nat (off + i)" by (simp only: virt_to_phys_linear h [symmetric] virt_to_phys_inverse)
    have "virt_to_phys s0 base + of_nat (k + j) \<in> X" using ij src by (intro image_addr_in [OF X]) simp
    moreover have "in_page (page2pa q) (page2pa q + of_nat (off + i))" by (rule in_page_nth) (use ij len in simp)
    ultimately show False using q unfolding data_frame_def eq by blast
  qed
  have n: "unat (of_nat n :: u64) = n" using len by (simp add: unat_of_nat)
  have n': "n < 2 ^ 64 - 1" using len by simp
  show ?thesis
    using copy_up_kernel [OF d p n' ne, of s] by (simp add: memcpy_def n virt_to_phys_linear h [symmetric])
qed

lemma word_diff: "a \<le> b \<Longrightarrow> b - a = of_nat (unat b - unat a)" for a b :: u64
  by (simp add: of_nat_diff word_le_nat_alt)

definition copy_lo :: "u64 \<Rightarrow> u64 \<Rightarrow> u64" where
  "copy_lo fs v = (if fs > v then fs else v)"

definition copy_hi :: "u64 \<Rightarrow> u64 \<Rightarrow> u64" where
  "copy_hi fe v = (if fe < v + 4096 then fe else v + 4096)"

lemma copy_range:
  assumes v: "page_aligned v" "unat v < 2 ^ 47"
  shows "v \<le> copy_lo fs v" "fs \<le> copy_lo fs v" "unat (copy_hi fe v) \<le> unat v + 4096" "copy_hi fe v \<le> fe"
    "unat w < 2 ^ 47 \<Longrightarrow> vpn w = vpn v \<Longrightarrow> copy_lo fs v \<le> w \<and> w < copy_hi fe v \<longleftrightarrow> fs \<le> w \<and> w < fe"
proof -
  note P = page_bounds [OF v]
  show "v \<le> copy_lo fs v" "fs \<le> copy_lo fs v" by (auto simp: copy_lo_def)
  show "unat (copy_hi fe v) \<le> unat v + 4096" using P(1) by (auto simp: copy_hi_def word_less_nat_alt)
  show "copy_hi fe v \<le> fe" by (auto simp: copy_hi_def)
  assume w: "unat w < 2 ^ 47" "vpn w = vpn v"
  have "unat w mod 4096 < 4096" by simp
  then have "v \<le> w" "w < v + 4096" using P(2) [OF w] P(1) by (simp_all add: word_le_nat_alt word_less_nat_alt)
  then show "copy_lo fs v \<le> w \<and> w < copy_hi fe v \<longleftrightarrow> fs \<le> w \<and> w < fe"
    by (auto simp: copy_lo_def copy_hi_def)
qed

lemma load_page_copy:
  assumes I: "loader_inv root X s0 s" and X: "image_addrs s0 base N \<subseteq> X" and kr: "kernel_range base N" and seg: "segment_ok N ph"
    and v: "page_aligned v" "unat v < 2 ^ 47" and q: "data_frame root X s q" "only_at root v s q"
  defines "lo \<equiv> copy_lo (p_vaddr ph) v" and "hi \<equiv> copy_hi (p_vaddr ph + p_filesz ph) v"
  assumes lt: "lo < hi"
  obtains r s' where "memcpy (phys_to_virt s (page2pa q) + (lo - v)) (base + p_offset ph + (lo - p_vaddr ph)) (hi - lo) s = Some (r, s')"
    "loader_inv root X s0 s'" "free_frames s' = free_frames s"
    "present (pte_of (mem s) root v) \<Longrightarrow> pte_get_addr (pte_of (mem s) root v) = page2pa q \<Longrightarrow> user_byte root s' =
      (\<lambda>w. if unat w < 2 ^ 47 \<and> vpn w = vpn v \<and> lo \<le> w \<and> w < hi
        then Some (mem s0 (virt_to_phys s0 (base + p_offset ph + (w - p_vaddr ph)))) else user_byte root s w)"
proof -
  have B: "loader_base root X s0 s" using I by (simp add: loader_inv_def)
  note C = copy_range [OF v] and P = page_bounds [OF v]
  define off n k where "off = unat lo - unat v" and "n = unat hi - unat lo" and "k = unat (p_offset ph) + (unat lo - unat (p_vaddr ph))"
  have le: "unat v \<le> unat lo" "unat (p_vaddr ph) \<le> unat lo" "unat lo < unat hi" "unat hi \<le> unat v + 4096"
    "unat hi \<le> unat (p_vaddr ph + p_filesz ph)"
    using C(1,2,3,4) lt unfolding lo_def hi_def by (simp_all add: word_le_nat_alt word_less_nat_alt)
  have fe: "unat (p_vaddr ph + p_filesz ph) = unat (p_vaddr ph) + unat (p_filesz ph)"
    using seg by (subst unat_add_lem [THEN iffD1]) (auto simp: segment_ok_def)
  have len: "off + n \<le> 4096" "0 < n" using le by (auto simp: off_def n_def)
  have kn: "k + n \<le> N" using le fe seg by (auto simp: k_def n_def segment_ok_def)
  have eq: "lo - v = of_nat off" "hi - lo = of_nat n" "base + p_offset ph + (lo - p_vaddr ph) = base + of_nat k"
  proof -
    show "lo - v = of_nat off" "hi - lo = of_nat n"
      unfolding off_def n_def by (rule word_diff; use le in \<open>simp add: word_le_nat_alt\<close>)+
    have "lo - p_vaddr ph = of_nat (unat lo - unat (p_vaddr ph))" by (rule word_diff) (use le in \<open>simp add: word_le_nat_alt\<close>)
    then show "base + p_offset ph + (lo - p_vaddr ph) = base + of_nat k" unfolding k_def by simp
  qed
  define s' where "s' = s\<lparr>mem := copy_block (mem s) (page2pa q + of_nat off) (virt_to_phys s0 base + of_nat k) n\<rparr>"
  note S = page_copy_step [OF I q len(1) s'_def]
  have run: "memcpy (phys_to_virt s (page2pa q) + (lo - v)) (base + p_offset ph + (lo - p_vaddr ph)) (hi - lo) s =
      Some (phys_to_virt s (page2pa q) + of_nat off, s')"
    unfolding eq s'_def by (rule page_copy_run [OF B q(1) X kr len kn])
  have ub: "user_byte root s' =
      (\<lambda>w. if unat w < 2 ^ 47 \<and> vpn w = vpn v \<and> lo \<le> w \<and> w < hi
        then Some (mem s0 (virt_to_phys s0 (base + p_offset ph + (w - p_vaddr ph)))) else user_byte root s w)"
    if there: "present (pte_of (mem s) root v)" "pte_get_addr (pte_of (mem s) root v) = page2pa q"
  proof
    fix w
    show "user_byte root s' w = (if unat w < 2 ^ 47 \<and> vpn w = vpn v \<and> lo \<le> w \<and> w < hi
        then Some (mem s0 (virt_to_phys s0 (base + p_offset ph + (w - p_vaddr ph)))) else user_byte root s w)"
    proof (cases "unat w < 2 ^ 47 \<and> vpn w = vpn v")
      case True
      have w: "unat w = unat v + unat w mod 4096" using P(2) True by blast
      then have iff: "off \<le> unat w mod 4096 \<and> unat w mod 4096 < off + n \<longleftrightarrow> lo \<le> w \<and> w < hi"
        using le by (auto simp: off_def n_def word_le_nat_alt word_less_nat_alt)
      have "mem s (virt_to_phys s0 base + of_nat k + of_nat (unat w mod 4096 - off)) = mem s0 (virt_to_phys s0 (base + p_offset ph + (w - p_vaddr ph)))"
        if in_range: "lo \<le> w" "w < hi"
      proof -
        have r: "unat lo \<le> unat w" "unat w < unat hi" using in_range by (simp_all add: word_le_nat_alt word_less_nat_alt)
        let ?i = "unat (p_offset ph) + (unat w - unat (p_vaddr ph))"
        have i: "k + (unat w mod 4096 - off) = ?i" "?i < N" using w r le kn by (auto simp: k_def off_def n_def)
        have "p_vaddr ph \<le> w" using r le by (simp add: word_le_nat_alt)
        then have a: "virt_to_phys s0 (base + p_offset ph + (w - p_vaddr ph)) = virt_to_phys s0 base + of_nat ?i"
          by (simp add: word_diff virt_to_phys_linear)
        have "virt_to_phys s0 base + of_nat ?i \<in> X" using i(2) by (intro image_addr_in [OF X]) simp
        moreover have "virt_to_phys s0 base + of_nat k + of_nat (unat w mod 4096 - off) = virt_to_phys s0 base + of_nat ?i"
          unfolding i(1) [symmetric] by (simp add: add.assoc)
        ultimately show ?thesis using loader_baseD(5) [OF B] unfolding a by (simp only:)
      qed
      then show ?thesis using S(3) [OF there] True iff by simp
    qed (use S(3) [OF there] in auto)
  qed
  show thesis by (rule that [OF run S(1,2) ub])
qed

lemma load_page_step:
  assumes I: "loader_inv root X s0 s" and X: "image_addrs s0 base N \<subseteq> X" and kr: "kernel_range base N"
    and seg: "segment_ok N ph" and ph: "\<And>s. loader_base root X s0 s \<Longrightarrow> phdr_at s a = ph"
    and v: "page_aligned v" "unat v < 2 ^ 47"
  obtains (oom) s' where "elf_load_page (phys_to_virt s0 root) base a (p_vaddr ph) (p_vaddr ph + p_filesz ph) v s = Some (Ret (None, s'))"
      "loader_inv root X s0 s'" "free_frames s' = {}"
  | (page) s' where "elf_load_page (phys_to_virt s0 root) base a (p_vaddr ph) (p_vaddr ph + p_filesz ph) v s = Some (Next s')"
      "loader_inv root X s0 s'" "free_frames s' \<subseteq> free_frames s"
      "free_frames s' = {} \<or> user_byte root s' = (\<lambda>w. if unat w < 2 ^ 47 \<and> vpn w = vpn v then load_cell s0 base ph w (user_byte root s w)
         else user_byte root s w)"
proof -
  let ?lo = "copy_lo (p_vaddr ph) v" and ?hi = "copy_hi (p_vaddr ph + p_filesz ph) v"
  have base: "loader_base root X s0 s'" if "loader_inv root X s0 s'" for s' using that by (simp add: loader_inv_def)
  have "phys_to_virt s = phys_to_virt s0" using loader_baseD(4) [OF base [OF I]] by (simp add: phys_to_virt_def fun_eq_iff)
  note R = page_frame_step [OF I v(2), unfolded this]
  show thesis
  proof (rule R)
    fix s' assume "elf_page_frame (phys_to_virt s0 root) v s = Some (None, s')" "loader_inv root X s0 s'" "free_frames s' = {}"
    then show thesis by (intro oom) (simp_all add: elf_load_page_def)
  next
    fix q s1
    assume f: "elf_page_frame (phys_to_virt s0 root) v s = Some (Some (page2pa q), s1)" and I1: "loader_inv root X s0 s1"
      and q: "data_frame root X s1 q" "only_at root v s1 q" and sub: "free_frames s1 \<subseteq> free_frames s"
      and there: "free_frames s1 = {} \<or> page_there root v s q s1"
    have run: "elf_load_page (phys_to_virt s0 root) base a (p_vaddr ph) (p_vaddr ph + p_filesz ph) v s =
      (if ?lo < ?hi then do { (_, s') \<leftarrow> memcpy (phys_to_virt s1 (page2pa q) + (?lo - v)) (base + p_offset ph + (?lo - p_vaddr ph)) (?hi - ?lo) s1;
         Some (Next s') } else Some (Next s1))"
      using f ph [OF base [OF I1]] by (simp add: elf_load_page_def Let_def copy_lo_def copy_hi_def)
    show thesis
    proof (cases "?lo < ?hi")
      case True
      obtain r s' where c: "memcpy (phys_to_virt s1 (page2pa q) + (?lo - v)) (base + p_offset ph + (?lo - p_vaddr ph)) (?hi - ?lo) s1 = Some (r, s')"
        "loader_inv root X s0 s'" "free_frames s' = free_frames s1"
        "present (pte_of (mem s1) root v) \<Longrightarrow> pte_get_addr (pte_of (mem s1) root v) = page2pa q \<Longrightarrow> user_byte root s' =
          (\<lambda>w. if unat w < 2 ^ 47 \<and> vpn w = vpn v \<and> ?lo \<le> w \<and> w < ?hi
            then Some (mem s0 (virt_to_phys s0 (base + p_offset ph + (w - p_vaddr ph)))) else user_byte root s1 w)"
        by (rule load_page_copy [OF I1 X kr seg v q True]) blast
      have "user_byte root s' = (\<lambda>w. if unat w < 2 ^ 47 \<and> vpn w = vpn v then load_cell s0 base ph w (user_byte root s w) else user_byte root s w)"
        if "page_there root v s q s1"
        using that c(4) copy_range(5) [OF v] by (auto simp: page_there_def load_cell_def fun_eq_iff split: option.split)
      then show thesis using c(2,3) sub there by (intro page [OF _ c(2)]) (auto simp: run True c(1))
    next
      case False
      then have "\<not> (p_vaddr ph \<le> w \<and> w < p_vaddr ph + p_filesz ph)" if "unat w < 2 ^ 47" "vpn w = vpn v" for w
        using copy_range(5) [OF v that] by (meson le_less_trans)
      then have "user_byte root s1 = (\<lambda>w. if unat w < 2 ^ 47 \<and> vpn w = vpn v then load_cell s0 base ph w (user_byte root s w) else user_byte root s w)"
        if "page_there root v s q s1"
        using that by (auto simp: page_there_def load_cell_def fun_eq_iff split: option.split)
      then show thesis using sub there by (intro page [OF _ I1]) (auto simp: run False)
    qed
  qed
qed

section \<open>The loops\<close>

subsection \<open>Frames the loader takes\<close>

lemma elf_page_frame_uses: "elf_page_frame p va s = Some (r, s') \<Longrightarrow> uses 4 s s'"
proof -
  assume run: "elf_page_frame p va s = Some (r, s')"
  have walk: "vmm_walk p va False s = Some (x, s1) \<Longrightarrow> s1 = s" for x s1
    by (auto simp: vmm_walk_def walk_level_def split: option.splits if_splits bind_splits)
  show ?thesis
    using run by (auto simp: elf_page_frame_def uses_def split: if_splits option.splits bind_splits
      dest!: walk page_alloc_uses vmm_map_uses kprintf_uses)
qed

lemma elf_load_page_uses: "flow_uses 4 (elf_load_page p base sh fs fe va s) s"
  unfolding flow_uses_def elf_load_page_def Let_def
  by (auto split: if_split_asm option.split_asm bind_split_asm dest!: elf_page_frame_uses memcpy_uses) (auto simp: uses_def)

definition seg_pages :: "elf64_phdr \<Rightarrow> nat" where
  "seg_pages ph = (if p_type ph = PT_LOAD then length (page_range (rounddown (p_vaddr ph) 4096) (roundup (p_vaddr ph + p_memsz ph) 4096)) else 0)"

definition load_segment :: "'a machine_scheme \<Rightarrow> u64 \<Rightarrow> elf64_phdr \<Rightarrow> (u64 \<Rightarrow> u8 option) \<Rightarrow> u64 \<Rightarrow> u8 option" where
  "load_segment s0 base ph M w =
     (if p_type ph = PT_LOAD \<and> rounddown (p_vaddr ph) 4096 \<le> w \<and> w < roundup (p_vaddr ph + p_memsz ph) 4096
      then load_cell s0 base ph w (M w) else M w)"

lemma load_pages:
  assumes X: "image_addrs s0 base N \<subseteq> X" and kr: "kernel_range base N"
    and seg: "segment_ok N ph" and ph: "\<And>s. loader_base root X s0 s \<Longrightarrow> phdr_at s a = ph"
  shows "loader_inv root X s0 s \<Longrightarrow> (\<And>v. v \<in> set vs \<Longrightarrow> page_aligned v \<and> unat v < 2 ^ 47) \<Longrightarrow>
    \<exists>r. foreach (elf_load_page (phys_to_virt s0 root) base a (p_vaddr ph) (p_vaddr ph + p_filesz ph)) vs s = Some r \<and>
      (case r of Ret x \<Rightarrow> fst x = None \<and> loader_inv root X s0 (snd x) \<and> free_frames (snd x) = {}
       | Next s' \<Rightarrow> loader_inv root X s0 s' \<and> free_frames s' \<subseteq> free_frames s \<and> (free_frames s' = {} \<or> user_byte root s' =
           (\<lambda>w. if unat w < 2 ^ 47 \<and> vpn w \<in> vpn ` set vs then load_cell s0 base ph w (user_byte root s w) else user_byte root s w)))"
proof (induction vs arbitrary: s)
  case Nil
  then show ?case by simp
next
  case (Cons v vs)
  let ?f = "elf_load_page (phys_to_virt s0 root) base a (p_vaddr ph) (p_vaddr ph + p_filesz ph)"
  have v: "page_aligned v" "unat v < 2 ^ 47" using Cons.prems(2) [of v] by simp_all
  show ?case
  proof (rule load_page_step [OF Cons.prems(1) X kr seg ph v])
    fix s' assume "?f v s = Some (Ret (None, s'))" "loader_inv root X s0 s'" "free_frames s' = {}"
    then show ?thesis by simp
  next
    fix s1
    assume run: "?f v s = Some (Next s1)" and I1: "loader_inv root X s0 s1" and sub: "free_frames s1 \<subseteq> free_frames s"
      and u: "free_frames s1 = {} \<or> user_byte root s1 = (\<lambda>w. if unat w < 2 ^ 47 \<and> vpn w = vpn v then load_cell s0 base ph w (user_byte root s w)
         else user_byte root s w)"
    obtain r where r: "foreach ?f vs s1 = Some r" and post: "case r of Ret x \<Rightarrow> fst x = None \<and> loader_inv root X s0 (snd x) \<and> free_frames (snd x) = {}
       | Next s' \<Rightarrow> loader_inv root X s0 s' \<and> free_frames s' \<subseteq> free_frames s1 \<and> (free_frames s' = {} \<or> user_byte root s' =
           (\<lambda>w. if unat w < 2 ^ 47 \<and> vpn w \<in> vpn ` set vs then load_cell s0 base ph w (user_byte root s1 w) else user_byte root s1 w))"
      using Cons.IH [OF I1] Cons.prems(2) by auto
    show ?thesis
    proof (cases r)
      case (Ret x)
      then show ?thesis using run r post by auto
    next
      case (Next s')
      have "free_frames s' = {} \<or> user_byte root s' = (\<lambda>w. if unat w < 2 ^ 47 \<and> vpn w \<in> vpn ` set (v # vs)
          then load_cell s0 base ph w (user_byte root s w) else user_byte root s w)"
        using post Next u by (auto simp: fun_eq_iff)
      then show ?thesis using run r post Next sub by auto
    qed
  qed
qed

lemma elf_rounding: "elf_rounddown = rounddown" "elf_roundup = roundup"
  by (simp_all add: fun_eq_iff elf_rounddown_def elf_roundup_def rounddown_def roundup_def)

lemma segment_pages:
  assumes seg: "segment_ok N ph"
  defines "a \<equiv> rounddown (p_vaddr ph) 4096" and "b \<equiv> roundup (p_vaddr ph + p_memsz ph) 4096"
  shows "v \<in> set (page_range a b) \<Longrightarrow> page_aligned v \<and> unat v < 2 ^ 47"
    "unat w < 2 ^ 47 \<Longrightarrow> vpn w \<in> vpn ` set (page_range a b) \<longleftrightarrow> a \<le> w \<and> w < b" "unat b \<le> 2 ^ 47"
proof -
  have fe: "unat (p_vaddr ph + p_memsz ph) = unat (p_vaddr ph) + unat (p_memsz ph)"
    using seg by (subst unat_add_lem [THEN iffD1]) (auto simp: segment_ok_def)
  have al: "page_aligned a" "page_aligned b" by (simp_all add: a_def b_def)
  have "unat b = (unat (p_vaddr ph + p_memsz ph) + 4095) div 4096 * 4096"
    unfolding b_def using seg fe by (intro unat_roundup_page) (simp add: segment_ok_def)
  also have "\<dots> \<le> 2 ^ 47"
  proof -
    have "unat (p_vaddr ph + p_memsz ph) + 4095 < 4096 * (2 ^ 35 + 1)" using seg fe by (simp add: segment_ok_def)
    then have "(unat (p_vaddr ph + p_memsz ph) + 4095) div 4096 < 2 ^ 35 + 1" by (simp only: less_mult_imp_div_less mult.commute)
    then show ?thesis by simp
  qed
  finally show b47: "unat b \<le> 2 ^ 47" .
  note R = set_page_range [OF al]
  show "page_aligned v \<and> unat v < 2 ^ 47" if "v \<in> set (page_range a b)" for v
    using that b47 unfolding R by (simp add: word_less_nat_alt)
  obtain i j where ij: "unat a = 4096 * i" "unat b = 4096 * j" using al by (meson page_alignedE)
  assume w: "unat w < 2 ^ 47"
  have rd: "unat (rounddown w 4096) = unat w div 4096 * 4096" by (rule unat_rounddown_page)
  show "vpn w \<in> vpn ` set (page_range a b) \<longleftrightarrow> a \<le> w \<and> w < b"
  proof
    assume "vpn w \<in> vpn ` set (page_range a b)"
    then obtain v where v: "vpn w = vpn v" "page_aligned v" "a \<le> v" "v < b" unfolding R by blast
    moreover have "unat v < 2 ^ 47" using v(4) b47 by (simp add: word_less_nat_alt)
    ultimately have "unat w div 4096 = unat v div 4096" using vpn_low w by blast
    moreover obtain k where "unat v = 4096 * k" using v(2) by (rule page_alignedE)
    ultimately show "a \<le> w \<and> w < b" using v(3,4) ij by (simp add: word_le_nat_alt word_less_nat_alt) linarith
  next
    assume "a \<le> w \<and> w < b"
    then have "rounddown w 4096 \<in> set (page_range a b)"
      unfolding R using rd ij
      by (simp add: word_le_nat_alt word_less_nat_alt less_eq_div_iff_mult_less_eq div_less_iff_less_mult mult.commute)
    then show "vpn w \<in> vpn ` set (page_range a b)" using vpn_rounddown [of w] by (metis imageI)
  qed
qed

lemma elf_load_segment_uses: "flow_uses (4 * seg_pages (phdr_at s a)) (elf_load_segment p base a s) s"
proof (cases "p_type (phdr_at s a) = PT_LOAD")
  case True
  then show ?thesis
    using foreach_uses [of 4 "elf_load_page p base a (p_vaddr (phdr_at s a)) (p_vaddr (phdr_at s a) + p_filesz (phdr_at s a))"
        "page_range (rounddown (p_vaddr (phdr_at s a)) 4096) (roundup (p_vaddr (phdr_at s a) + p_memsz (phdr_at s a)) 4096)" s, OF elf_load_page_uses]
    by (simp add: elf_load_segment_def Let_def elf_rounding for_pages_foreach seg_pages_def mult.commute)
qed (simp add: elf_load_segment_def flow_uses_def seg_pages_def)

lemma segment_step:
  assumes I: "loader_inv root X s0 s" and X: "image_addrs s0 base N \<subseteq> X" and kr: "kernel_range base N"
    and seg: "p_type ph = PT_LOAD \<Longrightarrow> segment_ok N ph" and ph: "\<And>s. loader_base root X s0 s \<Longrightarrow> phdr_at s a = ph"
  shows "\<exists>r. elf_load_segment (phys_to_virt s0 root) base a s = Some r \<and>
      (case r of Ret x \<Rightarrow> fst x = None \<and> loader_inv root X s0 (snd x) \<and> free_frames (snd x) = {}
       | Next s' \<Rightarrow> loader_inv root X s0 s' \<and> free_frames s' \<subseteq> free_frames s \<and>
           (free_frames s' = {} \<or> user_byte root s' = load_segment s0 base ph (user_byte root s)))"
proof (cases "p_type ph = PT_LOAD")
  case True
  let ?a = "rounddown (p_vaddr ph) 4096" and ?b = "roundup (p_vaddr ph + p_memsz ph) 4096"
  note ok = seg [OF True] and P = segment_pages [OF seg [OF True]]
  have here: "phdr_at s a = ph" using ph I by (simp add: loader_inv_def)
  have run: "elf_load_segment (phys_to_virt s0 root) base a s =
      foreach (elf_load_page (phys_to_virt s0 root) base a (p_vaddr ph) (p_vaddr ph + p_filesz ph)) (page_range ?a ?b) s"
    using True here by (simp add: elf_load_segment_def elf_rounding for_pages_foreach)
  have M: "(\<lambda>w. if unat w < 2 ^ 47 \<and> vpn w \<in> vpn ` set (page_range ?a ?b) then load_cell s0 base ph w (user_byte root s w) else user_byte root s w)
    = load_segment s0 base ph (user_byte root s)"
  proof
    fix w
    show "(if unat w < 2 ^ 47 \<and> vpn w \<in> vpn ` set (page_range ?a ?b) then load_cell s0 base ph w (user_byte root s w) else user_byte root s w) =
      load_segment s0 base ph (user_byte root s) w"
    proof (cases "unat w < 2 ^ 47")
      case low: True
      then show ?thesis using P(2) [OF low] True by (simp add: load_segment_def)
    next
      case False
      then have "\<not> w < ?b" using P(3) by (simp add: word_less_nat_alt)
      then show ?thesis using False by (simp add: load_segment_def)
    qed
  qed
  show ?thesis unfolding run M [symmetric] by (rule load_pages [OF X kr ok ph I P(1)])
next
  case False
  have "phdr_at s a = ph" using ph I by (simp add: loader_inv_def)
  then show ?thesis using False I by (simp add: elf_load_segment_def load_segment_def fun_eq_iff)
qed

definition phdr_addr :: "'a machine_scheme \<Rightarrow> u64 \<Rightarrow> nat \<Rightarrow> u64" where
  "phdr_addr s base j = base + e_phoff (ehdr_at s base) + SIZEOF_PHDR * of_nat j"

definition elf_image_ok :: "'a machine_scheme \<Rightarrow> u64 \<Rightarrow> nat \<Rightarrow> bool" where
  "elf_image_ok s base N \<longleftrightarrow> kernel_range base N \<and> 64 \<le> N \<and> ucast (hread 4 s base) = ELF_MAGIC \<and> e_ident (ehdr_at s base) ! 4 = 2 \<and>
     unat (e_phoff (ehdr_at s base)) + 56 * unat (e_phnum (ehdr_at s base)) \<le> N \<and>
     (\<forall>j < unat (e_phnum (ehdr_at s base)). p_type (phdr_at s (phdr_addr s base j)) = PT_LOAD \<longrightarrow> segment_ok N (phdr_at s (phdr_addr s base j)))"

definition load_image :: "'a machine_scheme \<Rightarrow> u64 \<Rightarrow> nat list \<Rightarrow> (u64 \<Rightarrow> u8 option) \<Rightarrow> u64 \<Rightarrow> u8 option" where
  "load_image s0 base js M = fold (\<lambda>j. load_segment s0 base (phdr_at s0 (phdr_addr s0 base j))) js M"

lemma hread_stable:
  assumes "loader_base root (image_addrs s0 base N) s0 s" "i + k \<le> N"
  shows "hread k s (base + of_nat i) = hread k s0 (base + of_nat i)"
proof -
  note D = loader_baseD [OF assms(1)]
  have v: "virt_to_phys s = virt_to_phys s0" using D(4) by (simp add: virt_to_phys_def fun_eq_iff)
  have "mem s (virt_to_phys s0 (base + of_nat i) + of_nat j) = mem s0 (virt_to_phys s0 (base + of_nat i) + of_nat j)" if "j < k" for j
  proof -
    have "virt_to_phys s0 base + of_nat (i + j) \<in> image_addrs s0 base N" unfolding image_addrs_def using that assms(2) by (intro imageI) simp
    then show ?thesis using D(5) by (simp add: virt_to_phys_linear add.assoc)
  qed
  then show ?thesis unfolding hread_def v by (rule load_bytes_cong)
qed

lemma phdr_stable:
  assumes "loader_base root (image_addrs s0 base N) s0 s" "i + 56 \<le> N"
  shows "phdr_at s (base + of_nat i) = phdr_at s0 (base + of_nat i)"
proof -
  have "hread k s (base + of_nat i + of_nat j) = hread k s0 (base + of_nat i + of_nat j)" if "j + k \<le> 56" for j k
    using hread_stable [OF assms(1), of "i + j" k] that assms(2) by (simp add: add.assoc)
  from this [of 0 4] this [of 4 4] this [of 8 8] this [of 16 8] this [of 24 8] this [of 32 8] this [of 40 8] this [of 48 8]
  show ?thesis by (simp add: phdr_at_def)
qed

lemma ehdr_stable:
  assumes "loader_base root (image_addrs s0 base N) s0 s" "64 \<le> N"
  shows "ehdr_at s base = ehdr_at s0 base"
proof -
  have h: "hread k s (base + of_nat j) = hread k s0 (base + of_nat j)" if "j + k \<le> 64" for j k
    using hread_stable [OF assms(1), of j k] that assms(2) by simp
  have "map (\<lambda>i. ucast (hread 1 s (base + of_nat i))) [0..<16] = (map (\<lambda>i. ucast (hread 1 s0 (base + of_nat i))) [0..<16] :: u8 list)"
    using h by (intro map_cong refl) simp
  with h [of 16 2] h [of 18 2] h [of 20 4] h [of 24 8] h [of 32 8] h [of 40 8] h [of 48 4] h [of 52 2] h [of 54 2] h [of 56 2]
    h [of 58 2] h [of 60 2] h [of 62 2]
  show ?thesis by (simp add: ehdr_at_def del: upt.simps)
qed

lemma elf_phdr:
  assumes ok: "elf_image_ok s0 base N" and j: "j < unat (e_phnum (ehdr_at s0 base))"
  shows "p_type (phdr_at s0 (phdr_addr s0 base j)) = PT_LOAD \<Longrightarrow> segment_ok N (phdr_at s0 (phdr_addr s0 base j))"
    "loader_base root (image_addrs s0 base N) s0 s \<Longrightarrow> phdr_at s (phdr_addr s0 base j) = phdr_at s0 (phdr_addr s0 base j)"
proof -
  show "p_type (phdr_at s0 (phdr_addr s0 base j)) = PT_LOAD \<Longrightarrow> segment_ok N (phdr_at s0 (phdr_addr s0 base j))"
    using ok j by (simp add: elf_image_ok_def)
  have "phdr_addr s0 base j = base + of_nat (unat (e_phoff (ehdr_at s0 base)) + 56 * j)"
    by (simp add: phdr_addr_def SIZEOF_PHDR_def add.assoc)
  moreover have "unat (e_phoff (ehdr_at s0 base)) + 56 * j + 56 \<le> N" using ok j by (simp add: elf_image_ok_def)
  ultimately show "phdr_at s (phdr_addr s0 base j) = phdr_at s0 (phdr_addr s0 base j)"
    if "loader_base root (image_addrs s0 base N) s0 s" using phdr_stable [OF that] by (simp only:)
qed

definition image_pages :: "'a machine_scheme \<Rightarrow> u64 \<Rightarrow> nat list \<Rightarrow> nat" where
  "image_pages s0 base js = (\<Sum>j\<leftarrow>js. seg_pages (phdr_at s0 (phdr_addr s0 base j)))"

lemma segments_step:
  assumes ok: "elf_image_ok s0 base N" and X: "image_addrs s0 base N \<subseteq> X" and n: "n = unat (e_phnum (ehdr_at s0 base))"
  shows "loader_inv root X s0 s \<Longrightarrow> unat i \<le> n \<Longrightarrow>
    \<exists>r. elf_load_segments (phys_to_virt s0 root) base (base + e_phoff (ehdr_at s0 base)) i s = Some r \<and>
      flow_uses (4 * image_pages s0 base [unat i..<n]) (Some r) s \<and>
      (case r of Ret x \<Rightarrow> fst x = None \<and> loader_inv root X s0 (snd x) \<and> free_frames (snd x) = {}
       | Next s' \<Rightarrow> loader_inv root X s0 s' \<and> free_frames s' \<subseteq> free_frames s \<and>
           (free_frames s' = {} \<or> user_byte root s' = load_image s0 base [unat i..<n] (user_byte root s)))"
proof (induction "n - unat i" arbitrary: i s)
  case 0
  have eh: "ehdr_at s base = ehdr_at s0 base"
    using ehdr_stable [OF loader_base_mono [OF _ X], of root s] 0(2) ok by (simp add: loader_inv_def elf_image_ok_def)
  have "unat i = n" using 0 by simp
  then show ?case using 0(2) n by (subst elf_load_segments.simps) (simp add: eh word_less_nat_alt load_image_def flow_uses_def)
next
  case (Suc d)
  have B: "loader_base root X s0 s" using Suc.prems(1) by (simp add: loader_inv_def)
  have eh: "ehdr_at s base = ehdr_at s0 base"
    using ehdr_stable [OF loader_base_mono [OF B X]] ok by (simp add: elf_image_ok_def)
  have kr: "kernel_range base N" using ok by (simp add: elf_image_ok_def)
  have i: "unat i < n" "unat i < unat (e_phnum (ehdr_at s0 base))" using Suc.hyps(2) n by simp_all
  have i1: "unat (i + 1) = Suc (unat i)"
    using i(2) unat_lt_u16 [of "e_phnum (ehdr_at s0 base)"] by (simp add: unat_word_ariths)
  let ?ph = "phdr_at s0 (phdr_addr s0 base (unat i))" and ?v = "phys_to_virt s0 root"
  have addr: "base + e_phoff (ehdr_at s0 base) + SIZEOF_PHDR * ucast i = phdr_addr s0 base (unat i)" by (simp add: phdr_addr_def)
  have ph: "phdr_at s1 (phdr_addr s0 base (unat i)) = ?ph" if "loader_base root X s0 s1" for s1
    by (rule elf_phdr(2) [OF ok i(2) loader_base_mono [OF that X]])
  obtain r where r: "elf_load_segment ?v base (phdr_addr s0 base (unat i)) s = Some r"
    and post: "case r of Ret x \<Rightarrow> fst x = None \<and> loader_inv root X s0 (snd x) \<and> free_frames (snd x) = {}
       | Next s' \<Rightarrow> loader_inv root X s0 s' \<and> free_frames s' \<subseteq> free_frames s \<and>
           (free_frames s' = {} \<or> user_byte root s' = load_segment s0 base ?ph (user_byte root s))"
    using segment_step [OF Suc.prems(1) X kr elf_phdr(1) [OF ok i(2)] ph] by blast
  have run: "elf_load_segments ?v base (base + e_phoff (ehdr_at s0 base)) i s = (case r of Ret x \<Rightarrow> Some (Ret x)
      | Next s' \<Rightarrow> elf_load_segments ?v base (base + e_phoff (ehdr_at s0 base)) (i + 1) s')"
    using i(2) r by (subst elf_load_segments.simps) (simp add: eh word_less_nat_alt addr split: flow.split)
  have up: "[unat i..<n] = unat i # [unat (i + 1)..<n]" using i(1) i1 by (simp add: upt_conv_Cons)
  have u: "flow_uses (4 * seg_pages ?ph) (Some r) s" using elf_load_segment_uses [of s "phdr_addr s0 base (unat i)" ?v base] ph [OF B] r by simp
  show ?case
  proof (cases r)
    case (Ret x)
    moreover from this have "flow_uses (4 * image_pages s0 base [unat i..<n]) (Some (Ret x)) s"
      using u uses_mono by (cases x) (fastforce simp: flow_uses_def up image_pages_def)
    ultimately show ?thesis using run post by simp
  next
    case (Next s1)
    then have I1: "loader_inv root X s0 s1" using post by simp
    have d: "d = n - unat (i + 1)" and le: "unat (i + 1) \<le> n" using Suc.hyps(2) i1 i(1) by simp_all
    obtain r' where r': "elf_load_segments ?v base (base + e_phoff (ehdr_at s0 base)) (i + 1) s1 = Some r'"
      and u': "flow_uses (4 * image_pages s0 base [unat (i + 1)..<n]) (Some r') s1"
      and post': "case r' of Ret x \<Rightarrow> fst x = None \<and> loader_inv root X s0 (snd x) \<and> free_frames (snd x) = {}
       | Next s' \<Rightarrow> loader_inv root X s0 s' \<and> free_frames s' \<subseteq> free_frames s1 \<and>
           (free_frames s' = {} \<or> user_byte root s' = load_image s0 base [unat (i + 1)..<n] (user_byte root s1))"
      using Suc.hyps(1) [OF d I1 le] by blast
    have "uses (4 * seg_pages ?ph) s s1" using u Next by (simp add: flow_uses_def)
    then have U: "flow_uses (4 * image_pages s0 base [unat i..<n]) (Some r') s"
      using u' unfolding flow_uses_def up image_pages_def by (auto dest: uses_trans simp: algebra_simps)
    show ?thesis
    proof (cases r')
      case (Ret x)
      then show ?thesis using run Next r' post' U by simp
    next
      case last: (Next s')
      then show ?thesis using run Next r' post post' U unfolding up by (auto simp: load_image_def)
    qed
  qed
qed

lemma elf_load_run:
  assumes I: "loader_inv root X s s" and X: "image_addrs s base N \<subseteq> X" and img: "elf_image_ok s base N"
  obtains r s' where "elf_load (phys_to_virt s root) base s = Some (r, s')" "loader_inv root X s s'" "free_frames s' \<subseteq> free_frames s"
    "free_frames s' = {} \<or> r = Some (e_entry (ehdr_at s base)) \<and>
       user_byte root s' = load_image s base [0..<unat (e_phnum (ehdr_at s base))] (user_byte root s)"
    "card (free_frames s) \<le> card (free_frames s') + 4 * image_pages s base [0..<unat (e_phnum (ehdr_at s base))]"
proof -
  let ?n = "unat (e_phnum (ehdr_at s base))"
  obtain r where r: "elf_load_segments (phys_to_virt s root) base (base + e_phoff (ehdr_at s base)) 0 s = Some r"
    and u: "flow_uses (4 * image_pages s base [0..<?n]) (Some r) s"
    and post: "case r of Ret x \<Rightarrow> fst x = None \<and> loader_inv root X s (snd x) \<and> free_frames (snd x) = {}
       | Next s' \<Rightarrow> loader_inv root X s s' \<and> free_frames s' \<subseteq> free_frames s \<and>
           (free_frames s' = {} \<or> user_byte root s' = load_image s base [0..<?n] (user_byte root s))"
    using segments_step [OF img X refl I, of 0] unfolding unat_0 by blast
  have fc: "frames_inv s" "console_ok s" using I by (simp_all add: loader_inv_def loader_base_def space_ok_def)
  have ok: "ucast (hread 4 s base) = ELF_MAGIC" "e_ident (ehdr_at s base) ! 4 = 2" "64 \<le> N" using img by (simp_all add: elf_image_ok_def)
  have run: "elf_load (phys_to_virt s root) base s = (case r of Ret x \<Rightarrow> Some x | Next s' \<Rightarrow> Some (Some (e_entry (ehdr_at s' base)), s'))"
    using r ok by (simp add: elf_load_def Let_def)
  show thesis
  proof (cases r)
    case (Ret x)
    then show ?thesis using run post that u fc by (cases x) (simp add: flow_uses_def uses_def)
  next
    case (Next s')
    then have "ehdr_at s' base = ehdr_at s base" using ehdr_stable [OF loader_base_mono [OF _ X] ok(3), of root s'] post by (simp add: loader_inv_def)
    then show ?thesis using run post Next that u fc by (simp add: flow_uses_def uses_def)
  qed
qed

text \<open>Claim C4. Let the image be a well-formed ELF file of \<open>N\<close> bytes outside the frames the loader may write,
  with every loadable segment inside the user half, and let the address space be a proper tree whose user pages have distinct
  frames. Then \<open>elf_load\<close> always returns, keeps the address space proper and the image unchanged, and takes at most four
  frames per page of the segments. Unless the frames run out, it returns the entry point, and what a ring-3 program then
  sees is the abstract load of the segments in order: the file bytes at their addresses, zeros in the rest of each new page,
  and all other memory as before.\<close>

theorem elf_load_correct:
  assumes "loader_inv root (image_addrs s base N) s s" "elf_image_ok s base N"
  shows "\<exists>r s'. elf_load (phys_to_virt s root) base s = Some (r, s') \<and> loader_inv root (image_addrs s base N) s s' \<and>
    (free_frames s' = {} \<or> r = Some (e_entry (ehdr_at s base)) \<and>
       user_byte root s' = load_image s base [0..<unat (e_phnum (ehdr_at s base))] (user_byte root s)) \<and>
    card (free_frames s) \<le> card (free_frames s') + 4 * image_pages s base [0..<unat (e_phnum (ehdr_at s base))]"
  by (rule elf_load_run [OF assms(1) order_refl assms(2)]) blast

text \<open>An image without the ELF magic number, or of another class than 64-bit, is rejected with a
  message on the console and no other effect.\<close>

theorem elf_load_rejects:
  assumes "console_ok s" "ucast (hread 4 s base) \<noteq> ELF_MAGIC \<or> ucast (hread 1 s (base + 4)) \<noteq> (2 :: u8)"
  shows "elf_load pml4 base s = Some (None, say (kmsg ((if ucast (hread 4 s base) \<noteq> ELF_MAGIC
    then ''elf_load: bad magic'' else ''elf_load: not 64-bit'') @ [CHR 0x0A]) []) s)"
proof -
  have id4: "e_ident (ehdr_at s base) ! 4 = ucast (hread 1 s (base + 4))" by (simp add: ehdr_at_def del: upt.simps)
  show ?thesis
    using assms(2) kprintf_ok [OF assms(1), of "''elf_load: bad magic'' @ [CHR 0x0A]" "[]"]
      kprintf_ok [OF assms(1), of "''elf_load: not 64-bit'' @ [CHR 0x0A]" "[]"]
    by (auto simp: elf_load_def Let_def id4)
qed

text \<open>A small file: one loadable segment at \<open>0x400000\<close> with eight bytes from the file and eight more of zeros.\<close>

definition demo_elf_words :: "u64 list" where
  "demo_elf_words = [0x00010102464C457F, 0, 0x00000001003E0002, 0x400000, 64, 0, 0x0038004000000000, 1,
     0x0000000500000001, 120, 0x400000, 0x400000, 8, 16, 0x1000, 0x1122334455667788]"

definition demo_elf :: frame_state where
  "demo_elf = demo_frames\<lparr>mem := (\<lambda>x. if unat (x - 0x6000) < 128
     then ucast (drop_bit (8 * (unat (x - 0x6000) mod 8)) (demo_elf_words ! (unat (x - 0x6000) div 8))) else 0)\<rparr>"

lemma demo_elf_hread:
  "hread 4 demo_elf 0xFFFF800000006000 = 0x464C457F" 
  "ehdr_at demo_elf 0xFFFF800000006000 = \<lparr>e_ident = [0x7F, 0x45, 0x4C, 0x46, 2, 1, 1, 0, 0, 0, 0, 0, 0, 0, 0, 0], e_type = 2, e_machine = 0x3E,
     e_version = 1, e_entry = 0x400000, e_phoff = 64, e_shoff = 0, e_flags = 0, e_ehsize = 64, e_phentsize = 56, e_phnum = 1,
     e_shentsize = 0, e_shnum = 0, e_shstrndx = 0\<rparr>"
  by code_simp+

lemma demo_elf_phdr:
  "phdr_at demo_elf 0xFFFF800000006040 = \<lparr>p_type = 1, p_flags = 5, p_offset = 120, p_vaddr = 0x400000, p_paddr = 0x400000,
     p_filesz = 8, p_memsz = 16, p_align = 0x1000\<rparr>"
  by code_simp

lemma demo_elf_image: "elf_image_ok demo_elf 0xFFFF800000006000 128"
proof -
  have n: "unat (e_phnum (ehdr_at demo_elf 0xFFFF800000006000)) = 1" by (simp add: demo_elf_hread)
  have "phdr_addr demo_elf 0xFFFF800000006000 0 = 0xFFFF800000006040" by (simp add: phdr_addr_def demo_elf_hread SIZEOF_PHDR_def)
  then have "segment_ok 128 (phdr_at demo_elf (phdr_addr demo_elf 0xFFFF800000006000 0))" by (simp add: demo_elf_phdr segment_ok_def)
  then show ?thesis
    unfolding elf_image_ok_def n by (simp add: demo_elf_hread kernel_range_def ELF_MAGIC_def)
qed

lemma demo_elf_space:
  "space_ok I 0 demo_elf" "\<And>w. owned I w \<Longrightarrow> pte_of (mem demo_elf) 0 w = 0" "tables I (mem demo_elf) 0 = {0}"
  "console_ok demo_elf" "free_frames demo_elf = {1, 2, 3, 4, 5}"
proof -
  have six: "page2pa 6 = 0x6000" by (simp add: page2pa_def PGSIZE_def)
  have F: "mem_frame {page2pa 6} demo_frames demo_elf"
    unfolding mem_frame_def
  proof (intro conjI allI impI)
    show "\<exists>m ps h. demo_elf = demo_frames\<lparr>mem := m, pages := ps, page_free_list := h\<rparr>"
      by (intro exI [of _ "mem demo_elf"] exI [of _ "pages demo_frames"] exI [of _ "page_free_list demo_frames"]) (simp add: demo_elf_def)
    fix x assume "mem demo_elf x \<noteq> mem demo_frames x"
    then have "unat (x - 0x6000) < 128" by (auto simp: demo_elf_def demo_frames_fields split: if_splits)
    then show "(\<exists>f \<in> free_frames demo_frames - free_frames demo_elf. in_page (page2pa f) x) \<or> (\<exists>t \<in> {page2pa 6}. in_page t x)"
      by (simp add: six in_page_def)
  qed (simp_all add: demo_elf_def)
  have inv: "frames_inv demo_elf" using demo_frames_inv by (simp add: demo_elf_def frames_inv_def)
  have disj: "{page2pa 6} \<inter> tables I (mem demo_frames) 0 = {}" by (simp add: demo_space(2) six)
  have al: "page_aligned (page2pa 6)" by (rule page_aligned_page2pa) simp
  show "space_ok I 0 demo_elf" "tables I (mem demo_elf) 0 = {0}"
    "\<And>w. owned I w \<Longrightarrow> pte_of (mem demo_elf) 0 w = 0"
    using space_frame [OF demo_space(1) F disj _ inv] al demo_space(2,3) by auto
  show "console_ok demo_elf" using mem_frame_console [OF F] demo_frames_console by simp
  show "free_frames demo_elf = {1, 2, 3, 4, 5}" using demo_free_frames by (simp add: demo_elf_def free_frames_def)
qed

lemma demo_elf_loader: "loader_inv 0 (image_addrs demo_elf 0xFFFF800000006000 128) demo_elf demo_elf"
proof -
  have six: "page2pa 6 = 0x6000" by (simp add: page2pa_def PGSIZE_def)
  have al: "page_aligned (page2pa f)" if "f < 7" for f using that by (intro page_aligned_page2pa) simp
  have "maps_ok 0 X demo_elf" for X by (simp add: maps_ok_def demo_elf_space(2))
  moreover have "direct_mapped demo_elf" by (intro demo_direct) (simp_all add: demo_elf_def demo_frames_fields)
  moreover have "\<not> in_page t x" if "x \<in> image_addrs demo_elf 0xFFFF800000006000 128" "t \<in> {0, page2pa 1, page2pa 2, page2pa 3, page2pa 4, page2pa 5}" for x t
  proof -
    note x0 = that(1) and t0 = that(2)
    obtain i where i: "i < 128" "x = virt_to_phys demo_elf 0xFFFF800000006000 + of_nat i" using x0 by (auto simp: image_addrs_def)
    then have "x = page2pa 6 + of_nat i" by (simp add: virt_to_phys_def demo_elf_def demo_frames_fields six)
    then have x: "in_page (page2pa 6) x" using in_page_nth [of i "page2pa 6"] i(1) by simp
    have "page2pa 0 = 0" by (simp add: page2pa_def)
    then obtain f where f: "t = page2pa f" "f < 6" using t0 by force
    then have "page2pa 6 \<noteq> t" using page2pa_inj [of 6 f] by auto
    then show ?thesis using in_page_disjoint [OF al [of 6] _ _ x] al [of f] f by simp
  qed
  ultimately show ?thesis unfolding loader_inv_def loader_base_def using demo_elf_space by simp
qed

theorem elf_load_correct_witness:
  "\<exists>s'. elf_load (phys_to_virt demo_elf 0) 0xFFFF800000006000 demo_elf = Some (Some 0x400000, s') \<and>
     user_byte 0 s' 0x400000 = Some 0x88 \<and> user_byte 0 s' 0x400008 = Some 0"
proof -
  let ?b = "0xFFFF800000006000"
  have e: "e_entry (ehdr_at demo_elf ?b) = 0x400000" "[0..<unat (e_phnum (ehdr_at demo_elf ?b))] = [0]"
    "phdr_addr demo_elf ?b 0 = 0xFFFF800000006040"
    by (simp_all add: demo_elf_hread phdr_addr_def SIZEOF_PHDR_def)
  have empty: "user_byte 0 demo_elf 0x400008 = None"
    using user_byte_pte [of 0 demo_elf "0x400008"] demo_elf_space(1,2) page_of_low(1) [of "0x400008"] by (simp add: grants_def)
  have b: "mem demo_elf (virt_to_phys demo_elf 0xFFFF800000006078) = 0x88" by code_simp
  have l: "load_image demo_elf ?b [0] M 0x400000 = Some 0x88" "M 0x400008 = None \<Longrightarrow> load_image demo_elf ?b [0] M 0x400008 = Some 0" for M
    by (simp_all add: load_image_def e(3) demo_elf_phdr load_segment_def load_cell_def PT_LOAD_def rounddown_def roundup_def b)
  have "image_pages demo_elf ?b [0] = 1"
    by (simp add: image_pages_def e(3) demo_elf_phdr seg_pages_def PT_LOAD_def rounddown_def roundup_def page_range_def)
  then have room: "free_frames s' \<noteq> {}" if "card (free_frames demo_elf) \<le> card (free_frames s') + 4 * image_pages demo_elf ?b [0]" for s' :: frame_state
    using that by (auto simp: demo_elf_space(5))
  obtain r s' where s': "elf_load (phys_to_virt demo_elf 0) ?b demo_elf = Some (r, s')" "free_frames s' = {} \<or> r = Some 0x400000 \<and>
      user_byte 0 s' = load_image demo_elf ?b [0] (user_byte 0 demo_elf)" "card (free_frames demo_elf) \<le> card (free_frames s') + 4 * image_pages demo_elf ?b [0]"
    using elf_load_correct [OF demo_elf_loader demo_elf_image] unfolding e by blast
  then show ?thesis using room [OF s'(3)] l empty by auto
qed

theorem elf_load_rejects_witness:
  "\<exists>t. elf_load 0xFFFF800000000000 0xFFFF800000006010 demo_elf = Some (None, say t demo_elf)"
proof -
  have "hread 4 demo_elf 0xFFFF800000006010 = 0x003E0002" by code_simp
  then have "ucast (hread 4 demo_elf 0xFFFF800000006010) \<noteq> ELF_MAGIC" by (simp add: ELF_MAGIC_def)
  from elf_load_rejects [OF demo_elf_space(4) disjI1 [OF this], of "0xFFFF800000000000"] show ?thesis by (rule exI)
qed

end
