(* ===== verification/Stress.thy ===== *)
theory Stress
  imports UserMem
begin

text \<open>\<open>stress_test.c\<close>: the stress test of the frame allocator and the page tables. Test 1 allocates every frame and links
them through their first eight bytes; test 2 maps and unmaps 64 pages in a random order and checks a pattern in each.
\<open>stress_inv\<close> is the invariant of the random phase: which pages are mapped, to which frames, and what they hold. The
kernel calls the test only in a commented-out line.\<close>

section \<open>State\<close>

record stress_state = frame_state +
  g_stress_mapped :: "bool list"
  g_rng_state :: u32

definition stress_panic :: "string \<Rightarrow> 'a machine_scheme \<Rightarrow> 'b option" where
  "stress_panic msg s = do { s \<leftarrow> kprintf (''STRESS FAIL: %s'' @ [CHR 0x0A]) [S msg] s; s \<leftarrow> halt_loop s; None }"

section \<open>Allocate until out of memory, free everything\<close>

text \<open>A \<open>struct PageInfo *\<close> kept in memory is the address of an element of \<open>pages[]\<close>.\<close>

definition page_ptr :: "'a frame_state_scheme \<Rightarrow> nat option \<Rightarrow> u64" where
  "page_ptr s p = (case p of None \<Rightarrow> 0 | Some i \<Rightarrow> pages_ptr s + of_nat i * SIZEOF_PAGEINFO)"

definition page_at :: "'a frame_state_scheme \<Rightarrow> u64 \<Rightarrow> nat option" where
  "page_at s a = (if a = 0 then None else Some (unat ((a - pages_ptr s) div SIZEOF_PAGEINFO)))"

partial_function (option) stress_alloc_loop ::
  "nat option \<Rightarrow> nat \<Rightarrow> 'a frame_state_scheme \<Rightarrow> (nat option \<times> nat \<times> 'a frame_state_scheme) option" where
  "stress_alloc_loop head count s =
     do { (pp, s) \<leftarrow> page_alloc 0 s;
          case pp of
            None \<Rightarrow> Some (head, count, s)
          | Some pp \<Rightarrow>
              stress_alloc_loop (Some pp) (count + 1) (hwrite64 (phys_to_virt s (page2pa pp)) (page_ptr s head) s) }"

declare stress_alloc_loop.simps [code]

definition stress_alloc_all :: "'a frame_state_scheme \<Rightarrow> (nat option \<times> 'a frame_state_scheme) option" where
  "stress_alloc_all s =
     do { (head, count, s) \<leftarrow> stress_alloc_loop None 0 s;
          s \<leftarrow> kprintf (''stress: allocated %ld pages until OOM'' @ [CHR 0x0A]) [W (of_nat count)] s;
          Some (head, s) }"

definition clear_ref :: "nat \<Rightarrow> 'a frame_state_scheme \<Rightarrow> 'a frame_state_scheme" where
  "clear_ref pp s = s\<lparr>pages := (pages s)[pp := (pages s ! pp)\<lparr>pp_ref := 0\<rparr>]\<rparr>"

partial_function (option) stress_free_loop ::
  "nat option \<Rightarrow> nat \<Rightarrow> 'a frame_state_scheme \<Rightarrow> (nat \<times> 'a frame_state_scheme) option" where
  "stress_free_loop head count s =
     (case head of
        None \<Rightarrow> Some (count, s)
      | Some pp \<Rightarrow>
          if pp < length (pages s) then
            let next = page_at s (hread64 s (phys_to_virt s (page2pa pp)))
            in do { s \<leftarrow> page_free pp (clear_ref pp s); stress_free_loop next (count + 1) s }
          else None)"

declare stress_free_loop.simps [code]

definition stress_free_all :: "nat option \<Rightarrow> 'a frame_state_scheme \<Rightarrow> 'a frame_state_scheme option" where
  "stress_free_all head s =
     do { (count, s) \<leftarrow> stress_free_loop head 0 s;
          kprintf (''stress: freed %ld pages'' @ [CHR 0x0A]) [W (of_nat count)] s }"

section \<open>Random map and unmap\<close>

definition STRESS_TEST_PAGES :: u32 where "STRESS_TEST_PAGES = 64"

definition STRESS_TEST_VBASE :: u64 where "STRESS_TEST_VBASE = 0x0000700000000000"

definition stress_rand :: "'a stress_state_scheme \<Rightarrow> u32 \<times> 'a stress_state_scheme" where
  "stress_rand s =
     (let x = g_rng_state s;
          x = x XOR push_bit 13 x;
          x = x XOR drop_bit 17 x;
          x = x XOR push_bit 5 x
      in (x, s\<lparr>g_rng_state := x\<rparr>))"

text \<open>A four-byte access at an aligned address lies in one page, so it is translated once.\<close>

definition vwrite32 :: "u64 \<Rightarrow> u32 \<Rightarrow> 'a machine_scheme \<Rightarrow> 'a machine_scheme option" where
  "vwrite32 va v s = map_option (\<lambda>p. s\<lparr>mem := store_bytes 4 (mem s) p (ucast v)\<rparr>) (vresolve True s va)"

definition vread32 :: "'a machine_scheme \<Rightarrow> u64 \<Rightarrow> u32 option" where
  "vread32 s va = map_option (\<lambda>p. ucast (load_bytes 4 (mem s) p)) (vresolve False s va)"

definition stress_unmap_idx :: "u64 \<Rightarrow> u32 \<Rightarrow> 'a stress_state_scheme \<Rightarrow> 'a stress_state_scheme option" where
  "stress_unmap_idx pml4 idx s =
     (let vaddr = STRESS_TEST_VBASE + ucast idx * 4096 in
      do { (pte, s) \<leftarrow> vmm_walk pml4 vaddr False s;
           case pte of
             None \<Rightarrow> stress_panic ''expected mapping missing during unmap'' s
           | Some pte \<Rightarrow>
               if \<not> present (hread64 s pte) then stress_panic ''expected mapping missing during unmap'' s
               else
                 let phys = pte_get_addr (hread64 s pte);
                     pp = pa2page phys
                 in do { s \<leftarrow> vmm_unmap pml4 vaddr s;
                         s \<leftarrow> (if pp < length (pages s) then page_free pp (clear_ref pp s) else None);
                         Some (s\<lparr>g_stress_mapped := (g_stress_mapped s)[unat idx := False]\<rparr>) } })"

definition stress_step :: "u64 \<Rightarrow> nat \<Rightarrow> 'a stress_state_scheme \<Rightarrow> ('a stress_state_scheme, unit) flow option" where
  "stress_step pml4 iter s =
     (let (r, s) = stress_rand s;
          idx = r mod STRESS_TEST_PAGES;
          vaddr = STRESS_TEST_VBASE + ucast idx * 4096
      in if \<not> g_stress_mapped s ! unat idx then
           do { (pp, s) \<leftarrow> page_alloc 1 s;
                case pp of
                  None \<Rightarrow> do { s \<leftarrow> kprintf (''stress_random: OOM on map, skipping iter=%d'' @ [CHR 0x0A]) [W (of_nat iter)] s;
                              Some (Next s) }
                | Some pp \<Rightarrow>
                    do { s \<leftarrow> vmm_map pml4 vaddr (page2pa pp) 0x3 s;
                         s \<leftarrow> vwrite32 vaddr (0xA5A50000 OR idx) s;
                         Some (Next (s\<lparr>g_stress_mapped := (g_stress_mapped s)[unat idx := True]\<rparr>)) } }
         else
           let expected = 0xA5A50000 OR idx in
           do { actual \<leftarrow> vread32 s vaddr;
                s \<leftarrow> (if actual \<noteq> expected then
                        do { s \<leftarrow> kprintf (''CORRUPTION idx=%d vaddr=%lx got=%x expected=%x'' @ [CHR 0x0A])
                                  [W (ucast idx), W vaddr, W (ucast actual), W (ucast expected)] s;
                             stress_panic ''data corruption detected in mapped page'' s }
                      else Some s);
                s \<leftarrow> stress_unmap_idx pml4 idx s;
                Some (Next s) })"

definition stress_cleanup :: "u64 \<Rightarrow> nat \<Rightarrow> 'a stress_state_scheme \<Rightarrow> ('a stress_state_scheme, unit) flow option" where
  "stress_cleanup pml4 i s =
     (if g_stress_mapped s ! i then do { s \<leftarrow> stress_unmap_idx pml4 (of_nat i) s; Some (Next s) } else Some (Next s))"

definition stress_random_map_unmap :: "u64 \<Rightarrow> nat \<Rightarrow> 'a stress_state_scheme \<Rightarrow> 'a stress_state_scheme option" where
  "stress_random_map_unmap pml4 iterations s =
     (let s = s\<lparr>g_stress_mapped := replicate (unat STRESS_TEST_PAGES) False\<rparr> in
      do { r \<leftarrow> foreach (stress_step pml4) [0..<iterations] s;
           case r of Ret _ \<Rightarrow> None
           | Next s \<Rightarrow>
               do { r \<leftarrow> foreach (stress_cleanup pml4) [0..<unat STRESS_TEST_PAGES] s;
                    case r of Ret _ \<Rightarrow> None | Next s \<Rightarrow> Some s } })"

section \<open>The whole test\<close>

definition phase1_stress_test :: "'a stress_state_scheme \<Rightarrow> 'a stress_state_scheme option" where
  "phase1_stress_test s =
     do { s \<leftarrow> kprintf ([CHR 0x0A] @ ''=== PHASE 1 STRESS TEST START ==='' @ [CHR 0x0A]) [] s;
          (free_start, s) \<leftarrow> count_free s;
          s \<leftarrow> kprintf (''stress: free pages at start=%ld'' @ [CHR 0x0A]) [W (of_nat free_start)] s;
          (all, s) \<leftarrow> stress_alloc_all s;
          (free_at_oom, s) \<leftarrow> count_free s;
          s \<leftarrow> kprintf (''stress: free pages at OOM=%ld (expect 0)'' @ [CHR 0x0A]) [W (of_nat free_at_oom)] s;
          s \<leftarrow> (if free_at_oom \<noteq> 0 then stress_panic ''free list not empty at OOM'' s else Some s);
          s \<leftarrow> stress_free_all all s;
          (free_after_round_trip, s) \<leftarrow> count_free s;
          s \<leftarrow> kprintf (''stress: free pages after freeing all=%ld (expect %ld)'' @ [CHR 0x0A])
                 [W (of_nat free_after_round_trip), W (of_nat free_start)] s;
          s \<leftarrow> (if free_after_round_trip \<noteq> free_start then stress_panic ''leak detected in allocate-to-OOM round trip'' s
                else Some s);
          s \<leftarrow> stress_random_map_unmap (get_current_pml4 s) 5000 s;
          (free_after_random, s) \<leftarrow> count_free s;
          let consumed = int free_start - int free_after_random in
          do { s \<leftarrow> kprintf (''stress: free pages after random map/unmap=%ld (start=%ld, consumed=%ld)'' @ [CHR 0x0A])
                      [W (of_nat free_after_random), W (of_nat free_start), W (of_int consumed)] s;
               s \<leftarrow> (if consumed < 0 \<or> consumed > 8
                     then stress_panic ''unexpected free-page delta after random map/unmap (possible leak)'' s else Some s);
               kprintf (''=== PHASE 1 STRESS TEST PASSED ==='' @ [CHR 0x0A, CHR 0x0A]) [] s } }"

section \<open>The list of allocated pages\<close>

definition ptrs_ok :: "'a frame_state_scheme \<Rightarrow> bool" where
  "ptrs_ok s \<longleftrightarrow> 0 < unat (pages_ptr s) \<and> unat (pages_ptr s) + 16 * length (pages s) \<le> 2 ^ 64"

lemma page_at_ptr:
  assumes "ptrs_ok s" "case p of None \<Rightarrow> True | Some i \<Rightarrow> i < length (pages s)"
  shows "page_at s (page_ptr s p) = p"
proof (cases p)
  case None
  then show ?thesis by (simp add: page_at_def page_ptr_def)
next
  case (Some i)
  let ?a = "pages_ptr s + of_nat i * 16"
  have i: "i < length (pages s)" using assms(2) Some by simp
  have b: "unat (pages_ptr s) + 16 * i < 2 ^ 64" "0 < unat (pages_ptr s)" using assms(1) i by (simp_all add: ptrs_ok_def)
  have o: "unat (of_nat i * 16 :: u64) = 16 * i" using b by (simp add: unat_word_ariths unat_of_nat)
  have "unat ?a = unat (pages_ptr s) + 16 * i" using b o by (subst unat_add_lem [THEN iffD1]) auto
  then have "?a \<noteq> 0" using b(2) by (metis add_is_0 less_not_refl unat_0)
  moreover have "unat ((?a - pages_ptr s) div 16) = i" using o by (simp add: unat_div)
  ultimately show ?thesis by (simp add: Some page_at_def page_ptr_def SIZEOF_PAGEINFO_def)
qed

primrec plist :: "'a frame_state_scheme \<Rightarrow> nat option \<Rightarrow> nat list \<Rightarrow> bool" where
  "plist s h [] \<longleftrightarrow> h = None"
| "plist s h (x # xs) \<longleftrightarrow> h = Some x \<and> x < length (pages s) \<and> plist s (page_at s (hread64 s (phys_to_virt s (page2pa x)))) xs"

lemma plist_cong:
  assumes "plist s h xs" "pages_ptr s' = pages_ptr s" "length (pages s') = length (pages s)"
    "\<And>x. x \<in> set xs \<Longrightarrow> hread64 s' (phys_to_virt s' (page2pa x)) = hread64 s (phys_to_virt s (page2pa x))"
  shows "plist s' h xs"
  using assms(1,4)
proof (induction xs arbitrary: h)
  case Nil
  then show ?case by simp
next
  case (Cons x xs)
  have "page_at s' = page_at s" using assms(2) by (simp add: page_at_def fun_eq_iff)
  then show ?case using Cons assms(3) by simp
qed

lemma link_word: "hread64 s (phys_to_virt s t) = ent (mem s) t 0"
  by (simp add: hread64_def ent_def slot_def)

lemma link_write: "hwrite64 (phys_to_virt s t) v s = s\<lparr>mem := write64 (mem s) (slot t 0) v\<rparr>"
  by (simp add: hwrite64_def slot_def)

lemma push_page:
  assumes inv: "frames_inv s" and al: "alloc_post 0 s pp s1" and ptr: "ptrs_ok s" and xs: "plist s h xs" "set xs \<inter> free_frames s = {}"
  defines "s2 \<equiv> hwrite64 (phys_to_virt s1 (page2pa pp)) (page_ptr s1 h) s1"
  shows "frames_inv s2" "mem_frame {} s s2" "ptrs_ok s2" "free_frames s2 = free_frames s - {pp}" "plist s2 (Some pp) (pp # xs)"
proof -
  have A: "pp \<in> free_frames s" "free_frames s1 = free_frames s - {pp}" "frames_inv s1" "mem s1 = mem s" "map pp_ref (pages s1) = map pp_ref (pages s)"
    using al by (simp_all add: alloc_post_def)
  have len: "length (pages s1) = length (pages s)" using A(5) map_eq_imp_length_eq by blast
  have b: "length (pages s) \<le> 2 ^ 40" using inv by (simp add: frames_inv_def)
  have lt: "x < 2 ^ 40" if "x < length (pages s)" for x using that b by simp
  have pp: "pp < length (pages s)" using free_frames_bound [OF A(1)] .
  have s2: "s2 = s1\<lparr>mem := write64 (mem s) (slot (page2pa pp) 0) (page_ptr s1 h)\<rparr>" by (simp add: s2_def link_write A(4))
  have same: "pages_ptr s1 = pages_ptr s" using alloc_mem_frame [OF al] by (auto simp: mem_frame_def)
  show F: "free_frames s2 = free_frames s - {pp}" "frames_inv s2" using A by (simp_all add: s2)
  show P: "ptrs_ok s2" using ptr same len by (simp add: ptrs_ok_def s2)
  have "mem_frame {page2pa pp} s1 s2" unfolding s2
    using write64_other page_aligned_page2pa [OF lt [OF pp]] by (intro write_mem_frame) (simp add: A(4))
  then show "mem_frame {} s s2" by (rule mem_frame_trans [OF alloc_mem_frame [OF al]]) (use A(1,2) in auto)
  have w: "ent (mem s2) (page2pa x) 0 = (if x = pp then page_ptr s1 h else ent (mem s) (page2pa x) 0)" if "x < length (pages s)" for x
    using page2pa_inj [OF lt [OF that] lt [OF pp]] page_aligned_page2pa [OF lt [OF that]] page_aligned_page2pa [OF lt [OF pp]]
    by (auto simp: s2 ent_write64)
  have h: "page_at s2 (page_ptr s1 h) = h"
  proof -
    have "page_ptr s1 h = page_ptr s2 h" by (simp add: page_ptr_def s2 split: option.split)
    then show ?thesis using page_at_ptr [OF P, of h] xs(1) len by (cases xs) (auto simp: s2 split: option.split)
  qed
  have "plist s2 h xs"
  proof (rule plist_cong [OF xs(1)])
    fix x assume x: "x \<in> set xs"
    have "x \<noteq> pp" using x A(1) xs(2) by blast
    moreover have "x < length (pages s)" using x xs(1) by (induction xs arbitrary: h) auto
    ultimately show "hread64 s2 (phys_to_virt s2 (page2pa x)) = hread64 s (phys_to_virt s (page2pa x))" by (simp add: link_word w)
  qed (simp_all add: s2 same len)
  then show "plist s2 (Some pp) (pp # xs)" using pp len h w [OF pp] by (simp add: link_word) (simp add: s2)
qed

lemma stress_alloc_run:
  assumes "frames_inv s" "ptrs_ok s" "plist s h xs" "set xs \<inter> free_frames s = {}" "distinct xs"
  shows "\<exists>h' ys s'. stress_alloc_loop h n s = Some (h', n + card (free_frames s), s') \<and> plist s' h' ys \<and> distinct ys \<and>
    set ys = set xs \<union> free_frames s \<and> free_frames s' = {} \<and> frames_inv s' \<and> mem_frame {} s s'"
  using assms
proof (induction "card (free_frames s)" arbitrary: s h n xs)
  case 0
  then have e: "free_frames s = {}" using fa.avail_finite [OF 0(2)] by simp
  have "stress_alloc_loop h n s = Some (h, n, s)" using page_alloc_empty [OF 0(2) e] by (subst stress_alloc_loop.simps) simp
  then show ?case using 0 e by (intro exI [of _ h] exI [of _ xs] exI [of _ s]) simp
next
  case (Suc k)
  then have ne: "free_frames s \<noteq> {}" by auto
  obtain pp s1 where al: "page_alloc 0 s = Some (Some pp, s1)" "alloc_post 0 s pp s1" using page_alloc_pop [OF Suc.prems(1) ne] by blast
  define s2 where "s2 = hwrite64 (phys_to_virt s1 (page2pa pp)) (page_ptr s1 h) s1"
  note P = push_page [OF Suc.prems(1) al(2) Suc.prems(2,3,4), folded s2_def]
  have pp: "pp \<in> free_frames s" using al(2) by (simp add: alloc_post_def)
  have k: "k = card (free_frames s2)" using Suc(2) pp fa.avail_finite [OF Suc.prems(1)] by (simp add: P(4) card_Diff_singleton)
  have "set (pp # xs) \<inter> free_frames s2 = {}" "distinct (pp # xs)" using Suc.prems(4,5) pp by (auto simp: P(4))
  from Suc.hyps(1) [OF k P(1,3,5) this] obtain h' ys s' where
    r: "stress_alloc_loop (Some pp) (n + 1) s2 = Some (h', n + 1 + card (free_frames s2), s')" "plist s' h' ys" "distinct ys"
    "set ys = set (pp # xs) \<union> free_frames s2" "free_frames s' = {}" "frames_inv s'" "mem_frame {} s2 s'" by blast
  have "stress_alloc_loop h n s = Some (h', n + card (free_frames s), s')"
    using al(1) r(1) Suc(2) k by (subst stress_alloc_loop.simps) (simp add: s2_def [symmetric])
  moreover have "set ys = set xs \<union> free_frames s" using r(4) pp by (auto simp: P(4))
  moreover have "mem_frame {} s s'" by (rule mem_frame_trans [OF P(2) r(7) empty_subsetI])
  ultimately show ?case using r(2,3,5,6) by blast
qed

lemma flist_same_links:
  assumes "length qs = length ps" "\<And>i. i < length ps \<Longrightarrow> pp_link (qs ! i) = pp_link (ps ! i)"
  shows "flist qs h xs \<longleftrightarrow> flist ps h xs"
  using assms by (induction xs arbitrary: h) (simp_all cong: conj_cong)

lemma clear_ref_frames:
  "frames_inv (clear_ref pp s) = frames_inv s" "free_frames (clear_ref pp s) = free_frames s"
  "length (pages (clear_ref pp s)) = length (pages s)" "pp < length (pages s) \<Longrightarrow> pp_ref (pages (clear_ref pp s) ! pp) = 0"
proof -
  show len: "length (pages (clear_ref pp s)) = length (pages s)" by (simp add: clear_ref_def)
  have l: "pp_link (pages (clear_ref pp s) ! i) = pp_link (pages s ! i)" if "i < length (pages s)" for i
    using that by (cases "i = pp") (simp_all add: clear_ref_def)
  note f = flist_same_links [OF len l]
  have o: "locks (clear_ref pp s) = locks s" "page_free_list (clear_ref pp s) = page_free_list s" by (simp_all add: clear_ref_def)
  show ff: "free_frames (clear_ref pp s) = free_frames s" by (simp add: free_frames_def f o)
  show "frames_inv (clear_ref pp s) = frames_inv s" using l by (auto simp: frames_inv_def f ff o len)
  show "pp < length (pages s) \<Longrightarrow> pp_ref (pages (clear_ref pp s) ! pp) = 0" by (simp add: clear_ref_def)
qed

lemma free_page:
  assumes "frames_inv s" "pp < length (pages s)" "pp \<notin> free_frames s"
  obtains ps where "page_free pp (clear_ref pp s) = Some (s\<lparr>pages := ps, page_free_list := Some pp\<rparr>)"
    "frames_inv (s\<lparr>pages := ps, page_free_list := Some pp\<rparr>)" "length ps = length (pages s)"
    "free_frames (s\<lparr>pages := ps, page_free_list := Some pp\<rparr>) = insert pp (free_frames s)"
proof -
  note C = clear_ref_frames [of pp s]
  obtain s' where s': "page_free pp (clear_ref pp s) = Some s'" "frames_inv s'" "free_frames s' = insert pp (free_frames (clear_ref pp s))"
    "s' = (clear_ref pp s)\<lparr>pages := pages s', page_free_list := Some pp\<rparr>" "map pp_ref (pages s') = map pp_ref (pages (clear_ref pp s))"
    by (rule page_free_push [of "clear_ref pp s" pp]) (use assms C in auto)
  have len: "length (pages s') = length (pages s)" using s'(5) C(3) map_eq_imp_length_eq by metis
  have "s' = s\<lparr>pages := pages s', page_free_list := Some pp\<rparr>" using s'(4) by (simp add: clear_ref_def)
  with s' len show thesis by (intro that [of "pages s'"]) (simp_all add: C)
qed

lemma stress_free_run:
  assumes "frames_inv s" "plist s h xs" "distinct xs" "set xs \<inter> free_frames s = {}"
  shows "\<exists>ps f. stress_free_loop h n s = Some (n + length xs, s\<lparr>pages := ps, page_free_list := f\<rparr>) \<and> length ps = length (pages s) \<and>
    frames_inv (s\<lparr>pages := ps, page_free_list := f\<rparr>) \<and> free_frames (s\<lparr>pages := ps, page_free_list := f\<rparr>) = free_frames s \<union> set xs"
  using assms
proof (induction xs arbitrary: s h n)
  case Nil
  then show ?case by (intro exI [of _ "pages s"] exI [of _ "page_free_list s"]) (simp add: stress_free_loop.simps)
next
  case (Cons x xs)
  let ?next = "page_at s (hread64 s (phys_to_virt s (page2pa x)))"
  have x: "h = Some x" "x < length (pages s)" "x \<notin> free_frames s" "plist s ?next xs" using Cons.prems by auto
  obtain ps where ps: "page_free x (clear_ref x s) = Some (s\<lparr>pages := ps, page_free_list := Some x\<rparr>)"
    "frames_inv (s\<lparr>pages := ps, page_free_list := Some x\<rparr>)" "length ps = length (pages s)"
    "free_frames (s\<lparr>pages := ps, page_free_list := Some x\<rparr>) = insert x (free_frames s)"
    using free_page [OF Cons.prems(1) x(2,3)] by blast
  let ?s = "s\<lparr>pages := ps, page_free_list := Some x\<rparr>"
  have "plist ?s ?next xs" by (rule plist_cong [OF x(4)]) (simp_all add: ps(3) link_word)
  from Cons.IH [OF ps(2) this, of "n + 1"] Cons.prems(3,4) obtain qs f where
    "stress_free_loop ?next (n + 1) ?s = Some (n + 1 + length xs, s\<lparr>pages := qs, page_free_list := f\<rparr>)" "length qs = length ps"
    "frames_inv (s\<lparr>pages := qs, page_free_list := f\<rparr>)" "free_frames (s\<lparr>pages := qs, page_free_list := f\<rparr>) = insert x (free_frames s) \<union> set xs"
    by (auto simp: ps(4))
  moreover from this(1) have "stress_free_loop h n s = Some (n + length (x # xs), s\<lparr>pages := qs, page_free_list := f\<rparr>)"
    using ps(1) x(1,2) by (subst stress_free_loop.simps) (simp add: Let_def)
  ultimately show ?case using ps(3) by (intro exI [of _ qs] exI [of _ f]) simp
qed

lemma fresh_agree:
  assumes "space_ok I R s" "mem_frame {} s s'"
  shows "agree_on (tables I (mem s) R) (mem s) (mem s')"
  using space_okD(3,4) [OF assms(1)] page_aligned_page2pa tables_aligned [OF tree_okD(1) [OF space_okD(2) [OF assms(1)]]]
  by (intro mem_frame_agree [OF assms(2)]) auto

lemma round_trip:
  assumes ok: "space_ok I R s" and con: "console_ok s" and ptr: "ptrs_ok s"
  obtains h s1 where "stress_alloc_all s = Some (h, s1)" "frames_inv s1" "free_frames s1 = {}" "console_ok s1"
    "\<And>t. \<exists>s2. stress_free_all h (say t s1) = Some s2 \<and> space_ok I R s2 \<and> console_ok s2 \<and> free_frames s2 = free_frames s \<and>
       cr3 s2 = cr3 s \<and> g_hhdm_offset s2 = g_hhdm_offset s \<and> (\<forall>w. owned I w \<longrightarrow> pte_of (mem s2) R w = pte_of (mem s) R w)"
proof -
  note D = space_okD [OF ok]
  obtain h xs s' where r: "stress_alloc_loop None 0 s = Some (h, card (free_frames s), s')" "plist s' h xs" "distinct xs"
    "set xs = free_frames s" "free_frames s' = {}" "frames_inv s'" "mem_frame {} s s'"
    using stress_alloc_run [OF D(1) ptr, of None "[]" 0] by auto
  have con': "console_ok s'" using mem_frame_console [OF r(7)] con by simp
  define s1 where "s1 = say (kmsg (''stress: allocated %ld pages until OOM'' @ [CHR 0x0A]) [W (of_nat (card (free_frames s)))]) s'"
  have T: "tree_ok I (mem s') R" "tables I (mem s') R = tables I (mem s) R"
    using agree_tree_ok agree_tables fresh_agree [OF ok r(7)] D(2) tree_okD(1) [OF D(2)] by blast+
  have e: "pte_of (mem s') R w = pte_of (mem s) R w" if "owned I w" for w
    using agree_pte_of [OF fresh_agree [OF ok r(7)] tree_okD(1) [OF D(2)] that] .
  show thesis
  proof (rule that [of h s1])
    show "stress_alloc_all s = Some (h, s1)" by (simp add: stress_alloc_all_def r(1) kprintf_ok [OF con'] s1_def)
    show "frames_inv s1" "free_frames s1 = {}" "console_ok s1" using r(5,6) con' by (simp_all add: s1_def)
    fix t
    define s2 where "s2 = say t s1"
    have s2: "frames_inv s2" "free_frames s2 = {}" "console_ok s2" "mem s2 = mem s'" "cr3 s2 = cr3 s'" "g_hhdm_offset s2 = g_hhdm_offset s'"
      using r(5,6) con' by (simp_all add: s2_def s1_def)
    have "plist s2 h xs" by (rule plist_cong [OF r(2)]) (simp_all add: s2_def s1_def say_def link_word)
    from stress_free_run [OF s2(1) this r(3), of 0] obtain ps f where
      f: "stress_free_loop h 0 s2 = Some (length xs, s2\<lparr>pages := ps, page_free_list := f\<rparr>)"
      "frames_inv (s2\<lparr>pages := ps, page_free_list := f\<rparr>)" "free_frames (s2\<lparr>pages := ps, page_free_list := f\<rparr>) = set xs"
      by (auto simp: s2(2))
    have c: "console_ok (s2\<lparr>pages := ps, page_free_list := f\<rparr>)" using s2(3) by (simp add: console_ok_def uart_live_def)
    show "\<exists>s2. stress_free_all h (say t s1) = Some s2 \<and> space_ok I R s2 \<and> console_ok s2 \<and> free_frames s2 = free_frames s \<and>
       cr3 s2 = cr3 s \<and> g_hhdm_offset s2 = g_hhdm_offset s \<and> (\<forall>w. owned I w \<longrightarrow> pte_of (mem s2) R w = pte_of (mem s) R w)"
      using f c T D(3) s2 r(4) e mem_frame_same [OF r(7)]
      by (simp add: s2_def [symmetric] stress_free_all_def kprintf_ok [OF c] space_ok_def)
  qed
qed

section \<open>The scratch region\<close>

definition stress_va :: "nat \<Rightarrow> u64" where
  "stress_va i = STRESS_TEST_VBASE + of_nat i * 4096"

definition stress_dir :: "nat list" where "stress_dir = [224, 0, 0]"

definition stress_pattern :: "nat \<Rightarrow> u32" where
  "stress_pattern i = 0xA5A50000 OR of_nat i"

lemma stress_va:
  assumes "i < 64"
  shows "unat (stress_va i) = 0x700000000000 + 4096 * i" "dir_path (stress_va i) = stress_dir" "leaf_index (stress_va i) = i"
    "take_bit 12 (stress_va i) = 0" "owned user_half (stress_va i)" "is_canonical (stress_va i)"
proof -
  have o: "unat (of_nat i * 4096 :: u64) = 4096 * i" using assms by (simp add: unat_word_ariths unat_of_nat)
  have "unat (stress_va i) = unat STRESS_TEST_VBASE + unat (of_nat i * 4096 :: u64)"
    unfolding stress_va_def using assms o by (subst unat_add_lem [THEN iffD1]) (simp_all add: STRESS_TEST_VBASE_def)
  then show u: "unat (stress_va i) = 0x700000000000 + 4096 * i" by (simp add: o STRESS_TEST_VBASE_def)
  have eq: "0x700000000000 + 4096 * i = (0x700000000 + i) * 4096" by simp
  have d: "(0x700000000000 + 4096 * i) div 2 ^ 12 = 0x700000000 + i" by (simp add: eq)
  have "unat (stress_va i) div 2 ^ 39 = (0x700000000 + i) div 2 ^ 27" "unat (stress_va i) div 2 ^ 30 = (0x700000000 + i) div 2 ^ 18"
    "unat (stress_va i) div 2 ^ 21 = (0x700000000 + i) div 2 ^ 9"
    unfolding u using d by (simp_all add: div_mult2_eq [of _ 4096, simplified])
  moreover have "(0x700000000 + i) div 2 ^ 27 = 224" "(0x700000000 + i) div 2 ^ 18 = 0x1C000" "(0x700000000 + i) div 2 ^ 9 = 0x3800000"
    using assms by (simp_all add: div_nat_eqI)
  ultimately show "dir_path (stress_va i) = stress_dir" by (simp add: dir_path_def stress_dir_def unat_index)
  have "(0x700000000 + i) mod 512 = (i + 512 * 58720256) mod 512" by (simp add: add.commute)
  also have "\<dots> = i" using assms by (simp only: mod_mult_self2) simp
  finally show "leaf_index (stress_va i) = i" using d u by (simp add: leaf_index_def unat_index)
  have "unat (stress_va i) mod 4096 = 0" unfolding u eq by simp
  then show "take_bit 12 (stress_va i) = 0" by (simp add: take_bit_12)
  have "unat (stress_va i) < 2 ^ 47" unfolding u using assms by simp
  then show "owned user_half (stress_va i)" "is_canonical (stress_va i)" by (rule page_of_low)+
qed

lemma stress_page: "i < 64 \<Longrightarrow> j < 64 \<Longrightarrow> vpn (stress_va i) = vpn (stress_va j) \<longleftrightarrow> i = j"
  using same_page_iff [of "stress_va i" "stress_va j"] by (simp add: stress_va)

lemma walk_there:
  assumes "tbl (mem s) R (dir_path va) = Some t"
  shows "vmm_walk (phys_to_virt s R) va create s = Some (Some (entry_ptr (phys_to_virt s t) (pt_index va)), s)"
  using assms by (simp add: vmm_walk_def walk_level_def dir_path_def split: if_splits)

text \<open>Mapping one page of the region: the tables are there, or three frames are free to make them.\<close>

lemma stress_map:
  assumes ok: "space_ok user_half R s" and i: "i < 64" and room: "tbl (mem s) R stress_dir = None \<Longrightarrow> 3 \<le> card (free_frames s)"
  obtains s' where "vmm_map (phys_to_virt s R) (stress_va i) pa 3 s = Some s'" "space_ok user_half R s'"
    "mem_frame (tables user_half (mem s) R) s s'"
    "\<And>w. owned user_half w \<Longrightarrow> pte_of (mem s') R w = (if vpn w = vpn (stress_va i) then pte_make pa 3 else pte_of (mem s) R w)"
    "tables user_half (mem s') R \<subseteq> tables user_half (mem s) R \<union> page2pa ` (free_frames s - free_frames s')"
    "tbl (mem s') R stress_dir \<noteq> None" "card (free_frames s) \<le> card (free_frames s') + 3"
    "tbl (mem s) R stress_dir \<noteq> None \<Longrightarrow> free_frames s' = free_frames s"
proof (cases "tbl (mem s) R stress_dir")
  case None
  obtain s' where s': "vmm_map (phys_to_virt s R) (stress_va i) pa 3 s = Some s'" "space_ok user_half R s'"
    "mem_frame (tables user_half (mem s) R) s s'" "card (free_frames s) \<le> card (free_frames s') + 3"
    "\<And>w. owned user_half w \<Longrightarrow> pte_of (mem s') R w = (if vpn w = vpn (stress_va i) then pte_make pa 3 else pte_of (mem s) R w)"
    "tables user_half (mem s') R \<subseteq> tables user_half (mem s) R \<union> page2pa ` (free_frames s - free_frames s')"
    using vmm_map_enough [OF ok stress_va(5) [OF i] room [OF None], of pa 3] by metis
  have "bit (3 :: u64) 0" by (simp add: bit_iff_odd)
  then have "present (pte_of (mem s') R (stress_va i))" using s'(5) [OF stress_va(5) [OF i]] by (simp add: flag_bits bit_pte_make)
  then have "tbl (mem s') R stress_dir \<noteq> None"
    by (cases "tbl (mem s') R stress_dir") (simp_all add: pte_of_def pte_at_def stress_va [OF i])
  then show thesis using that [of s'] s' None by blast
next
  case (Some t)
  then have t: "tbl (mem s) R (dir_path (stress_va i)) = Some t" by (simp add: stress_va [OF i])
  let ?s' = "s\<lparr>mem := write64 (mem s) (slot t (leaf_index (stress_va i))) (pte_make pa 3)\<rparr>"
  note L = leaf_write [OF ok stress_va(5) [OF i] t, where e = "pte_make pa 3"]
  have "path_ok user_half stress_dir" by (simp add: path_ok_def stress_dir_def user_half_def)
  then have "tbl (mem ?s') R stress_dir = Some t" using tbl_written [OF leaf_slot_va [OF ok stress_va(5) [OF i] t]] Some by simp
  moreover have "vmm_map (phys_to_virt s R) (stress_va i) pa 3 s = Some ?s'"
    using walk_there [OF t, of True] by (simp add: vmm_map_def leaf_index_def)
  ultimately show thesis using that [of ?s'] L by simp
qed

section \<open>The invariant of the random test\<close>

definition busy :: "'a stress_state_scheme \<Rightarrow> nat set" where
  "busy s = {i. i < 64 \<and> g_stress_mapped s ! i}"

definition stress_slot :: "u64 \<Rightarrow> (nat \<Rightarrow> nat) \<Rightarrow> 'a stress_state_scheme \<Rightarrow> nat \<Rightarrow> bool" where
  "stress_slot R F s i \<longleftrightarrow>
     (if g_stress_mapped s ! i
      then data_frame R {} s (F i) \<and> pte_of (mem s) R (stress_va i) = pte_make (page2pa (F i)) 3 \<and>
           load_bytes 4 (mem s) (page2pa (F i)) = ucast (stress_pattern i)
      else \<not> present (pte_of (mem s) R (stress_va i)))"

definition stress_inv :: "u64 \<Rightarrow> u64 \<Rightarrow> nat \<Rightarrow> (nat \<Rightarrow> nat) \<Rightarrow> 'a stress_state_scheme \<Rightarrow> bool" where
  "stress_inv R V n F s \<longleftrightarrow>
     space_ok user_half R s \<and> console_ok s \<and> cr3 s AND 0x000FFFFFFFFFF000 = R \<and> g_hhdm_offset s = V \<and>
     length (g_stress_mapped s) = 64 \<and> (\<forall>i < 64. stress_slot R F s i) \<and> inj_on F (busy s) \<and>
     card (free_frames s) + card (busy s) \<le> n \<and> n \<le> card (free_frames s) + card (busy s) + 3 \<and>
     (tbl (mem s) R stress_dir = None \<longrightarrow> card (free_frames s) = n \<and> busy s = {})"

lemma stress_invD:
  assumes "stress_inv R V n F s"
  shows "space_ok user_half R s" "console_ok s" "cr3 s AND 0x000FFFFFFFFFF000 = R" "g_hhdm_offset s = V"
    "length (g_stress_mapped s) = 64" "\<And>i. i < 64 \<Longrightarrow> stress_slot R F s i" "inj_on F (busy s)"
    "card (free_frames s) + card (busy s) \<le> n" "n \<le> card (free_frames s) + card (busy s) + 3"
    "tbl (mem s) R stress_dir = None \<Longrightarrow> card (free_frames s) = n \<and> busy s = {}"
  using assms by (simp_all add: stress_inv_def)

definition keeps :: "u64 \<Rightarrow> nat set \<Rightarrow> 'a stress_state_scheme \<Rightarrow> 'a stress_state_scheme \<Rightarrow> bool" where
  "keeps R Q s s' \<longleftrightarrow> g_stress_mapped s' = g_stress_mapped s \<and>
     (\<forall>q. q \<notin> Q \<longrightarrow> data_frame R {} s q \<longrightarrow>
        data_frame R {} s' q \<and> (\<forall>k < 4096. mem s' (page2pa q + of_nat k) = mem s (page2pa q + of_nat k)))"

lemma keeps_trans: "keeps R Q s s1 \<Longrightarrow> keeps R Q' s1 s2 \<Longrightarrow> keeps R (Q \<union> Q') s s2"
  by (simp add: keeps_def)

lemma keeps_step:
  assumes "space_ok user_half R s" "mem_frame (tables user_half (mem s) R) s s'"
    "tables user_half (mem s') R \<subseteq> tables user_half (mem s) R \<union> page2pa ` (free_frames s - free_frames s')"
  shows "keeps R {} s s'"
proof -
  have "g_stress_mapped s' = g_stress_mapped s" using assms(2) by (auto simp: mem_frame_def)
  then show ?thesis using data_step [OF assms] by (simp add: keeps_def)
qed

lemma slot_kept:
  assumes "stress_slot R F s i" "keeps R Q s s'" "F i \<notin> Q" "pte_of (mem s') R (stress_va i) = pte_of (mem s) R (stress_va i)"
  shows "stress_slot R F s' i"
proof (cases "g_stress_mapped s ! i")
  case True
  then have d: "data_frame R {} s (F i)" using assms(1) by (simp add: stress_slot_def)
  have K: "data_frame R {} s' (F i)" "\<forall>k < 4096. mem s' (page2pa (F i) + of_nat k) = mem s (page2pa (F i) + of_nat k)"
    using assms(2,3) d unfolding keeps_def by blast+
  have "load_bytes 4 (mem s') (page2pa (F i)) = load_bytes 4 (mem s) (page2pa (F i))" by (rule load_bytes_cong) (simp add: K(2))
  then show ?thesis using assms True K(1) by (simp add: stress_slot_def keeps_def)
next
  case False
  then show ?thesis using assms by (simp add: stress_slot_def keeps_def)
qed

lemma stress_access:
  assumes ok: "space_ok user_half R s" and i: "i < 64" and pte: "pte_of (mem s) R (stress_va i) = pte_make (page2pa q) 3"
    and q: "q < 2 ^ 40" and root: "cr3 s AND 0x000FFFFFFFFFF000 = R"
  shows "vresolve write s (stress_va i) = Some (page2pa q)" "pte_get_addr (pte_of (mem s) R (stress_va i)) = page2pa q"
    "present (pte_of (mem s) R (stress_va i))"
proof -
  have b: "bit (3 :: u64) 0" "bit (3 :: u64) 1" by (simp_all add: bit_iff_odd)
  have "unat (page2pa q) < 2 ^ 52" using q by (simp add: unat_page2pa)
  then have "pte_get_addr (page2pa q) = page2pa q" using pte_get_addr_frame page_aligned_page2pa [OF q] by blast
  then have a: "pte_get_addr (pte_make (page2pa q) 3) = page2pa q"
    using pte_get_addr_make [of 3 "page2pa q"] pte_get_addr_mask [of "page2pa q"] by simp
  then show "pte_get_addr (pte_of (mem s) R (stress_va i)) = page2pa q" by (simp add: pte)
  show "present (pte_of (mem s) R (stress_va i))" using b by (simp add: pte flag_bits bit_pte_make)
  have "unat (stress_va i) < 2 ^ 47" using i by (simp add: stress_va)
  then show "vresolve write s (stress_va i) = Some (page2pa q)"
    using mmu_access_pte_of [OF ok stress_va(5,6) [OF i]] a b
    by (simp add: vresolve_def root pte Let_def grants_def flag_bits bit_pte_make stress_va [OF i])
qed

lemma busy_update:
  assumes "length (g_stress_mapped s) = 64" "i < 64"
  shows "busy (s\<lparr>g_stress_mapped := (g_stress_mapped s)[i := True]\<rparr>) = insert i (busy s)"
    "busy (s\<lparr>g_stress_mapped := (g_stress_mapped s)[i := False]\<rparr>) = busy s - {i}"
    "finite (busy s)"
  using assms by (auto simp: busy_def nth_list_update)

lemma busy_card: "card (busy s) \<le> 64"
proof -
  have "busy s \<subseteq> {..<64}" by (auto simp: busy_def)
  then show ?thesis using card_mono [of "{..<64}" "busy s"] by simp
qed

lemma busy_notin: "finite (busy s) \<Longrightarrow> i < 64 \<Longrightarrow> i \<notin> busy s \<Longrightarrow> card (busy s) < 64"
proof -
  assume "i < 64" "i \<notin> busy s"
  then have "busy s \<subset> {..<64}" by (auto simp: busy_def)
  then show ?thesis using psubset_card_mono [of "{..<64}" "busy s"] by simp
qed

lemma stress_room:
  assumes I: "stress_inv R V n F s" and i: "i < 64" "\<not> g_stress_mapped s ! i" and n: "67 \<le> n"
  shows "free_frames s \<noteq> {}" "tbl (mem s) R stress_dir = None \<Longrightarrow> 4 \<le> card (free_frames s)"
proof -
  note D = stress_invD [OF I]
  have "i \<notin> busy s" using i by (simp add: busy_def)
  then have "card (busy s) < 64" using busy_notin [OF busy_update(3) [OF D(5) i(1)] i(1)] by blast
  then show "free_frames s \<noteq> {}" using D(9) n by auto
  show "tbl (mem s) R stress_dir = None \<Longrightarrow> 4 \<le> card (free_frames s)" using D(10) n by simp
qed

lemma stress_fields [simp]:
  "free_frames (s\<lparr>g_stress_mapped := b\<rparr>) = free_frames s" "free_frames (s\<lparr>g_rng_state := r\<rparr>) = free_frames s"
  "space_ok I R (s\<lparr>g_stress_mapped := b\<rparr>) = space_ok I R s" "space_ok I R (s\<lparr>g_rng_state := r\<rparr>) = space_ok I R s"
  "data_frame R X (s\<lparr>g_stress_mapped := b\<rparr>) q = data_frame R X s q" "data_frame R X (s\<lparr>g_rng_state := r\<rparr>) q = data_frame R X s q"
  "console_ok (s\<lparr>g_stress_mapped := b\<rparr>) = console_ok s" "console_ok (s\<lparr>g_rng_state := r\<rparr>) = console_ok s"
  by (simp_all add: free_frames_def space_ok_def frames_inv_def data_frame_def console_ok_def uart_live_def)

lemma slot_busy: "j < 64 \<Longrightarrow> stress_slot R F s j \<Longrightarrow> j \<in> busy s \<Longrightarrow> data_frame R {} s (F j)"
  by (simp add: stress_slot_def busy_def)

lemma stress_dir_ok: "path_ok user_half stress_dir"
  by (simp add: path_ok_def stress_dir_def user_half_def)

lemma stress_alloc_map:
  assumes I: "stress_inv R V n F s" and i: "i < 64" "\<not> g_stress_mapped s ! i" and n: "67 \<le> n"
  obtains pp s1 s2 where "page_alloc 1 s = Some (Some pp, s1)" "vmm_map (phys_to_virt s R) (stress_va i) (page2pa pp) 3 s1 = Some s2"
    "pp \<in> free_frames s" "data_frame R {} s2 pp" "space_ok user_half R s2" "keeps R {} s s2" "mem_frame (tables user_half (mem s) R) s s2"
    "\<And>w. owned user_half w \<Longrightarrow> pte_of (mem s2) R w = (if vpn w = vpn (stress_va i) then pte_make (page2pa pp) 3 else pte_of (mem s) R w)"
    "tbl (mem s2) R stress_dir \<noteq> None" "card (free_frames s) \<le> card (free_frames s2) + 4" "card (free_frames s2) < card (free_frames s)"
    "tbl (mem s) R stress_dir \<noteq> None \<Longrightarrow> card (free_frames s) = card (free_frames s2) + 1"
proof -
  note D = stress_invD [OF I] and O = stress_room [OF I i n]
  note ok = D(1) and S = space_okD [OF D(1)]
  obtain pp s1 where al: "page_alloc 1 s = Some (Some pp, s1)" "alloc_post 1 s pp s1" using page_alloc_pop [OF S(1) O(1)] by blast
  have A: "pp \<in> free_frames s" "free_frames s1 = free_frames s - {pp}" using al(2) by (simp_all add: alloc_post_def)
  note F1 = alloc_mem_frame [OF al(2)] and S1 = space_alloc [OF ok al(2)] and fin = fa.avail_finite [OF S(1)]
  have c1: "card (free_frames s) = Suc (card (free_frames s1))" using A fin by (metis card_Suc_Diff1)
  have t1: "tbl (mem s1) R stress_dir = tbl (mem s) R stress_dir"
    using agree_tbl [OF fresh_agree [OF ok F1] tree_okD(1) [OF S(2)] stress_dir_ok] .
  have room: "3 \<le> card (free_frames s1)" if "tbl (mem s1) R stress_dir = None" using O(2) that c1 by (simp add: t1)
  obtain s2 where m: "vmm_map (phys_to_virt s1 R) (stress_va i) (page2pa pp) 3 s1 = Some s2" "space_ok user_half R s2"
    "mem_frame (tables user_half (mem s1) R) s1 s2"
    "\<And>w. owned user_half w \<Longrightarrow> pte_of (mem s2) R w = (if vpn w = vpn (stress_va i) then pte_make (page2pa pp) 3 else pte_of (mem s1) R w)"
    "tables user_half (mem s2) R \<subseteq> tables user_half (mem s1) R \<union> page2pa ` (free_frames s1 - free_frames s2)"
    "tbl (mem s2) R stress_dir \<noteq> None" "card (free_frames s1) \<le> card (free_frames s2) + 3"
    "tbl (mem s1) R stress_dir \<noteq> None \<Longrightarrow> free_frames s2 = free_frames s1"
    by (rule stress_map [OF S1(1) i(1) room, of "page2pa pp"]) blast+
  have "data_frame R {} s1 pp"
    using S(3) [OF A(1)] free_frames_bound [OF A(1)] mem_frame_same(6) [OF F1] by (simp add: data_frame_def A(2) S1(3))
  moreover have K2: "keeps R {} s1 s2" by (rule keeps_step [OF S1(1) m(3,5)])
  ultimately have q: "data_frame R {} s2 pp" by (simp add: keeps_def)
  have "keeps R {} s s1" by (rule keeps_step [OF ok mem_frame_mono [OF F1]]) (simp add: S1(3))
  then have K: "keeps R {} s s2" using keeps_trans [OF _ K2] by fastforce
  have F2: "mem_frame (tables user_half (mem s) R) s s2"
    by (rule mem_frame_trans [OF mem_frame_mono [OF F1] m(3)]) (simp add: S1(3))
  have "free_frames s2 \<subseteq> free_frames s1" using m(3) by (simp add: mem_frame_def)
  then have "card (free_frames s2) \<le> card (free_frames s1)" using fin A(2) by (intro card_mono) auto
  then show thesis
    using m(1) S1(2) m(4,6,7,8) c1 t1 by (intro that [OF al(1) _ A(1) q m(2) K F2]) (simp_all add: mem_frame_same(1) [OF F1])
qed

lemma ucast_32: "take_bit 32 (ucast (x :: u32) :: u64) = ucast x" "ucast (ucast x :: u64) = x"
  by (rule bit_word_eqI; auto simp: bit_simps dest: bit_imp_le_length)+

lemma stress_write:
  assumes ok: "space_ok user_half R s" and q: "data_frame R {} s q" and i: "i < 64"
    and pte: "pte_of (mem s) R (stress_va i) = pte_make (page2pa q) 3" and root: "cr3 s AND 0x000FFFFFFFFFF000 = R"
  obtains m where "vwrite32 (stress_va i) (stress_pattern i) s = Some (s\<lparr>mem := m\<rparr>)" "space_ok user_half R (s\<lparr>mem := m\<rparr>)"
    "keeps R {q} s (s\<lparr>mem := m\<rparr>)" "data_frame R {} (s\<lparr>mem := m\<rparr>) q" "load_bytes 4 m (page2pa q) = ucast (stress_pattern i)"
    "\<And>w. owned user_half w \<Longrightarrow> pte_of m R w = pte_of (mem s) R w" "tbl m R stress_dir = tbl (mem s) R stress_dir"
proof -
  have q40: "q' < 2 ^ 40" if "data_frame R {} s q'" for q' using that space_okD(1) [OF ok] by (simp add: data_frame_def frames_inv_def)
  define m where "m = store_bytes 4 (mem s) (page2pa q) (ucast (stress_pattern i))"
  have off: "\<forall>x. \<not> in_page (page2pa q) x \<longrightarrow> m x = mem s x" by (simp add: m_def in_page_def store_bytes_apply)
  note W = data_write [OF ok q off refl]
  have "m (page2pa q' + of_nat k) = mem s (page2pa q' + of_nat k)" if q': "data_frame R {} s q'" "q' \<noteq> q" "k < 4096" for q' k
  proof -
    have "page2pa q' \<noteq> page2pa q" using page2pa_inj q40 q q' by blast
    then have "\<not> in_page (page2pa q) (page2pa q' + of_nat k)"
      using in_page_disjoint [OF page_aligned_page2pa page_aligned_page2pa] q40 q q'(1) in_page_nth [OF q'(3)] by blast
    then show ?thesis using off by blast
  qed
  then have "keeps R {q} s (s\<lparr>mem := m\<rparr>)" by (simp add: keeps_def W(5))
  moreover have "load_bytes 4 m (page2pa q) = ucast (stress_pattern i)"
    using load_store_bytes [of 4 "mem s" "page2pa q" "ucast (stress_pattern i)"] 
      ucast_32 [of "stress_pattern i"] by (simp add: m_def)
  ultimately show thesis
    using W q stress_access(1) [OF ok i pte q40 [OF q] root] W(6) [OF stress_dir_ok]
    by (intro that [of m]) (simp_all add: vwrite32_def m_def [symmetric])
qed

lemma stress_map_step:
  assumes I: "stress_inv R V n F s" and i: "i < 64" "\<not> g_stress_mapped s ! i" and n: "67 \<le> n"
  obtains pp s1 s2 s3 where "page_alloc 1 s = Some (Some pp, s1)" "vmm_map (phys_to_virt s R) (stress_va i) (page2pa pp) 3 s1 = Some s2"
    "vwrite32 (stress_va i) (stress_pattern i) s2 = Some s3"
    "stress_inv R V n (F(i := pp)) (s3\<lparr>g_stress_mapped := (g_stress_mapped s3)[i := True]\<rparr>)"
proof -
  note D = stress_invD [OF I]
  obtain pp s1 s2 where m: "page_alloc 1 s = Some (Some pp, s1)" "vmm_map (phys_to_virt s R) (stress_va i) (page2pa pp) 3 s1 = Some s2"
    "pp \<in> free_frames s" "data_frame R {} s2 pp" "space_ok user_half R s2" "keeps R {} s s2" "mem_frame (tables user_half (mem s) R) s s2"
    "\<And>w. owned user_half w \<Longrightarrow> pte_of (mem s2) R w = (if vpn w = vpn (stress_va i) then pte_make (page2pa pp) 3 else pte_of (mem s) R w)"
    "tbl (mem s2) R stress_dir \<noteq> None" "card (free_frames s) \<le> card (free_frames s2) + 4" "card (free_frames s2) < card (free_frames s)"
    "tbl (mem s) R stress_dir \<noteq> None \<Longrightarrow> card (free_frames s) = card (free_frames s2) + 1"
    by (rule stress_alloc_map [OF I i n]) blast
  have same: "cr3 s2 = cr3 s" "g_hhdm_offset s2 = g_hhdm_offset s" "console_ok s2" "g_stress_mapped s2 = g_stress_mapped s"
    using mem_frame_same [OF m(7)] mem_frame_console [OF m(7)] D(2) m(6) by (simp_all add: keeps_def)
  have root: "cr3 s2 AND 0x000FFFFFFFFFF000 = R" using D(3) same(1) by simp
  have pte: "pte_of (mem s2) R (stress_va i) = pte_make (page2pa pp) 3" using m(8) [OF stress_va(5) [OF i(1)]] by simp
  obtain mm where w: "vwrite32 (stress_va i) (stress_pattern i) s2 = Some (s2\<lparr>mem := mm\<rparr>)" "space_ok user_half R (s2\<lparr>mem := mm\<rparr>)"
    "keeps R {pp} s2 (s2\<lparr>mem := mm\<rparr>)" "data_frame R {} (s2\<lparr>mem := mm\<rparr>) pp" "load_bytes 4 mm (page2pa pp) = ucast (stress_pattern i)"
    "\<And>w. owned user_half w \<Longrightarrow> pte_of mm R w = pte_of (mem s2) R w" "tbl mm R stress_dir = tbl (mem s2) R stress_dir"
    by (rule stress_write [OF m(5,4) i(1) pte root]) blast
  define s3 where "s3 = s2\<lparr>mem := mm\<rparr>"
  note w = w [folded s3_def]
  have s3: "mem s3 = mm" "g_stress_mapped s3 = g_stress_mapped s" "free_frames s3 = free_frames s2" "cr3 s3 = cr3 s"
    "g_hhdm_offset s3 = g_hhdm_offset s" "console_ok s3"
    using same by (simp_all add: s3_def) (simp add: console_ok_def uart_live_def)
  let ?s4 = "s3\<lparr>g_stress_mapped := (g_stress_mapped s3)[i := True]\<rparr>"
  have K: "keeps R {pp} s s3" using keeps_trans [OF m(6) w(3)] by simp
  have ib: "i \<notin> busy s" using i(2) by (simp add: busy_def)
  have fresh: "F j \<noteq> pp" if "j < 64" "j \<in> busy s" for j
    using slot_busy [OF that(1) D(6) [OF that(1)] that(2)] m(3) by (auto simp: data_frame_def)
  have slots: "stress_slot R (F(i := pp)) ?s4 j" if j: "j < 64" for j
  proof (cases "j = i")
    case True
    then show ?thesis using w(4,5) pte w(6) [OF stress_va(5) [OF i(1)]] D(5) i(1) by (simp add: stress_slot_def s3)
  next
    case False
    have e: "pte_of (mem s3) R (stress_va j) = pte_of (mem s) R (stress_va j)"
      using w(6) [OF stress_va(5) [OF j]] m(8) [OF stress_va(5) [OF j]] stress_page [OF j i(1)] False by (simp add: s3)
    have "stress_slot R F s3 j"
    proof (cases "j \<in> busy s")
      case True
      then show ?thesis using slot_kept [OF D(6) [OF j] K _ e] fresh [OF j] by simp
    next
      case False
      then show ?thesis using D(6) [OF j] e j by (simp add: stress_slot_def busy_def s3)
    qed
    then show ?thesis using False D(5) i(1) by (simp add: stress_slot_def s3 split: if_splits)
  qed
  have b: "busy ?s4 = insert i (busy s)" using D(5) i(1) by (auto simp: busy_def s3 nth_list_update)
  have c: "card (busy ?s4) = Suc (card (busy s))" using ib busy_update(3) [OF D(5) i(1)] by (simp add: b)
  have inj: "inj_on (F(i := pp)) (busy ?s4)"
    unfolding b using D(7) fresh ib by (auto simp: inj_on_def busy_def)
  have n2: "card (free_frames s2) + card (busy ?s4) \<le> n" unfolding c using D(8) m(11) by simp
  have n3: "n \<le> card (free_frames s2) + card (busy ?s4) + 3"
    unfolding c using D(9,10) m(10,12) by (cases "tbl (mem s) R stress_dir") auto
  have "stress_inv R V n (F(i := pp)) ?s4"
    unfolding stress_inv_def using w(2,7) slots inj n2 n3 m(9) root D(3,4,5) by (auto simp: s3)
  then show thesis by (rule that [OF m(1,2) w(1)])
qed

lemma stress_idx: "i < 64 \<Longrightarrow> unat (of_nat i :: u32) = i" "STRESS_TEST_VBASE + ucast idx * 4096 = stress_va (unat idx)"
  by (simp_all add: unat_of_nat stress_va_def)

lemma stress_unmap_run:
  assumes I: "stress_inv R V n F s" and i: "i < 64" "g_stress_mapped s ! i"
  obtains s' where "stress_unmap_idx (phys_to_virt s R) (of_nat i) s = Some (s'\<lparr>g_stress_mapped := (g_stress_mapped s')[i := False]\<rparr>)"
    "space_ok user_half R s'" "console_ok s'" "keeps R {F i} s s'" "free_frames s' = insert (F i) (free_frames s)" "F i \<notin> free_frames s"
    "cr3 s' = cr3 s" "g_hhdm_offset s' = g_hhdm_offset s" "tbl (mem s') R stress_dir \<noteq> None"
    "\<And>w. owned user_half w \<Longrightarrow> pte_of (mem s') R w = (if vpn w = vpn (stress_va i) then 0 else pte_of (mem s) R w)"
proof -
  note D = stress_invD [OF I] and S = space_okD [OF stress_invD(1) [OF I]]
  have sl: "data_frame R {} s (F i)" "pte_of (mem s) R (stress_va i) = pte_make (page2pa (F i)) 3" using D(6) [OF i(1)] i(2) by (simp_all add: stress_slot_def)
  have Fi: "F i < length (pages s)" "F i \<notin> free_frames s" "F i < 2 ^ 40" using sl(1) S(1) by (simp_all add: data_frame_def frames_inv_def)
  note A = stress_access(2,3) [OF D(1) i(1) sl(2) Fi(3) D(3)] and own = stress_va(5) [OF i(1)]
  obtain t where t: "tbl (mem s) R (dir_path (stress_va i)) = Some t"
    using A(2) by (cases "tbl (mem s) R (dir_path (stress_va i))") (simp_all add: pte_of_def pte_at_def)
  have pt: "ent (mem s) t (unat (pt_index (stress_va i))) = pte_of (mem s) R (stress_va i)" by (simp add: pte_of_def pte_at_def t leaf_index_def)
  define m where "m = write64 (mem s) (slot t (leaf_index (stress_va i))) 0"
  define s1 where "s1 = s\<lparr>mem := m, tlb_log := tlb_log s @ [Invlpg (stress_va i)]\<rparr>"
  note L = leaf_write [OF D(1) own t, where e = 0, folded m_def]
  have s1: "frames_inv s1" "pages s1 = pages s" "free_frames s1 = free_frames s" using S(1) by (simp_all add: s1_def)
  obtain ps where f: "page_free (F i) (clear_ref (F i) s1) = Some (s1\<lparr>pages := ps, page_free_list := Some (F i)\<rparr>)"
    "frames_inv (s1\<lparr>pages := ps, page_free_list := Some (F i)\<rparr>)" "length ps = length (pages s1)"
    "free_frames (s1\<lparr>pages := ps, page_free_list := Some (F i)\<rparr>) = insert (F i) (free_frames s1)"
    by (rule free_page [OF s1(1), of "F i"]) (use Fi in \<open>simp_all add: s1\<close>)
  define s2 where "s2 = s1\<lparr>pages := ps, page_free_list := Some (F i)\<rparr>"
  note f = f [folded s2_def, unfolded s1(2,3)]
  have s2: "mem s2 = m" "g_stress_mapped s2 = g_stress_mapped s" "cr3 s2 = cr3 s" "g_hhdm_offset s2 = g_hhdm_offset s" "console_ok s2"
    "length (pages s2) = length (pages s)"
    using D(2) f(3) by (simp_all add: s2_def s1_def) (simp add: console_ok_def uart_live_def)
  have T: "tables user_half m R = tables user_half (mem s) R" using L(4) by simp
  have run: "stress_unmap_idx (phys_to_virt s R) (of_nat i) s = Some (s2\<lparr>g_stress_mapped := (g_stress_mapped s2)[i := False]\<rparr>)"
    using walk_there [OF t, of False] A pt f(1) Fi i(1)
    by (simp add: stress_unmap_idx_def Let_def stress_idx pa2page_page2pa vmm_unmap_def invlpg_def leaf_index_def [symmetric]
        m_def [symmetric] s1_def [symmetric] s1)
  have ok: "space_ok user_half R s2"
    using L(1) f(2,4) S(3) sl(1) by (auto simp: space_ok_def s2(1) T data_frame_def)
  have "data_frame R {} s2 q \<and> (\<forall>k < 4096. mem s2 (page2pa q + of_nat k) = mem s (page2pa q + of_nat k))" if "q \<noteq> F i" "data_frame R {} s q" for q
    using that data_step(2) [OF D(1) L(2) _ that(2)] by (simp add: data_frame_def s2 T f(4))
  then have K: "keeps R {F i} s s2" by (simp add: keeps_def s2)
  have "tbl (mem s2) R stress_dir \<noteq> None"
    using tbl_written [OF leaf_slot_va [OF D(1) own t] stress_dir_ok, of 0] t by (simp add: s2(1) m_def stress_va [OF i(1)])
  then show thesis using L(3) by (intro that [OF run ok s2(5) K f(4) Fi(2) s2(3,4)]) (simp_all add: s2(1))
qed

lemma stress_unmap_step:
  assumes I: "stress_inv R V n F s" and i: "i < 64" "g_stress_mapped s ! i"
  obtains s' where "stress_unmap_idx (phys_to_virt s R) (of_nat i) s = Some s'" "stress_inv R V n F s'" "busy s' = busy s - {i}"
proof -
  note D = stress_invD [OF I]
  obtain s1 where u: "stress_unmap_idx (phys_to_virt s R) (of_nat i) s = Some (s1\<lparr>g_stress_mapped := (g_stress_mapped s1)[i := False]\<rparr>)"
    "space_ok user_half R s1" "console_ok s1" "keeps R {F i} s s1" "free_frames s1 = insert (F i) (free_frames s)" "F i \<notin> free_frames s"
    "cr3 s1 = cr3 s" "g_hhdm_offset s1 = g_hhdm_offset s" "tbl (mem s1) R stress_dir \<noteq> None"
    "\<And>w. owned user_half w \<Longrightarrow> pte_of (mem s1) R w = (if vpn w = vpn (stress_va i) then 0 else pte_of (mem s) R w)"
    by (rule stress_unmap_run [OF I i]) blast
  let ?s = "s1\<lparr>g_stress_mapped := (g_stress_mapped s1)[i := False]\<rparr>"
  have g: "g_stress_mapped s1 = g_stress_mapped s" using u(4) by (simp add: keeps_def)
  have b: "busy ?s = busy s - {i}" using D(5) i(1) by (auto simp: busy_def g nth_list_update)
  have ib: "i \<in> busy s" using i by (simp add: busy_def)
  have slots: "stress_slot R F ?s j" if j: "j < 64" for j
  proof (cases "j = i")
    case True
    then show ?thesis using u(10) [OF stress_va(5) [OF j]] D(5) j by (simp add: stress_slot_def g)
  next
    case False
    have e: "pte_of (mem s1) R (stress_va j) = pte_of (mem s) R (stress_va j)"
      using u(10) [OF stress_va(5) [OF j]] stress_page [OF j i(1)] False by simp
    have "stress_slot R F s1 j"
    proof (cases "j \<in> busy s")
      case True
      then show ?thesis using slot_kept [OF D(6) [OF j] u(4) _ e] inj_onD [OF D(7) _ True ib] False by auto
    next
      case False
      then show ?thesis using D(6) [OF j] e j by (simp add: stress_slot_def busy_def g)
    qed
    then show ?thesis using False by (simp add: stress_slot_def split: if_splits)
  qed
  have inj: "inj_on F (busy ?s)" unfolding b using D(7) by (rule inj_on_diff)
  have "card (free_frames ?s) = Suc (card (free_frames s))" using u(5,6) fa.avail_finite [OF space_okD(1) [OF D(1)]] by simp
  moreover have "Suc (card (busy ?s)) = card (busy s)" using card_Suc_Diff1 [OF busy_update(3) [OF D(5) i(1)] ib] b by simp
  ultimately have "stress_inv R V n F ?s"
    using u(2,3,7,8,9) D(3,4,5,8,9) slots inj by (auto simp: stress_inv_def g)
  then show thesis using that [OF u(1)] b by simp
qed

lemma stress_step_ok:
  assumes I: "stress_inv R V n F s" and n: "67 \<le> n"
  shows "\<exists>F' s'. stress_step (phys_to_virt s R) iter s = Some (Next s') \<and> stress_inv R V n F' s'"
proof -
  obtain r s0 where rnd: "stress_rand s = (r, s0)" by fastforce
  have s0: "s0 = s\<lparr>g_rng_state := r\<rparr>" using rnd by (simp add: stress_rand_def Let_def) auto
  have I0: "stress_inv R V n F s0" using I by (simp add: s0 stress_inv_def stress_slot_def busy_def)
  have pv: "phys_to_virt s = phys_to_virt s0" by (simp add: s0 phys_to_virt_def fun_eq_iff)
  define idx where "idx = r mod STRESS_TEST_PAGES"
  define i where "i = unat idx"
  have i: "i < 64" "idx = of_nat i" by (simp add: i_def idx_def STRESS_TEST_PAGES_def unat_mod) (simp add: i_def)
  have pat: "0xA5A50000 OR idx = stress_pattern i" by (simp add: stress_pattern_def i(2))
  note D = stress_invD [OF I0]
  show ?thesis
  proof (cases "g_stress_mapped s0 ! i")
    case False
    obtain pp s1 s2 s3 where "page_alloc 1 s0 = Some (Some pp, s1)" "vmm_map (phys_to_virt s0 R) (stress_va i) (page2pa pp) 3 s1 = Some s2"
      "vwrite32 (stress_va i) (stress_pattern i) s2 = Some s3"
      "stress_inv R V n (F(i := pp)) (s3\<lparr>g_stress_mapped := (g_stress_mapped s3)[i := True]\<rparr>)"
      by (rule stress_map_step [OF I0 i(1) False n]) blast
    then show ?thesis
      using False by (simp add: stress_step_def rnd Let_def idx_def [symmetric] stress_idx i_def [symmetric] pat pv) blast
  next
    case True
    have sl: "data_frame R {} s0 (F i)" "pte_of (mem s0) R (stress_va i) = pte_make (page2pa (F i)) 3"
      "load_bytes 4 (mem s0) (page2pa (F i)) = ucast (stress_pattern i)" using D(6) [OF i(1)] True by (simp_all add: stress_slot_def)
    have "F i < 2 ^ 40" using sl(1) space_okD(1) [OF D(1)] by (simp add: data_frame_def frames_inv_def)
    then have rd: "vread32 s0 (stress_va i) = Some (stress_pattern i)"
      using stress_access(1) [OF D(1) i(1) sl(2) _ D(3)] sl(3) ucast_32(2) [of "stress_pattern i"] by (simp add: vread32_def)
    obtain s' where "stress_unmap_idx (phys_to_virt s0 R) idx s0 = Some s'" "stress_inv R V n F s'"
      using stress_unmap_step [OF I0 i(1) True] i(2) by metis
    then show ?thesis
      using True rd by (simp add: stress_step_def rnd Let_def idx_def [symmetric] stress_idx i_def [symmetric] pat pv) blast
  qed
qed

lemma stress_inv_base: "stress_inv R V n F s \<Longrightarrow> phys_to_virt s R = R + V"
  by (simp add: stress_inv_def phys_to_virt_def)

lemma foreach_inv:
  assumes "P s" "\<And>x s. x \<in> set xs \<Longrightarrow> P s \<Longrightarrow> \<exists>s'. f x s = Some (Next s') \<and> P s'"
  shows "\<exists>s'. foreach f xs s = Some (Next s') \<and> P s'"
  using assms
proof (induction xs arbitrary: s)
  case Nil
  then show ?case by simp
next
  case (Cons x xs)
  obtain s1 where "f x s = Some (Next s1)" "P s1" using Cons.prems(2) [of x s] Cons.prems(1) by auto
  then show ?case using Cons.IH [of s1] Cons.prems(2) by auto
qed

lemma cleanup_run:
  assumes "stress_inv R V n F s" "busy s \<subseteq> {a..<b}" "b \<le> 64"
  shows "\<exists>s'. foreach (stress_cleanup (R + V)) [a..<b] s = Some (Next s') \<and> stress_inv R V n F s' \<and> busy s' = {}"
  using assms(1,2)
proof (induction "b - a" arbitrary: a s)
  case 0
  then show ?case by simp
next
  case (Suc k)
  then have ab: "a < b" "[a..<b] = a # [Suc a..<b]" "k = b - Suc a" by (simp_all add: upt_conv_Cons)
  obtain s1 where s1: "stress_cleanup (R + V) a s = Some (Next s1)" "stress_inv R V n F s1" "busy s1 = busy s - {a}"
  proof (cases "g_stress_mapped s ! a")
    case True
    obtain s1 where "stress_unmap_idx (R + V) (of_nat a) s = Some s1" "stress_inv R V n F s1" "busy s1 = busy s - {a}"
      using stress_unmap_step [OF Suc.prems(1) _ True] ab(1) assms(3) stress_inv_base [OF Suc.prems(1)] by auto
    then show thesis using that True by (simp add: stress_cleanup_def)
  next
    case False
    then show thesis using that [of s] Suc.prems(1) by (auto simp: stress_cleanup_def busy_def)
  qed
  have "busy s1 \<subseteq> {Suc a..<b}" using Suc.prems(2) s1(3) by auto
  then show ?case using Suc.hyps(1) [OF ab(3) s1(2)] s1(1) ab(2) by simp
qed

lemma random_run:
  assumes ok: "space_ok user_half R s" and con: "console_ok s" and root: "cr3 s AND 0x000FFFFFFFFFF000 = R"
    and un: "\<forall>i < 64. \<not> present (pte_of (mem s) R (stress_va i))" and n: "67 \<le> card (free_frames s)"
  obtains s' where "stress_random_map_unmap (phys_to_virt s R) k s = Some s'" "space_ok user_half R s'" "console_ok s'"
    "card (free_frames s') \<le> card (free_frames s)" "card (free_frames s) \<le> card (free_frames s') + 3"
proof -
  let ?n = "card (free_frames s)" and ?V = "g_hhdm_offset s"
  define s0 where "s0 = s\<lparr>g_stress_mapped := replicate 64 False\<rparr>"
  have I: "stress_inv R ?V ?n id s0" using ok con root un by (simp add: s0_def stress_inv_def stress_slot_def busy_def)
  have base: "phys_to_virt s R = R + ?V" by (simp add: phys_to_virt_def)
  have "\<exists>s'. stress_step (R + ?V) iter s = Some (Next s') \<and> (\<exists>F. stress_inv R ?V ?n F s')" if "\<exists>F. stress_inv R ?V ?n F s" for iter and s :: "'a stress_state_scheme"
    using stress_step_ok n that stress_inv_base by metis
  then obtain s1 F where s1: "foreach (stress_step (R + ?V)) [0..<k] s0 = Some (Next s1)" "stress_inv R ?V ?n F s1"
    using foreach_inv [of "\<lambda>s. \<exists>F. stress_inv R ?V ?n F s" s0 "[0..<k]" "stress_step (R + ?V)"] I by blast
  have "busy s1 \<subseteq> {0..<64}" by (auto simp: busy_def)
  from cleanup_run [OF s1(2) this] obtain s' where s': "foreach (stress_cleanup (R + ?V)) [0..<64] s1 = Some (Next s')"
    "stress_inv R ?V ?n F s'" "busy s' = {}" by auto
  have "stress_random_map_unmap (phys_to_virt s R) k s = Some s'"
    using s1(1) s'(1) by (simp add: stress_random_map_unmap_def Let_def base STRESS_TEST_PAGES_def s0_def [symmetric])
  then show thesis using that [of s'] stress_invD [OF s'(2)] s'(3) by simp
qed

lemma say_space [simp]: "space_ok I R (say t s) = space_ok I R s" "ptrs_ok (say t s) = ptrs_ok s"
  by (simp_all add: space_ok_def) (simp add: ptrs_ok_def say_def)

section \<open>Properties\<close>

text \<open>Claim C11. On a machine with a working console, at least 67 free frames and an unused scratch region, the
  whole stress test returns: it never reaches one of its panics, no access faults and no loop diverges. Allocating until
  memory is exhausted and freeing along the list threaded through the pages restores the free set; every page read
  back in the random test holds its pattern; and at the end at most three frames, the page tables of the region,
  are gone.\<close>

theorem stress_test_passes:
  assumes "space_ok user_half R s" "cr3 s AND 0x000FFFFFFFFFF000 = R" "console_ok s" "ptrs_ok s" "67 \<le> card (free_frames s)"
    "\<forall>i < 64. \<not> present (pte_of (mem s) R (stress_va i))"
  shows "\<exists>s'. phase1_stress_test s = Some s' \<and> space_ok user_half R s' \<and> console_ok s' \<and>
    card (free_frames s') \<le> card (free_frames s) \<and> card (free_frames s) \<le> card (free_frames s') + 3"
proof -
  let ?n = "card (free_frames s)"
  define s0 where "s0 = say (kmsg (''stress: free pages at start=%ld'' @ [CHR 0x0A]) [W (of_nat ?n)])
    (say (kmsg ([CHR 0x0A] @ ''=== PHASE 1 STRESS TEST START ==='' @ [CHR 0x0A]) []) s)"
  have s0: "space_ok user_half R s0" "console_ok s0" "ptrs_ok s0" "free_frames s0 = free_frames s" "mem s0 = mem s" "cr3 s0 = cr3 s"
    using assms(1,3,4) by (simp_all add: s0_def)
  obtain h s1 where s1: "stress_alloc_all s0 = Some (h, s1)" "frames_inv s1" "free_frames s1 = {}" "console_ok s1"
    and again: "\<And>t. \<exists>s2. stress_free_all h (say t s1) = Some s2 \<and> space_ok user_half R s2 \<and> console_ok s2 \<and> free_frames s2 = free_frames s0 \<and>
       cr3 s2 = cr3 s0 \<and> g_hhdm_offset s2 = g_hhdm_offset s0 \<and> (\<forall>w. owned user_half w \<longrightarrow> pte_of (mem s2) R w = pte_of (mem s0) R w)"
    by (rule round_trip [OF s0(1-3)]) blast
  obtain s2 where s2: "stress_free_all h (say (kmsg (''stress: free pages at OOM=%ld (expect 0)'' @ [CHR 0x0A]) [W (of_nat 0)]) s1) = Some s2"
    "space_ok user_half R s2" "console_ok s2" "free_frames s2 = free_frames s" "cr3 s2 = cr3 s"
    "\<forall>w. owned user_half w \<longrightarrow> pte_of (mem s2) R w = pte_of (mem s) R w"
    using again s0 by metis
  define s3 where "s3 = say (kmsg (''stress: free pages after freeing all=%ld (expect %ld)'' @ [CHR 0x0A]) [W (of_nat ?n), W (of_nat ?n)]) s2"
  have s3: "space_ok user_half R s3" "console_ok s3" "cr3 s3 AND 0x000FFFFFFFFFF000 = R" "67 \<le> card (free_frames s3)" "free_frames s3 = free_frames s"
    "\<forall>i < 64. \<not> present (pte_of (mem s3) R (stress_va i))"
    using s2 assms(2,5,6) stress_va(5) by (simp_all add: s3_def)
  obtain s4 where s4: "stress_random_map_unmap (phys_to_virt s3 R) 5000 s3 = Some s4" "space_ok user_half R s4" "console_ok s4"
    "card (free_frames s4) \<le> card (free_frames s3)" "card (free_frames s3) \<le> card (free_frames s4) + 3"
    by (rule random_run [OF s3(1-3,6,4), of 5000]) blast
  have inv: "frames_inv s" "frames_inv s2" "frames_inv s4" using space_okD(1) assms(1) s2(2) s4(2) by blast+
  have root: "get_current_pml4 s3 = phys_to_virt s3 R" using s3(3) by (simp add: get_current_pml4_def)
  have "\<exists>s'. phase1_stress_test s = Some s' \<and> space_ok user_half R s' \<and> console_ok s' \<and> free_frames s' = free_frames s4"
    using inv assms(3) s1 s2(1,3,4) s4
    by (simp add: phase1_stress_test_def kprintf_ok count_free_card s0_def [symmetric, simplified] s3_def [symmetric, simplified] root s3(5) Let_def)
  then show ?thesis using s4(4,5) s3(5) by auto
qed

text \<open>A machine with 69 frames: frame 0 holds an empty root table, the other 68 are free, linked in ascending order.\<close>

definition demo_stress :: stress_state where
  "demo_stress = frame_state.extend
     (demo_frames\<lparr>pages := map (\<lambda>i. \<lparr>pp_link = (if 0 < i \<and> i < 68 then Some (Suc i) else None), pp_ref = 0\<rparr>) [0..<69]\<rparr>)
     \<lparr>g_stress_mapped = replicate 64 False, g_rng_state = 88172645\<rparr>"

lemma demo_stress_fields:
  "pages demo_stress = map (\<lambda>i. \<lparr>pp_link = (if 0 < i \<and> i < 68 then Some (Suc i) else None), pp_ref = 0\<rparr>) [0..<69]"
  "page_free_list demo_stress = Some 1" "pages_ptr demo_stress = 0xFFFF800000100800" "locks demo_stress = (\<lambda>_. 0)"
  "io_in demo_stress = (\<lambda>_ _. 0x20)" "mem demo_stress = (\<lambda>_. 0)" "cr3 demo_stress = 0"
  by (simp_all add: demo_stress_def frame_state.defs demo_frames_fields del: upt_rec_numeral)
     (simp add: demo_frames_def pmm_state.defs)

lemma demo_stress_chain:
  "0 < a \<Longrightarrow> a \<le> 69 \<Longrightarrow> flist (pages demo_stress) (if a < 69 then Some a else None) [a..<69]"
proof (induction "69 - a" arbitrary: a)
  case 0
  then show ?case by simp
next
  case (Suc k)
  then have a: "a < 69" "0 < a" "k = 69 - Suc a" by simp_all
  have "flist (pages demo_stress) (if Suc a < 69 then Some (Suc a) else None) [Suc a..<69]" using Suc.hyps(1) [OF a(3)] a by simp
  moreover have "pp_link (pages demo_stress ! a) = (if Suc a < 69 then Some (Suc a) else None)"
    using a by (simp add: demo_stress_fields del: upt_rec_numeral)
  moreover have "[a..<69] = a # [Suc a..<69]" using a(1) by (rule upt_conv_Cons)
  moreover have "length (pages demo_stress) = 69" by (simp add: demo_stress_fields del: upt_rec_numeral)
  ultimately show ?case using a(1) by (simp del: upt_rec_numeral)
qed

lemma demo_stress_ok:
  "space_ok user_half 0 demo_stress" "card (free_frames demo_stress) = 68" "console_ok demo_stress" "ptrs_ok demo_stress"
  "\<And>va. owned user_half va \<Longrightarrow> pte_of (mem demo_stress) 0 va = 0"
proof -
  have len: "length (pages demo_stress) = 69" by (simp add: demo_stress_fields del: upt_rec_numeral)
  have fl: "flist (pages demo_stress) (page_free_list demo_stress) [1..<69]"
    using demo_stress_chain [of 1] by (simp add: demo_stress_fields(2) del: upt_rec_numeral)
  have ff: "free_frames demo_stress = {1..<69}" using free_frames_flist [OF fl] by (simp del: upt_rec_numeral)
  then show "card (free_frames demo_stress) = 68" by simp
  have "pp_link (pages demo_stress ! i) = None" if "i < 69" "i \<notin> free_frames demo_stress" for i
    using that by (simp add: ff demo_stress_fields(1) del: upt_rec_numeral)
  then have inv: "frames_inv demo_stress" using fl len by (auto simp: frames_inv_def demo_stress_fields(4) simp del: upt_rec_numeral)
  have al: "page_aligned 0" by (simp add: page_aligned_def)
  have ab: "\<not> present (ent (mem demo_stress) 0 j)" for j by (simp add: demo_stress_fields zero_memory)
  note E = empty_root [OF al ab]
  show "pte_of (mem demo_stress) 0 va = 0" if "owned user_half va" for va by (rule E(4) [OF that])
  have "page2pa f \<noteq> 0" if "f \<in> free_frames demo_stress" for f
  proof
    assume "page2pa f = 0"
    moreover have "unat (page2pa f) = 4096 * f" using that by (intro unat_page2pa) (simp add: ff)
    ultimately show False using that by (simp add: ff)
  qed
  then show "space_ok user_half 0 demo_stress" using E(2,3) inv by (simp add: space_ok_def)
  show "console_ok demo_stress" using uart_liveI [of demo_stress] by (simp add: console_ok_def demo_stress_fields LSR_TX_EMPTY_def)
  show "ptrs_ok demo_stress" by (simp add: ptrs_ok_def len) (simp add: demo_stress_fields(3))
qed

theorem stress_test_passes_witness:
  "\<exists>s'. phase1_stress_test demo_stress = Some s' \<and> console_ok s' \<and> 65 \<le> card (free_frames s')"
proof -
  have "\<forall>i < 64. \<not> present (pte_of (mem demo_stress) 0 (stress_va i))" using demo_stress_ok(5) stress_va(5) by simp
  then show ?thesis
    using stress_test_passes [OF demo_stress_ok(1) _ demo_stress_ok(3,4)] demo_stress_ok(2) by (auto simp: demo_stress_fields(7))
qed

end
