(* ===== verification/Boot.thy ===== *)
theory Boot
  imports Usermode Elf Stress FrameInit "HOL-Library.Sublist"
begin

text \<open>\<open>main.c\<close>: the responses of the boot loader, the module search, the test picture, the self tests and the start of the
first process, composed in \<open>kmain\<close>. The blocks of \<open>kmain\<close> that are commented out are not code; the kernel threads in front
of it that only those blocks used are not modelled.\<close>

section \<open>What the boot loader hands over\<close>

text \<open>The responses of the boot loader are values; a response that is missing is \<open>None\<close>. The addresses of the interrupt
  stubs are linker symbols.\<close>

record limine_file =
  lf_path :: string
  lf_address :: u64

record limine_framebuffer =
  fb_width :: u64
  fb_height :: u64
  fb_pitch :: u64

record boot_info =
  base_revision_supported :: bool
  bi_framebuffers :: "limine_framebuffer list option"
  bi_memmap :: "memmap_entry list option"
  bi_hhdm :: "u64 option"
  bi_modules :: "limine_file list option"
  isr_addr :: "nat \<Rightarrow> u64"
  syscall_entry_addr :: u64
  timer_isr_addr :: u64

text \<open>The pixels of the framebuffer, indexed from its address.\<close>

record boot_state = kernel_state +
  fb_ptr :: "u64 \<Rightarrow> u32"

text \<open>How the boot processor leaves \<open>kmain\<close>: it halts, it is switched to a task, or it enters ring 3.\<close>

datatype boot_out = Halts | Switched | Ring3 interrupt_frame

definition hcf :: "'a kernel_state_scheme \<Rightarrow> (boot_out \<times> 'a kernel_state_scheme) option" where
  "hcf s = Some (Halts, s)"

definition USER_STACK_TOP :: u64 where "USER_STACK_TOP = 0x0000000006000000"

section \<open>Finding a module\<close>

definition str_at :: "string \<Rightarrow> nat \<Rightarrow> char" where
  "str_at p i = (if i < length p then p ! i else CHR 0x00)"

function strlen_from :: "string \<Rightarrow> nat \<Rightarrow> nat" where
  "strlen_from p n = (if str_at p n \<noteq> CHR 0x00 then strlen_from p (n + 1) else n)"
  by pat_completeness auto

termination
  by (relation "measure (\<lambda>(p, n). length p - n)") (auto simp: str_at_def split: if_splits)

function match_from :: "string \<Rightarrow> nat \<Rightarrow> string \<Rightarrow> nat \<Rightarrow> nat \<Rightarrow> nat" where
  "match_from path off sfx n j =
     (if j < n then if str_at path (off + j) \<noteq> str_at sfx j then j else match_from path off sfx n (j + 1) else j)"
  by pat_completeness auto

termination
  by (relation "measure (\<lambda>(_, _, _, n, j). n - j)") auto

declare strlen_from.simps [simp del] match_from.simps [simp del]

primrec find_module_loop :: "string \<Rightarrow> nat \<Rightarrow> limine_file list \<Rightarrow> limine_file option" where
  "find_module_loop sfx suffix_len [] = None"
| "find_module_loop sfx suffix_len (md # mods) =
     (let path = lf_path md;
          path_len = strlen_from path 0
      in if path_len < suffix_len then find_module_loop sfx suffix_len mods
         else if match_from path (path_len - suffix_len) sfx suffix_len 0 = suffix_len then Some md
         else find_module_loop sfx suffix_len mods)"

definition find_module :: "boot_info \<Rightarrow> string \<Rightarrow> limine_file option" where
  "find_module bi sfx =
     (case bi_modules bi of None \<Rightarrow> None | Some mods \<Rightarrow> find_module_loop sfx (strlen_from sfx 0) mods)"

section \<open>The framebuffer\<close>

definition fill_pixel :: "limine_framebuffer \<Rightarrow> u64 \<Rightarrow> u64 \<Rightarrow> 'a boot_state_scheme \<Rightarrow> 'a boot_state_scheme" where
  "fill_pixel fb y x s =
     (let nX = (ucast (x * 255 div fb_width fb) :: u32);
          nY = (ucast (y * 255 div fb_height fb) :: u32)
      in s\<lparr>fb_ptr := (fb_ptr s)(y * (fb_pitch fb div 4) + x := push_bit 8 nY OR nX)\<rparr>)"

definition fill_row :: "limine_framebuffer \<Rightarrow> u64 \<Rightarrow> 'a boot_state_scheme \<Rightarrow> 'a boot_state_scheme" where
  "fill_row fb y s = fold (\<lambda>x. fill_pixel fb y (of_nat x)) [0..<unat (fb_width fb)] s"

definition fill_framebuffer :: "limine_framebuffer \<Rightarrow> 'a boot_state_scheme \<Rightarrow> 'a boot_state_scheme" where
  "fill_framebuffer fb s = fold (\<lambda>y. fill_row fb (of_nat y)) [0..<unat (fb_height fb)] s"

section \<open>The self tests of kmain\<close>

definition console_test :: "'a machine_scheme \<Rightarrow> 'a machine_scheme option" where
  "console_test s =
     do { s \<leftarrow> kprintf (''hello'' @ [CHR 0x0A]) [] s;
          s \<leftarrow> kprintf (''str=%s char=%c'' @ [CHR 0x0A]) [S ''test'', W 0x41] s;
          s \<leftarrow> kprintf (''dec=%d hex=%x'' @ [CHR 0x0A]) [W 255, W 255] s;
          s \<leftarrow> kprintf (''neg=%d'' @ [CHR 0x0A]) [W (- 42)] s;
          kprintf (''zero=%d zerohex=%x literal%%'' @ [CHR 0x0A]) [W 0, W 0] s }"

primrec list_modules :: "nat \<Rightarrow> limine_file list \<Rightarrow> 'a machine_scheme \<Rightarrow> 'a machine_scheme option" where
  "list_modules i [] s = Some s"
| "list_modules i (md # mods) s =
     do { s \<leftarrow> kprintf (''module[%ld] path=%s'' @ [CHR 0x0A]) [W (of_nat i), S (lf_path md)] s;
          list_modules (i + 1) mods s }"

definition show_modules :: "boot_info \<Rightarrow> 'a machine_scheme \<Rightarrow> 'a machine_scheme option" where
  "show_modules bi s =
     (case bi_modules bi of
        Some mods \<Rightarrow> do { s \<leftarrow> kprintf (''module_count=%ld'' @ [CHR 0x0A]) [W (of_nat (length mods))] s; list_modules 0 mods s }
      | None \<Rightarrow> kprintf (''module_request.response is NULL'' @ [CHR 0x0A]) [] s)"

definition boot_alloc_test :: "'a pmm_state_scheme \<Rightarrow> 'a pmm_state_scheme option" where
  "boot_alloc_test s =
     (let (p1, s) = boot_alloc 64 s;
          (p2, s) = boot_alloc 4096 s;
          (p3, s) = boot_alloc 1 s;
          (p4, s) = boot_alloc 0x87000 s
      in do { s \<leftarrow> kprintf (''boot_alloc p1=%lx'' @ [CHR 0x0A]) [W p1] s;
              s \<leftarrow> kprintf (''boot_alloc p2=%lx'' @ [CHR 0x0A]) [W p2] s;
              s \<leftarrow> kprintf (''boot_alloc p3=%lx'' @ [CHR 0x0A]) [W p3] s;
              kprintf (''boot_alloc p4=%lx'' @ [CHR 0x0A]) [W p4] s })"

text \<open>\<open>page2pa\<close> of a NULL pointer and a store through it are undefined; both are \<open>None\<close> here.\<close>

definition frame_test :: "'a frame_state_scheme \<Rightarrow> 'a frame_state_scheme option" where
  "frame_test s =
     do { (n, s) \<leftarrow> count_free s;
          s \<leftarrow> kprintf (''free before=%ld'' @ [CHR 0x0A]) [W (of_nat n)] s;
          (pp1, s) \<leftarrow> page_alloc 0 s;
          (pp2, s) \<leftarrow> page_alloc 0 s;
          (pp3, s) \<leftarrow> page_alloc 0 s;
          pp1 \<leftarrow> pp1; pp2 \<leftarrow> pp2; pp3 \<leftarrow> pp3;
          s \<leftarrow> kprintf (''alloc pa1=%lx'' @ [CHR 0x0A]) [W (page2pa pp1)] s;
          s \<leftarrow> kprintf (''alloc pa2=%lx'' @ [CHR 0x0A]) [W (page2pa pp2)] s;
          s \<leftarrow> kprintf (''alloc pa3=%lx'' @ [CHR 0x0A]) [W (page2pa pp3)] s;
          (n, s) \<leftarrow> count_free s;
          s \<leftarrow> kprintf (''free after 3 allocs=%ld'' @ [CHR 0x0A]) [W (of_nat n)] s;
          s \<leftarrow> page_free pp1 (clear_ref pp3 (clear_ref pp2 (clear_ref pp1 s)));
          s \<leftarrow> page_free pp2 s;
          s \<leftarrow> page_free pp3 s;
          (n, s) \<leftarrow> count_free s;
          kprintf (''free after 3 frees=%ld'' @ [CHR 0x0A]) [W (of_nat n)] s }"

definition pte_test :: "'a machine_scheme \<Rightarrow> 'a machine_scheme option" where
  "pte_test s =
     (let test_vaddr = 0xFFFF800000001000; test_phys = 0x1234000; flags = 0x3; pte = pte_make test_phys flags in
      do { s \<leftarrow> kprintf (''pml4_index=%x'' @ [CHR 0x0A]) [W (ucast (pml4_index test_vaddr))] s;
           s \<leftarrow> kprintf (''pdpt_index=%x'' @ [CHR 0x0A]) [W (ucast (pdpt_index test_vaddr))] s;
           s \<leftarrow> kprintf (''pd_index=%x'' @ [CHR 0x0A]) [W (ucast (pd_index test_vaddr))] s;
           s \<leftarrow> kprintf (''pt_index=%x'' @ [CHR 0x0A]) [W (ucast (pt_index test_vaddr))] s;
           s \<leftarrow> kprintf (''is_canonical=%d'' @ [CHR 0x0A]) [W (of_bool (is_canonical test_vaddr))] s;
           s \<leftarrow> kprintf (''pte=%lx'' @ [CHR 0x0A]) [W pte] s;
           s \<leftarrow> kprintf (''pte_get_addr=%lx'' @ [CHR 0x0A]) [W (pte_get_addr pte)] s;
           kprintf (''present=%d writable=%d'' @ [CHR 0x0A]) [W (of_bool (present pte)), W (of_bool (writable pte))] s })"

definition paging_test :: "'a frame_state_scheme \<Rightarrow> 'a frame_state_scheme option" where
  "paging_test s =
     (let pml4 = get_current_pml4 s; test_vaddr = 0x2000000 in
      do { s \<leftarrow> kprintf (''pml4=%lx'' @ [CHR 0x0A]) [W pml4] s;
           (pp, s) \<leftarrow> page_alloc 1 s;
           pp \<leftarrow> pp;
           let test_phys = page2pa pp; flags = (0 OR push_bit 0 1) OR push_bit 1 1 in
      do { s \<leftarrow> kprintf (''test_phys=%lx'' @ [CHR 0x0A]) [W test_phys] s;
           s \<leftarrow> vmm_map pml4 test_vaddr test_phys flags s;
           (pte_before, s) \<leftarrow> vmm_walk pml4 test_vaddr False s;
           s \<leftarrow> (case pte_before of
                   None \<Rightarrow> kprintf (''map failed: walk returned NULL'' @ [CHR 0x0A]) [] s
                 | Some p \<Rightarrow>
                     let e = hread64 s p in
                     do { s \<leftarrow> kprintf (''mapped entry=%lx'' @ [CHR 0x0A]) [W e] s;
                          s \<leftarrow> kprintf (''mapped addr=%lx'' @ [CHR 0x0A]) [W (pte_get_addr e)] s;
                          kprintf (''mapped present=%d writable=%d'' @ [CHR 0x0A]) [W (of_bool (present e)), W (of_bool (writable e))] s });
           s \<leftarrow> vmm_unmap pml4 test_vaddr s;
           (pte_after, s) \<leftarrow> vmm_walk pml4 test_vaddr False s;
           case pte_after of
             None \<Rightarrow> kprintf (''after unmap: walk returned NULL'' @ [CHR 0x0A]) [] s
           | Some p \<Rightarrow> kprintf (''after unmap: entry=%lx present=%d'' @ [CHR 0x0A]) [W (hread64 s p), W (of_bool (present (hread64 s p)))] s } })"

definition heap_test :: "'a heap_state_scheme \<Rightarrow> 'a heap_state_scheme option" where
  "heap_test s =
     (let s = kheap_init s in
      do { (a, s) \<leftarrow> kmalloc 32 s;
           (b, s) \<leftarrow> kmalloc 4096 s;
           s \<leftarrow> kprintf (''kmalloc a=%lx b=%lx'' @ [CHR 0x0A]) [W (ptr_val a), W (ptr_val b)] s;
           s \<leftarrow> kfree a s;
           (c, s) \<leftarrow> kmalloc 16 s;
           kprintf (''kmalloc c=%lx'' @ [CHR 0x0A]) [W (ptr_val c)] s })"

primrec fill_tasks :: "nat \<Rightarrow> nat list \<Rightarrow> 'a kernel_state_scheme \<Rightarrow> (nat list \<times> 'a kernel_state_scheme) option" where
  "fill_tasks 0 ts s = Some (ts, s)"
| "fill_tasks (Suc n) ts s =
     do { (t, s) \<leftarrow> task_create s;
          case t of None \<Rightarrow> Some (ts, s) | Some t \<Rightarrow> fill_tasks n (ts @ [t]) s }"

primrec destroy_all :: "nat list \<Rightarrow> 'a kernel_state_scheme \<Rightarrow> 'a kernel_state_scheme option" where
  "destroy_all [] s = Some s"
| "destroy_all (t # ts) s = do { s \<leftarrow> task_destroy (Some t) s; destroy_all ts s }"

definition task_table_test :: "'a kernel_state_scheme \<Rightarrow> 'a kernel_state_scheme option" where
  "task_table_test s =
     do { s \<leftarrow> kprintf ([CHR 0x0A] @ ''--- task table test (day 38-39) ---'' @ [CHR 0x0A]) [] s;
          (t1, s) \<leftarrow> task_create s;
          (t2, s) \<leftarrow> task_create s;
          (t3, s) \<leftarrow> task_create s;
          t1 \<leftarrow> t1; t2 \<leftarrow> t2; t3 \<leftarrow> t3;
          s \<leftarrow> kprintf (''created t1_id=%ld t2_id=%ld t3_id=%ld'' @ [CHR 0x0A])
                 [W (task_id (tsk s t1)), W (task_id (tsk s t2)), W (task_id (tsk s t3))] s;
          s \<leftarrow> task_dump s;
          let freed_id = task_id (tsk s t2) in
     do { s \<leftarrow> task_destroy (Some t2) s;
          s \<leftarrow> task_dump s;
          (t4, s) \<leftarrow> task_create s;
          s \<leftarrow> (if t4 \<noteq> None \<and> task_id (tsk s (the t4)) = freed_id
                then kprintf (''PASS: free-list reuse works, new task reused id=%ld'' @ [CHR 0x0A]) [W (task_id (tsk s (the t4)))] s
                else kprintf (''FAIL: expected reused id=%ld, got %ld'' @ [CHR 0x0A])
                       [W freed_id, W (case t4 of None \<Rightarrow> - 1 | Some t4 \<Rightarrow> task_id (tsk s t4))] s);
          s \<leftarrow> task_dump s;
          (stress_tasks, s) \<leftarrow> fill_tasks MAX_TASKS [] s;
          s \<leftarrow> kprintf (''filled %d more slots (table should be full now)'' @ [CHR 0x0A]) [W (of_nat (length stress_tasks))] s;
          (overflow, s) \<leftarrow> task_create s;
          s \<leftarrow> (case overflow of
                  None \<Rightarrow> kprintf (''PASS: task_create returned NULL when table was full'' @ [CHR 0x0A]) [] s
                | Some t \<Rightarrow> kprintf (''FAIL: task_create should have failed, got task_id=%ld'' @ [CHR 0x0A]) [W (task_id (tsk s t))] s);
          s \<leftarrow> destroy_all stress_tasks s;
          s \<leftarrow> task_destroy (Some t1) s;
          s \<leftarrow> task_destroy (Some t3) s;
          s \<leftarrow> task_destroy t4 s;
          s \<leftarrow> kprintf (''after cleanup, dump should show nothing:'' @ [CHR 0x0A]) [] s;
          s \<leftarrow> task_dump s;
          kprintf (''--- task table test done ---'' @ [CHR 0x0A, CHR 0x0A]) [] s } }"

section \<open>Starting user programs\<close>

text \<open>The two blocks return how the processor leaves them; \<open>None\<close> in the first component means that the block falls through to
  the code after it, with a message.\<close>

definition wait_test :: "boot_info \<Rightarrow> 'a kernel_state_scheme \<Rightarrow> (boot_out option \<times> 'a kernel_state_scheme) option" where
  "wait_test bi s =
     do { s \<leftarrow> kprintf ([CHR 0x0A] @ ''--- fork-tree wait test (day 55) ---'' @ [CHR 0x0A]) [] s;
          (t, s) \<leftarrow> task_create s;
          case t of
            None \<Rightarrow> do { s \<leftarrow> kprintf (''wait test: task_create failed'' @ [CHR 0x0A]) [] s; Some (None, s) }
          | Some t \<Rightarrow>
     (case find_module bi ''wait_test.elf'' of
        None \<Rightarrow> do { s \<leftarrow> kprintf (''wait_test.elf module not found (check limine.conf + build)'' @ [CHR 0x0A]) [] s; Some (None, s) }
      | Some md \<Rightarrow>
     do { p \<leftarrow> pml4 (tsk s t);
          (entry, s) \<leftarrow> elf_load p (lf_address md) s;
          case entry of
            None \<Rightarrow> do { s \<leftarrow> kprintf (''wait test: elf_load failed'' @ [CHR 0x0A]) [] s; Some (None, s) }
          | Some entry \<Rightarrow>
     do { (stack_pp, s) \<leftarrow> page_alloc 1 s;
          stack_pp \<leftarrow> stack_pp;
          s \<leftarrow> vmm_map p (USER_STACK_TOP - PGSIZE) (page2pa stack_pp) (1 OR 2 OR 4) s;
          s \<leftarrow> pic_remap s;
          s \<leftarrow> lapic_enable s;
          s \<leftarrow> pit_init 100 s;
          let s = pic_clear_mask 0 s;
              s = scheduler_init s
          in do { s \<leftarrow> task_prepare_user_entry t entry USER_STACK_TOP s;
                  let s = s\<lparr>current_task := Some t\<rparr>;
                      s = s\<lparr>rflags := rflags s OR IF_FLAG\<rparr>
                  in do { s \<leftarrow> kprintf (''wait test: entering ring 3, entry=%lx'' @ [CHR 0x0A]) [W entry] s;
                          Some (Some Switched, scheduler_switch_to None t s) } } } }) }"

definition user_test :: "boot_info \<Rightarrow> 'a kernel_state_scheme \<Rightarrow> (boot_out option \<times> 'a kernel_state_scheme) option" where
  "user_test bi s =
     do { (t, s) \<leftarrow> task_create s;
          case t of
            None \<Rightarrow> do { s \<leftarrow> kprintf (''task_create failed'' @ [CHR 0x0A]) [] s; Some (None, s) }
          | Some t \<Rightarrow>
     do { p \<leftarrow> pml4 (tsk s t);
          s \<leftarrow> kprintf (''task_id=%ld new_pml4=%lx'' @ [CHR 0x0A]) [W (task_id (tsk s t)), W p] s;
          case find_module bi ''user_test.elf'' of
            None \<Rightarrow> do { s \<leftarrow> kprintf (''user_test.elf module not found'' @ [CHR 0x0A]) [] s; Some (None, s) }
          | Some md \<Rightarrow>
     do { (entry, s) \<leftarrow> elf_load p (lf_address md) s;
          case entry of
            None \<Rightarrow> do { s \<leftarrow> kprintf (''elf_load into task pml4 failed'' @ [CHR 0x0A]) [] s; Some (None, s) }
          | Some entry \<Rightarrow>
     do { s \<leftarrow> kprintf (''elf_load ok, entry=%lx'' @ [CHR 0x0A]) [W entry] s;
          (stack_pp, s) \<leftarrow> page_alloc 1 s;
          case stack_pp of
            None \<Rightarrow> do { s \<leftarrow> kprintf (''failed to allocate user stack page'' @ [CHR 0x0A]) [] s; Some (None, s) }
          | Some stack_pp \<Rightarrow>
     do { s \<leftarrow> vmm_map p (USER_STACK_TOP - PGSIZE) (page2pa stack_pp) (1 OR 2 OR 4) s;
          s \<leftarrow> kprintf (''entering ring 3 at entry=%lx stack=%lx'' @ [CHR 0x0A]) [W entry, W USER_STACK_TOP] (s\<lparr>current_task := Some t\<rparr>);
          let (f, s) = enter_usermode entry USER_STACK_TOP (vmm_switch_address_space p s)
          in Some (Some (Ring3 f), s) } } } } }"

section \<open>The entry point\<close>

definition boot_tables :: "boot_info \<Rightarrow> 'a idt_state_scheme \<Rightarrow> 'a idt_state_scheme option" where
  "boot_tables bi s =
     do { s \<leftarrow> gdt_init s;
          s \<leftarrow> gdt_dump s;
          let s = idt_init (isr_addr bi) (syscall_entry_addr bi) (timer_isr_addr bi) s
          in do { s \<leftarrow> idt_dump s;
                  case bi_hhdm bi of
                    None \<Rightarrow> Some s
                  | Some offset \<Rightarrow> let s = hhdm_init offset s in kprintf (''hhdm offset=%lx'' @ [CHR 0x0A]) [W (g_hhdm_offset s)] s } }"

definition memory_tests :: "memmap_entry list \<Rightarrow> 'a kernel_state_scheme \<Rightarrow> 'a kernel_state_scheme option" where
  "memory_tests m s =
     do { s \<leftarrow> pmm_init m s;
          s \<leftarrow> pmm_dump s;
          s \<leftarrow> boot_alloc_test s;
          s \<leftarrow> frame_alloc_init m s;
          s \<leftarrow> frame_test s;
          s \<leftarrow> pte_test s;
          s \<leftarrow> paging_test s;
          heap_test s }"

definition kmain_tasks :: "boot_info \<Rightarrow> 'a kernel_state_scheme \<Rightarrow> (boot_out \<times> 'a kernel_state_scheme) option" where
  "kmain_tasks bi s =
     do { s \<leftarrow> task_table_init s;
          s \<leftarrow> task_table_test s;
          s \<leftarrow> kprintf (''TR=%x (expect 28)'' @ [CHR 0x0A]) [W (ucast (task_reg s))] s;
          (out, s) \<leftarrow> wait_test bi s;
          case out of Some out \<Rightarrow> Some (out, s)
          | None \<Rightarrow>
              do { (out, s) \<leftarrow> user_test bi s;
                   case out of Some out \<Rightarrow> Some (out, s) | None \<Rightarrow> hcf s } }"

definition kmain :: "boot_info \<Rightarrow> 'a boot_state_scheme \<Rightarrow> (boot_out \<times> 'a boot_state_scheme) option" where
  "kmain bi s =
     (if \<not> base_revision_supported bi then hcf s
      else case bi_framebuffers bi of
        None \<Rightarrow> hcf s
      | Some [] \<Rightarrow> hcf s
      | Some (fb # _) \<Rightarrow>
          let s = fill_framebuffer fb s;
              s = kprintf_lock_init s
          in do { s \<leftarrow> console_test s;
                  s \<leftarrow> boot_tables bi s;
                  s \<leftarrow> show_modules bi s;
                  case bi_memmap bi of
                    None \<Rightarrow> hcf s
                  | Some m \<Rightarrow> do { s \<leftarrow> memory_tests m s; kmain_tasks bi s } })"

section \<open>The module search\<close>

definition c_string :: "string \<Rightarrow> bool" where
  "c_string p = (CHR 0x00 \<notin> set p)"

lemma strlen_from_length: "c_string p \<Longrightarrow> n \<le> length p \<Longrightarrow> strlen_from p n = length p"
proof (induction p n rule: strlen_from.induct)
  case (1 p n)
  show ?case
  proof (cases "n < length p")
    case True
    then have "str_at p n \<noteq> CHR 0x00" using "1.prems" by (auto simp: str_at_def c_string_def) (metis nth_mem)
    then show ?thesis using "1.IH" "1.prems" True by (simp add: strlen_from.simps [of p n])
  next
    case False
    then show ?thesis using "1.prems" by (simp add: strlen_from.simps [of p "length p"] str_at_def)
  qed
qed

lemma match_from_all:
  "j \<le> n \<Longrightarrow> match_from path off sfx n j = n \<longleftrightarrow> (\<forall>i. j \<le> i \<and> i < n \<longrightarrow> str_at path (off + i) = str_at sfx i)"
proof (induction path off sfx n j rule: match_from.induct)
  case (1 path off sfx n j)
  show ?case
  proof (cases "j < n")
    case True
    show ?thesis
    proof (cases "str_at path (off + j) = str_at sfx j")
      case eq: True
      have "j \<le> i \<longleftrightarrow> i = j \<or> j + 1 \<le> i" for i by arith
      then show ?thesis using "1.IH" True eq by (auto simp: match_from.simps [of path off sfx n j])
    next
      case False
      then show ?thesis using True by (auto simp: match_from.simps [of path off sfx n j])
    qed
  next
    case False
    then show ?thesis using "1.prems" by (auto simp: match_from.simps [of path off sfx n n])
  qed
qed

lemma match_from_suffix:
  assumes "length sfx \<le> length path"
  shows "match_from path (length path - length sfx) sfx (length sfx) 0 = length sfx \<longleftrightarrow> suffix sfx path"
proof -
  let ?off = "length path - length sfx"
  have "suffix sfx path \<longleftrightarrow> drop ?off path = sfx"
    by (metis append_take_drop_id suffixI suffix_def append_eq_conv_conj length_append add_diff_cancel_right')
  also have "\<dots> \<longleftrightarrow> (\<forall>i < length sfx. path ! (?off + i) = sfx ! i)" using assms by (auto simp: list_eq_iff_nth_eq)
  also have "\<dots> \<longleftrightarrow> (\<forall>i. 0 \<le> i \<and> i < length sfx \<longrightarrow> str_at path (?off + i) = str_at sfx i)"
    using assms by (auto simp: str_at_def)
  finally show ?thesis by (simp only: match_from_all le0)
qed

lemma find_module_loop_find:
  "c_string sfx \<Longrightarrow> \<forall>m\<in>set mods. c_string (lf_path m) \<Longrightarrow>
   find_module_loop sfx (length sfx) mods = find (\<lambda>m. suffix sfx (lf_path m)) mods"
proof (induction mods)
  case (Cons m mods)
  have len: "strlen_from (lf_path m) 0 = length (lf_path m)" using Cons.prems by (simp add: strlen_from_length)
  show ?case
  proof (cases "length (lf_path m) < length sfx")
    case True
    then have "\<not> suffix sfx (lf_path m)" using suffix_length_le by fastforce
    then show ?thesis using Cons True by (simp add: len)
  next
    case False
    then show ?thesis using Cons by (simp add: len match_from_suffix)
  qed
qed simp

text \<open>Claim C39. \<open>find_module\<close> returns the first module whose path ends with the given string, as \<open>find\<close> with the library's
  \<open>suffix\<close> does, and NULL when no path does or the boot loader passed no modules. The strings are C strings, so they hold no
  zero byte.\<close>

theorem find_module_correct:
  assumes "c_string sfx" and "\<forall>mods. bi_modules bi = Some mods \<longrightarrow> (\<forall>m\<in>set mods. c_string (lf_path m))"
  shows "find_module bi sfx = Option.bind (bi_modules bi) (find (\<lambda>m. suffix sfx (lf_path m)))"
  using assms by (auto simp: find_module_def strlen_from_length find_module_loop_find split: option.splits)

definition demo_modules :: boot_info where
  "demo_modules = \<lparr>base_revision_supported = True, bi_framebuffers = None, bi_memmap = None, bi_hhdm = Some 0xFFFF800000000000,
     bi_modules = Some [\<lparr>lf_path = ''/boot/user_test.elf'', lf_address = 0xFFFF800000100000\<rparr>,
                        \<lparr>lf_path = ''/boot/wait_test.elf'', lf_address = 0xFFFF800000006000\<rparr>],
     isr_addr = (\<lambda>_. 0), syscall_entry_addr = 0, timer_isr_addr = 0\<rparr>"

theorem find_module_correct_witness:
  "find_module demo_modules ''wait_test.elf'' = Some \<lparr>lf_path = ''/boot/wait_test.elf'', lf_address = 0xFFFF800000006000\<rparr>"
  by (subst find_module_correct) (simp_all add: demo_modules_def c_string_def suffix_def find.simps(2))

section \<open>The test picture\<close>

definition gradient :: "limine_framebuffer \<Rightarrow> nat \<Rightarrow> nat \<Rightarrow> u32" where
  "gradient fb y x = of_nat (256 * (y * 255 div unat (fb_height fb)) + x * 255 div unat (fb_width fb))"

definition fb_ok :: "limine_framebuffer \<Rightarrow> bool" where
  "fb_ok fb = (unat (fb_width fb) \<le> unat (fb_pitch fb) div 4 \<and> unat (fb_height fb) * (unat (fb_pitch fb) div 4) < 2 ^ 64 \<and>
     unat (fb_width fb) * 255 < 2 ^ 64 \<and> unat (fb_height fb) * 255 < 2 ^ 64)"

lemma ucast_unat: "(ucast a :: u32) = of_nat (unat a)" for a :: u64
  by simp

lemma channel:
  assumes "x < unat n" and "unat (n :: u64) * 255 < 2 ^ 64"
  shows "unat (of_nat x * 255 div n) = x * 255 div unat n" and "x * 255 div unat n < 256"
proof -
  have le: "x * 255 \<le> unat n * 255" using assms(1) by simp
  have x: "unat (of_nat x :: u64) = x" using assms(1) unat_lt_u64 [of n] by (simp add: unat_of_nat)
  have "unat (of_nat x * 255 :: u64) = x * 255"
    using le assms(2) x by (subst unat_mult_lem [THEN iffD1]) (simp_all add: x)
  then show "unat (of_nat x * 255 div n) = x * 255 div unat n" by (simp add: unat_div)
  show "x * 255 div unat n < 256" using assms(1) by (simp add: div_less_iff_less_mult)
qed

lemma low_bits: "k < 256 \<Longrightarrow> 8 \<le> n \<Longrightarrow> \<not> bit k n" for k :: nat
  using bit_take_bit_iff [of 8 k n] by (simp add: take_bit_nat_eq_self)

lemma pixel_value:
  assumes "x < unat (fb_width fb)" "y < unat (fb_height fb)" and ok: "fb_ok fb"
  shows "push_bit 8 (ucast (of_nat y * 255 div fb_height fb)) OR ucast (of_nat x * 255 div fb_width fb) = gradient fb y x"
proof -
  let ?x = "x * 255 div unat (fb_width fb)" and ?y = "y * 255 div unat (fb_height fb)"
  note cx = channel [of x "fb_width fb"] and cy = channel [of y "fb_height fb"]
  have x: "ucast (of_nat x * 255 div fb_width fb) = (of_nat ?x :: u32)" and y: "ucast (of_nat y * 255 div fb_height fb) = (of_nat ?y :: u32)"
    using assms cx(1) cy(1) by (simp_all add: fb_ok_def ucast_unat)
  have "push_bit 8 (of_nat ?y) OR of_nat ?x = push_bit 8 (of_nat ?y :: u32) + of_nat ?x"
    using cx(2) assms by (intro disjunctive_add [symmetric]) (auto simp: bit_simps fb_ok_def low_bits)
  then show ?thesis by (simp add: x y gradient_def push_bit_eq_mult mult.commute)
qed

lemma pixel_index:
  assumes "x < unat (fb_width fb)" "y < unat (fb_height fb)" and ok: "fb_ok fb"
  shows "i = of_nat y * (fb_pitch fb div 4) + of_nat x \<longleftrightarrow>
         unat i div (unat (fb_pitch fb) div 4) = y \<and> unat i mod (unat (fb_pitch fb) div 4) = x"
proof -
  define P where "P = unat (fb_pitch fb) div 4"
  have xP: "x < P" and hP: "unat (fb_height fb) * P < 2 ^ 64" using ok assms(1) by (simp_all add: fb_ok_def P_def)
  have "Suc y * P \<le> unat (fb_height fb) * P" using assms(2) by (intro mult_le_mono1) simp
  then have lt: "y * P + x < 2 ^ 64" using xP hP by simp
  have small: "unat (of_nat y :: u64) = y" "unat (of_nat x :: u64) = x" "unat (fb_pitch fb div 4) = P"
    using assms unat_lt_u64 [of "fb_width fb"] unat_lt_u64 [of "fb_height fb"] by (simp_all add: unat_of_nat unat_div P_def)
  have "of_nat y * (fb_pitch fb div 4) + of_nat x = (of_nat (y * P + x) :: u64)"
    by (simp flip: small(3))
  moreover have "unat (of_nat (y * P + x) :: u64) = y * P + x" using lt by (simp add: unat_of_nat del: of_nat_add of_nat_mult)
  ultimately have "i = of_nat y * (fb_pitch fb div 4) + of_nat x \<longleftrightarrow> unat i = y * P + x" by (metis unsigned_word_eqI)
  also have "\<dots> \<longleftrightarrow> unat i div P = y \<and> unat i mod P = x" using xP by (auto simp: div_mult_self3)
  finally show ?thesis by (simp add: P_def)
qed

definition painted :: "limine_framebuffer \<Rightarrow> (nat \<Rightarrow> nat \<Rightarrow> bool) \<Rightarrow> (u64 \<Rightarrow> u32) \<Rightarrow> u64 \<Rightarrow> u32" where
  "painted fb R f i =
     (let y = unat i div (unat (fb_pitch fb) div 4); x = unat i mod (unat (fb_pitch fb) div 4)
      in if R y x then gradient fb y x else f i)"

lemma painted_painted: "painted fb R (painted fb Q f) = painted fb (\<lambda>y x. R y x \<or> Q y x) f"
  by (auto simp: painted_def Let_def)

lemma fill_pixel_painted:
  "fb_ok fb \<Longrightarrow> x < unat (fb_width fb) \<Longrightarrow> y < unat (fb_height fb) \<Longrightarrow>
   fill_pixel fb (of_nat y) (of_nat x) s = s\<lparr>fb_ptr := painted fb (\<lambda>y' x'. y' = y \<and> x' = x) (fb_ptr s)\<rparr>"
  unfolding fill_pixel_def Let_def pixel_value fun_upd_def pixel_index
  by (rule arg_cong [where f = "\<lambda>f. s\<lparr>fb_ptr := f\<rparr>"]) (auto simp: painted_def Let_def fun_eq_iff)

lemma fill_row_painted:
  assumes "fb_ok fb" and "y < unat (fb_height fb)"
  shows "fill_row fb (of_nat y) s = s\<lparr>fb_ptr := painted fb (\<lambda>y' x'. y' = y \<and> x' < unat (fb_width fb)) (fb_ptr s)\<rparr>"
proof -
  have "n \<le> unat (fb_width fb) \<Longrightarrow> fold (\<lambda>x. fill_pixel fb (of_nat y) (of_nat x)) [0..<n] s =
      s\<lparr>fb_ptr := painted fb (\<lambda>y' x'. y' = y \<and> x' < n) (fb_ptr s)\<rparr>" for n
  proof (induction n)
    case (Suc n)
    then show ?case by (simp add: assms fill_pixel_painted painted_painted less_Suc_eq disj_commute conj_disj_distribL)
  qed (simp add: painted_def [abs_def])
  then show ?thesis by (simp add: fill_row_def)
qed

lemma fill_framebuffer_painted:
  assumes "fb_ok fb"
  shows "fill_framebuffer fb s = s\<lparr>fb_ptr := painted fb (\<lambda>y x. y < unat (fb_height fb) \<and> x < unat (fb_width fb)) (fb_ptr s)\<rparr>"
proof -
  have "n \<le> unat (fb_height fb) \<Longrightarrow> fold (\<lambda>y. fill_row fb (of_nat y)) [0..<n] s =
      s\<lparr>fb_ptr := painted fb (\<lambda>y x. y < n \<and> x < unat (fb_width fb)) (fb_ptr s)\<rparr>" for n
  proof (induction n)
    case (Suc n)
    then show ?case by (simp add: assms fill_row_painted painted_painted less_Suc_eq disj_commute conj_disj_distribR)
  qed (simp add: painted_def [abs_def])
  then show ?thesis by (simp add: fill_framebuffer_def)
qed

text \<open>The test picture of \<open>kmain\<close>: in a framebuffer whose lines hold at least \<open>width\<close> pixels and whose size does not
  overflow, the pixel in row \<open>y\<close> and column \<open>x\<close> gets the blue value \<open>x * 255 div width\<close> and the green value
  \<open>y * 255 div height\<close>, and no store goes elsewhere: the padding of the lines, what follows the last line and every other
  part of the state stay as they are.\<close>

theorem framebuffer_gradient:
  assumes "fb_ok fb"
  shows "fill_framebuffer fb s =
    s\<lparr>fb_ptr := \<lambda>i. let y = unat i div (unat (fb_pitch fb) div 4); x = unat i mod (unat (fb_pitch fb) div 4)
                    in if y < unat (fb_height fb) \<and> x < unat (fb_width fb)
                       then of_nat (256 * (y * 255 div unat (fb_height fb)) + x * 255 div unat (fb_width fb)) else fb_ptr s i\<rparr>"
  unfolding fill_framebuffer_painted [OF assms] painted_def [abs_def] gradient_def ..

definition demo_fb :: limine_framebuffer where
  "demo_fb = \<lparr>fb_width = 1280, fb_height = 800, fb_pitch = 5120\<rparr>"

theorem framebuffer_gradient_witness:
  "\<forall>s :: boot_state. \<exists>f. fill_framebuffer demo_fb s = s\<lparr>fb_ptr := f\<rparr> \<and> f (1280 * 799 + 1279) = 0xFEFE \<and> f (1280 * 800) = fb_ptr s (1280 * 800)"
  by (rule allI, rule exI, rule conjI, rule framebuffer_gradient) (simp_all add: demo_fb_def fb_ok_def)

section \<open>Machines with free frames\<close>

text \<open>A frame allocator whose frames from \<open>k\<close> on are free.\<close>

definition chain_pages :: "nat \<Rightarrow> nat \<Rightarrow> PageInfo list" where
  "chain_pages k n = map (\<lambda>i. \<lparr>pp_link = (if k \<le> i \<and> Suc i < n then Some (Suc i) else None), pp_ref = 0\<rparr>) [0..<n]"

lemma chain_flist: "i \<le> n \<Longrightarrow> k \<le> i \<Longrightarrow> flist (chain_pages k n) (if i < n then Some i else None) [i..<n]"
proof (induction rule: inc_induct)
  case (step i)
  have "chain_pages k n ! i = \<lparr>pp_link = (if Suc i < n then Some (Suc i) else None), pp_ref = 0\<rparr>" "length (chain_pages k n) = n"
    using step by (simp_all add: chain_pages_def)
  then show ?case using step by (simp add: upt_conv_Cons)
qed simp

lemma chain_frames:
  assumes "pages s = chain_pages k n" "page_free_list s = Some k" "k < n" "n \<le> 2 ^ 40" "locks s page_alloc_lock = 0"
  shows "frames_inv s" "free_frames s = {k..<n}"
proof -
  have fl: "flist (pages s) (page_free_list s) [k..<n]" using chain_flist [of k n k] assms(1-3) by simp
  show ff: "free_frames s = {k..<n}" unfolding free_frames_flist [OF fl] by simp
  have "length (pages s) = n" "\<And>i. i < n \<Longrightarrow> i \<notin> {k..<n} \<Longrightarrow> pp_link (pages s ! i) = None"
    by (auto simp: assms(1) chain_pages_def)
  then show "frames_inv s" unfolding frames_inv_def ff using fl assms(4,5) by auto
qed

end
