(* ===== verification/Selftest.thy ===== *)
theory Selftest
  imports Boot
begin

text \<open>The task table test of \<open>kmain\<close> on a fresh table: it prints its PASS lines and leaves the table empty. \<open>table_at\<close>
describes the table, the frames and the console output between two steps of the test.\<close>

section \<open>The free list of the task table during the tests\<close>

lemma tlist_unique: "tlist ts h xs \<Longrightarrow> tlist ts h ys \<Longrightarrow> xs = ys"
proof (induction xs arbitrary: h ys)
  case Nil
  then show ?case by (cases ys) simp_all
next
  case (Cons x xs)
  then obtain zs where "ys = x # zs" "tlist ts (next_free (ts ! x)) zs" by (cases ys) auto
  then show ?case using Cons by auto
qed

text \<open>\<open>table_at s0 log xs n s\<close>: the slots on the free list are \<open>xs\<close> in this order, \<open>n\<close> frames are free, no task runs yet,
  and the console has shown \<open>log\<close> since \<open>s0\<close>.\<close>

definition table_at :: "'a kernel_state_scheme \<Rightarrow> u8 list \<Rightarrow> nat list \<Rightarrow> nat \<Rightarrow> 'a kernel_state_scheme \<Rightarrow> bool" where
  "table_at s0 log xs n s \<longleftrightarrow> tasks_ok {} s \<and> tlist (task_table s) (task_free_list s) xs \<and> frames_inv s \<and> card (free_frames s) = n \<and>
     current_task s = None \<and> idle_task s = None \<and> io_out s = io_out s0 @ map (Pair UART_DATA) log"

lemma table_atD:
  assumes "table_at s0 log xs n s"
  shows "tasks_ok {} s" "tlist (task_table s) (task_free_list s) xs" "frames_inv s" "card (free_frames s) = n"
    "current_task s = None" "idle_task s = None" "io_out s = io_out s0 @ map (Pair UART_DATA) log" "table_inv {} xs s" "console_ok s"
proof -
  show A: "tasks_ok {} s" "tlist (task_table s) (task_free_list s) xs" "frames_inv s" "card (free_frames s) = n"
    "current_task s = None" "idle_task s = None" "io_out s = io_out s0 @ map (Pair UART_DATA) log"
    using assms by (simp_all add: table_at_def)
  obtain ys where "table_inv {} ys s" using A(1) by (auto simp: tasks_ok_def)
  then show "table_inv {} xs s" using tlist_unique [OF A(2) table_invD(3)] by blast
  show "console_ok s" using A(1) by (rule tasks_okD)
qed

lemma at_say:
  assumes "table_at s0 log xs n s"
  shows "table_at s0 (log @ t) xs n (say t s)"
proof -
  note A = table_atD [OF assms]
  have "tasks_ok {} (say t s)" by (rule tasks_ok_quiet [OF quiet_say A(1)])
  then show ?thesis using A same_frames [of "say t s" s] by (simp add: table_at_def say_def)
qed

text \<open>One frame fewer, and nothing else that the tests look at.\<close>

definition took :: "nat \<Rightarrow> 'a frame_state_scheme \<Rightarrow> 'a frame_state_scheme \<Rightarrow> bool" where
  "took k s s' \<longleftrightarrow> quiet s s' \<and> io_out s' = io_out s \<and> frames_inv s' \<and> card (free_frames s') = card (free_frames s) - k"

lemma took_trans: "took j s s' \<Longrightarrow> took k s' s'' \<Longrightarrow> took (j + k) s s''"
  by (auto simp: took_def intro: quiet_trans)

lemma take_frame:
  assumes "frames_inv s" "1 \<le> card (free_frames s)"
  obtains pp s' where "page_alloc 1 s = Some (Some pp, s')" "took 1 s s'"
proof -
  have fin: "finite (free_frames s)" "free_frames s \<noteq> {}" using assms(2) card.infinite by fastforce+
  obtain pp s' where pp: "page_alloc 1 s = Some (Some pp, s')" "alloc_post 1 s pp s'" using page_alloc_pop [OF assms(1) fin(2)] by blast
  have "s' = s\<lparr>mem := mem s', pages := pages s', page_free_list := page_free_list s'\<rparr>" using pp(2) unfolding alloc_post_def by blast
  then have "io_out s' = io_out s" by (rule arg_cong [where f = io_out, THEN trans]) simp
  then show thesis using that [OF pp(1)] pp(2) page_alloc_quiet [OF pp(1)] fin(1) by (auto simp: took_def alloc_post_def)
qed

lemma copy_entries_state: "\<exists>m. copy_entries dst src is s = s\<lparr>mem := m\<rparr>"
proof (induction "is" arbitrary: s)
  case (Cons i "is")
  then obtain m where "copy_entries dst src is (hwrite64 (entry_ptr dst (of_nat i)) (hread64 s (entry_ptr src (of_nat i))) s) =
     (hwrite64 (entry_ptr dst (of_nat i)) (hread64 s (entry_ptr src (of_nat i))) s)\<lparr>mem := m\<rparr>" by blast
  then show ?case by (auto simp: hwrite64_def)
next
  case Nil
  show ?case by (rule exI [of _ "mem s"]) simp
qed

lemma take_space:
  assumes "frames_inv s" "1 \<le> card (free_frames s)"
  obtains p s' where "vmm_new_address_space s = Some (Some p, s')" "took 1 s s'"
proof -
  obtain pp s1 where s1: "page_alloc 1 s = Some (Some pp, s1)" "took 1 s s1" by (rule take_frame [OF assms])
  obtain m where m: "copy_entries (phys_to_virt s1 (page2pa pp)) (get_current_pml4 s1) [KERNEL_PML4_START..<512] s1 = s1\<lparr>mem := m\<rparr>"
    using copy_entries_state by blast
  have "took 1 s (s1\<lparr>mem := m\<rparr>)"
    using s1(2) quiet_trans [OF _ quiet_mem] by (auto simp: took_def frames_inv_def free_frames_def)
  then show thesis using s1(1) m by (intro that) (simp add: vmm_new_address_space_def Let_def)
qed

lemma at_create:
  assumes at: "table_at s0 log (t # xs) n s" and n: "2 \<le> n"
  obtains msg s' where "task_create s = Some (Some t, s')" "table_at s0 (log @ msg) xs (n - 2) s'"
proof -
  note A = table_atD [OF at]
  note I = table_invD [OF A(8)]
  have h: "task_free_list s = Some t" "tlist (task_table s) (next_free (tsk s t)) xs" "t \<notin> set xs" using A(2) I(4) by auto
  define s1 where "s1 = upd_task t (next_free_update (\<lambda>_. None)) (s\<lparr>task_free_list := next_free (tsk s t)\<rparr>)"
  have s1: "task_slot_alloc s = Some (Some t, s1)" using slot_alloc_some(1) [OF A(1) h(1)] by (simp add: s1_def)
  have f1: "frames_inv s1" "free_frames s1 = free_frames s" using same_frames [of s1 s] A(3) by (simp_all add: s1_def upd_task_def)
  obtain p s2 where s2: "vmm_new_address_space s1 = Some (Some p, s2)" "took 1 s1 s2" by (rule take_space [OF f1(1)]) (use f1(2) A(4) n in auto)
  then obtain q s3 where s3: "page_alloc 1 s2 = Some (Some q, s3)" "took 1 s2 s3" by (elim take_frame [rotated 2]) (use f1(2) A(4) n in \<open>auto simp: took_def\<close>)
  have t3: "took 2 s1 s3" using took_trans [OF s2(2) s3(2)] by (simp add: numeral_2_eq_2)
  define f where "f = (\<lambda>x :: task. x\<lparr>kstack := Some (phys_to_virt s3 (page2pa q)), kstack_top := Some (phys_to_virt s3 (page2pa q) + 4096)\<rparr>)"
  define g where "g = (\<lambda>x :: task. x\<lparr>pml4 := Some p, state := TASK_RUNNABLE, context_rsp := 0, parent_id := - 1 :: u64, exit_code := 0\<rparr>)"
  define s4 where "s4 = upd_task t g (upd_task t f s3)"
  define msg where "msg = kmsg (''task_create: task_id=%ld pml4=%lx kstack_top=%lx state=RUNNABLE'' @ [CHR 0x0A])
                           [W (task_id (tsk s4 t)), W p, W (the (kstack_top (tsk s4 t)))]"
  have q3: "task_table s3 = task_table s1" "task_free_list s3 = task_free_list s1" "current_task s3 = current_task s1" "idle_task s3 = idle_task s1"
    "console_ok s3 = console_ok s1" using t3 quiet_same_tasks [of s1 s3] by (simp_all add: took_def same_tasks_def)
  have "console_ok s4" using A(9) by (simp add: s4_def q3 s1_def)
  then have run: "task_create s = Some (Some t, say msg s4)"
    using kprintf_ok [of s4] by (simp add: task_create_def s1 s2(1) task_kstack_alloc_def s3(1) Let_def f_def [symmetric] g_def [symmetric] s4_def [symmetric] msg_def)
  obtain x where "task_table s4 = (task_table s)[t := x]" by (simp add: s4_def upd_task_def q3 s1_def)
  then have "tlist (task_table s4) (task_free_list s4) xs" using h by (simp add: s4_def q3 s1_def)
  moreover have "frames_inv s4" "free_frames s4 = free_frames s3" "io_out s4 = io_out s"
    using t3 same_frames [of s4 s3] by (simp_all add: s4_def took_def upd_task_def s1_def)
  moreover have "current_task s4 = None" "idle_task s4 = None" using A(5,6) by (simp_all add: s4_def q3 s1_def)
  moreover have "tasks_ok {} s4" using task_create_ok [OF A(1) run] same_tasks_ok [OF quiet_same_tasks [OF quiet_say, of s4 msg]] by simp
  ultimately have "table_at s0 log xs (n - 2) s4" using t3 A(4,7) f1(2) by (simp add: table_at_def took_def)
  then show thesis using that [OF run] at_say by blast
qed

lemma at_full:
  assumes at: "table_at s0 log [] n s"
  obtains msg s' where "task_create s = Some (None, s')" "table_at s0 (log @ msg) [] n s'"
proof -
  note A = table_atD [OF at]
  have "task_create s = Some (None, say (kmsg (''task_slot_alloc: no free task slots'' @ [CHR 0x0A]) []) s)"
    using A(2) tasks_okD(2) [OF A(1)] kprintf_ok [OF A(9), of "''task_slot_alloc: no free task slots'' @ [CHR 0x0A]" "[]"]
    by (simp add: task_create_def task_slot_alloc_def Let_def)
  then show thesis using that at_say [OF at] by blast
qed

lemma at_destroy:
  assumes at: "table_at s0 log xs n s" and t: "t \<in> {1..<MAX_TASKS}" "t \<notin> set xs"
  obtains msg s' where "task_destroy (Some t) s = Some s'" "table_at s0 (log @ msg) (t # xs) n s'"
proof -
  note A = table_atD [OF at]
  have tl: "t < length (task_table s)" "t < MAX_TASKS" using tasks_okD(1) [OF A(1)] t(1) by simp_all
  have used: "state (tsk s t) \<noteq> TASK_UNUSED" using table_invD(8) [OF A(8) tl(2)] t by simp
  define s1 where "s1 = upd_task t (\<lambda>x. x\<lparr>pml4 := None, kstack := None, kstack_top := None, context_rsp := 0\<rparr>) s"
  define s2 where "s2 = upd_task t (\<lambda>x. x\<lparr>state := TASK_UNUSED, block_reason := BLOCK_NONE, parent_id := - 1, exit_code := 0, next_free := task_free_list s\<rparr>) s1\<lparr>task_free_list := Some t\<rparr>"
  define msg where "msg = kmsg (''task_destroy: task_id=%ld slot freed'' @ [CHR 0x0A]) [W (task_id (tsk s2 t))]"
  have free: "task_slot_free t s1 = Some s2" using tasks_okD(2) [OF A(1)] by (simp add: task_slot_free_def Let_def upd_task_def s1_def s2_def)
  have con: "console_ok s2" using A(9) by (simp add: s2_def s1_def)
  have run: "task_destroy (Some t) s = Some (say msg s2)"
    using used free kprintf_ok [OF con, of "''task_destroy: task_id=%ld slot freed'' @ [CHR 0x0A]" "[W (task_id (tsk s2 t))]"]
    by (simp add: task_destroy_def s1_def [symmetric] msg_def)
  have ok: "tasks_ok {} s2"
    using task_destroy_ok [OF A(1) tl(2) _ _ run] A(5,6) same_tasks_ok [OF quiet_same_tasks [OF quiet_say, of s2 msg]] by simp
  have "tlist (task_table s2) (task_free_list s2) (t # xs)" using A(2) t(2) tl(1) by (simp add: s2_def s1_def upd_task_def)
  moreover have "frames_inv s2" "free_frames s2 = free_frames s" "io_out s2 = io_out s"
    using A(3) same_frames [of s2 s] by (simp_all add: s2_def s1_def upd_task_def)
  ultimately have "table_at s0 log (t # xs) n s2" using A ok by (simp add: table_at_def) (simp add: s2_def s1_def)
  then show thesis using that [OF run] at_say by blast
qed

lemma dump_loop_says: "console_ok s \<Longrightarrow> \<exists>t. task_dump_loop is s = Some (say t s)"
proof (induction "is" arbitrary: s)
  case (Cons i "is")
  show ?case
  proof (cases "state (tsk s i) = TASK_UNUSED")
    case False
    then obtain fmt args where step: "task_dump_loop (i # is) s = do { s \<leftarrow> kprintf fmt args s; task_dump_loop is s }" "fmt_ok fmt (map is_word args)"
      by (simp add: Let_def)
    obtain t where "task_dump_loop is (say (kmsg fmt args) s) = Some (say t (say (kmsg fmt args) s))"
      using Cons.IH [of "say (kmsg fmt args) s"] Cons.prems by auto
    then have "task_dump_loop (i # is) s = Some (say (kmsg fmt args @ t) s)" unfolding step(1) using kprintf_ok [OF Cons.prems step(2)] by simp
    then show ?thesis by blast
  qed (use Cons in simp)
next
  case Nil
  show ?case by (rule exI [of _ "[]"]) simp
qed

lemma at_dump:
  assumes at: "table_at s0 log xs n s"
  obtains msg s' where "task_dump s = Some s'" "table_at s0 (log @ msg) xs n s'"
proof -
  define h where "h = kmsg (''task table (%d slots):'' @ [CHR 0x0A]) [W (of_nat MAX_TASKS)]"
  have con: "console_ok s" by (rule table_atD [OF at])
  obtain t where t: "task_dump_loop [0..<MAX_TASKS] (say h s) = Some (say t (say h s))" using dump_loop_says [of "say h s"] con by auto
  have "task_dump s = Some (say t (say h s))"
    using t kprintf_ok [OF con, of "''task table (%d slots):'' @ [CHR 0x0A]" "[W (of_nat MAX_TASKS)]"] by (simp add: task_dump_def h_def)
  moreover have "table_at s0 (log @ (h @ t)) xs n (say t (say h s))" using at_say [OF at_say [OF at, of h], of t] by simp
  ultimately show thesis by (rule that)
qed

lemma at_fill:
  assumes "table_at s0 log xs n s" "length xs < k" "2 * length xs \<le> n"
  shows "\<exists>msg s'. fill_tasks k ts s = Some (ts @ xs, s') \<and> table_at s0 (log @ msg) [] (n - 2 * length xs) s'"
  using assms
proof (induction xs arbitrary: k ts n log s)
  case Nil
  then obtain k' where "k = Suc k'" by (cases k) auto
  moreover obtain msg s' where "task_create s = Some (None, s')" "table_at s0 (log @ msg) [] n s'" using at_full [OF Nil(1)] by blast
  ultimately show ?case by auto
next
  case (Cons t xs)
  then obtain k' where k: "k = Suc k'" by (cases k) auto
  obtain msg s' where s': "task_create s = Some (Some t, s')" "table_at s0 (log @ msg) xs (n - 2) s'"
    by (rule at_create [OF Cons.prems(1)]) (use Cons.prems(3) in simp)
  have le: "2 * length xs \<le> n - 2" using Cons.prems(3) by simp
  obtain msg' s'' where "fill_tasks k' (ts @ [t]) s' = Some ((ts @ [t]) @ xs, s'')" "table_at s0 ((log @ msg) @ msg') [] (n - 2 - 2 * length xs) s''"
    using Cons.IH [OF s'(2), of k' "ts @ [t]"] Cons.prems(2) le k by auto
  then show ?case using s'(1) by (intro exI [of _ "msg @ msg'"] exI [of _ s'']) (simp add: k)
qed

lemma at_destroy_all:
  assumes "table_at s0 log xs n s" "set ts \<subseteq> {1..<MAX_TASKS}" "distinct ts" "set ts \<inter> set xs = {}"
  shows "\<exists>msg s'. destroy_all ts s = Some s' \<and> table_at s0 (log @ msg) (rev ts @ xs) n s'"
  using assms
proof (induction ts arbitrary: log xs s)
  case Nil
  then show ?case by (intro exI [of _ "[]"]) simp
next
  case (Cons t ts)
  obtain msg s' where s': "task_destroy (Some t) s = Some s'" "table_at s0 (log @ msg) (t # xs) n s'"
    by (rule at_destroy [OF Cons.prems(1), of t]) (use Cons.prems(2,4) in simp_all)
  obtain msg' s'' where "destroy_all ts s' = Some s''" "table_at s0 ((log @ msg) @ msg') (rev ts @ t # xs) n s''"
    using Cons.IH [OF s'(2)] Cons.prems(2,3,4) by auto
  then show ?case using s'(1) by (intro exI [of _ "msg @ msg'"] exI [of _ s'']) simp
qed

lemma at_print:
  assumes "table_at s0 log xs n s" "fmt_ok fmt (map is_word args)"
  obtains s' where "kprintf fmt args s = Some s'" "table_at s0 (log @ kmsg fmt args) xs n s'" "task_table s' = task_table s"
proof -
  have "task_table (say (kmsg fmt args) s) = task_table s" by (simp add: say_def)
  then show thesis using that [OF kprintf_ok [OF table_atD(9) [OF assms(1)] assms(2)] at_say [OF assms(1)]] by simp
qed

lemma at_id: "table_at s0 log xs n s \<Longrightarrow> i < MAX_TASKS \<Longrightarrow> task_id (tsk s i) = of_nat i"
  by (rule tasks_okD(6) [OF table_atD(1)])

text \<open>\<open>shown ps l\<close>: the messages \<open>ps\<close> appear on the console in this order.\<close>

primrec shown :: "u8 list list \<Rightarrow> u8 list \<Rightarrow> bool" where
  "shown [] l = True"
| "shown (p # ps) l = (\<exists>a b. l = a @ p @ b \<and> shown ps b)"

lemma shown_more: "shown ps l \<Longrightarrow> shown ps (l @ x)"
proof (induction ps arbitrary: l)
  case (Cons p ps)
  then obtain a b where "l = a @ p @ b" "shown ps b" by auto
  then show ?case using Cons.IH [of b] by auto
qed simp

lemma shown_new: "shown ps l \<Longrightarrow> shown (ps @ [p]) (l @ p)"
proof (induction ps arbitrary: l)
  case (Cons q ps)
  then obtain a b where "l = a @ q @ b" "shown ps b" by auto
  then show ?case using Cons.IH [of b] by auto
next
  case Nil
  show ?case by (auto intro: exI [of _ l])
qed

section \<open>Total correctness of a run\<close>

text \<open>\<open>returns m Q\<close>: the call \<open>m\<close> returns, with a result that satisfies \<open>Q\<close>. The rules below walk through the calls of a test in
  the order of the code.\<close>

definition returns :: "'b option \<Rightarrow> ('b \<Rightarrow> bool) \<Rightarrow> bool" where
  "returns m Q \<longleftrightarrow> (\<exists>r. m = Some r \<and> Q r)"

lemma returns_simps [simp]:
  "returns (Option.bind m f) Q = returns m (\<lambda>r. returns (f r) Q)" "returns (Some r) Q = Q r"
  by (cases m) (simp_all add: returns_def)

lemma create_returns:
  assumes "table_at s0 log (t # xs) n s" "2 \<le> n" "\<And>msg s'. table_at s0 (log @ msg) xs (n - 2) s' \<Longrightarrow> Q (Some t, s')"
  shows "returns (task_create s) Q"
  by (rule at_create [OF assms(1,2)]) (simp add: assms(3))

lemma full_returns:
  assumes "table_at s0 log [] n s" "\<And>msg s'. table_at s0 (log @ msg) [] n s' \<Longrightarrow> Q (None, s')"
  shows "returns (task_create s) Q"
  by (rule at_full [OF assms(1)]) (simp add: assms(2))

lemma destroy_returns:
  assumes "table_at s0 log xs n s" "t \<in> {1..<MAX_TASKS}" "t \<notin> set xs" "\<And>msg s'. table_at s0 (log @ msg) (t # xs) n s' \<Longrightarrow> Q s'"
  shows "returns (task_destroy (Some t) s) Q"
  by (rule at_destroy [OF assms(1-3)]) (simp add: assms(4))

lemma dump_returns:
  assumes "table_at s0 log xs n s" "\<And>msg s'. table_at s0 (log @ msg) xs n s' \<Longrightarrow> Q s'"
  shows "returns (task_dump s) Q"
  by (rule at_dump [OF assms(1)]) (simp add: assms(2))

lemma print_returns:
  assumes "table_at s0 log xs n s" "fmt_ok fmt (map is_word args)" "\<And>s'. table_at s0 (log @ kmsg fmt args) xs n s' \<Longrightarrow> Q s'"
  shows "returns (kprintf fmt args s) Q"
  by (rule at_print [OF assms(1,2)]) (simp add: assms(3))

lemma fill_returns:
  assumes "table_at s0 log xs n s" "length xs < k" "2 * length xs \<le> n" "\<And>msg s'. table_at s0 (log @ msg) [] (n - 2 * length xs) s' \<Longrightarrow> Q (ts @ xs, s')"
  shows "returns (fill_tasks k ts s) Q"
  using at_fill [OF assms(1-3), of ts] assms(4) by (auto simp: returns_def)

lemma destroy_all_returns:
  assumes "table_at s0 log xs n s" "set ts \<subseteq> {1..<MAX_TASKS}" "distinct ts" "set ts \<inter> set xs = {}"
    "\<And>msg s'. table_at s0 (log @ msg) (rev ts @ xs) n s' \<Longrightarrow> Q s'"
  shows "returns (destroy_all ts s) Q"
  using at_destroy_all [OF assms(1-4)] assms(5) by (auto simp: returns_def)

lemmas table_returns = create_returns destroy_returns dump_returns print_returns fill_returns destroy_all_returns full_returns

definition PASS_reuse :: "u8 list" where
  "PASS_reuse = kmsg (''PASS: free-list reuse works, new task reused id=%ld'' @ [CHR 0x0A]) [W 2]"

definition PASS_full :: "u8 list" where
  "PASS_full = kmsg (''PASS: task_create returned NULL when table was full'' @ [CHR 0x0A]) []"

lemma shown_PASS:
  "shown [PASS_reuse] (l @ kmsg (''PASS: free-list reuse works, new task reused id=%ld'' @ [CHR 0x0A]) [W (of_nat 2)])"
  "shown [PASS_reuse] l \<Longrightarrow>
   shown [PASS_reuse, PASS_full] (l @ kmsg (''PASS: task_create returned NULL when table was full'' @ [CHR 0x0A]) [])"
  using shown_new [of "[]" l PASS_reuse] shown_new [of "[PASS_reuse]" l PASS_full] by (simp_all add: PASS_reuse_def PASS_full_def)

lemma at_end: "table_at s0 log xs n s \<Longrightarrow> xs = ys \<Longrightarrow> n = m \<Longrightarrow> shown ps log \<Longrightarrow> \<exists>log. shown ps log \<and> table_at s0 log ys m s"
  by blast

lemma task_table_test_run:
  assumes at: "table_at s0 [] (1 # 2 # 3 # ys) n s" and n: "8 + 2 * length ys \<le> n" and ys: "length ys < MAX_TASKS"
  shows "returns (task_table_test s)
    (\<lambda>s'. \<exists>log. shown [PASS_reuse, PASS_full] log \<and> table_at s0 log (2 # 3 # 1 # rev ys) (n - 8 - 2 * length ys) s')"
proof -
  have ys': "1 \<notin> set ys" "2 \<notin> set ys" "3 \<notin> set ys" "distinct ys" "set ys \<subseteq> {1..<MAX_TASKS}"
    and M: "1 < MAX_TASKS" "2 < MAX_TASKS" "3 < MAX_TASKS" "1 \<in> {1..<MAX_TASKS}" "2 \<in> {1..<MAX_TASKS}" "3 \<in> {1..<MAX_TASKS}"
    using table_invD(4,5) [OF table_atD(8) [OF at]] by (auto simp: MAX_TASKS_def)
  show ?thesis
    unfolding task_table_test_def returns_simps Let_def prod.case
    apply (rule print_returns [OF at], simp)
    apply (rule create_returns, assumption, use n in simp)
    apply (simp only: prod.case returns_simps)
    apply (rule create_returns, assumption, use n in simp)
    apply (simp only: prod.case returns_simps)
    apply (rule create_returns, assumption, use n in simp)
    apply (simp only: prod.case returns_simps bind.simps)
    apply (rule print_returns, assumption, simp)
    apply (rule dump_returns, assumption)
    apply (rule destroy_returns, assumption, rule M, simp (no_asm) add: ys' ys'(1) [simplified])
    apply (rule dump_returns, assumption)
    apply (rule create_returns, assumption, use n in simp)
    apply (simp only: prod.case returns_simps option.sel option.distinct simp_thms if_True at_id M)
    apply (rule print_returns, assumption, simp)
    apply (rule dump_returns, assumption)
    apply (rule fill_returns, assumption, rule ys, use n in simp)
    apply (simp only: prod.case returns_simps append_Nil)
    apply (rule print_returns, assumption, simp)
    apply (rule full_returns, assumption)
    apply (simp only: prod.case returns_simps option.case)
    apply (rule print_returns, assumption, simp)
    apply (rule destroy_all_returns, assumption, rule ys', rule ys', simp (no_asm))
    apply (rule destroy_returns, assumption, rule M, simp (no_asm) add: ys' ys'(1) [simplified])
    apply (rule destroy_returns, assumption, rule M, simp (no_asm) add: ys' ys'(1) [simplified])
    apply (rule destroy_returns, assumption, rule M, simp (no_asm) add: ys' ys'(1) [simplified])
    apply (rule print_returns, assumption, simp (no_asm))
    apply (rule dump_returns, assumption)
    apply (rule print_returns, assumption, simp (no_asm))
    apply (rule at_end, assumption, simp (no_asm), simp (no_asm))
    apply (rule shown_PASS shown_more)+
    done
qed

section \<open>The task table test\<close>

lemma fresh_at:
  assumes "length (task_table s) = MAX_TASKS" "console_ok s" "current_task s = None" "idle_task s = None" "frames_inv s"
  obtains s0 where "task_table_init s = Some s0" "table_at s0 [] [1..<MAX_TASKS] (card (free_frames s)) s0"
proof -
  let ?s = "s\<lparr>locks := (locks s)(task_table_lock := 0), task_table := fresh_table, task_free_list := Some 1\<rparr>"
  obtain t where run: "task_table_init s = Some (say t ?s)" using task_table_init_says [OF assms(1,2)] by blast
  have ok: "tasks_ok {} ?s" by (rule fresh_tasks_ok) (use assms in \<open>simp_all add: console_ok_def uart_live_def\<close>)
  have "frames_inv ?s" "free_frames ?s = free_frames s" using assms(5) by (simp_all add: frames_inv_def free_frames_def)
  moreover have "tlist fresh_table (Some 1) [1..<MAX_TASKS]" using fresh_tlist [of 1] by (simp add: MAX_TASKS_def)
  ultimately have "table_at ?s [] [1..<MAX_TASKS] (card (free_frames s)) ?s"
    using ok assms(3,4) by (simp add: table_at_def del: upt_rec_numeral)
  then have "table_at ?s t [1..<MAX_TASKS] (card (free_frames s)) (say t ?s)" using at_say [of ?s "[]"] by simp
  then have "table_at (say t ?s) [] [1..<MAX_TASKS] (card (free_frames s)) (say t ?s)" by (simp add: table_at_def)
  then show thesis by (rule that [OF run])
qed

text \<open>Claim C40. The task table test of \<open>kmain\<close>, run after \<open>task_table_init\<close> with at least 128 free frames, returns and prints
  both of its PASS messages: a slot freed by \<open>task_destroy\<close> is the next one \<open>task_create\<close> hands out, and on a full table
  \<open>task_create\<close> returns NULL. Afterwards every slot is unused and the table is consistent. The two frames of each of the 64
  tasks it created are not free again, since \<open>task_destroy\<close> only clears the pointers to them.\<close>

theorem task_table_test_passes:
  assumes "length (task_table s) = MAX_TASKS" "console_ok s" "current_task s = None" "idle_task s = None"
    and "frames_inv s" "128 \<le> card (free_frames s)"
  shows "\<exists>s0 s' log. task_table_init s = Some s0 \<and> task_table_test s0 = Some s' \<and> io_out s' = io_out s0 @ map (Pair UART_DATA) log \<and>
    shown [PASS_reuse, PASS_full] log \<and> tasks_ok {} s' \<and> (\<forall>i < MAX_TASKS. state (tsk s' i) = TASK_UNUSED) \<and>
    frames_inv s' \<and> card (free_frames s') = card (free_frames s) - 128"
proof -
  obtain s0 where s0: "task_table_init s = Some s0" "table_at s0 [] [1..<MAX_TASKS] (card (free_frames s)) s0"
    by (rule fresh_at [OF assms(1-5)])
  have list: "[1..<MAX_TASKS] = 1 # 2 # 3 # [4..<MAX_TASKS]" unfolding MAX_TASKS_def by code_simp
  have len: "length [4..<MAX_TASKS] = 60" "60 < MAX_TASKS" by (simp_all only: length_upt MAX_TASKS_def)
  have "returns (task_table_test s0) (\<lambda>s'. \<exists>log. shown [PASS_reuse, PASS_full] log \<and>
      table_at s0 log (2 # 3 # 1 # rev [4..<MAX_TASKS]) (card (free_frames s) - 8 - 2 * length [4..<MAX_TASKS]) s')"
    by (rule task_table_test_run [OF s0(2) [unfolded list]]) (use len assms(6) in simp_all)
  then obtain s' log where run: "task_table_test s0 = Some s'" and sh: "shown [PASS_reuse, PASS_full] log"
    and at: "table_at s0 log (2 # 3 # 1 # rev [4..<MAX_TASKS]) (card (free_frames s) - 8 - 2 * length [4..<MAX_TASKS]) s'"
    unfolding returns_def by blast
  note A = table_atD [OF at]
  have "state (tsk s' i) = TASK_UNUSED" if "i < MAX_TASKS" for i
  proof -
    have "i = 0 \<or> i \<in> {1, 2, 3} \<or> 4 \<le> i \<and> i < MAX_TASKS" using that by auto
    then show ?thesis unfolding table_invD(8) [OF A(8) that] by auto
  qed
  moreover have "card (free_frames s') = card (free_frames s) - 128" using A(4) unfolding len by simp
  ultimately show ?thesis using s0(1) run sh A(1,3,7) by blast
qed

definition demo_boot :: kernel_state where
  "demo_boot = demo_kernel\<lparr>pages := chain_pages 0 200, page_free_list := Some 0\<rparr>"

lemma demo_boot_frames: "frames_inv demo_boot" "free_frames demo_boot = {0..<200}"
  by (rule chain_frames [of demo_boot 0 200]; simp add: demo_boot_def demo_kernel_fields)+

theorem task_table_test_passes_witness:
  "\<exists>s0 s' log. task_table_init demo_boot = Some s0 \<and> task_table_test s0 = Some s' \<and> shown [PASS_reuse, PASS_full] log \<and>
     io_out s' = io_out s0 @ map (Pair UART_DATA) log \<and> card (free_frames s') = 72"
proof -
  have "length (task_table demo_boot) = MAX_TASKS" "console_ok demo_boot" "current_task demo_boot = None" "idle_task demo_boot = None"
    using demo_kernel_fields by (simp_all add: demo_boot_def console_ok_def uart_live_def)
  moreover have "128 \<le> card (free_frames demo_boot)" "card (free_frames demo_boot) - 128 = 72" by (simp_all add: demo_boot_frames(2))
  ultimately show ?thesis using task_table_test_passes [OF _ _ _ _ demo_boot_frames(1)] by metis
qed

end
