(* ===== verification/Launch.thy ===== *)
theory Launch
  imports Boot
begin

text \<open>The start of the first process (\<open>wait_test\<close> of \<open>Boot\<close>) as one theorem over task creation, the ELF loader, the stack page, the
interrupt controllers, the timer, the entry frame and the switch. \<open>kept_set\<close> is the memory the loader must leave alone,
\<open>launch_ready\<close> what the steps after it rely on.\<close>

section \<open>The image stays readable\<close>



section \<open>Kernel writes and user memory\<close>



section \<open>A new task\<close>





section \<open>Loading into the new space\<close>






section \<open>What the calls leave alone\<close>














section \<open>The devices\<close>


text \<open>Port accesses change the log of the ports only.\<close>

definition ports :: "'a machine_scheme \<Rightarrow> 'a machine_scheme \<Rightarrow> bool" where
  "ports s s' \<longleftrightarrow> s'\<lparr>io_out := io_out s, io_reads := io_reads s\<rparr> = s"

lemma ports_calls [simp]:
  "ports s s" "ports s t \<Longrightarrow> ports s (outb p v t)" "ports s t \<Longrightarrow> ports s (snd (inb p t))" "ports s t \<Longrightarrow> ports s (out_wait p v t)"
  by (simp_all add: ports_def outb_def inb_def out_wait_def io_wait_def)







section \<open>The kernel stack\<close>






section \<open>From the boot code to ring 3\<close>




















end
