(* ===== verification/Spec2Isabelle.thy ===== *)
theory Spec2Isabelle
  imports FrameInit Devices Selftest Launch
begin

text \<open>
  A verification development for the hobby x86-64 kernel in \<open>src/kernel/src\<close>, a single-processor kernel that boots with
  Limine, manages physical frames and four-level page tables, and runs user processes with preemption, \<open>fork\<close>, \<open>wait\<close>,
  \<open>exit\<close> and message passing.

  \<^bold>\<open>The program.\<close> The boot loader enters \<open>kmain\<close> (\<open>main.c\<close>), which sets up the console (\<open>serial.c\<close>, \<open>kprintf.c\<close>), the descriptor
  tables (\<open>gdt.c\<close>, \<open>idt.c\<close>), the boot memory allocator (\<open>physical_page_management.c\<close>), the frame allocator (\<open>page_alloc.c\<close>),
  paging (\<open>paging.c\<close>), the kernel heap (\<open>kheap.c\<close>) and the task table (\<open>task.c\<close>), tests each, loads a program (\<open>elf.c\<close>) into
  a new task, starts the timer (\<open>pic.c\<close>, \<open>pit.c\<close>, \<open>lapic.c\<close>) and switches to the task (\<open>scheduler.c\<close>, \<open>context_switch.S\<close>). From
  then on the kernel runs in interrupts only: timer ticks (\<open>timer.c\<close>) that preempt the current task, and system calls
  (\<open>syscall_entry.S\<close>, \<open>syscall.c\<close>) that use user memory after a check of the page tables (\<open>uaccess.c\<close>).

  \<^bold>\<open>The state.\<close> One state flows through all definitions. The record \<open>machine\<close> holds physical memory as a function from
  addresses to bytes, the direct-map offset, CR3, the flags, the lock words and the ports; every component extends it by its
  variables: \<open>machine\<close>, \<open>gdt_state\<close>, \<open>idt_state\<close>, \<open>pmm_state\<close>, \<open>frame_state\<close>, \<open>heap_state\<close>, \<open>apic_state\<close>, \<open>kernel_state\<close>,
  \<open>boot_state\<close>, each an extension of the one before it, and \<open>stress_state\<close>, which extends \<open>frame_state\<close>. An operation is defined on every
  extension of its record, so the components compose as the C code does. Page tables, kernel stacks and ELF images are
  bytes of physical memory; \<open>pages[]\<close> and \<open>task_table[]\<close> are lists and a pointer into one is an index; machine integers are
  words of their width.

  \<^bold>\<open>Errors and loops.\<close> A value \<open>None\<close> of an operation means that it does not return: it spins, halts or faults. Error returns of the
  code are values inside \<open>Some\<close>. Loops with a bound are structural recursion or \<open>foreach\<close> over the indices; loops that
  may run for ever are partial functions of option type (\<open>spin\<close>, \<open>serial_wait\<close>, \<open>halt_loop\<close>, \<open>exit_loop\<close>, \<open>sys_wait\<close>, \<open>count_links\<close>,
  \<open>find_from\<close>, \<open>merge_from\<close>, the two loops of the stress test), so no fuel is needed, and theorems that such a call returns
  say so explicitly. The console is assumed to drain (\<open>console_ok\<close>, \<open>uart_live\<close>).

  \<^bold>\<open>The theories.\<close>
  \<^item> \<open>Prelude\<close>, \<open>Machine\<close>, \<open>Spinlock\<close>, \<open>Serial\<close>, \<open>Kprintf\<close>: words, bytes, page arithmetic and loop combinators; \<open>hhdm.c\<close>, \<open>io.h\<close>,
    \<open>spinlock.c\<close>, \<open>serial.c\<close>, \<open>kprintf.c\<close>. Mutual exclusion on one processor; the interpreter of formats refines a reference
    formatter with its own digits and its own parsing of the length modifier.
  \<^item> \<open>Gdt\<close>, \<open>Idt\<close>: \<open>gdt.c\<close>, \<open>idt.c\<close>. Descriptors and gates decode to what was put in; an exception ends in the halt loop.
  \<^item> \<open>Pmm\<close>, \<open>PageAlloc\<close>, \<open>FrameInit\<close>: \<open>physical_page_management.c\<close>, \<open>page_alloc.c\<close>. The invariant \<open>frames_inv\<close> of the free list, its
    preservation, the exact initial free set. The locale \<open>frame_allocator\<close> is the contract of the allocator, interpreted
    on \<open>page_alloc\<close> and \<open>page_free\<close> as \<open>fa\<close>.
  \<^item> \<open>Pte\<close>, \<open>Mmu\<close>, \<open>Paging\<close>, \<open>CopySpace\<close>, \<open>CopyOk\<close>: \<open>paging.c\<close>. \<open>Mmu\<close> is the processor's translation; \<open>pte_of\<close> is the abstract map from
    virtual pages to entries that the operations update. The locale \<open>address_space\<close> states the map's laws and is interpreted
    on the operations as \<open>vm\<close>. \<open>CopyOk\<close> shows what a copied address space holds.
  \<^item> \<open>Memory\<close>, \<open>Uaccess\<close>, \<open>UserMem\<close>, \<open>FrameUse\<close>: \<open>memory.c\<close>, \<open>uaccess.c\<close>; user memory as ring 3 sees it; how many frames a call takes.
  \<^item> \<open>Kheap\<close>, \<open>KheapAlloc\<close>: \<open>kheap.c\<close>. The invariant of the block list, \<open>kmalloc\<close> and \<open>kfree\<close> against the set of live blocks, the
    locale \<open>block_heap\<close>, interpreted as \<open>kh\<close>.
  \<^item> \<open>Devices\<close>: \<open>pic.c\<close>, \<open>pit.c\<close>, \<open>lapic.c\<close>, with a reference model of the 8259 that reads the port log.
  \<^item> \<open>Elf\<close>: \<open>elf.c\<close>, \<open>elf.h\<close>, refining an abstract loader on user memory.
  \<^item> \<open>Task\<close>, \<open>Scheduler\<close>, \<open>Quiet\<close>, \<open>TaskInv\<close>, \<open>Syscall\<close>, \<open>Kernel\<close>, \<open>Switch\<close>: \<open>task.c\<close>, \<open>scheduler.c\<close>, \<open>context_switch.S\<close>, \<open>timer.c\<close>, \<open>syscall.c\<close>. The
    invariant \<open>tasks_ok\<close> of the task table; the step relation \<open>kstep\<close> of the kernel and the invariant of all its reachable
    states; fairness of the round robin; what a context switch saves and restores.
  \<^item> \<open>Fork\<close>, \<open>Process\<close>, \<open>Ipc\<close>, \<open>Usermode\<close>: the system calls across components: the child of a fork, reaping and exiting, message
    transfer, rejected pointers, the register frame around a system call, the first entry to ring 3 (\<open>usermode.c\<close>,
    \<open>syscall_entry.S\<close>).
  \<^item> \<open>Stress\<close>, \<open>Boot\<close>, \<open>Selftest\<close>, \<open>Launch\<close>: \<open>stress_test.c\<close> and \<open>main.c\<close>. The stress test and the task table test pass; the module
    search; and the start of the first process, from task creation to ring 3, as one theorem over all components.

  \<^bold>\<open>Flaws the theorems show.\<close> A double free of the last free frame is accepted; \<open>kmalloc\<close> and \<open>boot_alloc\<close> wrap on huge
  requests; \<open>vmm_map\<close> fails silently, so a copied address space may lack pages although the copy succeeds; ended tasks lose
  their frames; \<open>sys_wait\<close> may spin for ever; a fault of a user program stops the machine.

  \<^bold>\<open>Not modelled.\<close> The accessed and dirty bits and a stale TLB (flushes are logged; translation reads the tables); large pages;
  the kernel's own C stack and code in memory; the caches; more than one processor. An access by the kernel to an address of
  the high half goes through the direct map without a walk, a non-canonical one faults; heap accesses are checked against
  the page tables, and the headers of heap blocks are a typed store beside memory, so a program that overruns a block into a
  header is outside the model. The registers of the local APIC are device state that a store reaches even if their page
  could not be mapped. The Limine protocol appears as the values of its responses. Blocks of \<open>main.c\<close> that are commented
  out, and the kernel threads that only they use, are not code of the kernel. Signed overflow, where the C code has it
  (the negation in \<open>kprintf_putint\<close>), is two's complement. User programs under \<open>src\<close> are not part of the kernel.
\<close>

end
